(* ===== verification/Muzic_Prelude.thy ===== *)
theory Muzic_Prelude
  imports Main "HOL-Library.Word"
begin

unbundle bit_operations_syntax

text \<open>
  Shared vocabulary of the development: the machine types of the C sources (ILP32 data model, in
  which \<^verbatim>\<open>unsigned\<close>, \<^verbatim>\<open>unsigned long\<close> and \<^verbatim>\<open>size_t\<close> are 32 bits wide), the
  faults that stand for failed assertions and undefined behaviour, sequencing of fallible
  computations, the view of words and bytes as bit lists (least significant bit first, the order
  of a DEFLATE bit stream), and \<^verbatim>\<open>memcpy\<close> into a memory region.
\<close>

section \<open>Machine types, faults and sequencing\<close>

type_synonym u8 = "8 word"
type_synonym u32 = "32 word"

datatype fault =
    AssertFail
  | OutOfBounds
  | Uninitialised
  | UseAfterFree
  | NullPointer
  | ShiftRange
  | OverlappingCopy
  | CyclicList
  | SignedOverflow

type_synonym 'a res = "fault + 'a"

definition bindR :: "'a res \<Rightarrow> ('a \<Rightarrow> 'b res) \<Rightarrow> 'b res" where
  "bindR m f = (case m of Inl e \<Rightarrow> Inl e | Inr x \<Rightarrow> f x)"

definition assertR :: "bool \<Rightarrow> 'b res \<Rightarrow> 'b res" where
  "assertR c k = (if c then k else Inl AssertFail)"

lemma bindR_simps [simp]: "bindR (Inl e) f = Inl e" "bindR (Inr x) f = f x"
  by (simp_all add: bindR_def)

lemma assertR_simps [simp]: "assertR True k = k" "assertR False k = Inl AssertFail"
  by (simp_all add: assertR_def)

lemma bindR_eq_Inr: "bindR m f = Inr y \<longleftrightarrow> (\<exists>x. m = Inr x \<and> f x = Inr y)"
  by (cases m) auto

lemma assertR_eq_Inr: "assertR c k = Inr y \<longleftrightarrow> c \<and> k = Inr y"
  by (simp add: assertR_def)

lemma bindR_cong [fundef_cong]:
  "m = m' \<Longrightarrow> (\<And>x. m' = Inr x \<Longrightarrow> f x = f' x) \<Longrightarrow> bindR m f = bindR m' f'"
  by (cases m') auto

lemma assertR_cong [fundef_cong]:
  "c = c' \<Longrightarrow> (c' \<Longrightarrow> k = k') \<Longrightarrow> assertR c k = assertR c' k'"
  by (auto simp: assertR_def)

section \<open>Words and bytes as bit lists\<close>

definition bits_of :: "nat \<Rightarrow> u32 \<Rightarrow> bool list" where
  "bits_of n w = map (bit w) [0..<n]"

definition byte_bits :: "u8 \<Rightarrow> bool list" where
  "byte_bits b = map (bit b) [0..<8]"

definition bytes_bits :: "u8 list \<Rightarrow> bool list" where
  "bytes_bits bs = concat (map byte_bits bs)"

definition msb_bits :: "nat \<Rightarrow> u32 \<Rightarrow> bool list" where
  "msb_bits n w = rev (bits_of n w)"

named_theorems bits_simps

lemma length_bits_of [simp]: "length (bits_of n w) = n"
  by (simp add: bits_of_def)

lemma length_msb_bits [simp]: "length (msb_bits n w) = n"
  by (simp add: msb_bits_def)

lemma nth_bits_of [simp]: "i < n \<Longrightarrow> bits_of n w ! i = bit w i"
  by (simp add: bits_of_def)

lemma bits_of_0 [simp]: "bits_of 0 w = []"
  by (simp add: bits_of_def)

lemma length_byte_bits [simp]: "length (byte_bits b) = 8"
  by (simp add: byte_bits_def)

lemma nth_byte_bits [simp]: "i < 8 \<Longrightarrow> byte_bits b ! i = bit b i"
  by (simp add: byte_bits_def)

lemma bytes_bits_simps [simp]:
  "bytes_bits [] = []"
  "bytes_bits (b # bs) = byte_bits b @ bytes_bits bs"
  "bytes_bits (bs @ cs) = bytes_bits bs @ bytes_bits cs"
  by (simp_all add: bytes_bits_def)

lemma length_bytes_bits [simp]: "length (bytes_bits bs) = 8 * length bs"
  by (induction bs) simp_all

lemma byte_bits_eq_bits_of: "byte_bits b = bits_of 8 (ucast b)"
  by (rule nth_equalityI) (auto simp: bit_simps)

lemma bits_of_add [bits_simps]: "bits_of (m + n) w = bits_of m w @ bits_of n (drop_bit m w)"
proof (rule nth_equalityI)
  fix i assume "i < length (bits_of (m + n) w)"
  then show "bits_of (m + n) w ! i = (bits_of m w @ bits_of n (drop_bit m w)) ! i"
    by (auto simp: nth_append bit_simps)
qed simp

lemma take_bits_of: "k \<le> n \<Longrightarrow> take k (bits_of n w) = bits_of k w"
  by (rule nth_equalityI) auto

lemma drop_bits_of: "k \<le> n \<Longrightarrow> drop k (bits_of n w) = bits_of (n - k) (drop_bit k w)"
  by (rule nth_equalityI) (auto simp: bit_simps)

lemma bits_of_or_push:
  assumes "take_bit m w = w" and "m + n \<le> 32"
  shows "bits_of (m + n) (w OR push_bit m v) = bits_of m w @ bits_of n v"
proof (rule nth_equalityI)
  fix i assume i: "i < length (bits_of (m + n) (w OR push_bit m v))"
  have hi: "\<not> bit w i" if "m \<le> i"
    using assms(1) that by (metis bit_take_bit_iff not_le)
  show "bits_of (m + n) (w OR push_bit m v) ! i = (bits_of m w @ bits_of n v) ! i"
    using i hi assms(2) by (auto simp: nth_append bit_simps)
qed simp

lemma take_bit_or_push:
  assumes "take_bit m w = (w :: u32)" and "take_bit n v = v"
  shows "take_bit (m + n) (w OR push_bit m v) = w OR push_bit m v"
proof (rule bit_word_eqI)
  fix i :: nat
  have "\<not> bit w i" if "m \<le> i"
    using assms(1) that by (metis bit_take_bit_iff not_le)
  moreover have "\<not> bit v j" if "n \<le> j" for j
    using assms(2) that by (metis bit_take_bit_iff not_le)
  ultimately show "bit (take_bit (m + n) (w OR push_bit m v)) i = bit (w OR push_bit m v) i"
    by (auto simp: bit_simps)
qed

lemma bits_of_inject:
  assumes "bits_of n w = bits_of n v" and "take_bit n w = w" and "take_bit n v = v"
  shows "w = v"
proof (rule bit_word_eqI)
  fix i :: nat
  show "bit w i = bit v i"
  proof (cases "i < n")
    case True
    then have "bits_of n w ! i = bits_of n v ! i" using assms(1) by simp
    with True show ?thesis by simp
  next
    case False
    then show ?thesis using assms(2,3) by (metis bit_take_bit_iff)
  qed
qed

lemma bits_of_take_bit [simp]: "bits_of n (take_bit n w) = bits_of n w"
  by (rule nth_equalityI) (auto simp: bit_simps)

lemma take_bit_ucast_byte [simp]: "take_bit 8 (ucast (b :: u8) :: u32) = ucast b"
  by (rule bit_word_eqI) (auto simp: bit_simps dest: bit_imp_le_length)

lemma take_bit_eq_self_iff_unat: "take_bit n (w :: u32) = w \<longleftrightarrow> unat w < 2 ^ n"
proof -
  have "unat (take_bit n w) = unat w mod 2 ^ n"
    by (simp add: unsigned_take_bit_eq flip: take_bit_eq_mod)
  then have "take_bit n w = w \<longleftrightarrow> unat w mod 2 ^ n = unat w"
    by (metis unsigned_word_eqI)
  also have "\<dots> \<longleftrightarrow> unat w < 2 ^ n"
    by (metis mod_less mod_less_divisor zero_less_numeral zero_less_power)
  finally show ?thesis .
qed

lemma take_bit_drop_bit_self:
  "take_bit n w = (w :: u32) \<Longrightarrow> take_bit (n - k) (drop_bit k w) = drop_bit k w"
proof (rule bit_word_eqI)
  fix i assume "take_bit n w = w"
  then have "bit w (k + i) \<Longrightarrow> k + i < n" by (metis bit_take_bit_iff)
  then show "bit (take_bit (n - k) (drop_bit k w)) i = bit (drop_bit k w) i"
    by (auto simp: bit_simps)
qed

lemma unat_ucast_u8 [simp]: "unat (ucast (b :: u8) :: u32) = unat b"
  by (simp add: unsigned_ucast_eq take_bit_nat_eq_self_iff less_trans [OF unsigned_less])

lemma mask_and_eq: "w AND (push_bit n 1 - 1) = take_bit n (w :: u32)"
  by (simp add: take_bit_eq_mask mask_eq_exp_minus_1 push_bit_eq_mult)

lemma or_push_add:
  assumes "take_bit m w = (w :: u32)"
  shows "w OR push_bit m v = w + push_bit m v"
proof -
  have "w AND push_bit m v = 0"
    using assms by (intro bit_word_eqI) (auto simp: bit_simps, metis bit_take_bit_iff not_le)
  then show ?thesis by (simp add: disjunctive_add_eq_or)
qed

lemma take_bit_of_nat_small: "x < 2 ^ n \<Longrightarrow> n \<le> 32 \<Longrightarrow> take_bit n (of_nat x :: u32) = of_nat x"
  by (simp flip: of_nat_take_bit add: take_bit_nat_eq_self)

lemma and_0xFF: "w AND 0xFF = take_bit 8 (w :: u32)"
  by (simp add: take_bit_eq_mask mask_eq_exp_minus_1)

lemma byte_bits_inject: "byte_bits a = byte_bits b \<longleftrightarrow> a = b"
proof
  assume eq: "byte_bits a = byte_bits b"
  show "a = b"
  proof (rule bit_word_eqI)
    fix i assume "i < LENGTH(8)"
    then show "bit a i = bit b i" using arg_cong [OF eq, of "\<lambda>l. l ! i"] by simp
  qed
qed simp

lemma bytes_bits_prefix:
  "bytes_bits zs = bytes_bits xs @ bs \<Longrightarrow> \<exists>ys. zs = xs @ ys \<and> bytes_bits ys = bs"
proof (induction xs arbitrary: zs)
  case (Cons x xs)
  have "length (bytes_bits zs) = length (bytes_bits (x # xs) @ bs)" by (simp only: Cons.prems)
  then obtain z zs' where z: "zs = z # zs'" by (cases zs) auto
  have "byte_bits z @ bytes_bits zs' = byte_bits x @ bytes_bits xs @ bs" using Cons.prems z by simp
  then have "byte_bits z = byte_bits x" "bytes_bits zs' = bytes_bits xs @ bs" by (simp_all add: append_eq_append_conv)
  with Cons.IH z show ?case by (auto simp: byte_bits_inject)
qed simp

section \<open>Copying into memory\<close>

text \<open>A \<^verbatim>\<open>memcpy\<close> of the bytes \<open>bs\<close> to offset \<open>p\<close> of a region.\<close>

definition mem_write :: "nat \<Rightarrow> u8 list \<Rightarrow> u8 list \<Rightarrow> u8 list res" where
  "mem_write p bs mem =
     (if p + length bs \<le> length mem then Inr (take p mem @ bs @ drop (p + length bs) mem)
      else Inl OutOfBounds)"

definition mem_read :: "nat \<Rightarrow> nat \<Rightarrow> u8 list \<Rightarrow> u8 list res" where
  "mem_read p n mem = (if p + n \<le> length mem then Inr (take n (drop p mem)) else Inl OutOfBounds)"

lemma mem_write_length: "mem_write p bs mem = Inr mem' \<Longrightarrow> length mem' = length mem"
  by (auto simp: mem_write_def split: if_splits)

lemma mem_write_Nil: "p \<le> length mem \<Longrightarrow> mem_write p [] mem = Inr mem"
  by (simp add: mem_write_def)

lemma mem_write_ok: "p + length bs \<le> length mem \<Longrightarrow> \<exists>m. mem_write p bs mem = Inr m"
  by (simp add: mem_write_def)

lemma mem_write_take_ok:
  "p + length bs \<le> length mem \<or> p + n \<le> length mem \<Longrightarrow> \<exists>m. mem_write p (take n bs) mem = Inr m"
  by (auto simp: mem_write_def min_def)

lemma mem_write_append:
  assumes "mem_write p bs mem = Inr mem1"
  shows "mem_write (p + length bs) cs mem1 = mem_write p (bs @ cs) mem"
  using assms by (auto simp: mem_write_def add_ac split: if_splits)

lemma mem_write_read:
  assumes "mem_write p bs mem = Inr mem'"
  shows "mem_read p (length bs) mem' = Inr bs"
  using assms by (auto simp: mem_write_def mem_read_def split: if_splits)

lemma mem_read_split:
  assumes "mem_read p (m + n) mem = Inr bs"
  shows "mem_read p m mem = Inr (take m bs)" "mem_read (p + m) n mem = Inr (drop m bs)"
  using assms
  by (auto simp: mem_read_def min_def drop_take add_ac split: if_splits)

end
