(* ===== verification/Adler32.thy ===== *)
theory Adler32
  imports Muzic_Prelude
begin

text \<open>
  The Adler-32 checksum of \<^verbatim>\<open>muzic/zlib_comp.c\<close> (\<^verbatim>\<open>muzic_adler32\<close>): 32-bit accumulators
  that are reduced only once per block of \<^verbatim>\<open>A32_NMAX\<close> bytes, with the inner loop unrolled
  sixteen times. The reference is the definition of RFC 1950, which reduces after every byte.
\<close>

definition A32_BASE :: nat where "A32_BASE = 65521"
definition A32_NMAX :: nat where "A32_NMAX = 5552"

text \<open>One \<^verbatim>\<open>s1 += b; s2 += s1;\<close> of the source.\<close>

fun adler_byte :: "u8 \<Rightarrow> u32 \<times> u32 \<Rightarrow> u32 \<times> u32" where
  "adler_byte b (s1, s2) = (let s1 = s1 + ucast b; s2 = s2 + s1 in (s1, s2))"

text \<open>The sixteen unrolled updates, then \<^verbatim>\<open>buf += 16\<close>.\<close>

fun adler_unrolled :: "nat \<Rightarrow> u8 list \<Rightarrow> u32 \<times> u32 \<Rightarrow> u8 list \<times> u32 \<times> u32" where
  "adler_unrolled 0 buf s = (buf, s)"
| "adler_unrolled (Suc i) buf s =
     adler_unrolled i (drop 16 buf)
       (fold (\<lambda>j. adler_byte (buf ! j)) [0, 1, 2, 3, 4, 5, 6, 7, 8, 9, 10, 11, 12, 13, 14, 15] s)"

fun adler_rest :: "nat \<Rightarrow> u8 list \<Rightarrow> u32 \<times> u32 \<Rightarrow> u8 list \<times> u32 \<times> u32" where
  "adler_rest 0 buf s = (buf, s)"
| "adler_rest (Suc i) buf s = adler_rest i (drop 1 buf) (adler_byte (buf ! 0) s)"

function adler_loop :: "nat \<Rightarrow> u8 list \<Rightarrow> u32 \<times> u32 \<Rightarrow> u32 \<times> u32" where
  "adler_loop len buf s =
     (if len > 0 then
        let k = (if len < A32_NMAX then len else A32_NMAX);
            (buf, s) = adler_unrolled (k div 16) buf s;
            (buf, s1, s2) = adler_rest (k mod 16) buf s
        in adler_loop (len - k) buf (s1 mod of_nat A32_BASE, s2 mod of_nat A32_BASE)
      else s)"
  by pat_completeness auto
termination
  by (relation "measure (\<lambda>(len, _, _). len)") (auto simp: A32_NMAX_def)

declare adler_loop.simps [simp del]

definition muzic_adler32 :: "u8 list \<Rightarrow> nat \<Rightarrow> u32 \<Rightarrow> u32" where
  "muzic_adler32 data len prev_sum =
     (let (s1, s2) = adler_loop len data (prev_sum AND 0xffff, drop_bit 16 prev_sum)
      in push_bit 16 s2 OR s1)"

lemma A32_BASE_pos [simp]: "0 < A32_BASE"
  by (simp add: A32_BASE_def)

section \<open>The reference checksum\<close>

fun adler_ref :: "nat \<times> nat \<Rightarrow> u8 list \<Rightarrow> nat \<times> nat" where
  "adler_ref (a, b) [] = (a, b)"
| "adler_ref (a, b) (x # xs) =
     (let a = (a + unat x) mod A32_BASE; b = (b + a) mod A32_BASE in adler_ref (a, b) xs)"

definition adler_pack :: "nat \<times> nat \<Rightarrow> u32" where
  "adler_pack s = (case s of (a, b) \<Rightarrow> of_nat (b * 65536 + a))"

definition adler_unpack :: "u32 \<Rightarrow> nat \<times> nat" where
  "adler_unpack w = (unat w mod 65536, unat w div 65536)"

text \<open>The running sums without any reduction.\<close>

fun adler_sums :: "nat \<times> nat \<Rightarrow> u8 list \<Rightarrow> nat \<times> nat" where
  "adler_sums (a, b) [] = (a, b)"
| "adler_sums (a, b) (x # xs) = adler_sums (a + unat x, b + (a + unat x)) xs"

lemma adler_sums_bound:
  "adler_sums (a, b) xs = (c, d) \<Longrightarrow>
   c \<le> a + 255 * length xs \<and>
   2 * d \<le> 2 * b + 2 * length xs * a + 255 * length xs * (length xs + 1)"
proof (induction xs arbitrary: a b)
  case (Cons x xs)
  have x: "unat x \<le> 255" using unsigned_less [of x, where ?'a = nat] by simp
  from Cons.prems have "adler_sums (a + unat x, b + (a + unat x)) xs = (c, d)" by simp
  from Cons.IH [OF this] have
    c: "c \<le> (a + unat x) + 255 * length xs" and
    d: "2 * d \<le> 2 * (b + (a + unat x)) + 2 * length xs * (a + unat x)
              + 255 * length xs * (length xs + 1)" by auto
  have "2 * d \<le> 2 * (b + (a + 255)) + 2 * length xs * (a + 255)
              + 255 * length xs * (length xs + 1)"
    by (rule order_trans [OF d]) (use x in \<open>intro add_mono mult_le_mono; simp\<close>)
  also have "\<dots> = 2 * b + 2 * length (x # xs) * a + 255 * length (x # xs) * (length (x # xs) + 1)"
    by (simp add: algebra_simps)
  finally show ?case using c x by simp
qed simp

lemma adler_sums_mod:
  "adler_sums (a, b) xs = (c, d) \<Longrightarrow>
   adler_ref (a mod A32_BASE, b mod A32_BASE) xs = (c mod A32_BASE, d mod A32_BASE)"
proof (induction xs arbitrary: a b)
  case (Cons x xs)
  then have "adler_sums (a + unat x, b + (a + unat x)) xs = (c, d)" by simp
  from Cons.IH [OF this] show ?case by (simp add: Let_def mod_simps)
qed simp

lemma adler_ref_append: "adler_ref s (xs @ ys) = adler_ref (adler_ref s xs) ys"
  by (induction s xs rule: adler_ref.induct) (simp_all add: Let_def)

lemma adler_ref_bound:
  "a < A32_BASE \<Longrightarrow> b < A32_BASE \<Longrightarrow> adler_ref (a, b) xs = (c, d) \<Longrightarrow>
   c < A32_BASE \<and> d < A32_BASE"
  by (induction "(a, b)" xs arbitrary: a b rule: adler_ref.induct)
    (auto simp: Let_def A32_BASE_def)

section \<open>The machine loop computes the running sums\<close>

lemma adler_sums_mono:
  "adler_sums (a, b) xs = (c, d) \<Longrightarrow> a \<le> c \<and> b \<le> d"
  by (induction xs arbitrary: a b) (auto, fastforce+)

lemma adler_fold_sums:
  assumes "adler_sums (unat s1, unat s2) xs = (c, d)" and "c < 2 ^ 32" and "d < 2 ^ 32"
  shows "fold adler_byte xs (s1, s2) = (of_nat c, of_nat d)"
  using assms
proof (induction xs arbitrary: s1 s2)
  case (Cons x xs)
  have nx: "adler_sums (unat s1 + unat x, unat s2 + (unat s1 + unat x)) xs = (c, d)"
    using Cons.prems(1) by simp
  from adler_sums_mono [OF this] Cons.prems(2,3)
  have lt: "unat s1 + unat x < 2 ^ 32" "unat s2 + (unat s1 + unat x) < 2 ^ 32" by auto
  have ux: "unat (ucast x :: u32) = unat x" by (rule unat_ucast_u8)
  have 1: "unat (s1 + ucast x) = unat s1 + unat x"
    using lt(1) ux by (simp add: unat_word_ariths)
  have 2: "unat (s2 + (s1 + ucast x)) = unat s2 + (unat s1 + unat x)"
    using lt(2) 1 by (simp add: unat_word_ariths(1) [of s2])
  have "fold adler_byte xs (s1 + ucast x, s2 + (s1 + ucast x)) = (of_nat c, of_nat d)"
    by (rule Cons.IH) (use nx 1 2 Cons.prems in simp_all)
  then show ?case by (simp add: Let_def)
qed (auto simp: word_unat_eq_iff unat_of_nat)

lemma adler_unrolled_fold:
  "16 * i \<le> length buf \<Longrightarrow>
   adler_unrolled i buf s = (drop (16 * i) buf, fold adler_byte (take (16 * i) buf) s)"
proof (induction i arbitrary: buf s)
  case (Suc i)
  have len: "16 \<le> length buf" using Suc.prems by simp
  have t: "take 16 buf = map ((!) buf) [0, 1, 2, 3, 4, 5, 6, 7, 8, 9, 10, 11, 12, 13, 14, 15]"
    using len by (intro nth_equalityI) (auto simp: less_Suc_eq numeral_eq_Suc)
  have split: "take (16 * Suc i) buf = take 16 buf @ take (16 * i) (drop 16 buf)"
    by (simp add: take_add)
  have "adler_unrolled (Suc i) buf s =
      adler_unrolled i (drop 16 buf) (fold adler_byte (take 16 buf) s)"
    unfolding t by (simp add: fold_map comp_def)
  also have "\<dots> = (drop (16 * Suc i) buf, fold adler_byte (take (16 * Suc i) buf) s)"
    using Suc.IH [of "drop 16 buf"] Suc.prems by (simp add: split add.commute take_add)
  finally show ?case .
qed simp

lemma adler_rest_fold:
  "i \<le> length buf \<Longrightarrow>
   adler_rest i buf s = (drop i buf, fold adler_byte (take i buf) s)"
proof (induction i arbitrary: buf s)
  case (Suc i)
  then obtain x xs where "buf = x # xs" by (cases buf) auto
  with Suc show ?case by simp
qed simp

lemma adler_block_fold:
  assumes "k \<le> length buf"
  shows "(let (b1, s) = adler_unrolled (k div 16) buf s in adler_rest (k mod 16) b1 s)
       = (drop k buf, fold adler_byte (take k buf) s)"
proof -
  have k: "16 * (k div 16) + k mod 16 = k" by simp
  have le: "16 * (k div 16) \<le> length buf" "k mod 16 \<le> length (drop (16 * (k div 16)) buf)"
    using assms k unfolding length_drop by linarith+
  have "take k buf = take (16 * (k div 16)) buf @ take (k mod 16) (drop (16 * (k div 16)) buf)"
    by (metis k take_add)
  then show ?thesis
    using le by (simp add: adler_unrolled_fold adler_rest_fold k add.commute)
qed

lemma adler_block_exact:
  assumes len: "length xs \<le> A32_NMAX" and s: "unat s1 < 65536" "unat s2 < 65536"
  shows "\<exists>c d. fold adler_byte xs (s1, s2) = (of_nat c, of_nat d) \<and> c < 2 ^ 32 \<and> d < 2 ^ 32 \<and>
     adler_ref (unat s1 mod A32_BASE, unat s2 mod A32_BASE) xs = (c mod A32_BASE, d mod A32_BASE)"
proof -
  obtain c d where cd: "adler_sums (unat s1, unat s2) xs = (c, d)" by fastforce
  let ?n = "length xs"
  have n: "?n \<le> 5552" using len by (simp add: A32_NMAX_def)
  note b = adler_sums_bound [OF cd]
  have "2 * ?n * unat s1 \<le> 2 * 5552 * 65535"
    using n s by (intro mult_le_mono) auto
  moreover have "255 * ?n * (?n + 1) \<le> 255 * 5552 * (5552 + 1)"
    using n by (intro mult_le_mono) auto
  ultimately have lt: "c < 2 ^ 32" "d < 2 ^ 32" using b s n by auto
  from adler_fold_sums [OF cd lt] adler_sums_mod [OF cd] lt show ?thesis by blast
qed

lemma unat_mod_base: "c < 2 ^ 32 \<Longrightarrow> unat ((of_nat c :: u32) mod of_nat A32_BASE) = c mod A32_BASE"
  by (simp add: unat_mod A32_BASE_def unat_of_nat)

lemma adler_loop_ref:
  assumes "len \<le> length buf" and "unat s1 < A32_BASE" and "unat s2 < A32_BASE"
  shows "(case adler_loop len buf (s1, s2) of (t1, t2) \<Rightarrow> (unat t1, unat t2))
       = adler_ref (unat s1, unat s2) (take len buf)"
  using assms
proof (induction len arbitrary: buf s1 s2 rule: less_induct)
  case (less len)
  show ?case
  proof (cases "len > 0")
    case False
    then show ?thesis by (simp add: adler_loop.simps)
  next
    case True
    define k where "k = (if len < A32_NMAX then len else A32_NMAX)"
    have k: "0 < k" "k \<le> len" "k \<le> A32_NMAX" "k \<le> length buf"
      using True less.prems(1) by (auto simp: k_def A32_NMAX_def)
    have sm: "unat s1 < 65536" "unat s2 < 65536" using less.prems by (auto simp: A32_BASE_def)
    obtain c d where cd: "fold adler_byte (take k buf) (s1, s2) = (of_nat c, of_nat d)"
        "c < 2 ^ 32" "d < 2 ^ 32"
        "adler_ref (unat s1 mod A32_BASE, unat s2 mod A32_BASE) (take k buf)
         = (c mod A32_BASE, d mod A32_BASE)"
      using adler_block_exact [OF _ sm, of "take k buf"] k by auto
    have step: "adler_loop len buf (s1, s2) = adler_loop (len - k) (drop k buf)
        (of_nat c mod of_nat A32_BASE, of_nat d mod of_nat A32_BASE)"
      using adler_block_fold [OF k(4), of "(s1, s2)"] True cd(1)
      by (subst adler_loop.simps)
        (auto simp: Let_def k_def [symmetric] split: prod.splits)
    have IH: "(case adler_loop (len - k) (drop k buf)
        (of_nat c mod of_nat A32_BASE, of_nat d mod of_nat A32_BASE) of (t1, t2) \<Rightarrow> (unat t1, unat t2))
        = adler_ref (c mod A32_BASE, d mod A32_BASE) (take (len - k) (drop k buf))"
      using less.IH [of "len - k" "drop k buf" "of_nat c mod of_nat A32_BASE"
          "of_nat d mod of_nat A32_BASE"] k less.prems(1) cd(2,3)
      by (simp add: unat_mod_base A32_BASE_pos)
    have "take len buf = take k buf @ take (len - k) (drop k buf)"
      by (metis k(2) le_add_diff_inverse take_add)
    with step IH cd(4) less.prems show ?thesis by (simp add: adler_ref_append)
  qed
qed

lemma adler_unpack_parts:
  "unat (w AND 0xffff) = fst (adler_unpack w)" "unat (drop_bit 16 w) = snd (adler_unpack w)"
proof -
  have "w AND 0xffff = take_bit 16 w" by (simp add: take_bit_eq_mask mask_eq_exp_minus_1)
  then have "unat (w AND 0xffff) = take_bit 16 (unat w)" by (simp only: unsigned_take_bit_eq)
  then show "unat (w AND 0xffff) = fst (adler_unpack w)"
    by (simp add: adler_unpack_def take_bit_eq_mod)
  show "unat (drop_bit 16 w) = snd (adler_unpack w)"
    by (simp add: adler_unpack_def drop_bit_eq_div unat_div)
qed

lemma adler_pack_or:
  fixes s1 s2 :: u32
  assumes "unat s1 < 65536"
  shows "push_bit 16 s2 OR s1 = of_nat (unat s2 * 65536 + unat s1)"
proof -
  have "take_bit 16 s1 = s1" using assms take_bit_eq_self_iff_unat [of 16 s1] by simp
  then have "push_bit 16 s2 AND s1 = 0"
    by (intro bit_word_eqI) (auto simp: bit_simps, metis bit_take_bit_iff not_le)
  then have "push_bit 16 s2 OR s1 = push_bit 16 s2 + s1" by (simp add: disjunctive_add_eq_or)
  then show ?thesis by (simp add: push_bit_eq_mult mult.commute)
qed

section \<open>Correctness of the checksum\<close>

lemma muzic_adler32_ref:
  assumes "len \<le> length data" and "fst (adler_unpack prev) < A32_BASE"
    and "snd (adler_unpack prev) < A32_BASE"
  shows "muzic_adler32 data len prev = adler_pack (adler_ref (adler_unpack prev) (take len data))"
proof -
  obtain t1 t2 where t: "adler_loop len data (prev AND 0xffff, drop_bit 16 prev) = (t1, t2)"
    by fastforce
  have r: "(unat t1, unat t2) = adler_ref (adler_unpack prev) (take len data)"
    using adler_loop_ref [of len data "prev AND 0xffff" "drop_bit 16 prev"] assms t
    by (simp add: adler_unpack_parts)
  have "unat t1 < A32_BASE"
    using adler_ref_bound [OF assms(2,3), of "take len data" "unat t1" "unat t2"] r by simp
  then have "unat t1 < 65536" by (simp add: A32_BASE_def)
  with t show ?thesis
    by (simp add: muzic_adler32_def adler_pack_or adler_pack_def flip: r)
qed

lemma adler_unpack_pack:
  assumes "a < A32_BASE" and "b < A32_BASE"
  shows "adler_unpack (adler_pack (a, b)) = (a, b)"
proof -
  have "b * 65536 + a < 2 ^ 32" using assms by (simp add: A32_BASE_def)
  then have "unat (of_nat (b * 65536 + a) :: u32) = b * 65536 + a"
    by (subst unat_of_nat) simp
  with assms show ?thesis by (simp add: adler_unpack_def adler_pack_def A32_BASE_def)
qed

lemma muzic_adler32_append:
  "muzic_adler32 ys (length ys) (muzic_adler32 xs (length xs) 1)
     = muzic_adler32 (xs @ ys) (length (xs @ ys)) 1"
proof -
  obtain a b where ab: "adler_ref (1, 0) xs = (a, b)" by fastforce
  then have lt: "a < A32_BASE" "b < A32_BASE"
    using adler_ref_bound [of 1 0 xs] by (auto simp: A32_BASE_def)
  have x: "muzic_adler32 xs (length xs) 1 = adler_pack (a, b)"
    using muzic_adler32_ref [of "length xs" xs 1] ab by (simp add: adler_unpack_def A32_BASE_def)
  have y: "muzic_adler32 ys (length ys) (adler_pack (a, b)) = adler_pack (adler_ref (a, b) ys)"
    using muzic_adler32_ref [of "length ys" ys "adler_pack (a, b)"] lt by (simp add: adler_unpack_pack)
  have "muzic_adler32 (xs @ ys) (length (xs @ ys)) 1 = adler_pack (adler_ref (1, 0) (xs @ ys))"
    using muzic_adler32_ref [of "length (xs @ ys)" "xs @ ys" 1]
    by (simp add: adler_unpack_def A32_BASE_def)
  with x y ab show ?thesis by (simp add: adler_ref_append)
qed

text \<open>C8: for any buffer, the checksum computed with deferred reduction and the sixteen-fold unrolled
  loop, started at the initial value 1, is the Adler-32 of RFC 1950; no 32-bit accumulator
  overflows.\<close>

theorem muzic_adler32_correct:
  "muzic_adler32 data (length data) 1 = adler_pack (adler_ref (1, 0) data)"
proof -
  have "adler_unpack 1 = (1, 0)" by (simp add: adler_unpack_def)
  then show ?thesis using muzic_adler32_ref [of "length data" data 1] by (simp add: A32_BASE_def)
qed

text \<open>C18: checksums may be computed incrementally: feeding the checksum of a first buffer as the
  start value for a second one gives the checksum of the concatenation (this is how the deflater
  carries \<^verbatim>\<open>strm->adler\<close> from one flushed chunk to the next).\<close>

theorem muzic_adler32_incremental:
  "muzic_adler32 ys (length ys) (muzic_adler32 xs (length xs) 1)
     = muzic_adler32 (xs @ ys) (length (xs @ ys)) 1"
  by (rule muzic_adler32_append)

end
