(* ===== verification/Canonical_Code.thy ===== *)
theory Canonical_Code
  imports Muzic_Prelude
begin

text \<open>
  The abstract specification of a canonical Huffman code (RFC 1951, 3.2.2). A code is given by its
  list of (symbol, length) pairs in ascending order of length; the codewords are consecutive numbers,
  extended by zero bits where the length grows. Left-aligned to 16 bits, each codeword of length \<open>l\<close>
  therefore covers an interval of \<open>2 ^ (16 - l)\<close> numbers, and the intervals follow each other without
  a gap, which is how the code is presented here.
\<close>

section \<open>Bit reversal of numbers\<close>

text \<open>The number whose binary digits are the low \<open>n\<close> digits of \<open>x\<close> in reverse order.\<close>

fun revn :: "nat \<Rightarrow> nat \<Rightarrow> nat" where
  "revn 0 x = 0"
| "revn (Suc n) x = 2 * revn n x + x div 2 ^ n mod 2"

lemma revn_less: "revn n x < 2 ^ n"
proof (induction n)
  case (Suc n)
  have "x div 2 ^ n mod 2 < 2" by simp
  with Suc show ?case unfolding revn.simps power_Suc by linarith
qed simp

lemma revn_div: "revn (m + k) x div 2 ^ k = revn m x"
proof (induction k)
  case (Suc k)
  have "revn (m + Suc k) x div 2 ^ Suc k = (2 * revn (m + k) x + x div 2 ^ (m + k) mod 2) div 2 div 2 ^ k"
    by (simp add: div_mult2_eq)
  also have "(2 * revn (m + k) x + x div 2 ^ (m + k) mod 2) div 2 = revn (m + k) x" by simp
  finally show ?case using Suc by simp
qed simp

lemma revn_eq_iff: "revn n x = revn n y \<longleftrightarrow> x mod 2 ^ n = y mod 2 ^ n"
proof (induction n)
  case (Suc n)
  have split: "z mod 2 ^ Suc n = 2 ^ n * (z div 2 ^ n mod 2) + z mod 2 ^ n" for z :: nat
    unfolding power_Suc2 by (rule mod_mult2_eq)
  have two: "2 * a + b = 2 * c + d \<longleftrightarrow> a = c \<and> b = d" if "b < 2" "d < 2" for a b c d :: nat
    using that by arith
  have "x mod 2 ^ Suc n = y mod 2 ^ Suc n \<longleftrightarrow>
      x div 2 ^ n mod 2 = y div 2 ^ n mod 2 \<and> x mod 2 ^ n = y mod 2 ^ n"
  proof
    assume eq: "x mod 2 ^ Suc n = y mod 2 ^ Suc n"
    have a: "z mod 2 ^ Suc n mod 2 ^ n = z mod 2 ^ n" "z mod 2 ^ Suc n div 2 ^ n = z div 2 ^ n mod 2" for z :: nat
      unfolding split by simp_all
    show "x div 2 ^ n mod 2 = y div 2 ^ n mod 2 \<and> x mod 2 ^ n = y mod 2 ^ n"
      using a [of x] a [of y] eq by metis
  qed (simp only: split)
  then show ?case unfolding revn.simps using two Suc by auto
qed simp

lemma revn_mod: "revn n (x mod 2 ^ n) = revn n x"
  by (simp add: revn_eq_iff)

lemma bit_revn: "bit (revn n x) j \<longleftrightarrow> j < n \<and> bit x (n - 1 - j)"
proof (induction n arbitrary: j)
  case (Suc n)
  have b: "x div 2 ^ n mod 2 = of_bool (bit x n)" by (simp add: bit_iff_odd mod_2_eq_odd)
  show ?case
  proof (cases j)
    case 0
    then show ?thesis unfolding revn.simps b by (simp add: bit_0)
  next
    case (Suc i)
    have "bit (2 * revn n x + of_bool (bit x n)) (Suc i) = bit (revn n x) i"
      by (simp add: bit_Suc)
    then show ?thesis unfolding revn.simps b using Suc Suc.IH by auto
  qed
qed simp

lemma revn_eq_msb:
  assumes "h < 2 ^ l" and "l \<le> 32"
  shows "revn l (unat w) = h \<longleftrightarrow> bits_of l w = msb_bits l (of_nat h)"
proof -
  have hb: "bit h j \<Longrightarrow> j < l" for j
    using assms(1) by (metis bit_take_bit_iff take_bit_nat_eq_self)
  have ob: "bit (of_nat h :: u32) j \<longleftrightarrow> bit h j" if "j < l" for j
    using assms(2) that by (simp add: bit_of_nat_iff)
  have wb: "bit (unat w) j \<longleftrightarrow> bit w j" for j by (simp add: bit_unsigned_iff)
  have "revn l (unat w) = h \<longleftrightarrow> (\<forall>j < l. bit w (l - 1 - j) = bit h j)"
    unfolding bit_eq_iff [of "revn l (unat w)"] using hb by (auto simp: bit_revn wb)
  also have "\<dots> \<longleftrightarrow> (\<forall>i < l. bit w i = bit h (l - 1 - i))"
  proof -
    have idx: "j < l \<Longrightarrow> l - 1 - j < l \<and> l - 1 - (l - 1 - j) = j" for j by auto
    show ?thesis using idx by metis
  qed
  also have "\<dots> \<longleftrightarrow> bits_of l w = msb_bits l (of_nat h)"
    unfolding list_eq_iff_nth_eq by (auto simp: msb_bits_def rev_nth ob)
  finally show ?thesis .
qed

lemma bit_less_exp: "h < 2 ^ l \<Longrightarrow> bit (h :: nat) j \<Longrightarrow> j < l"
  by (metis bit_take_bit_iff take_bit_nat_eq_self)

lemma revn_revn: "h < 2 ^ l \<Longrightarrow> revn l (revn l h) = h"
proof (rule bit_eqI)
  fix j assume h: "h < 2 ^ l"
  show "bit (revn l (revn l h)) j = bit h j"
  proof (cases "j < l")
    case True
    then have "l - 1 - (l - 1 - j) = j" by simp
    with True show ?thesis by (simp add: bit_revn)
  qed (use bit_less_exp [OF h] in \<open>auto simp: bit_revn\<close>)
qed

section \<open>Canonical codes as consecutive intervals\<close>

definition slot :: "nat \<Rightarrow> nat" where
  "slot l = 2 ^ (16 - l)"

text \<open>The end of the last interval: the Kraft sum, scaled by \<open>2 ^ 16\<close>.\<close>

definition kraft :: "(nat \<times> nat) list \<Rightarrow> nat" where
  "kraft xs = sum_list (map (\<lambda>(s, l). slot l) xs)"

text \<open>The pair whose interval, counted from \<open>S\<close>, contains \<open>x\<close>.\<close>

fun code_lookup :: "nat \<Rightarrow> (nat \<times> nat) list \<Rightarrow> nat \<Rightarrow> (nat \<times> nat) option" where
  "code_lookup S [] x = None"
| "code_lookup S ((s, l) # xs) x =
     (if S \<le> x \<and> x < S + slot l then Some (s, l) else code_lookup (S + slot l) xs x)"

text \<open>
  Codes the decoder construction accepts: lengths from 1 to 15 in ascending order, symbols that fit
  the table entries, not oversubscribed, and not more symbols than an alphabet has.
\<close>

definition code_ok :: "(nat \<times> nat) list \<Rightarrow> bool" where
  "code_ok xs \<longleftrightarrow> xs \<noteq> [] \<and> sorted (map snd xs) \<and> (\<forall>(s, l) \<in> set xs. 1 \<le> l \<and> l \<le> 15 \<and> s < 2 ^ 15) \<and>
     kraft xs \<le> 2 ^ 16 \<and> length xs \<le> 291"

text \<open>The codeword of the \<open>i\<close>-th pair, most significant bit first, as it appears in the bit stream.\<close>

definition codeword :: "(nat \<times> nat) list \<Rightarrow> nat \<Rightarrow> bool list" where
  "codeword xs i = msb_bits (snd (xs ! i)) (of_nat (kraft (take i xs) div slot (snd (xs ! i))))"

lemma slot_pos [simp]: "0 < slot l"
  by (simp add: slot_def)

lemma kraft_simps [simp]:
  "kraft [] = 0" "kraft ((s, l) # xs) = slot l + kraft xs" "kraft (xs @ ys) = kraft xs + kraft ys"
  by (simp_all add: kraft_def)

lemma slot_dvd: "l \<le> m \<Longrightarrow> slot m dvd slot l"
  by (simp add: slot_def le_imp_power_dvd)

lemma slot_mult: "l \<le> 16 \<Longrightarrow> 2 ^ l * slot l = 2 ^ 16"
  by (simp add: slot_def flip: power_add)

lemma kraft_dvd: "\<forall>(s, l) \<in> set xs. l \<le> m \<Longrightarrow> slot m dvd kraft xs"
  by (induction xs) (auto intro!: dvd_add slot_dvd)

lemma code_lookup_less: "code_lookup S xs x = Some r \<Longrightarrow> S \<le> x \<and> x < S + kraft xs"
  by (induction S xs x rule: code_lookup.induct) (auto split: if_splits)

lemma code_lookup_total: "S \<le> x \<Longrightarrow> x < S + kraft xs \<Longrightarrow> \<exists>r. code_lookup S xs x = Some r \<and> r \<in> set xs"
  by (induction S xs x rule: code_lookup.induct) auto

lemma code_lookup_skip: "S + kraft ys \<le> x \<Longrightarrow> code_lookup S (ys @ xs) x = code_lookup (S + kraft ys) xs x"
proof (induction ys arbitrary: S)
  case (Cons y ys)
  obtain s l where "y = (s, l)" by fastforce
  with Cons show ?case by (simp add: add.assoc)
qed simp

lemma code_lookup_append:
  "code_lookup S (xs @ ys) x =
     (case code_lookup S xs x of None \<Rightarrow> code_lookup (S + kraft xs) ys x | Some r \<Rightarrow> Some r)"
  by (induction S xs x rule: code_lookup.induct) (auto simp: add.assoc split: option.splits)

text \<open>Whether \<open>x\<close> lies in an aligned interval is a matter of its leading digits.\<close>

lemma interval_iff:
  assumes "slot l dvd S"
  shows "S \<le> x \<and> x < S + slot l \<longleftrightarrow> x div slot l = S div slot l"
proof -
  obtain q where q: "S = q * slot l" using assms by (metis dvd_div_mult_self)
  have "q * slot l \<le> x \<and> x < q * slot l + slot l \<longleftrightarrow> x div slot l = q"
    using div_times_less_eq_dividend [of x "slot l"] dividend_less_div_times [of "slot l" x]
    by (auto simp: ac_simps intro!: div_nat_eqI)
  then show ?thesis by (simp add: q)
qed

lemma leading_digits: "l \<le> 16 \<Longrightarrow> revn 16 w div slot l = revn l w"
  using revn_div [of l "16 - l" w] by (simp add: slot_def)

lemma in_interval_iff:
  assumes "slot l dvd S" and "l \<le> 16"
  shows "S \<le> revn 16 w \<and> revn 16 w < S + slot l \<longleftrightarrow> revn l w = S div slot l"
  using interval_iff [OF assms(1)] leading_digits [OF assms(2)] by simp

lemma code_lookup_index:
  assumes "code_lookup S xs x = Some r"
  shows "\<exists>j < length xs. xs ! j = r \<and> S + kraft (take j xs) \<le> x \<and> x < S + kraft (take j xs) + slot (snd r)"
  using assms
proof (induction S xs x rule: code_lookup.induct)
  case (2 S s l xs x)
  show ?case
  proof (cases "S \<le> x \<and> x < S + slot l")
    case True
    with 2 show ?thesis by (intro exI [of _ 0]) auto
  next
    case False
    with 2 obtain j where "j < length xs" "xs ! j = r" "S + slot l + kraft (take j xs) \<le> x"
        "x < S + slot l + kraft (take j xs) + slot (snd r)" by auto
    then show ?thesis by (intro exI [of _ "Suc j"]) (simp add: add.assoc)
  qed
qed simp

text \<open>The interval of the \<open>i\<close>-th codeword.\<close>

lemma code_interval:
  assumes "code_ok xs" and "i < length xs" and "xs ! i = (s, l)" and "S = kraft (take i xs)"
  shows "1 \<le> l" "l \<le> 15" "s < 2 ^ 15" "slot l dvd S" "S + slot l \<le> kraft xs" "S div slot l < 2 ^ l"
    and "\<And>x. S \<le> x \<Longrightarrow> x < S + slot l \<Longrightarrow> code_lookup 0 xs x = Some (s, l)"
proof -
  have mem: "(s, l) \<in> set xs" using assms(2,3) by (metis nth_mem)
  show l: "1 \<le> l" "l \<le> 15" "s < 2 ^ 15" using assms(1) mem by (auto simp: code_ok_def)
  have split: "xs = take i xs @ (s, l) # drop (Suc i) xs" using assms(2,3) by (metis id_take_nth_drop)
  have "\<forall>(s', l') \<in> set (take i xs). l' \<le> l"
  proof -
    have "sorted (map snd (take i xs @ (s, l) # drop (Suc i) xs))" using assms(1) split by (simp add: code_ok_def)
    then show ?thesis by (auto simp: sorted_append)
  qed
  then show "slot l dvd S" unfolding assms(4) by (rule kraft_dvd)
  show k: "S + slot l \<le> kraft xs" unfolding assms(4) by (subst split) simp
  then have "S < 2 ^ l * slot l" using slot_mult [of l] l(2) assms(1) slot_pos [of l]
    by (simp add: code_ok_def del: slot_pos)
  then show "S div slot l < 2 ^ l" by (simp add: div_less_iff_less_mult)
  show "\<And>x. S \<le> x \<Longrightarrow> x < S + slot l \<Longrightarrow> code_lookup 0 xs x = Some (s, l)"
    unfolding assms(4) by (subst split, subst code_lookup_skip) auto
qed

lemma revn_small:
  assumes "w < 2 ^ b" and "b \<le> 16"
  shows "revn 16 w = revn b w * slot b"
proof -
  have "take_bit (16 - b) (revn 16 w) = 0"
    using bit_less_exp [OF assms(1)] by (intro bit_eqI) (force simp: bit_take_bit_iff bit_revn)
  then have "revn 16 w mod slot b = 0" by (simp add: take_bit_eq_mod slot_def)
  then show ?thesis using leading_digits [OF assms(2), of w] by (metis add_0_right div_mult_mod_eq)
qed

lemma take_msb_bits:
  assumes "b \<le> l" shows "take b (msb_bits l w) = msb_bits b (drop_bit (l - b) w)"
  using assms drop_bits_of [of "l - b" l w] by (simp add: msb_bits_def take_rev)


end
