(* ===== verification/Dynamic_Code.thy ===== *)
theory Dynamic_Code
  imports Canonical_Code
begin

text \<open>
  The abstract specification of a block that brings its own codes (RFC 1951, 3.2.2 and 3.2.7): the code
  lengths of an alphabet determine a canonical code; the lengths of the literal/length alphabet and of
  the distance alphabet are one sequence, written as commands that give a length, repeat the previous
  one or stand for a run of zeros; the commands are symbols of a third code, whose lengths are written
  with three bits each.
\<close>

section \<open>The code of a sequence of lengths\<close>

text \<open>The symbols that occur, with their lengths; length zero means that a symbol does not occur.\<close>

definition code_pairs :: "nat list \<Rightarrow> (nat \<times> nat) list" where
  "code_pairs ls = filter (\<lambda>p. snd p \<noteq> 0) (enumerate 0 ls)"

definition code_of :: "nat list \<Rightarrow> (nat \<times> nat) list" where
  "code_of ls = sort_key snd (code_pairs ls)"

definition symbols_of :: "nat list \<Rightarrow> nat set" where
  "symbols_of ls = {s. s < length ls \<and> ls ! s \<noteq> 0}"

definition sym_index :: "(nat \<times> nat) list \<Rightarrow> nat \<Rightarrow> nat" where
  "sym_index xs s = length (takeWhile (\<lambda>p. fst p \<noteq> s) xs)"

definition sym_code :: "nat list \<Rightarrow> nat \<Rightarrow> bool list" where
  "sym_code ls s = codeword (code_of ls) (sym_index (code_of ls) s)"

lemma code_pairs_Nil [simp]: "code_pairs [] = []"
  by (simp add: code_pairs_def)

lemma code_pairs_snoc [simp]: "code_pairs (ls @ [l]) = code_pairs ls @ (if l = 0 then [] else [(length ls, l)])"
  by (simp add: code_pairs_def enumerate_append_eq)

lemma set_code_pairs: "set (code_pairs ls) = {(s, l). s < length ls \<and> ls ! s = l \<and> l \<noteq> 0}"
  by (auto simp: code_pairs_def in_set_enumerate_eq)

lemma length_code_pairs: "length (code_pairs ls) \<le> length ls"
  using length_filter_le [of "\<lambda>p. snd p \<noteq> 0" "enumerate 0 ls"] by (simp add: code_pairs_def)

lemma sym_index_ok:
  assumes "s \<in> symbols_of ls"
  shows "sym_index (code_of ls) s < length (code_of ls)" and "fst (code_of ls ! sym_index (code_of ls) s) = s"
proof -
  have "(s, ls ! s) \<in> set (code_of ls)" using assms by (simp add: symbols_of_def code_of_def set_code_pairs)
  then show lt: "sym_index (code_of ls) s < length (code_of ls)"
    using takeWhile_eq_all_conv [of "\<lambda>p. fst p \<noteq> s" "code_of ls"] length_takeWhile_le [of "\<lambda>p. fst p \<noteq> s" "code_of ls"]
      takeWhile_eq_take [of "\<lambda>p. fst p \<noteq> s" "code_of ls"] by (fastforce simp: sym_index_def order_le_less)
  show "fst (code_of ls ! sym_index (code_of ls) s) = s"
    using nth_length_takeWhile [OF lt [unfolded sym_index_def]] by (simp add: sym_index_def)
qed

section \<open>Sequences of lengths as commands\<close>

datatype len_cmd = Len nat | Copy nat | Zeros nat

fun cmd_ok :: "len_cmd \<Rightarrow> bool" where
  "cmd_ok (Len l) \<longleftrightarrow> l \<le> 15"
| "cmd_ok (Copy n) \<longleftrightarrow> 3 \<le> n \<and> n \<le> 6"
| "cmd_ok (Zeros n) \<longleftrightarrow> 3 \<le> n \<and> n \<le> 138"

text \<open>The length repeated by a command, given the previous one, and how often.\<close>

fun cmd_len :: "nat \<Rightarrow> len_cmd \<Rightarrow> nat" where
  "cmd_len prev (Len l) = l"
| "cmd_len prev (Copy n) = prev"
| "cmd_len prev (Zeros n) = 0"

fun cmd_times :: "len_cmd \<Rightarrow> nat" where
  "cmd_times (Len l) = 1"
| "cmd_times (Copy n) = n"
| "cmd_times (Zeros n) = n"

fun cmds_lens :: "nat \<Rightarrow> len_cmd list \<Rightarrow> nat list" where
  "cmds_lens prev [] = []"
| "cmds_lens prev (c # cs) = replicate (cmd_times c) (cmd_len prev c) @ cmds_lens (cmd_len prev c) cs"

fun cmd_symbol :: "len_cmd \<Rightarrow> nat" where
  "cmd_symbol (Len l) = l"
| "cmd_symbol (Copy n) = 16"
| "cmd_symbol (Zeros n) = (if n \<le> 10 then 17 else 18)"

fun cmd_extra :: "len_cmd \<Rightarrow> bool list" where
  "cmd_extra (Len l) = []"
| "cmd_extra (Copy n) = bits_of 2 (of_nat (n - 3))"
| "cmd_extra (Zeros n) = (if n \<le> 10 then bits_of 3 (of_nat (n - 3)) else bits_of 7 (of_nat (n - 11)))"

definition cmds_bits :: "(nat \<Rightarrow> bool list) \<Rightarrow> len_cmd list \<Rightarrow> bool list" where
  "cmds_bits code cs = concat (map (\<lambda>c. code (cmd_symbol c) @ cmd_extra c) cs)"

lemma cmds_bits_simps [simp]:
  "cmds_bits code [] = []" "cmds_bits code (c # cs) = code (cmd_symbol c) @ cmd_extra c @ cmds_bits code cs"
  by (simp_all add: cmds_bits_def)

lemma cmd_times_pos: "cmd_ok c \<Longrightarrow> 0 < cmd_times c"
  by (cases c) auto

section \<open>The header of the block\<close>

definition cl_order :: "nat list" where
  "cl_order = [16, 17, 18, 0, 8, 7, 9, 6, 10, 5, 11, 4, 12, 3, 13, 2, 14, 1, 15]"

text \<open>The lengths of the command code: the first ones in the order of the RFC, the others zero.\<close>

definition front_lens :: "nat list \<Rightarrow> nat list" where
  "front_lens cls = map (\<lambda>s. (cls @ replicate (19 - length cls) 0) ! length (takeWhile (\<lambda>x. x \<noteq> s) cl_order)) [0..<19]"

record dyn_header =
  dy_lits :: nat
  dy_cls :: "nat list"
  dy_cmds :: "len_cmd list"

definition dy_lens :: "dyn_header \<Rightarrow> nat list" where
  "dy_lens d = cmds_lens 0 (dy_cmds d)"

definition lit_lens :: "dyn_header \<Rightarrow> nat list" where
  "lit_lens d = take (dy_lits d) (dy_lens d)"

definition dist_lens :: "dyn_header \<Rightarrow> nat list" where
  "dist_lens d = drop (dy_lits d) (dy_lens d)"

text \<open>
  A header is well-formed if its counts are those the RFC allows, the three codes are codes with at
  least one symbol, and the commands, whose first one repeats nothing, are symbols of their code.
\<close>

definition dyn_ok :: "dyn_header \<Rightarrow> bool" where
  "dyn_ok d \<longleftrightarrow>
     257 \<le> dy_lits d \<and> dy_lits d \<le> 286 \<and> 1 \<le> length (dist_lens d) \<and> length (dist_lens d) \<le> 32 \<and>
     4 \<le> length (dy_cls d) \<and> length (dy_cls d) \<le> 19 \<and> (\<forall>l \<in> set (dy_cls d). l < 8) \<and>
     code_ok (code_of (front_lens (dy_cls d))) \<and> code_ok (code_of (lit_lens d)) \<and> code_ok (code_of (dist_lens d)) \<and>
     (\<forall>c \<in> set (dy_cmds d). cmd_ok c \<and> cmd_symbol c \<in> symbols_of (front_lens (dy_cls d))) \<and>
     (case dy_cmds d of Copy n # cs \<Rightarrow> False | _ \<Rightarrow> True) \<and>
     256 \<in> symbols_of (lit_lens d)"

definition dyn_bits :: "dyn_header \<Rightarrow> bool list" where
  "dyn_bits d =
     bits_of 5 (of_nat (dy_lits d - 257)) @ bits_of 5 (of_nat (length (dist_lens d) - 1)) @
     bits_of 4 (of_nat (length (dy_cls d) - 4)) @ concat (map (\<lambda>l. bits_of 3 (of_nat l)) (dy_cls d)) @
     cmds_bits (sym_code (front_lens (dy_cls d))) (dy_cmds d)"

lemma length_front_lens [simp]: "length (front_lens cls) = 19"
  by (simp add: front_lens_def)

lemma cl_order_distinct: "distinct cl_order" "length cl_order = 19" "set cl_order = {..<19}"
  by (simp_all add: cl_order_def lessThan_nat_numeral lessThan_Suc insert_commute)

lemma front_lens_nth:
  assumes "j < 19" and "length cls \<le> 19"
  shows "front_lens cls ! (cl_order ! j) = (cls @ replicate (19 - length cls) 0) ! j"
proof -
  have "cl_order ! j \<in> {..<19}" using assms(1) cl_order_distinct(2,3) nth_mem by metis
  moreover have "length (takeWhile (\<lambda>x. x \<noteq> cl_order ! j) cl_order) = j"
  proof -
    have "takeWhile (\<lambda>x. x \<noteq> cl_order ! j) cl_order = take j cl_order"
      by (rule takeWhile_eq_take_P_nth) (use assms(1) cl_order_distinct in \<open>auto simp: nth_eq_iff_index_eq\<close>)
    then show ?thesis using assms(1) cl_order_distinct(2) by simp
  qed
  ultimately show ?thesis by (simp add: front_lens_def)
qed

end
