(* ===== verification/Deflate_Format.thy ===== *)
theory Deflate_Format
  imports Dynamic_Code
begin

text \<open>
  The abstract specification both halves of the codec are checked against: the DEFLATE format of
  RFC 1951. Tokens (literals and back references), the text a token sequence stands for, the fixed
  Huffman codes, the bits of a token in any code, and the three types of blocks. The
  compressor of \<^verbatim>\<open>defl_static.c\<close>/\<^verbatim>\<open>genlz77.c\<close> is shown to write such bits, the
  decompressor of \<^verbatim>\<open>inflater.c\<close> to read them.
\<close>

section \<open>Tokens and the text they denote\<close>

datatype token = Literal u8 | Match nat nat

fun lz_copy :: "u8 list \<Rightarrow> nat \<Rightarrow> nat \<Rightarrow> u8 list" where
  "lz_copy out d 0 = out"
| "lz_copy out d (Suc n) = lz_copy (out @ [out ! (length out - d)]) d n"

fun expand1 :: "u8 list \<Rightarrow> token \<Rightarrow> u8 list" where
  "expand1 out (Literal b) = out @ [b]"
| "expand1 out (Match d l) = lz_copy out d l"

definition expand :: "u8 list \<Rightarrow> token list \<Rightarrow> u8 list" where
  "expand out ts = foldl expand1 out ts"

fun token_ok :: "u8 list \<Rightarrow> token \<Rightarrow> bool" where
  "token_ok out (Literal b) = True"
| "token_ok out (Match d l) = (3 \<le> l \<and> l \<le> 258 \<and> 1 \<le> d \<and> d \<le> 32768 \<and> d \<le> length out)"

fun tokens_ok :: "u8 list \<Rightarrow> token list \<Rightarrow> bool" where
  "tokens_ok out [] = True"
| "tokens_ok out (t # ts) = (token_ok out t \<and> tokens_ok (expand1 out t) ts)"

lemma expand_simps [simp]:
  "expand out [] = out"
  "expand out (t # ts) = expand (expand1 out t) ts"
  by (simp_all add: expand_def)

lemma expand_append: "expand out (ts @ us) = expand (expand out ts) us"
  by (simp add: expand_def)

lemma tokens_ok_append: "tokens_ok out (ts @ us) \<longleftrightarrow> tokens_ok out ts \<and> tokens_ok (expand out ts) us"
  by (induction ts arbitrary: out) auto

lemma lz_copy_length [simp]: "length (lz_copy out d n) = length out + n"
  by (induction n arbitrary: out) auto

lemma lz_copy_add: "lz_copy out d (m + n) = lz_copy (lz_copy out d m) d n"
  by (induction m arbitrary: out) simp_all

lemma lz_copy_prefix: "\<exists>ys. lz_copy out d n = out @ ys \<and> length ys = n"
proof (induction n arbitrary: out)
  case (Suc n)
  obtain ys where "lz_copy (out @ [out ! (length out - d)]) d n =
      (out @ [out ! (length out - d)]) @ ys" "length ys = n"
    using Suc by blast
  then show ?case by (intro exI [of _ "(out ! (length out - d)) # ys"]) simp
qed simp

lemma lz_copy_take: "take (length out) (lz_copy out d n) = out"
  using lz_copy_prefix [of out d n] by auto

lemma expand1_prefix: "\<exists>ys. expand1 out t = out @ ys"
proof (cases t)
  case (Match d l)
  then show ?thesis using lz_copy_prefix [of out d l] by auto
qed simp

lemma expand_prefix: "\<exists>ys. expand out ts = out @ ys"
proof (induction ts arbitrary: out)
  case (Cons t ts)
  obtain ys where 1: "expand1 out t = out @ ys" using expand1_prefix by blast
  obtain zs where "expand (out @ ys) ts = (out @ ys) @ zs" using Cons by blast
  with 1 show ?case by simp
qed simp

lemma expand_length_mono: "length out \<le> length (expand out ts)"
  using expand_prefix [of out ts] by auto

text \<open>A copy out of a text that already agrees with its own shift by \<open>d\<close> reproduces the text.\<close>

lemma lz_copy_text:
  assumes "p + n \<le> length text" and "1 \<le> d" and "d \<le> p"
    and "\<And>i. i < n \<Longrightarrow> text ! (p + i) = text ! (p + i - d)"
  shows "lz_copy (take p text) d n = take (p + n) text"
  using assms
proof (induction n arbitrary: p)
  case (Suc n)
  have p: "p < length text" using Suc.prems(1) by simp
  have "take p text ! (length (take p text) - d) = text ! (p - d)"
    using p Suc.prems(2,3) by simp
  also have "\<dots> = text ! p" using Suc.prems(4) [of 0] by simp
  finally have "take p text @ [take p text ! (length (take p text) - d)] = take (Suc p) text"
    using p by (simp add: take_Suc_conv_app_nth)
  moreover have "lz_copy (take (Suc p) text) d n = take (Suc p + n) text"
  proof (rule Suc.IH)
    fix i assume "i < n"
    then show "text ! (Suc p + i) = text ! (Suc p + i - d)"
      using Suc.prems(4) [of "Suc i"] by simp
  qed (use Suc.prems in simp_all)
  ultimately show ?case by simp
qed simp

section \<open>Length and distance alphabets (RFC 1951, 3.2.5)\<close>

definition len_base :: "nat list" where
  "len_base = [3, 4, 5, 6, 7, 8, 9, 10, 11, 13, 15, 17, 19, 23, 27, 31, 35, 43, 51, 59, 67, 83, 99,
     115, 131, 163, 195, 227, 258]"

definition len_extra :: "nat list" where
  "len_extra = [0, 0, 0, 0, 0, 0, 0, 0, 1, 1, 1, 1, 2, 2, 2, 2, 3, 3, 3, 3, 4, 4, 4, 4, 5, 5, 5, 5, 0]"

definition dist_base :: "nat list" where
  "dist_base = [1, 2, 3, 4, 5, 7, 9, 13, 17, 25, 33, 49, 65, 97, 129, 193, 257, 385, 513, 769, 1025,
     1537, 2049, 3073, 4097, 6145, 8193, 12289, 16385, 24577]"

definition dist_extra :: "nat list" where
  "dist_extra = [0, 0, 0, 0, 1, 1, 2, 2, 3, 3, 4, 4, 5, 5, 6, 6, 7, 7, 8, 8, 9, 9, 10, 10, 11, 11,
     12, 12, 13, 13]"

definition base_index :: "nat list \<Rightarrow> nat \<Rightarrow> nat" where
  "base_index bs v = length (takeWhile (\<lambda>b. b \<le> v) bs) - 1"

definition len_index :: "nat \<Rightarrow> nat" where "len_index l = base_index len_base l"
definition dist_index :: "nat \<Rightarrow> nat" where "dist_index d = base_index dist_base d"

section \<open>Fixed Huffman codes (RFC 1951, 3.2.6) and the bits of a token\<close>

definition fixed_lit_code :: "nat \<Rightarrow> bool list" where
  "fixed_lit_code s =
     (if s < 144 then msb_bits 8 (of_nat (0x30 + s))
      else if s < 256 then msb_bits 9 (of_nat (0x190 + (s - 144)))
      else if s < 280 then msb_bits 7 (of_nat (s - 256))
      else msb_bits 8 (of_nat (0xC0 + (s - 280))))"

definition fixed_dist_code :: "nat \<Rightarrow> bool list" where
  "fixed_dist_code s = msb_bits 5 (of_nat s)"

fun token_bits :: "token \<Rightarrow> bool list" where
  "token_bits (Literal b) = fixed_lit_code (unat b)"
| "token_bits (Match d l) =
     fixed_lit_code (257 + len_index l)
     @ bits_of (len_extra ! len_index l) (of_nat (l - len_base ! len_index l))
     @ fixed_dist_code (dist_index d)
     @ bits_of (dist_extra ! dist_index d) (of_nat (d - dist_base ! dist_index d))"

text \<open>The same in any pair of codes, and the tokens whose symbols the codes have.\<close>

fun coded_bits :: "(nat \<Rightarrow> bool list) \<Rightarrow> (nat \<Rightarrow> bool list) \<Rightarrow> token \<Rightarrow> bool list" where
  "coded_bits lc dc (Literal b) = lc (unat b)"
| "coded_bits lc dc (Match d l) =
     lc (257 + len_index l)
     @ bits_of (len_extra ! len_index l) (of_nat (l - len_base ! len_index l))
     @ dc (dist_index d)
     @ bits_of (dist_extra ! dist_index d) (of_nat (d - dist_base ! dist_index d))"

fun token_coded :: "nat set \<Rightarrow> nat set \<Rightarrow> token \<Rightarrow> bool" where
  "token_coded L D (Literal b) \<longleftrightarrow> unat b \<in> L"
| "token_coded L D (Match d l) \<longleftrightarrow> 257 + len_index l \<in> L \<and> dist_index d \<in> D"

lemma token_bits_coded: "token_bits t = coded_bits fixed_lit_code fixed_dist_code t"
  by (cases t) simp_all

definition tokens_bits :: "token list \<Rightarrow> bool list" where
  "tokens_bits ts = concat (map token_bits ts)"

definition end_of_block :: "bool list" where
  "end_of_block = fixed_lit_code 256"

lemma tokens_bits_simps [simp]:
  "tokens_bits [] = []"
  "tokens_bits (t # ts) = token_bits t @ tokens_bits ts"
  "tokens_bits (ts @ us) = tokens_bits ts @ tokens_bits us"
  by (simp_all add: tokens_bits_def)

lemma end_of_block_eq: "end_of_block = replicate 7 False"
  by (simp add: end_of_block_def fixed_lit_code_def msb_bits_def bits_of_def upt_rec numeral_eq_Suc)

text \<open>The index of the interval \<open>bs ! k \<le> v < bs ! (k + 1)\<close> of an ascending base table.\<close>

lemma base_index_eqI:
  assumes "sorted_wrt (<) bs" and "k < length bs" and "bs ! k \<le> v"
    and "Suc k < length bs \<Longrightarrow> v < bs ! Suc k"
  shows "base_index bs v = k"
proof -
  have "takeWhile (\<lambda>b. b \<le> v) bs = take (Suc k) bs"
  proof (rule takeWhile_eq_take_P_nth)
    fix i assume i: "i < Suc k" "i < length bs"
    then have "bs ! i \<le> bs ! k"
      using sorted_wrt_nth_less [OF assms(1)] assms(2) by (cases "i = k") (auto simp: less_Suc_eq intro: less_imp_le)
    then show "bs ! i \<le> v" using assms(3) by simp
  next
    assume "Suc k < length bs"
    then show "\<not> bs ! Suc k \<le> v" using assms(4) by simp
  qed
  then show ?thesis using assms(2) by (simp add: base_index_def)
qed

lemma base_index_bounds:
  assumes "bs \<noteq> []" and "hd bs \<le> v"
  shows "base_index bs v < length bs" and "bs ! base_index bs v \<le> v"
    and "Suc (base_index bs v) < length bs \<Longrightarrow> v < bs ! Suc (base_index bs v)"
proof -
  let ?t = "takeWhile (\<lambda>b. b \<le> v) bs"
  have ne: "?t \<noteq> []" using assms by (cases bs) auto
  show "base_index bs v < length bs"
    using ne length_takeWhile_le [of "\<lambda>b. b \<le> v" bs] assms(1) by (cases bs) (auto simp: base_index_def)
  have "base_index bs v < length ?t" using ne by (simp add: base_index_def)
  then show "bs ! base_index bs v \<le> v" by (metis nth_mem set_takeWhileD takeWhile_nth)
  show "v < bs ! Suc (base_index bs v)" if "Suc (base_index bs v) < length bs"
    using nth_length_takeWhile [of "\<lambda>b. b \<le> v" bs] ne that by (simp add: base_index_def)
qed

text \<open>The extra bits of an entry cover its interval.\<close>

lemma base_index_extra:
  assumes "bs \<noteq> []" and "hd bs \<le> v" and "v < e" and "length ex = length bs"
    and "list_all2 (\<lambda>(b, b') x. b' - b \<le> 2 ^ x) (zip bs (tl bs @ [e])) ex"
  shows "v - bs ! base_index bs v < 2 ^ (ex ! base_index bs v)"
proof -
  let ?k = "base_index bs v"
  note b = base_index_bounds [OF assms(1,2)]
  have "v < (tl bs @ [e]) ! ?k"
    using b(1,3) assms(1,3) by (cases "Suc ?k < length bs") (auto simp: nth_append nth_tl)
  moreover have "(tl bs @ [e]) ! ?k - bs ! ?k \<le> 2 ^ (ex ! ?k)"
    using list_all2_nthD2 [OF assms(5), of ?k] b(1) assms(4) by simp
  ultimately show ?thesis using b(2) by linarith
qed

lemma format_lengths [simp]:
  "length len_base = 29" "length len_extra = 29" "length dist_base = 30" "length dist_extra = 30"
  by (simp_all add: len_base_def len_extra_def dist_base_def dist_extra_def)

lemma bases_sorted: "sorted_wrt (<) len_base" "sorted_wrt (<) dist_base"
  by (simp_all add: len_base_def dist_base_def)

lemma extras_le: "k < 29 \<Longrightarrow> len_extra ! k \<le> 5" "k < 30 \<Longrightarrow> dist_extra ! k \<le> 13"
proof -
  have "list_all (\<lambda>e. e \<le> 5) len_extra" "list_all (\<lambda>e. e \<le> 13) dist_extra"
    by (simp_all add: len_extra_def dist_extra_def)
  then show "k < 29 \<Longrightarrow> len_extra ! k \<le> 5" "k < 30 \<Longrightarrow> dist_extra ! k \<le> 13"
    by (simp_all add: list_all_length)
qed

lemma len_index_ok:
  assumes "3 \<le> l" and "l \<le> 258"
  shows "len_index l < 29" and "len_base ! len_index l \<le> l" and "l - len_base ! len_index l < 2 ^ (len_extra ! len_index l)"
proof -
  have h: "len_base \<noteq> []" "hd len_base \<le> l" "l < 259" using assms by (auto simp: len_base_def)
  show "len_index l < 29" "len_base ! len_index l \<le> l"
    using base_index_bounds [OF h(1,2)] by (simp_all add: len_index_def)
  show "l - len_base ! len_index l < 2 ^ (len_extra ! len_index l)"
    unfolding len_index_def by (rule base_index_extra [OF h]) (simp, simp add: len_base_def len_extra_def)
qed

lemma dist_index_ok:
  assumes "1 \<le> d" and "d \<le> 32768"
  shows "dist_index d < 30" and "dist_base ! dist_index d \<le> d" and "d - dist_base ! dist_index d < 2 ^ (dist_extra ! dist_index d)"
proof -
  have h: "dist_base \<noteq> []" "hd dist_base \<le> d" "d < 32769" using assms by (auto simp: dist_base_def)
  show "dist_index d < 30" "dist_base ! dist_index d \<le> d"
    using base_index_bounds [OF h(1,2)] by (simp_all add: dist_index_def)
  show "d - dist_base ! dist_index d < 2 ^ (dist_extra ! dist_index d)"
    unfolding dist_index_def by (rule base_index_extra [OF h]) (simp, simp add: dist_base_def dist_extra_def)
qed

text \<open>The fixed codes have the symbols of every token.\<close>

lemma token_ok_coded: "token_ok h t \<Longrightarrow> token_coded {..<288} {..<32} t"
proof (cases t)
  case (Literal b)
  then show ?thesis using unsigned_less [of b, where ?'a = nat] by simp
next
  case (Match d l)
  assume "token_ok h t"
  with Match show ?thesis using len_index_ok(1) [of l] dist_index_ok(1) [of d] by simp
qed

section \<open>Blocks (RFC 1951, 3.2.3, 3.2.4 and 3.2.7)\<close>

text \<open>\<^verbatim>\<open>LEN\<close> and its complement \<^verbatim>\<open>NLEN\<close>.\<close>

definition stored_header :: "nat \<Rightarrow> bool list" where
  "stored_header n = bits_of 16 (of_nat n) @ bits_of 16 (NOT (of_nat n))"

text \<open>
  \<open>block h f view rest h'\<close>: the bits \<open>view\<close> start with a block that extends the text from \<open>h\<close> to \<open>h'\<close>, and
  \<open>rest\<close> is what follows it; \<open>f\<close> is the final flag. The data of a stored block starts at a byte boundary
  and so does what follows it. A block with codes of its own has at least one distance code; the RFC also
  allows such a block to have none, if it consists of literals only.
\<close>

inductive block :: "u8 list \<Rightarrow> bool \<Rightarrow> bool list \<Rightarrow> bool list \<Rightarrow> u8 list \<Rightarrow> bool" where
  block_fixed: "tokens_ok h ts \<Longrightarrow>
     block h f ([f, True, False] @ tokens_bits ts @ end_of_block @ rest) rest (expand h ts)"
| block_stored: "length data < 65536 \<Longrightarrow> length pad < 8 \<Longrightarrow> 8 dvd length rest \<Longrightarrow>
     block h f ([f, False, False] @ pad @ stored_header (length data) @ bytes_bits data @ rest) rest (h @ data)"
| block_dynamic: "dyn_ok d \<Longrightarrow> tokens_ok h ts \<Longrightarrow>
     \<forall>t \<in> set ts. token_coded (symbols_of (lit_lens d)) (symbols_of (dist_lens d)) t \<Longrightarrow>
     block h f ([f, False, True] @ dyn_bits d @
       concat (map (coded_bits (sym_code (lit_lens d)) (sym_code (dist_lens d))) ts) @
       sym_code (lit_lens d) 256 @ rest) rest (expand h ts)"

text \<open>A sequence of blocks; the flag says whether it ends with a final block.\<close>

inductive blocks :: "u8 list \<Rightarrow> bool \<Rightarrow> bool list \<Rightarrow> bool list \<Rightarrow> u8 list \<Rightarrow> bool" where
  blocks_none: "blocks h False rest rest h"
| blocks_final: "block h True view rest h' \<Longrightarrow> blocks h True view rest h'"
| blocks_more: "block h False view mid h1 \<Longrightarrow> blocks h1 fin mid rest h2 \<Longrightarrow> blocks h fin view rest h2"

lemma block_grows: "block h f view rest h' \<Longrightarrow> length h \<le> length h'"
  by (induction rule: block.induct) (auto simp: expand_length_mono)

lemma blocks_grow: "blocks h fin view rest h' \<Longrightarrow> length h \<le> length h'"
  by (induction rule: blocks.induct) (auto dest: block_grows)

lemma blocks_shrink: "blocks h fin view rest h' \<Longrightarrow> length rest \<le> length view"
  by (induction rule: blocks.induct) (auto elim!: block.cases)

text \<open>Tokens that stand for a text on their own stand for it after any other text.\<close>

lemma lz_copy_shift: "1 \<le> d \<Longrightarrow> d \<le> length out \<Longrightarrow> lz_copy (h @ out) d n = h @ lz_copy out d n"
proof (induction n arbitrary: out)
  case (Suc n)
  then have "(h @ out) ! (length (h @ out) - d) = out ! (length out - d)"
    using nth_append_length_plus [of h out "length out - d"] by simp
  with Suc show ?case by simp
qed simp

lemma tokens_shift: "tokens_ok out ts \<Longrightarrow> tokens_ok (h @ out) ts \<and> expand (h @ out) ts = h @ expand out ts"
proof (induction ts arbitrary: out)
  case (Cons t ts)
  then have "expand1 (h @ out) t = h @ expand1 out t" by (cases t) (auto simp: lz_copy_shift)
  moreover have "token_ok (h @ out) t" using Cons.prems by (cases t) auto
  ultimately show ?case using Cons by simp
qed simp

end
