(* ===== verification/Bit_Sink.thy ===== *)
theory Bit_Sink
  imports Muzic_Prelude
begin

text \<open>
  The interface between the bit writer and the encoders that call it: a state with a view of the
  bits written so far, an operation that appends the low \<open>n\<close> bits of a word, and a frame relation
  for what the writer leaves alone. An encoder is specified by the bits it emits, and sequences of
  writes compose.
\<close>

definition emitted ::
  "('s \<Rightarrow> bool) \<Rightarrow> ('s \<Rightarrow> bool list) \<Rightarrow> ('s \<Rightarrow> 's \<Rightarrow> bool) \<Rightarrow> 's \<Rightarrow> bool list \<Rightarrow> 's res \<Rightarrow> bool" where
  "emitted ok view frame s bs r \<longleftrightarrow>
     (\<exists>s'. r = Inr s' \<and> ok s' \<and> view s' = view s @ bs \<and> frame s s')"

locale bit_sink =
  fixes ok :: "'s \<Rightarrow> bool"
    and view :: "'s \<Rightarrow> bool list"
    and frame :: "'s \<Rightarrow> 's \<Rightarrow> bool"
    and put :: "'s \<Rightarrow> u32 \<Rightarrow> nat \<Rightarrow> 's res"
    and max_put :: nat
  assumes frame_refl: "frame s s"
    and frame_trans: "frame s t \<Longrightarrow> frame t u \<Longrightarrow> frame s u"
    and put_emits: "ok s \<Longrightarrow> n \<le> max_put \<Longrightarrow> take_bit n v = v \<Longrightarrow>
      emitted ok view frame s (bits_of n v) (put s v n)"
begin

lemma emitted_skip: "ok s \<Longrightarrow> emitted ok view frame s [] (Inr s)"
  by (simp add: emitted_def frame_refl)

lemma emitted_bind:
  assumes "emitted ok view frame s as m"
    and "\<And>s'. m = Inr s' \<Longrightarrow> ok s' \<Longrightarrow> frame s s' \<Longrightarrow> emitted ok view frame s' bs (f s')"
  shows "emitted ok view frame s (as @ bs) (bindR m f)"
proof -
  obtain s1 where 1: "m = Inr s1" "ok s1" "view s1 = view s @ as" "frame s s1"
    using assms(1) by (auto simp: emitted_def)
  obtain s2 where "f s1 = Inr s2" "ok s2" "view s2 = view s1 @ bs" "frame s1 s2"
    using assms(2) [OF 1(1,2,4)] by (auto simp: emitted_def)
  with 1 show ?thesis by (auto simp: emitted_def intro: frame_trans)
qed

lemma emitted_put_bind:
  assumes "ok s" and "n \<le> max_put" and "take_bit n v = v"
    and "\<And>s'. ok s' \<Longrightarrow> frame s s' \<Longrightarrow> emitted ok view frame s' bs (f s')"
  shows "emitted ok view frame s (bits_of n v @ bs) (bindR (put s v n) f)"
  using assms by (intro emitted_bind put_emits) auto

text \<open>A field that is only written when it is not empty.\<close>

lemma emitted_optional:
  assumes "ok s" and "n \<le> max_put" and "take_bit n v = v"
  shows "emitted ok view frame s (bits_of n v) (if n > 0 then put s v n else Inr s)"
  using assms put_emits emitted_skip by auto

end

end
