(* ===== verification/Defl_Static.thy ===== *)
theory Defl_Static
  imports Deflate_Format Bit_Sink
begin

text \<open>
  \<^verbatim>\<open>muzic/defl_static.c\<close>: the bit writer \<^verbatim>\<open>outbits\<close> with its growing output buffer, and the
  fixed-Huffman encoder for literals, matches and block boundaries. Each operation is shown to
  append exactly the bits of the format specification to the output.
\<close>

section \<open>The compressor state\<close>

text \<open>
  A heap pointer into a block obtained from \<^verbatim>\<open>realloc\<close>: null, dangling after \<^verbatim>\<open>free\<close>, or at
  offset \<open>off\<close> of a block of \<open>cap\<close> bytes of which the prefix \<open>data\<close> has been initialised.
\<close>

datatype heap_ptr = PNull | PFreed | PHeap (hdata: "u8 list") (hcap: nat) (hoff: nat)

text \<open>
  \<^verbatim>\<open>struct uzlib_comp\<close> of \<^verbatim>\<open>uzlib.h\<close>. The field \<^verbatim>\<open>outbits\<close> is called \<open>obits\<close> here; the
  hash table holds pointers into the source buffer, as offsets (\<open>None\<close> is the null pointer).
\<close>

record uzlib_comp =
  outbuf :: heap_ptr
  outlen :: nat
  outsize :: nat
  obits :: u32
  noutbits :: nat
  comp_disabled :: bool
  hash_table :: "nat \<Rightarrow> nat option"
  hash_bits :: nat
  dict_size :: nat

fun heap_realloc :: "heap_ptr \<Rightarrow> nat \<Rightarrow> heap_ptr res" where
  "heap_realloc PNull n = Inr (PHeap [] n 0)"
| "heap_realloc PFreed n = Inl UseAfterFree"
| "heap_realloc (PHeap d c off) n = (if off = 0 then Inr (PHeap (take n d) n 0) else Inl OutOfBounds)"

fun heap_store :: "heap_ptr \<Rightarrow> nat \<Rightarrow> u8 \<Rightarrow> heap_ptr res" where
  "heap_store PNull i v = Inl NullPointer"
| "heap_store PFreed i v = Inl UseAfterFree"
| "heap_store (PHeap d c off) i v =
     (if off + i \<ge> c then Inl OutOfBounds
      else if off + i < length d then Inr (PHeap (d[off + i := v]) c off)
      else if off + i = length d then Inr (PHeap (d @ [v]) c off)
      else Inl Uninitialised)"

section \<open>Operations\<close>

text \<open>The body of the \<^verbatim>\<open>while\<close> loop of \<^verbatim>\<open>outbits\<close> (lines 71-79) and the loop.\<close>

definition outbits_grow :: "uzlib_comp \<Rightarrow> uzlib_comp res" where
  "outbits_grow out =
     (if outlen out \<ge> outsize out then
        bindR (heap_realloc (outbuf out) (outlen out + 64)) (\<lambda>b.
          Inr (out\<lparr>outsize := outlen out + 64, outbuf := b\<rparr>))
      else Inr out)"

definition outbits_flush1 :: "uzlib_comp \<Rightarrow> uzlib_comp res" where
  "outbits_flush1 out =
     bindR (outbits_grow out) (\<lambda>out.
     bindR (heap_store (outbuf out) (outlen out) (ucast (obits out AND 0xFF))) (\<lambda>b.
       Inr (out\<lparr>outbuf := b, outlen := outlen out + 1, obits := drop_bit 8 (obits out),
             noutbits := noutbits out - 8\<rparr>)))"

lemma outbits_flush1_noutbits:
  "outbits_flush1 out = Inr out' \<Longrightarrow> noutbits out' = noutbits out - 8"
  by (auto simp: outbits_flush1_def outbits_grow_def bindR_eq_Inr split: if_splits)

function outbits_loop :: "uzlib_comp \<Rightarrow> uzlib_comp res" where
  "outbits_loop out =
     (if noutbits out \<ge> 8 then bindR (outbits_flush1 out) outbits_loop else Inr out)"
  by pat_completeness auto
termination
  by (relation "measure noutbits") (auto dest: outbits_flush1_noutbits)

declare outbits_loop.simps [simp del]

definition outbits :: "uzlib_comp \<Rightarrow> u32 \<Rightarrow> nat \<Rightarrow> uzlib_comp res" where
  "outbits out bits nbits =
     assertR (noutbits out + nbits \<le> 32)
       (if noutbits out \<ge> 32 then Inl ShiftRange
        else outbits_loop (out\<lparr>obits := obits out OR push_bit (noutbits out) bits,
                               noutbits := noutbits out + nbits\<rparr>))"

definition reverseByte :: "u8 \<Rightarrow> u8" where
  "reverseByte b =
     (let b = drop_bit 4 (b AND 0xF0) OR push_bit 4 (b AND 0x0F);
          b = drop_bit 2 (b AND 0xCC) OR push_bit 2 (b AND 0x33);
          b = drop_bit 1 (b AND 0xAA) OR push_bit 1 (b AND 0x55)
      in b)"

text \<open>The table used instead of \<^verbatim>\<open>reverseByte\<close> when \<^verbatim>\<open>MZ_OPTIMIZE_SIZE\<close> is not defined.\<close>

definition mirrorbytes :: "u8 list" where
  "mirrorbytes = [
    0x00, 0x80, 0x40, 0xc0, 0x20, 0xa0, 0x60, 0xe0, 0x10, 0x90, 0x50, 0xd0, 0x30, 0xb0, 0x70, 0xf0,
    0x08, 0x88, 0x48, 0xc8, 0x28, 0xa8, 0x68, 0xe8, 0x18, 0x98, 0x58, 0xd8, 0x38, 0xb8, 0x78, 0xf8,
    0x04, 0x84, 0x44, 0xc4, 0x24, 0xa4, 0x64, 0xe4, 0x14, 0x94, 0x54, 0xd4, 0x34, 0xb4, 0x74, 0xf4,
    0x0c, 0x8c, 0x4c, 0xcc, 0x2c, 0xac, 0x6c, 0xec, 0x1c, 0x9c, 0x5c, 0xdc, 0x3c, 0xbc, 0x7c, 0xfc,
    0x02, 0x82, 0x42, 0xc2, 0x22, 0xa2, 0x62, 0xe2, 0x12, 0x92, 0x52, 0xd2, 0x32, 0xb2, 0x72, 0xf2,
    0x0a, 0x8a, 0x4a, 0xca, 0x2a, 0xaa, 0x6a, 0xea, 0x1a, 0x9a, 0x5a, 0xda, 0x3a, 0xba, 0x7a, 0xfa,
    0x06, 0x86, 0x46, 0xc6, 0x26, 0xa6, 0x66, 0xe6, 0x16, 0x96, 0x56, 0xd6, 0x36, 0xb6, 0x76, 0xf6,
    0x0e, 0x8e, 0x4e, 0xce, 0x2e, 0xae, 0x6e, 0xee, 0x1e, 0x9e, 0x5e, 0xde, 0x3e, 0xbe, 0x7e, 0xfe,
    0x01, 0x81, 0x41, 0xc1, 0x21, 0xa1, 0x61, 0xe1, 0x11, 0x91, 0x51, 0xd1, 0x31, 0xb1, 0x71, 0xf1,
    0x09, 0x89, 0x49, 0xc9, 0x29, 0xa9, 0x69, 0xe9, 0x19, 0x99, 0x59, 0xd9, 0x39, 0xb9, 0x79, 0xf9,
    0x05, 0x85, 0x45, 0xc5, 0x25, 0xa5, 0x65, 0xe5, 0x15, 0x95, 0x55, 0xd5, 0x35, 0xb5, 0x75, 0xf5,
    0x0d, 0x8d, 0x4d, 0xcd, 0x2d, 0xad, 0x6d, 0xed, 0x1d, 0x9d, 0x5d, 0xdd, 0x3d, 0xbd, 0x7d, 0xfd,
    0x03, 0x83, 0x43, 0xc3, 0x23, 0xa3, 0x63, 0xe3, 0x13, 0x93, 0x53, 0xd3, 0x33, 0xb3, 0x73, 0xf3,
    0x0b, 0x8b, 0x4b, 0xcb, 0x2b, 0xab, 0x6b, 0xeb, 0x1b, 0x9b, 0x5b, 0xdb, 0x3b, 0xbb, 0x7b, 0xfb,
    0x07, 0x87, 0x47, 0xc7, 0x27, 0xa7, 0x67, 0xe7, 0x17, 0x97, 0x57, 0xd7, 0x37, 0xb7, 0x77, 0xf7,
    0x0f, 0x8f, 0x4f, 0xcf, 0x2f, 0xaf, 0x6f, 0xef, 0x1f, 0x9f, 0x5f, 0xdf, 0x3f, 0xbf, 0x7f, 0xff]"

record len_coderecord =
  l_extrabits :: nat
  l_min :: nat
  l_max :: nat

record dist_coderecord =
  d_code :: nat
  d_extrabits :: nat
  d_min :: nat
  d_max :: nat

definition TO_LCODE :: "nat \<Rightarrow> nat \<Rightarrow> nat \<Rightarrow> len_coderecord" where
  "TO_LCODE e x y = \<lparr>l_extrabits = e, l_min = x - 3, l_max = y - 3\<rparr>"

definition FROM_LCODE :: "nat \<Rightarrow> nat" where
  "FROM_LCODE x = x + 3"

definition DCODE :: "nat \<Rightarrow> nat \<Rightarrow> nat \<Rightarrow> nat \<Rightarrow> dist_coderecord" where
  "DCODE c e x y = \<lparr>d_code = c, d_extrabits = e, d_min = x, d_max = y\<rparr>"

definition lencodes :: "len_coderecord list" where
  "lencodes = [
    TO_LCODE 0 3 3,     TO_LCODE 0 4 4,     TO_LCODE 0 5 5,
    TO_LCODE 0 6 6,     TO_LCODE 0 7 7,     TO_LCODE 0 8 8,
    TO_LCODE 0 9 9,     TO_LCODE 0 10 10,   TO_LCODE 1 11 12,
    TO_LCODE 1 13 14,   TO_LCODE 1 15 16,   TO_LCODE 1 17 18,
    TO_LCODE 2 19 22,   TO_LCODE 2 23 26,   TO_LCODE 2 27 30,
    TO_LCODE 2 31 34,   TO_LCODE 3 35 42,   TO_LCODE 3 43 50,
    TO_LCODE 3 51 58,   TO_LCODE 3 59 66,   TO_LCODE 4 67 82,
    TO_LCODE 4 83 98,   TO_LCODE 4 99 114,  TO_LCODE 4 115 130,
    TO_LCODE 5 131 162, TO_LCODE 5 163 194, TO_LCODE 5 195 226,
    TO_LCODE 5 227 257, TO_LCODE 0 258 258]"

definition distcodes :: "dist_coderecord list" where
  "distcodes = [
    DCODE 0 0 1 1,           DCODE 1 0 2 2,           DCODE 2 0 3 3,          DCODE 3 0 4 4,
    DCODE 4 1 5 6,           DCODE 5 1 7 8,           DCODE 6 2 9 12,         DCODE 7 2 13 16,
    DCODE 8 3 17 24,         DCODE 9 3 25 32,         DCODE 10 4 33 48,       DCODE 11 4 49 64,
    DCODE 12 5 65 96,        DCODE 13 5 97 128,       DCODE 14 6 129 192,     DCODE 15 6 193 256,
    DCODE 16 7 257 384,      DCODE 17 7 385 512,      DCODE 18 8 513 768,     DCODE 19 8 769 1024,
    DCODE 20 9 1025 1536,    DCODE 21 9 1537 2048,    DCODE 22 10 2049 3072,  DCODE 23 10 3073 4096,
    DCODE 24 11 4097 6144,   DCODE 25 11 6145 8192,   DCODE 26 12 8193 12288, DCODE 27 12 12289 16384,
    DCODE 28 13 16385 24576, DCODE 29 13 24577 32768]"

definition zlib_literal :: "uzlib_comp \<Rightarrow> u8 \<Rightarrow> uzlib_comp res" where
  "zlib_literal out c =
     (if comp_disabled out then outbits out (ucast c) 8
      else if c \<le> 143 then outbits out (ucast (reverseByte (0x30 + c))) 8
      else outbits out (1 + 2 * ucast (reverseByte (0x90 - 144 + c))) 9)"

text \<open>
  The binary search of \<^verbatim>\<open>zlib_match\<close>, which occurs twice (lines 195-208 and 233-246): \<open>lo k\<close> and
  \<open>hi k\<close> are the bounds of the k-th table entry; the result is the index found.
\<close>

function code_search :: "(nat \<Rightarrow> nat) \<Rightarrow> (nat \<Rightarrow> nat) \<Rightarrow> nat \<Rightarrow> int \<Rightarrow> int \<Rightarrow> nat res" where
  "code_search lo hi v i j =
     (if j - i \<ge> 2 then
        let k = (j + i) div 2 in
        if v < lo (nat k) then code_search lo hi v i k
        else if v > hi (nat k) then code_search lo hi v k j
        else Inr (nat k)
      else Inl AssertFail)"
  by pat_completeness auto
termination
  by (relation "measure (\<lambda>(lo, hi, v, i, j). nat (j - i))") auto

declare code_search.simps [simp del]

definition find_lencode :: "nat \<Rightarrow> nat res" where
  "find_lencode thislen =
     code_search (\<lambda>k. FROM_LCODE (l_min (lencodes ! k))) (\<lambda>k. FROM_LCODE (l_max (lencodes ! k)))
       thislen (-1) (int (length lencodes))"

definition find_distcode :: "nat \<Rightarrow> nat res" where
  "find_distcode distance =
     code_search (\<lambda>k. d_min (distcodes ! k)) (\<lambda>k. d_max (distcodes ! k))
       distance (-1) (int (length distcodes))"

text \<open>One round of the \<^verbatim>\<open>while (len > 0)\<close> loop of \<^verbatim>\<open>zlib_match\<close>, for a piece of length \<open>thislen\<close>.\<close>

definition zlib_match_len :: "uzlib_comp \<Rightarrow> nat \<Rightarrow> uzlib_comp res" where
  "zlib_match_len out thislen =
     bindR (find_lencode thislen) (\<lambda>k.
     let l = lencodes ! k; lcode = k + 257 in
     bindR (if lcode \<le> 279 then outbits out (ucast (reverseByte (of_nat ((lcode - 256) * 2)))) 7
            else outbits out (ucast (reverseByte (of_nat (0xc0 + lcode - 280)))) 8) (\<lambda>out.
     if l_extrabits l > 0
     then outbits out (of_nat (thislen - FROM_LCODE (l_min l))) (l_extrabits l)
     else Inr out))"

definition zlib_match_dist :: "uzlib_comp \<Rightarrow> nat \<Rightarrow> uzlib_comp res" where
  "zlib_match_dist out distance =
     bindR (find_distcode distance) (\<lambda>k.
     let d = distcodes ! k in
     bindR (outbits out (ucast (reverseByte (of_nat (d_code d * 8)))) 5) (\<lambda>out.
     if d_extrabits d > 0
     then outbits out (of_nat (distance - d_min d)) (d_extrabits d)
     else Inr out))"

definition piece_len :: "nat \<Rightarrow> nat" where
  "piece_len len = (if len > 260 then 258 else if len \<le> 258 then len else len - 3)"

function zlib_match_loop :: "uzlib_comp \<Rightarrow> nat \<Rightarrow> nat \<Rightarrow> uzlib_comp res" where
  "zlib_match_loop out distance len =
     (if len > 0 then
        let thislen = piece_len len in
        bindR (zlib_match_len out thislen) (\<lambda>out.
        bindR (zlib_match_dist out distance) (\<lambda>out.
          zlib_match_loop out distance (len - thislen)))
      else Inr out)"
  by pat_completeness auto
termination
  by (relation "measure (\<lambda>(_, _, len). len)") (auto simp: piece_len_def split: if_splits)

declare zlib_match_loop.simps [simp del]

definition zlib_match :: "uzlib_comp \<Rightarrow> nat \<Rightarrow> nat \<Rightarrow> uzlib_comp res" where
  "zlib_match out distance len =
     assertR (\<not> comp_disabled out) (zlib_match_loop out distance len)"

definition zlib_start_block :: "uzlib_comp \<Rightarrow> uzlib_comp res" where
  "zlib_start_block out = bindR (outbits out 1 1) (\<lambda>out. outbits out 1 2)"

definition zlib_finish_block :: "uzlib_comp \<Rightarrow> uzlib_comp res" where
  "zlib_finish_block out = bindR (outbits out 0 7) (\<lambda>out. outbits out 0 7)"

section \<open>The bit writer\<close>

definition comp_bytes :: "uzlib_comp \<Rightarrow> u8 list" where
  "comp_bytes c = (case outbuf c of PHeap d cap off \<Rightarrow> drop off d | _ \<Rightarrow> [])"

definition comp_bits :: "uzlib_comp \<Rightarrow> bool list" where
  "comp_bits c = bytes_bits (comp_bytes c) @ bits_of (noutbits c) (obits c)"

definition comp_frame :: "uzlib_comp \<Rightarrow> uzlib_comp \<Rightarrow> bool" where
  "comp_frame c c' \<longleftrightarrow> comp_disabled c' = comp_disabled c \<and> hash_table c' = hash_table c \<and>
     hash_bits c' = hash_bits c \<and> dict_size c' = dict_size c"

text \<open>
  The buffer is null and empty or a block at its base whose initialised part is exactly the
  \<^verbatim>\<open>outlen\<close> bytes written, within the capacity \<^verbatim>\<open>outsize\<close>.
\<close>

definition buf_inv :: "uzlib_comp \<Rightarrow> bool" where
  "buf_inv c \<longleftrightarrow>
     (outbuf c = PNull \<and> outlen c = 0 \<and> outsize c = 0) \<or>
     (\<exists>d. outbuf c = PHeap d (outsize c) 0 \<and> length d = outlen c \<and> outlen c \<le> outsize c)"

definition comp_inv :: "uzlib_comp \<Rightarrow> bool" where
  "comp_inv c \<longleftrightarrow> buf_inv c \<and> noutbits c < 8 \<and> take_bit (noutbits c) (obits c) = obits c"

lemma buf_inv_bytes: "buf_inv c \<Longrightarrow> length (comp_bytes c) = outlen c"
  by (auto simp: buf_inv_def comp_bytes_def)

lemma outbits_grow_ok:
  assumes "buf_inv c"
  shows "\<exists>d n. outbits_grow c = Inr (c\<lparr>outbuf := PHeap d n 0, outsize := n\<rparr>)
           \<and> length d = outlen c \<and> outlen c < n \<and> d = comp_bytes c"
proof (cases "outlen c \<ge> outsize c")
  case True
  with assms show ?thesis
    by (auto simp: buf_inv_def outbits_grow_def comp_bytes_def
        intro!: exI [of _ "outlen c + 64"])
next
  case False
  with assms obtain d where "outbuf c = PHeap d (outsize c) 0" "length d = outlen c"
    by (auto simp: buf_inv_def)
  with False show ?thesis
    by (intro exI [of _ d] exI [of _ "outsize c"]) (simp add: outbits_grow_def comp_bytes_def)
qed

lemma outbits_flush1_ok:
  assumes "buf_inv c" and "8 \<le> noutbits c" and "noutbits c \<le> 32"
    and "take_bit (noutbits c) (obits c) = obits c"
  shows "\<exists>c'. outbits_flush1 c = Inr c' \<and> buf_inv c' \<and> noutbits c' = noutbits c - 8 \<and>
     take_bit (noutbits c') (obits c') = obits c' \<and> comp_bits c' = comp_bits c \<and> comp_frame c c'"
proof -
  obtain d n where g: "outbits_grow c = Inr (c\<lparr>outbuf := PHeap d n 0, outsize := n\<rparr>)"
    and d: "length d = outlen c" "outlen c < n" "d = comp_bytes c"
    using outbits_grow_ok [OF assms(1)] by blast
  let ?b = "ucast (obits c AND 0xFF) :: u8"
  let ?c' = "c\<lparr>outbuf := PHeap (d @ [?b]) n 0, outsize := n, outlen := outlen c + 1,
      obits := drop_bit 8 (obits c), noutbits := noutbits c - 8\<rparr>"
  have s: "outbits_flush1 c = Inr ?c'"
    using g d by (simp add: outbits_flush1_def)
  have "obits c AND 0xFF = take_bit 8 (obits c)" by (simp add: take_bit_eq_mask mask_eq_exp_minus_1)
  then have bb: "byte_bits ?b = bits_of 8 (obits c)"
    by (intro nth_equalityI) (auto simp: bit_simps)
  have "bits_of (noutbits c) (obits c) = bits_of 8 (obits c) @ bits_of (noutbits c - 8) (drop_bit 8 (obits c))"
    using assms(2) bits_of_add [of 8 "noutbits c - 8" "obits c"] by simp
  moreover have "comp_bytes ?c' = comp_bytes c @ [?b]"
    unfolding d(3) [symmetric] by (simp add: comp_bytes_def)
  ultimately have "comp_bits ?c' = comp_bits c"
    using bb unfolding comp_bits_def by simp
  moreover have "buf_inv ?c'" using d by (auto simp: buf_inv_def)
  moreover have "take_bit (noutbits ?c') (obits ?c') = obits ?c'"
    using take_bit_drop_bit_self [OF assms(4), of 8] by simp
  ultimately show ?thesis using s by (auto simp: comp_frame_def)
qed

lemma outbits_loop_ok:
  assumes "buf_inv c" and "noutbits c \<le> 32" and "take_bit (noutbits c) (obits c) = obits c"
  shows "\<exists>c'. outbits_loop c = Inr c' \<and> comp_inv c' \<and> comp_bits c' = comp_bits c \<and> comp_frame c c'"
  using assms
proof (induction c rule: measure_induct_rule [where f = noutbits])
  case (less c)
  show ?case
  proof (cases "noutbits c \<ge> 8")
    case True
    obtain c1 where c1: "outbits_flush1 c = Inr c1" "buf_inv c1" "noutbits c1 = noutbits c - 8"
        "take_bit (noutbits c1) (obits c1) = obits c1" "comp_bits c1 = comp_bits c" "comp_frame c c1"
      using outbits_flush1_ok [OF less.prems(1) True less.prems(2,3)] by blast
    moreover have "noutbits c1 < noutbits c" "noutbits c1 \<le> 32"
      using c1(3) True less.prems(2) by auto
    ultimately obtain c2 where "outbits_loop c1 = Inr c2" "comp_inv c2" "comp_bits c2 = comp_bits c1"
        "comp_frame c1 c2"
      using less.IH [of c1] by blast
    with c1 True show ?thesis by (auto simp: outbits_loop.simps [of c] comp_frame_def)
  next
    case False
    with less.prems show ?thesis
      by (auto simp: outbits_loop.simps [of c] comp_inv_def comp_frame_def)
  qed
qed

lemma outbits_ok:
  assumes "comp_inv c" and "n \<le> 24" and "take_bit n v = v"
  shows "emitted comp_inv comp_bits comp_frame c (bits_of n v) (outbits c v n)"
proof -
  have c: "buf_inv c" "noutbits c < 8" "take_bit (noutbits c) (obits c) = obits c"
    using assms(1) by (auto simp: comp_inv_def)
  let ?c = "c\<lparr>obits := obits c OR push_bit (noutbits c) v, noutbits := noutbits c + n\<rparr>"
  have le: "noutbits c + n \<le> 32" using c(2) assms(2) by simp
  have "comp_bits ?c = comp_bits c @ bits_of n v"
    using bits_of_or_push [OF c(3) le, of v] by (simp add: comp_bits_def comp_bytes_def)
  moreover have "buf_inv ?c" using c(1) by (simp add: buf_inv_def)
  moreover have "take_bit (noutbits ?c) (obits ?c) = obits ?c"
    using take_bit_or_push [OF c(3) assms(3)] by simp
  ultimately show ?thesis
    using outbits_loop_ok [of ?c] le c(2) by (auto simp: outbits_def emitted_def comp_frame_def)
qed

interpretation ob: bit_sink comp_inv comp_bits comp_frame outbits 24
  by unfold_locales (auto simp: comp_frame_def outbits_ok)

section \<open>Bit reversal\<close>

lemma bit_reverseByte:
  assumes "i < 8"
  shows "bit (reverseByte b) i = bit b (7 - i)"
proof -
  have "i = 0 \<or> i = 1 \<or> i = 2 \<or> i = 3 \<or> i = 4 \<or> i = 5 \<or> i = 6 \<or> i = 7"
    using assms by arith
  then show ?thesis
    unfolding reverseByte_def Let_def bit_or_iff bit_and_iff bit_drop_bit_eq bit_push_bit_iff comp_def
    by (elim disjE; hypsubst; simp)
qed

lemma bit_reverseByte_iff: "bit (reverseByte b) i \<longleftrightarrow> i < 8 \<and> bit b (7 - i)"
  using bit_reverseByte [of i b] bit_imp_le_length [of "reverseByte b" i] by auto


lemma reverse_code:
  assumes "n \<le> 8"
  shows "bits_of n (ucast (reverseByte (of_nat (x * 2 ^ (8 - n))))) = msb_bits n (of_nat x)"
    and "take_bit n (ucast (reverseByte (of_nat (x * 2 ^ (8 - n)))) :: u32) = ucast (reverseByte (of_nat (x * 2 ^ (8 - n))))"
proof -
  define w :: u8 where "w = of_nat (x * 2 ^ (8 - n))"
  have b: "bit w j \<longleftrightarrow> j < 8 \<and> 8 - n \<le> j \<and> bit x (j - (8 - n))" for j
    by (auto simp: w_def bit_simps bit_of_nat_iff push_bit_eq_mult [symmetric] simp del: of_nat_mult)
  show "bits_of n (ucast (reverseByte (of_nat (x * 2 ^ (8 - n))))) = msb_bits n (of_nat x)"
    unfolding w_def [symmetric] using assms
    by (intro nth_equalityI) (auto simp: msb_bits_def rev_nth bit_simps bit_reverseByte b bit_of_nat_iff)
  show "take_bit n (ucast (reverseByte (of_nat (x * 2 ^ (8 - n)))) :: u32) = ucast (reverseByte (of_nat (x * 2 ^ (8 - n))))"
    unfolding w_def [symmetric] using assms
    by (intro bit_word_eqI) (auto simp: bit_simps bit_reverseByte_iff b)
qed


lemma bits_of_rev8:
  "bits_of 8 (ucast (reverseByte b)) = msb_bits 8 (of_nat (unat b))"
proof -
  have "(ucast b :: u32) = of_nat (unat b)" by simp
  moreover have "byte_bits (reverseByte b) = rev (byte_bits b)"
    by (rule nth_equalityI) (auto simp: bit_reverseByte rev_nth)
  ultimately show ?thesis by (simp add: msb_bits_def byte_bits_eq_bits_of)
qed

lemma literal9_bits:
  assumes "144 \<le> unat c"
  shows "bits_of 9 (1 + 2 * ucast (reverseByte c)) = msb_bits 9 (of_nat (0x190 + (unat c - 144)))"
    and "take_bit 9 (1 + 2 * ucast (reverseByte c) :: u32) = 1 + 2 * ucast (reverseByte c)"
proof -
  let ?r = "ucast (reverseByte c) :: u32"
  have t: "take_bit 1 (1 :: u32) = 1" by simp
  have v: "1 + 2 * ?r = 1 OR push_bit 1 ?r"
    unfolding or_push_add [OF t] by (simp add: push_bit_eq_mult)
  have "bits_of (1 + 8) (1 OR push_bit 1 ?r) = bits_of 1 1 @ bits_of 8 ?r"
    by (rule bits_of_or_push [OF t]) simp
  then have l: "bits_of 9 (1 + 2 * ?r) = True # rev (bits_of 8 (of_nat (unat c)))"
    unfolding v by (simp add: bits_of_rev8 msb_bits_def bits_of_def [of 1] bits_of_def [of "Suc 0"])
  have "(of_nat (unat c) :: u32) = ucast c" by simp
  then have c8: "take_bit 8 (of_nat (unat c) :: u32) = of_nat (unat c)"
    by (metis take_bit_ucast_byte)
  have "of_nat (0x190 + (unat c - 144)) = of_nat (unat c) + push_bit 8 (1 :: u32)"
    using assms by (simp add: of_nat_diff)
  also have "\<dots> = of_nat (unat c) OR push_bit 8 1" by (rule or_push_add [OF c8, symmetric])
  finally have "bits_of (8 + 1) (of_nat (0x190 + (unat c - 144)))
      = bits_of 8 (of_nat (unat c)) @ bits_of 1 1"
    using bits_of_or_push [OF c8, of 1 1] by simp
  then show "bits_of 9 (1 + 2 * ?r) = msb_bits 9 (of_nat (0x190 + (unat c - 144)))"
    unfolding l by (simp add: msb_bits_def bits_of_def [of 1] bits_of_def [of "Suc 0"])
  have "take_bit (1 + 8) (1 OR push_bit 1 ?r) = 1 OR push_bit 1 ?r"
    by (rule take_bit_or_push [OF t]) simp
  then show "take_bit 9 (1 + 2 * ?r) = 1 + 2 * ?r" unfolding v by simp
qed

lemma zlib_literal_emits:
  assumes "comp_inv out" and "\<not> comp_disabled out"
  shows "emitted comp_inv comp_bits comp_frame out (token_bits (Literal c)) (zlib_literal out c)"
proof (cases "c \<le> 143")
  case True
  then have c: "unat c < 144" by (simp add: word_le_nat_alt)
  then have "unat (0x30 + c) = 0x30 + unat c" by (simp add: unat_word_ariths)
  with ob.put_emits [OF assms(1), of 8 "ucast (reverseByte (0x30 + c))"] True assms(2) c
  show ?thesis by (simp add: zlib_literal_def fixed_lit_code_def bits_of_rev8)
next
  case False
  then have c: "144 \<le> unat c" "unat c < 256"
    using unsigned_less [of c, where ?'a = nat] by (simp_all add: word_le_nat_alt)
  with ob.put_emits [OF assms(1) _ literal9_bits(2) [OF c(1)]] literal9_bits(1) [OF c(1)] False assms(2)
  show ?thesis by (simp add: zlib_literal_def fixed_lit_code_def)
qed

fun reverse_table :: "u8 \<Rightarrow> u8 list \<Rightarrow> bool" where
  "reverse_table i [] = True"
| "reverse_table i (x # xs) = (reverseByte i = x \<and> reverse_table (i + 1) xs)"

lemma reverse_table_nth: "reverse_table i xs \<Longrightarrow> k < length xs \<Longrightarrow> xs ! k = reverseByte (i + of_nat k)"
proof (induction xs arbitrary: i k)
  case (Cons x xs)
  then show ?case using Cons.IH [of "i + 1" "k - 1"] by (cases k) (auto simp: add_ac)
qed simp

lemma mirrorbytes_table: "reverse_table 0 mirrorbytes"
  by (simp add: mirrorbytes_def reverseByte_def Let_def)

section \<open>The code tables and their binary search\<close>

lemma code_search_finds:
  assumes "i < int k" and "int k < j" and "-1 \<le> i"
    and "lo k \<le> v" and "v \<le> hi k"
    and "\<And>m. m < k \<Longrightarrow> hi m < v \<and> lo m \<le> v" and "\<And>m. k < m \<Longrightarrow> int m < j \<Longrightarrow> v < lo m"
  shows "code_search lo hi v i j = Inr k"
  using assms
proof (induction lo hi v i j rule: code_search.induct)
  case (1 lo hi v i j)
  define m where "m = (j + i) div 2"
  have d: "2 \<le> j - i" using "1.prems"(1,2) by linarith
  have m: "0 \<le> m" "m < j" "i < m" using "1.prems"(1,2,3) by (auto simp: m_def)
  consider (lt) "m < int k" | (eq) "nat m = k" | (gt) "int k < m" using m(1) by linarith
  then show ?case
  proof cases
    case lt
    then have h: "hi (nat m) < v" "\<not> v < lo (nat m)"
      using "1.prems"(6) [of "nat m"] m by (auto simp: not_less)
    then have "code_search lo hi v i j = code_search lo hi v m j"
      using d by (subst code_search.simps) (simp add: Let_def m_def)
    also have "\<dots> = Inr k"
      using "1.IH"(2) [OF d m_def h(2) h(1)] "1.prems" m lt by simp
    finally show ?thesis .
  next
    case eq
    with d "1.prems"(4,5) show ?thesis
      by (subst code_search.simps) (simp add: Let_def m_def [symmetric])
  next
    case gt
    then have h: "v < lo (nat m)" using "1.prems"(7) [of "nat m"] m by auto
    then have "code_search lo hi v i j = code_search lo hi v i m"
      using d by (subst code_search.simps) (simp add: Let_def m_def)
    also have "\<dots> = Inr k"
      using "1.IH"(1) [OF d m_def h] "1.prems" m gt by simp
    finally show ?thesis .
  qed
qed

text \<open>A table of adjacent intervals: the search finds the one that holds the value.\<close>

lemma code_search_intervals:
  assumes bs: "bs \<noteq> []" "sorted_wrt (<) bs" and v: "hd bs \<le> v" "v < e"
    and lo: "\<And>k. k < length bs \<Longrightarrow> lo k = bs ! k"
    and hi: "\<And>k. Suc k < length bs \<Longrightarrow> hi k = bs ! Suc k - 1"
    and he: "hi (length bs - 1) = e - 1"
  shows "code_search lo hi v (-1) (int (length bs)) = Inr (base_index bs v)"
proof (rule code_search_finds)
  let ?k = "base_index bs v"
  note k = base_index_bounds [OF bs(1) v(1)]
  have mono: "m < n \<Longrightarrow> n < length bs \<Longrightarrow> bs ! m < bs ! n" for m n
    by (rule sorted_wrt_nth_less [OF bs(2)])
  show "v \<le> hi ?k"
  proof (cases "Suc ?k < length bs")
    case True
    then show ?thesis using k(3) hi [of ?k] by simp
  next
    case False
    then have "?k = length bs - 1" using k(1) by simp
    then show ?thesis using he v(2) by simp
  qed
  show "lo ?k \<le> v" using lo [OF k(1)] k(2) by simp
  show "hi m < v \<and> lo m \<le> v" if m: "m < ?k" for m
  proof -
    have s: "Suc m < length bs" "bs ! Suc m \<le> bs ! ?k"
      using m k(1) mono [of "Suc m" ?k] by (cases "Suc m = ?k"; simp)+
    have "bs ! m < bs ! Suc m" using mono s(1) by simp
    then show ?thesis using hi [OF s(1)] lo [of m] s k(2) by auto
  qed
  show "v < lo m" if m: "?k < m" "int m < int (length bs)" for m
  proof -
    have "v < bs ! Suc ?k" "bs ! Suc ?k \<le> bs ! m"
      using m k(3) mono [of "Suc ?k" m] by (cases "Suc ?k = m"; simp)+
    then show ?thesis using lo [of m] m by simp
  qed
qed (use base_index_bounds [OF bs(1) v(1)] in auto)

lemma lencodes_table:
  "map (\<lambda>l. FROM_LCODE (l_min l)) lencodes = len_base"
  "map l_extrabits lencodes = len_extra"
  "map (\<lambda>l. FROM_LCODE (l_max l)) lencodes = map (\<lambda>b. b - 1) (tl len_base @ [259])"
  by (simp_all add: lencodes_def TO_LCODE_def FROM_LCODE_def len_base_def len_extra_def)

lemma distcodes_table:
  "map d_min distcodes = dist_base" "map d_extrabits distcodes = dist_extra"
  "map d_code distcodes = [0..<30]"
  "map d_max distcodes = map (\<lambda>b. b - 1) (tl dist_base @ [32769])"
  by (simp_all add: distcodes_def DCODE_def dist_base_def dist_extra_def upt_rec)

lemma table_lengths [simp]: "length lencodes = 29" "length distcodes = 30"
  by (simp_all add: lencodes_def distcodes_def)

lemma lencodes_nth:
  assumes "k < 29"
  shows "FROM_LCODE (l_min (lencodes ! k)) = len_base ! k"
    and "l_extrabits (lencodes ! k) = len_extra ! k"
    and "FROM_LCODE (l_max (lencodes ! k)) = (tl len_base @ [259]) ! k - 1"
proof -
  have k: "k < length lencodes" "k < length (tl len_base @ [259])" using assms by simp_all
  show "FROM_LCODE (l_min (lencodes ! k)) = len_base ! k"
    "l_extrabits (lencodes ! k) = len_extra ! k"
    "FROM_LCODE (l_max (lencodes ! k)) = (tl len_base @ [259]) ! k - 1"
    using nth_map [OF k(1)] lencodes_table nth_map [OF k(2), of "\<lambda>b. b - 1"] by metis+
qed

lemma distcodes_nth:
  assumes "k < 30"
  shows "d_min (distcodes ! k) = dist_base ! k" and "d_extrabits (distcodes ! k) = dist_extra ! k"
    and "d_code (distcodes ! k) = k" and "d_max (distcodes ! k) = (tl dist_base @ [32769]) ! k - 1"
proof -
  have k: "k < length distcodes" "k < length (tl dist_base @ [32769])" using assms by simp_all
  show "d_min (distcodes ! k) = dist_base ! k" "d_extrabits (distcodes ! k) = dist_extra ! k"
    "d_max (distcodes ! k) = (tl dist_base @ [32769]) ! k - 1"
    using nth_map [OF k(1)] distcodes_table nth_map [OF k(2), of "\<lambda>b. b - 1"] by metis+
  show "d_code (distcodes ! k) = k"
    using nth_map [OF k(1), of d_code] assms unfolding distcodes_table(3) by simp
qed

lemma find_lencode_ok:
  assumes "3 \<le> l" and "l \<le> 258"
  shows "find_lencode l = Inr (len_index l)" and "len_index l < 29" and "len_base ! len_index l \<le> l"
    and "l - len_base ! len_index l < 2 ^ (len_extra ! len_index l)"
proof -
  let ?lo = "\<lambda>k. FROM_LCODE (l_min (lencodes ! k))" and ?hi = "\<lambda>k. FROM_LCODE (l_max (lencodes ! k))"
  have hi: "?hi k = len_base ! Suc k - 1" if "Suc k < 29" for k
    using lencodes_nth(3) [of k] that by (simp add: nth_append nth_tl)
  have ne: "len_base \<noteq> []" "hd len_base \<le> l" "l < 259" using assms by (auto simp: len_base_def)
  have "?hi (29 - 1) = 259 - 1" using lencodes_nth(3) [of 28] by (simp add: nth_append)
  then show "find_lencode l = Inr (len_index l)"
    unfolding find_lencode_def len_index_def
    using code_search_intervals [OF ne(1) bases_sorted(1) ne(2,3), of ?lo ?hi] lencodes_nth(1) hi by simp
qed (use len_index_ok [OF assms] in simp_all)

lemma find_distcode_ok:
  assumes "1 \<le> d" and "d \<le> 32768"
  shows "find_distcode d = Inr (dist_index d)" and "dist_index d < 30" and "dist_base ! dist_index d \<le> d"
    and "d - dist_base ! dist_index d < 2 ^ (dist_extra ! dist_index d)"
proof -
  let ?lo = "\<lambda>k. d_min (distcodes ! k)" and ?hi = "\<lambda>k. d_max (distcodes ! k)"
  have hi: "?hi k = dist_base ! Suc k - 1" if "Suc k < 30" for k
    using distcodes_nth(4) [of k] that by (simp add: nth_append nth_tl)
  have ne: "dist_base \<noteq> []" "hd dist_base \<le> d" "d < 32769" using assms by (auto simp: dist_base_def)
  have "?hi (30 - 1) = 32769 - 1" using distcodes_nth(4) [of 29] by (simp add: nth_append)
  then show "find_distcode d = Inr (dist_index d)"
    unfolding find_distcode_def dist_index_def
    using code_search_intervals [OF ne(1) bases_sorted(2) ne(2,3), of ?lo ?hi] distcodes_nth(1) hi by simp
qed (use dist_index_ok [OF assms] in simp_all)

section \<open>Literals, matches and block boundaries\<close>

lemma zlib_match_len_emits:
  assumes "comp_inv out" and l: "3 \<le> l" "l \<le> 258"
  shows "emitted comp_inv comp_bits comp_frame out
     (fixed_lit_code (257 + len_index l)
      @ bits_of (len_extra ! len_index l) (of_nat (l - len_base ! len_index l)))
     (zlib_match_len out l)"
proof -
  define k where "k = len_index l"
  note f = find_lencode_ok [OF l, folded k_def]
  have ex: "emitted comp_inv comp_bits comp_frame s (bits_of (len_extra ! k) (of_nat (l - len_base ! k)))
     (if l_extrabits (lencodes ! k) > 0
      then outbits s (of_nat (l - FROM_LCODE (l_min (lencodes ! k)))) (l_extrabits (lencodes ! k))
      else Inr s)" if "comp_inv s" for s
    unfolding lencodes_nth [OF f(2)]
    by (rule ob.emitted_optional [OF that])
      (use take_bit_of_nat_small [OF f(4)] extras_le(1) [OF f(2)] in simp_all)
  have code: "emitted comp_inv comp_bits comp_frame out (fixed_lit_code (257 + k))
     (if k + 257 \<le> 279 then outbits out (ucast (reverseByte (of_nat ((k + 257 - 256) * 2)))) 7
      else outbits out (ucast (reverseByte (of_nat (0xc0 + (k + 257) - 280)))) 8)"
  proof (cases "k + 257 \<le> 279")
    case True
    with ob.put_emits [OF assms(1) _ reverse_code(2) [of 7 "k + 1"]] reverse_code(1) [of 7 "k + 1"]
    show ?thesis by (simp add: fixed_lit_code_def algebra_simps)
  next
    case False
    with ob.put_emits [OF assms(1) _ reverse_code(2) [of 8 "k + 169"]] reverse_code(1) [of 8 "k + 169"]
    show ?thesis by (simp add: fixed_lit_code_def algebra_simps)
  qed
  show ?thesis
    unfolding zlib_match_len_def k_def [symmetric] f(1) Let_def bindR_simps
    by (rule ob.emitted_bind [OF code ex])
qed

lemma zlib_match_dist_emits:
  assumes "comp_inv out" and d: "1 \<le> d" "d \<le> 32768"
  shows "emitted comp_inv comp_bits comp_frame out
     (fixed_dist_code (dist_index d)
      @ bits_of (dist_extra ! dist_index d) (of_nat (d - dist_base ! dist_index d)))
     (zlib_match_dist out d)"
proof -
  define k where "k = dist_index d"
  note f = find_distcode_ok [OF d, folded k_def]
  have ex: "emitted comp_inv comp_bits comp_frame s (bits_of (dist_extra ! k) (of_nat (d - dist_base ! k)))
     (if d_extrabits (distcodes ! k) > 0
      then outbits s (of_nat (d - d_min (distcodes ! k))) (d_extrabits (distcodes ! k))
      else Inr s)" if "comp_inv s" for s
    unfolding distcodes_nth(1,2) [OF f(2)]
    by (rule ob.emitted_optional [OF that])
      (use take_bit_of_nat_small [OF f(4)] extras_le(2) [OF f(2)] in simp_all)
  have code: "emitted comp_inv comp_bits comp_frame out (fixed_dist_code k)
     (outbits out (ucast (reverseByte (of_nat (d_code (distcodes ! k) * 8)))) 5)"
    using ob.put_emits [OF assms(1) _ reverse_code(2) [of 5 k]] reverse_code(1) [of 5 k]
      distcodes_nth(3) [OF f(2)] by (simp add: fixed_dist_code_def)
  show ?thesis
    unfolding zlib_match_dist_def k_def [symmetric] f(1) Let_def bindR_simps
    by (rule ob.emitted_bind [OF code ex])
qed

text \<open>The pieces a match of any length is cut into.\<close>

function match_pieces :: "nat \<Rightarrow> nat list" where
  "match_pieces len = (if len > 0 then piece_len len # match_pieces (len - piece_len len) else [])"
  by pat_completeness auto
termination
  by (relation "measure id") (auto simp: piece_len_def split: if_splits)

declare match_pieces.simps [simp del]

lemma match_pieces_ok:
  assumes "len = 0 \<or> 3 \<le> len"
  shows "sum_list (match_pieces len) = len \<and> (\<forall>l \<in> set (match_pieces len). 3 \<le> l \<and> l \<le> 258)"
  using assms
proof (induction len rule: match_pieces.induct)
  case (1 len)
  show ?case
  proof (cases "len > 0")
    case True
    have r: "len - piece_len len = 0 \<or> 3 \<le> len - piece_len len"
      and p: "3 \<le> piece_len len" "piece_len len \<le> 258" "piece_len len \<le> len"
      using 1(2) True by (auto simp: piece_len_def)
    have eq: "match_pieces len = piece_len len # match_pieces (len - piece_len len)"
      using True by (subst match_pieces.simps) simp
    show ?thesis unfolding eq using 1(1) [OF True r] p by simp
  next
    case False
    then show ?thesis by (simp add: match_pieces.simps [of 0])
  qed
qed

lemma zlib_match_loop_emits:
  assumes "comp_inv out" and d: "1 \<le> d" "d \<le> 32768" and "len = 0 \<or> 3 \<le> len"
  shows "emitted comp_inv comp_bits comp_frame out
     (tokens_bits (map (Match d) (match_pieces len))) (zlib_match_loop out d len)"
  using assms(1,4)
proof (induction len arbitrary: out rule: match_pieces.induct)
  case (1 len)
  show ?case
  proof (cases "len > 0")
    case True
    define p where "p = piece_len len"
    have p: "3 \<le> p" "p \<le> 258" "len - p = 0 \<or> 3 \<le> len - p"
      using "1.prems"(2) True by (auto simp: p_def piece_len_def)
    have "emitted comp_inv comp_bits comp_frame out
        ((fixed_lit_code (257 + len_index p) @ bits_of (len_extra ! len_index p) (of_nat (p - len_base ! len_index p)))
        @ (fixed_dist_code (dist_index d) @ bits_of (dist_extra ! dist_index d) (of_nat (d - dist_base ! dist_index d)))
        @ tokens_bits (map (Match d) (match_pieces (len - p))))
        (bindR (zlib_match_len out p) (\<lambda>out. bindR (zlib_match_dist out d) (\<lambda>out. zlib_match_loop out d (len - p))))"
      by (intro ob.emitted_bind zlib_match_len_emits zlib_match_dist_emits)
        (use 1 True d p in \<open>auto simp: p_def\<close>)
    with True show ?thesis
      by (subst match_pieces.simps, subst zlib_match_loop.simps) (simp add: p_def [symmetric] Let_def)
  next
    case False
    with "1.prems" show ?thesis
      by (subst match_pieces.simps, subst zlib_match_loop.simps) (simp add: ob.emitted_skip)
  qed
qed

lemma match_pieces_short: "3 \<le> len \<Longrightarrow> len \<le> 258 \<Longrightarrow> match_pieces len = [len]"
  by (subst match_pieces.simps) (simp add: piece_len_def match_pieces.simps [of 0])

lemma zlib_match_emits:
  assumes "comp_inv out" and "\<not> comp_disabled out" and "1 \<le> d" and "d \<le> 32768" and "3 \<le> l"
  shows "emitted comp_inv comp_bits comp_frame out
     (tokens_bits (map (Match d) (match_pieces l))) (zlib_match out d l)"
  using zlib_match_loop_emits [OF assms(1,3,4)] assms(2,5) by (simp add: zlib_match_def)

lemma zlib_match_emits1:
  assumes "comp_inv out" and "\<not> comp_disabled out" and "1 \<le> d" and "d \<le> 32768" and "3 \<le> l" and "l \<le> 258"
  shows "emitted comp_inv comp_bits comp_frame out (token_bits (Match d l)) (zlib_match out d l)"
  using zlib_match_emits [OF assms(1-5)] assms(5,6) by (simp add: match_pieces_short)

lemma zlib_start_block_emits:
  assumes "comp_inv out"
  shows "emitted comp_inv comp_bits comp_frame out [True, True, False] (zlib_start_block out)"
proof -
  have "emitted comp_inv comp_bits comp_frame out (bits_of 1 1 @ bits_of 2 1) (zlib_start_block out)"
    unfolding zlib_start_block_def
    by (rule ob.emitted_put_bind [OF assms]) (auto intro: ob.put_emits)
  then show ?thesis by (simp add: bits_of_def upt_rec)
qed

lemma zlib_finish_block_emits:
  assumes "comp_inv out"
  shows "emitted comp_inv comp_bits comp_frame out (end_of_block @ replicate 7 False) (zlib_finish_block out)"
proof -
  have z: "bits_of 7 0 = replicate 7 False" by (simp add: bits_of_def upt_rec numeral_eq_Suc)
  have "emitted comp_inv comp_bits comp_frame out (bits_of 7 0 @ bits_of 7 0) (zlib_finish_block out)"
    unfolding zlib_finish_block_def
    by (rule ob.emitted_put_bind [OF assms]) (auto intro: ob.put_emits)
  then show ?thesis by (simp add: z end_of_block_eq)
qed

end
