(* ===== verification/Genlz77.thy ===== *)
theory Genlz77
  imports Defl_Static
begin

text \<open>
  \<^verbatim>\<open>muzic/genlz77.c\<close>: the LZ77 matcher. The source buffer is a byte list, pointers into it are
  offsets. \<^verbatim>\<open>top\<close> (here \<open>tp\<close>) is computed by subtracting from the end pointer and may lie before the buffer, so
  it is an integer. The main result: whatever the hash table finds, the emitted tokens are well
  formed and expand to the source buffer.
\<close>

definition MIN_MATCH :: nat where "MIN_MATCH = 3"
definition MAX_MATCH :: nat where "MAX_MATCH = 258"

definition HASH_SIZE :: "uzlib_comp \<Rightarrow> nat" where
  "HASH_SIZE data = push_bit (hash_bits data) 1"

text \<open>A read of one byte at an offset of the source buffer.\<close>

definition src_byte :: "u8 list \<Rightarrow> nat \<Rightarrow> u8 res" where
  "src_byte src i = (if i < length src then Inr (src ! i) else Inl OutOfBounds)"

definition HASH :: "uzlib_comp \<Rightarrow> u8 list \<Rightarrow> nat \<Rightarrow> nat res" where
  "HASH data src p =
     bindR (src_byte src p) (\<lambda>p0. bindR (src_byte src (p + 1)) (\<lambda>p1. bindR (src_byte src (p + 2)) (\<lambda>p2.
       let v = push_bit 16 (uint p0) OR push_bit 8 (uint p1) OR uint p2;
           hash = (drop_bit (3 * 8 - hash_bits data) v - v) AND (int (HASH_SIZE data) - 1)
       in Inr (nat hash))))"

definition literal :: "uzlib_comp \<Rightarrow> u8 \<Rightarrow> uzlib_comp res" where
  "literal data val = zlib_literal data val"

definition copy :: "uzlib_comp \<Rightarrow> nat \<Rightarrow> nat \<Rightarrow> uzlib_comp res" where
  "copy data offset len = zlib_match data offset len"

text \<open>Lines 105-109: extend a match forwards.\<close>

function lz_extend :: "u8 list \<Rightarrow> int \<Rightarrow> nat \<Rightarrow> nat \<Rightarrow> nat \<Rightarrow> (nat \<times> nat) res" where
  "lz_extend src tp s m len =
     bindR (src_byte src s) (\<lambda>a. bindR (src_byte src m) (\<lambda>b.
       if a = b \<and> len < MAX_MATCH \<and> int s < tp
       then lz_extend src tp (s + 1) (m + 1) (len + 1)
       else Inr (s, len)))"
  by pat_completeness auto
termination
  by (relation "measure (\<lambda>(_, _, _, _, len). MAX_MATCH - len)") auto

declare lz_extend.simps [simp del]

text \<open>
  The condition of line 101, evaluated left to right: a previous position \<open>q\<close> in the same bucket,
  before \<open>s\<close>, within the window, with the same three bytes.
\<close>

definition lz_hit :: "uzlib_comp \<Rightarrow> u8 list \<Rightarrow> nat \<Rightarrow> nat option \<Rightarrow> bool res" where
  "lz_hit data src s subs =
     (case subs of
        None \<Rightarrow> Inr False
      | Some q \<Rightarrow>
          if s > q \<and> s - q \<le> dict_size data then
            bindR (mem_read s MIN_MATCH src) (\<lambda>x. bindR (mem_read q MIN_MATCH src) (\<lambda>y. Inr (x = y)))
          else Inr False)"

text \<open>Lines 97-113: the body of the main loop at source position \<open>s\<close>.\<close>

definition lz_step :: "uzlib_comp \<Rightarrow> u8 list \<Rightarrow> int \<Rightarrow> nat \<Rightarrow> (uzlib_comp \<times> nat) res" where
  "lz_step data src tp s =
     bindR (HASH data src s) (\<lambda>h.
     let bucket = h AND (HASH_SIZE data - 1);
         subs = hash_table data bucket;
         data = data\<lparr>hash_table := (hash_table data)(bucket := Some s)\<rparr>
     in
     bindR (lz_hit data src s subs) (\<lambda>hit.
     if hit then
       let q = the subs in
       bindR (lz_extend src tp (s + MIN_MATCH) (q + MIN_MATCH) MIN_MATCH) (\<lambda>(s, len).
       bindR (copy data (s - len - q) len) (\<lambda>data. Inr (data, s)))
     else
       bindR (src_byte src s) (\<lambda>c. bindR (literal data c) (\<lambda>data. Inr (data, s + 1)))))"

lemma lz_extend_grows: "lz_extend src tp s m len = Inr (s', len') \<Longrightarrow> s \<le> s'"
proof (induction src tp s m len rule: lz_extend.induct)
  case (1 src tp s m len)
  from "1.prems" show ?case
    by (subst (asm) lz_extend.simps) (fastforce simp: bindR_eq_Inr split: if_splits dest: "1.IH")
qed

lemma lz_step_grows: "lz_step data src tp s = Inr (data', s') \<Longrightarrow> s < s'"
  by (fastforce simp: lz_step_def Let_def bindR_eq_Inr MIN_MATCH_def
      split: option.splits if_splits prod.splits dest: lz_extend_grows)

function lz_main :: "uzlib_comp \<Rightarrow> u8 list \<Rightarrow> int \<Rightarrow> nat \<Rightarrow> (uzlib_comp \<times> nat) res" where
  "lz_main data src tp s =
     (if int s < tp then bindR (lz_step data src tp s) (\<lambda>(data, s). lz_main data src tp s)
      else Inr (data, s))"
  by pat_completeness auto
termination
  by (relation "measure (\<lambda>(_, _, tp, s). nat (tp - int s))") (auto dest: lz_step_grows)

declare lz_main.simps [simp del]

function lz_tail :: "uzlib_comp \<Rightarrow> u8 list \<Rightarrow> int \<Rightarrow> nat \<Rightarrow> uzlib_comp res" where
  "lz_tail data src tp s =
     (if int s < tp
      then bindR (src_byte src s) (\<lambda>c. bindR (literal data c) (\<lambda>data. lz_tail data src tp (s + 1)))
      else Inr data)"
  by pat_completeness auto
termination
  by (relation "measure (\<lambda>(_, _, tp, s). nat (tp - int s))") auto

declare lz_tail.simps [simp del]

definition uzlib_compress :: "uzlib_comp \<Rightarrow> u8 list \<Rightarrow> uzlib_comp res" where
  "uzlib_compress data src =
     (let tp = int (length src) - int MIN_MATCH in
      bindR (lz_main data src tp 0) (\<lambda>(data, s). lz_tail data src (tp + int MIN_MATCH) s))"

section \<open>Correctness of the matcher\<close>

text \<open>What compressing leaves alone; the hash table is not part of it.\<close>

definition lz_frame :: "uzlib_comp \<Rightarrow> uzlib_comp \<Rightarrow> bool" where
  "lz_frame c c' \<longleftrightarrow> comp_disabled c' = comp_disabled c \<and> hash_bits c' = hash_bits c \<and>
     dict_size c' = dict_size c"

definition lz_ok :: "uzlib_comp \<Rightarrow> bool" where
  "lz_ok c \<longleftrightarrow> comp_inv c \<and> \<not> comp_disabled c \<and> dict_size c \<le> 32768"

lemma lz_ok_hash [simp]: "lz_ok (c\<lparr>hash_table := t\<rparr>) = lz_ok c"
  by (simp add: lz_ok_def comp_inv_def buf_inv_def)

lemma comp_bits_hash [simp]: "comp_bits (c\<lparr>hash_table := t\<rparr>) = comp_bits c"
  by (simp add: comp_bits_def comp_bytes_def)

lemma lz_frame_refl [simp]: "lz_frame c c"
  by (simp add: lz_frame_def)

lemma lz_frame_hash [simp]: "lz_frame (c\<lparr>hash_table := t\<rparr>) d = lz_frame c d"
  by (simp add: lz_frame_def)

lemma lz_frame_trans: "lz_frame c d \<Longrightarrow> lz_frame d e \<Longrightarrow> lz_frame c e"
  by (simp add: lz_frame_def)

lemma literal_lz:
  assumes "lz_ok c"
  obtains c' where "literal c b = Inr c'" "lz_ok c'" "comp_bits c' = comp_bits c @ token_bits (Literal b)"
    "lz_frame c c'"
  using zlib_literal_emits [of c b] assms
  by (auto simp: lz_ok_def literal_def emitted_def comp_frame_def lz_frame_def)

lemma copy_lz:
  assumes "lz_ok c" and "1 \<le> d" and "d \<le> 32768" and "3 \<le> l" and "l \<le> 258"
  obtains c' where "copy c d l = Inr c'" "lz_ok c'" "comp_bits c' = comp_bits c @ token_bits (Match d l)"
    "lz_frame c c'"
  using zlib_match_emits1 [of c d l] assms
  by (auto simp: lz_ok_def copy_def emitted_def comp_frame_def lz_frame_def)

lemma lz_extend_ok:
  assumes "m < s" and "tp = int (length src) - 3" and "s < length src" and "len \<le> MAX_MATCH"
    and "len \<le> m" and "\<And>i. i < len \<Longrightarrow> src ! (s - len + i) = src ! (m - len + i)"
  shows "\<exists>n. lz_extend src tp s m len = Inr (s + n, len + n) \<and> len + n \<le> MAX_MATCH \<and>
     s + n < length src \<and> (\<forall>i < len + n. src ! (s - len + i) = src ! (m - len + i))"
  using assms
proof (induction src tp s m len rule: lz_extend.induct)
  case (1 src tp s m len)
  have r: "src_byte src s = Inr (src ! s)" "src_byte src m = Inr (src ! m)"
    using "1.prems" by (simp_all add: src_byte_def)
  show ?case
  proof (cases "src ! s = src ! m \<and> len < MAX_MATCH \<and> int s < tp")
    case True
    have "\<exists>n. lz_extend src tp (s + 1) (m + 1) (len + 1) = Inr (s + 1 + n, len + 1 + n) \<and>
        len + 1 + n \<le> MAX_MATCH \<and> s + 1 + n < length src \<and>
        (\<forall>i < len + 1 + n. src ! (s + 1 - (len + 1) + i) = src ! (m + 1 - (len + 1) + i))"
    proof (rule "1.IH" [OF r True])
      fix i assume "i < len + 1"
      then show "src ! (s + 1 - (len + 1) + i) = src ! (m + 1 - (len + 1) + i)"
        using "1.prems" True by (cases "i = len") auto
    qed (use "1.prems" True in auto)
    then obtain n where "lz_extend src tp (s + 1) (m + 1) (len + 1) = Inr (s + Suc n, len + Suc n)"
        "len + Suc n \<le> MAX_MATCH" "s + Suc n < length src"
        "\<forall>i < len + Suc n. src ! (s - len + i) = src ! (m - len + i)"
      by auto
    then show ?thesis using True r by (subst lz_extend.simps) (intro exI [of _ "Suc n"], simp)
  next
    case False
    then show ?thesis
      using r "1.prems" by (subst lz_extend.simps) (intro exI [of _ 0], auto)
  qed
qed

text \<open>One step of the main loop emits one well-formed token that extends the text read so far.\<close>

definition lz_progress :: "u8 list \<Rightarrow> uzlib_comp \<Rightarrow> nat \<Rightarrow> uzlib_comp \<Rightarrow> nat \<Rightarrow> token list \<Rightarrow> bool" where
  "lz_progress src c s c' s' ts \<longleftrightarrow> lz_ok c' \<and> lz_frame c c' \<and> s \<le> s' \<and> s' \<le> length src \<and>
     comp_bits c' = comp_bits c @ tokens_bits ts \<and>
     tokens_ok (take s src) ts \<and> expand (take s src) ts = take s' src"

lemma lz_progress_trans:
  assumes "lz_progress src c s c1 s1 ts" and "lz_progress src c1 s1 c2 s2 us"
  shows "lz_progress src c s c2 s2 (ts @ us)"
  using assms by (auto simp: lz_progress_def tokens_ok_append expand_append intro: lz_frame_trans)

lemma literal_progress:
  assumes "lz_ok c" and "s < length src"
  shows "\<exists>c'. literal c (src ! s) = Inr c' \<and> lz_progress src c s c' (s + 1) [Literal (src ! s)]"
proof -
  obtain c' where "literal c (src ! s) = Inr c'" "lz_ok c'"
      "comp_bits c' = comp_bits c @ token_bits (Literal (src ! s))" "lz_frame c c'"
    using literal_lz [OF assms(1)] by blast
  then show ?thesis using assms(2) by (auto simp: lz_progress_def take_Suc_conv_app_nth)
qed

lemma HASH_ok: "s + 3 \<le> length src \<Longrightarrow> \<exists>h. HASH data src s = Inr h"
  by (simp add: HASH_def src_byte_def Let_def)

lemma match_progress:
  assumes c: "lz_ok c" and tp: "tp = int (length src) - 3" "int s < tp"
    and q: "q < s" "s - q \<le> dict_size c" "mem_read s 3 src = mem_read q 3 src"
  shows "\<exists>c' n. lz_extend src tp (s + 3) (q + 3) 3 = Inr (s + 3 + n, 3 + n) \<and>
     copy c (s - q) (3 + n) = Inr c' \<and> lz_progress src c s c' (s + 3 + n) [Match (s - q) (3 + n)]"
proof -
  have eq3: "src ! (s + i) = src ! (q + i)" if "i < 3" for i
  proof -
    have "take 3 (drop s src) ! i = take 3 (drop q src) ! i"
      using q(1,3) tp by (auto simp: mem_read_def split: if_splits)
    with that tp q(1) show ?thesis by simp
  qed
  obtain n where n: "lz_extend src tp (s + 3) (q + 3) 3 = Inr (s + 3 + n, 3 + n)"
      "3 + n \<le> 258" "s + 3 + n < length src" "\<forall>i < 3 + n. src ! (s + i) = src ! (q + i)"
    using lz_extend_ok [of "q + 3" "s + 3" tp src 3] q tp eq3 by (auto simp: MAX_MATCH_def)
  have d: "1 \<le> s - q" "s - q \<le> 32768" using q c by (auto simp: lz_ok_def)
  obtain c' where c': "copy c (s - q) (3 + n) = Inr c'" "lz_ok c'"
      "comp_bits c' = comp_bits c @ token_bits (Match (s - q) (3 + n))" "lz_frame c c'"
    using copy_lz [OF c d, of "3 + n"] n(2) by auto
  have "lz_copy (take s src) (s - q) (3 + n) = take (s + (3 + n)) src"
    by (rule lz_copy_text) (use n q d in \<open>auto simp: add.commute\<close>)
  then have "lz_progress src c s c' (s + 3 + n) [Match (s - q) (3 + n)]"
    using c' n d q by (simp add: lz_progress_def add_ac)
  with n(1) c'(1) show ?thesis by blast
qed

lemma lz_hit_ok:
  assumes "s + 3 \<le> length src"
  obtains "lz_hit c src s subs = Inr False"
  | q where "lz_hit c src s subs = Inr True" "subs = Some q" "q < s" "s - q \<le> dict_size c"
      "mem_read s 3 src = mem_read q 3 src"
proof (cases subs)
  case (Some q)
  show thesis
  proof (cases "s > q \<and> s - q \<le> dict_size c")
    case True
    then have r: "mem_read s 3 src = Inr (take 3 (drop s src))" "mem_read q 3 src = Inr (take 3 (drop q src))"
      using assms by (auto simp: mem_read_def)
    show thesis
      using True r Some that by (cases "take 3 (drop s src) = take 3 (drop q src)")
        (auto simp: lz_hit_def MIN_MATCH_def)
  next
    case False
    then have "lz_hit c src s subs = Inr False" using Some by (auto simp: lz_hit_def)
    then show thesis by (rule that(1))
  qed
qed (simp add: lz_hit_def)

lemma lz_step_ok:
  assumes c: "lz_ok c" and tp: "tp = int (length src) - 3" "int s < tp"
  shows "\<exists>c' s' t. lz_step c src tp s = Inr (c', s') \<and> lz_progress src c s c' s' [t]"
proof -
  obtain h where h: "HASH c src s = Inr h" using HASH_ok [of s src c] tp by auto
  define b where "b = h AND (HASH_SIZE c - 1)"
  define d where "d = c\<lparr>hash_table := (hash_table c)(b := Some s)\<rparr>"
  have s: "s < length src" "src_byte src s = Inr (src ! s)" "s + 3 \<le> length src" using tp by (auto simp: src_byte_def)
  have ok: "lz_ok d" using c by (simp add: d_def)
  have step: "lz_step c src tp s = bindR (lz_hit d src s (hash_table c b)) (\<lambda>hit. if hit
      then bindR (lz_extend src tp (s + 3) (the (hash_table c b) + 3) 3) (\<lambda>(s, len).
        bindR (copy d (s - len - the (hash_table c b)) len) (\<lambda>d. Inr (d, s)))
      else bindR (src_byte src s) (\<lambda>x. bindR (literal d x) (\<lambda>d. Inr (d, s + 1))))"
    unfolding lz_step_def Let_def h bindR_simps b_def [symmetric] d_def [symmetric] MIN_MATCH_def ..
  have prog: "lz_progress src c s c' s' ts" if "lz_progress src d s c' s' ts" for c' s' ts
    using that by (simp add: lz_progress_def d_def)
  show ?thesis
  proof (rule lz_hit_ok [OF s(3), of d "hash_table c b"])
    assume "lz_hit d src s (hash_table c b) = Inr False"
    moreover obtain c1 where "literal d (src ! s) = Inr c1" "lz_progress src d s c1 (s + 1) [Literal (src ! s)]"
      using literal_progress [OF ok s(1)] by blast
    ultimately show ?thesis
      using s(2) prog by (auto simp: step)
  next
    fix q assume q: "lz_hit d src s (hash_table c b) = Inr True" "hash_table c b = Some q" "q < s"
      "s - q \<le> dict_size d" "mem_read s 3 src = mem_read q 3 src"
    obtain c2 n where "lz_extend src tp (s + 3) (q + 3) 3 = Inr (s + 3 + n, 3 + n)"
        "copy d (s - q) (3 + n) = Inr c2"
        "lz_progress src d s c2 (s + 3 + n) [Match (s - q) (3 + n)]"
      using match_progress [OF ok tp q(3,4,5)] by blast
    then show ?thesis
      using q prog by (auto simp: step)
  qed
qed

lemma lz_main_ok:
  assumes "lz_ok c" and "tp = int (length src) - 3" and "s \<le> length src"
  shows "\<exists>c' s' ts. lz_main c src tp s = Inr (c', s') \<and> lz_progress src c s c' s' ts"
  using assms
proof (induction c src tp s rule: lz_main.induct)
  case (1 c src tp s)
  show ?case
  proof (cases "int s < tp")
    case True
    obtain c1 s1 t where st: "lz_step c src tp s = Inr (c1, s1)" "lz_progress src c s c1 s1 [t]"
      using lz_step_ok [OF "1.prems"(1,2) True] by blast
    then have "lz_ok c1" "s1 \<le> length src" by (auto simp: lz_progress_def)
    from "1.IH" [OF True st(1) refl this(1) "1.prems"(2) this(2)] obtain c2 s2 ts where
      "lz_main c1 src tp s1 = Inr (c2, s2)" "lz_progress src c1 s1 c2 s2 ts" by blast
    with st True lz_progress_trans show ?thesis by (subst lz_main.simps) fastforce
  next
    case False
    with "1.prems" show ?thesis
      by (subst lz_main.simps) (auto simp: lz_progress_def intro!: exI [of _ "[]"])
  qed
qed

lemma lz_tail_ok:
  assumes "lz_ok c" and "tp = int (length src)" and "s \<le> length src"
  shows "\<exists>c' ts. lz_tail c src tp s = Inr c' \<and> lz_progress src c s c' (length src) ts"
  using assms
proof (induction c src tp s rule: lz_tail.induct)
  case (1 c src tp s)
  show ?case
  proof (cases "int s < tp")
    case True
    then have s: "s < length src" "src_byte src s = Inr (src ! s)" using "1.prems"(2) by (auto simp: src_byte_def)
    obtain c1 where l: "literal c (src ! s) = Inr c1" "lz_progress src c s c1 (s + 1) [Literal (src ! s)]"
      using literal_progress [OF "1.prems"(1) s(1)] by blast
    then have "lz_ok c1" by (simp add: lz_progress_def)
    from "1.IH" [OF True s(2) l(1) this "1.prems"(2)] s obtain c2 ts where
      "lz_tail c1 src tp (s + 1) = Inr c2" "lz_progress src c1 (s + 1) c2 (length src) ts" by auto
    with l True s lz_progress_trans show ?thesis by (subst lz_tail.simps) fastforce
  next
    case False
    with "1.prems" show ?thesis
      by (subst lz_tail.simps) (auto simp: lz_progress_def intro!: exI [of _ "[]"])
  qed
qed

lemma uzlib_compress_ok:
  assumes "lz_ok c"
  shows "\<exists>c' ts. uzlib_compress c src = Inr c' \<and> lz_ok c' \<and> lz_frame c c' \<and>
     comp_bits c' = comp_bits c @ tokens_bits ts \<and> tokens_ok [] ts \<and> expand [] ts = src"
proof -
  obtain c1 s ts where m: "lz_main c src (int (length src) - 3) 0 = Inr (c1, s)" "lz_progress src c 0 c1 s ts"
    using lz_main_ok [OF assms, of _ src 0] by blast
  then have "lz_ok c1" "s \<le> length src" by (auto simp: lz_progress_def)
  from lz_tail_ok [OF this(1) refl this(2)] obtain c2 us where
    t: "lz_tail c1 src (int (length src)) s = Inr c2" "lz_progress src c1 s c2 (length src) us" by blast
  have "uzlib_compress c src = Inr c2"
    using m(1) t(1) by (simp add: uzlib_compress_def Let_def MIN_MATCH_def)
  with lz_progress_trans [OF m(2) t(2)] show ?thesis
    by (intro exI [of _ c2] exI [of _ "ts @ us"]) (simp add: lz_progress_def)
qed

end
