(* ===== verification/Zlib_Stream.thy ===== *)
theory Zlib_Stream
  imports Muzic_Prelude
begin

text \<open>
  \<^verbatim>\<open>include/zlib.h\<close>: return codes, flush modes and the \<^verbatim>\<open>z_stream\<close> structure through which a caller
  drives the deflater or the inflater. The caller's buffers are two memory regions, \<open>in_mem\<close> and
  \<open>out_mem\<close>; \<^verbatim>\<open>next_in\<close> and \<^verbatim>\<open>next_out\<close> are offsets into them (the two regions do not overlap). The
  member \<^verbatim>\<open>state\<close> is a union of the two private state pointers; the record is parametric in it, and
  \<open>None\<close> is \<^verbatim>\<open>Z_NULL\<close>. The members \<^verbatim>\<open>zalloc\<close>, \<^verbatim>\<open>zfree\<close>, \<^verbatim>\<open>opaque\<close>, \<^verbatim>\<open>data_type\<close> and
  \<^verbatim>\<open>reserved\<close> are never used by the code.
\<close>

definition Z_NO_FLUSH :: int where "Z_NO_FLUSH = 0"
definition Z_SYNC_FLUSH :: int where "Z_SYNC_FLUSH = 2"
definition Z_FULL_FLUSH :: int where "Z_FULL_FLUSH = 3"
definition Z_FINISH :: int where "Z_FINISH = 4"

definition Z_OK :: int where "Z_OK = 0"
definition Z_STREAM_END :: int where "Z_STREAM_END = 1"
definition Z_STREAM_ERROR :: int where "Z_STREAM_ERROR = -2"
definition Z_DATA_ERROR :: int where "Z_DATA_ERROR = -3"
definition Z_MEM_ERROR :: int where "Z_MEM_ERROR = -4"
definition Z_BUF_ERROR :: int where "Z_BUF_ERROR = -5"

lemmas z_codes = Z_NO_FLUSH_def Z_SYNC_FLUSH_def Z_FULL_FLUSH_def Z_FINISH_def Z_OK_def
  Z_STREAM_END_def Z_STREAM_ERROR_def Z_DATA_ERROR_def Z_MEM_ERROR_def Z_BUF_ERROR_def

record 's z_stream =
  in_mem :: "u8 list"
  next_in :: nat
  avail_in :: u32
  total_in :: u32
  out_mem :: "u8 list"
  next_out :: nat
  avail_out :: u32
  total_out :: u32
  msg :: "string option"
  state :: "'s option"
  adler :: u32

end
