(* ===== verification/Zlib_Comp.thy ===== *)
theory Zlib_Comp
  imports Adler32 Genlz77 Zlib_Stream
begin

text \<open>
  \<^verbatim>\<open>muzic/zlib_comp.c\<close>: the zlib-compatible deflater. \<^verbatim>\<open>deflate\<close> compresses all available input into
  a private buffer and hands that buffer to the caller, over several calls if the output space is
  small. The configuration is that of \<^verbatim>\<open>mz_config.h\<close>: \<^verbatim>\<open>MZ_ZLIB_HEADER\<close>, \<^verbatim>\<open>MZ_ZLIB_CHECKSUM\<close> and
  \<^verbatim>\<open>MZ_NO_EMPTY_BLOCK\<close> are defined. \<^verbatim>\<open>realloc\<close> of the output buffer is taken to succeed (its result
  is not checked by the code); the outcome of \<^verbatim>\<open>malloc\<close> is an argument of \<^verbatim>\<open>deflateInit\<close>.
\<close>

section \<open>Heap pointers\<close>

fun heap_read :: "heap_ptr \<Rightarrow> nat \<Rightarrow> u8 list res" where
  "heap_read PNull n = (if n = 0 then Inr [] else Inl NullPointer)"
| "heap_read PFreed n = Inl UseAfterFree"
| "heap_read (PHeap d c off) n =
     (if off + n > c then Inl OutOfBounds
      else if off + n > length d then Inl Uninitialised
      else Inr (take n (drop off d)))"

fun heap_advance :: "heap_ptr \<Rightarrow> nat \<Rightarrow> heap_ptr res" where
  "heap_advance PNull n = (if n = 0 then Inr PNull else Inl NullPointer)"
| "heap_advance PFreed n = Inl UseAfterFree"
| "heap_advance (PHeap d c off) n = (if off + n \<le> c then Inr (PHeap d c (off + n)) else Inl OutOfBounds)"

fun heap_retreat :: "heap_ptr \<Rightarrow> nat \<Rightarrow> heap_ptr res" where
  "heap_retreat PNull n = (if n = 0 then Inr PNull else Inl NullPointer)"
| "heap_retreat PFreed n = Inl UseAfterFree"
| "heap_retreat (PHeap d c off) n = (if n \<le> off then Inr (PHeap d c (off - n)) else Inl OutOfBounds)"

text \<open>\<^verbatim>\<open>free\<close> takes null or the base of a block; anything else is undefined.\<close>

fun heap_free :: "heap_ptr \<Rightarrow> heap_ptr res" where
  "heap_free PNull = Inr PNull"
| "heap_free PFreed = Inl UseAfterFree"
| "heap_free (PHeap d c off) = (if off = 0 then Inr PFreed else Inl OutOfBounds)"

section \<open>Operations\<close>

definition out4bytes :: "uzlib_comp \<Rightarrow> u8 \<Rightarrow> u8 \<Rightarrow> u8 \<Rightarrow> u8 \<Rightarrow> uzlib_comp res" where
  "out4bytes out st nd rd th =
     (let newlen = outlen out + 4 in
      bindR (if newlen > outsize out
             then bindR (heap_realloc (outbuf out) newlen) (\<lambda>b. Inr (out\<lparr>outsize := newlen, outbuf := b\<rparr>))
             else Inr out) (\<lambda>out.
      bindR (heap_store (outbuf out) (outlen out) st) (\<lambda>b.
      bindR (heap_store b (outlen out + 1) nd) (\<lambda>b.
      bindR (heap_store b (outlen out + 2) rd) (\<lambda>b.
      bindR (heap_store b (outlen out + 3) th) (\<lambda>b.
        Inr (out\<lparr>outbuf := b, outlen := outlen out + 4\<rparr>)))))))"

text \<open>
  \<^verbatim>\<open>deflateInit\<close>: \<open>ok1\<close> and \<open>ok2\<close> say whether the two allocations succeed, \<open>fresh\<close> is the content
  of the first block (uninitialised, hence arbitrary), \<open>None\<close> a null stream pointer.
\<close>

definition deflateInit ::
  "bool \<Rightarrow> bool \<Rightarrow> uzlib_comp \<Rightarrow> uzlib_comp z_stream option \<Rightarrow> int \<Rightarrow> int \<times> uzlib_comp z_stream option" where
  "deflateInit ok1 ok2 fresh strm level =
     (case strm of
        None \<Rightarrow> (Z_STREAM_ERROR, None)
      | Some strm \<Rightarrow>
          let strm = strm\<lparr>msg := None\<rparr> in
          if \<not> ok1 then (Z_MEM_ERROR, Some strm)
          else
            let strm = strm\<lparr>adler := 1\<rparr>;
                ustate = fresh\<lparr>dict_size := 32768, hash_bits := 12\<rparr>
            in if \<not> ok2 then (Z_MEM_ERROR, Some strm)
               else
                 let ustate = ustate\<lparr>outbuf := PNull, comp_disabled := True\<rparr>
                 in (Z_OK, Some (strm\<lparr>state := Some ustate\<rparr>)))"

text \<open>Lines 144-149, also 239-244: hand over as much of the pending output as fits.\<close>

definition deflate_partial ::
  "uzlib_comp z_stream \<Rightarrow> uzlib_comp \<Rightarrow> u32 \<Rightarrow> uzlib_comp z_stream res" where
  "deflate_partial strm ustate new_total =
     (let n = unat (avail_out strm) in
      bindR (heap_read (outbuf ustate) n) (\<lambda>bs.
      bindR (mem_write (next_out strm) bs (out_mem strm)) (\<lambda>m.
      bindR (heap_advance (outbuf ustate) n) (\<lambda>b.
        Inr (strm\<lparr>out_mem := m, next_out := next_out strm + n, total_out := new_total, avail_out := 0,
                  state := Some (ustate\<lparr>outbuf := b, outlen := outlen ustate - n\<rparr>)\<rparr>)))))"

text \<open>Lines 141-165: \<open>Inl\<close> is a return from \<^verbatim>\<open>deflate\<close>, \<open>Inr\<close> falls through.\<close>

definition deflate_pending ::
  "uzlib_comp z_stream \<Rightarrow> uzlib_comp \<Rightarrow>
     (int \<times> uzlib_comp z_stream + uzlib_comp z_stream \<times> uzlib_comp) res" where
  "deflate_pending strm ustate =
     (if outbuf ustate \<noteq> PNull then
        if unat (avail_out strm) < outlen ustate then
          bindR (deflate_partial strm ustate (total_out strm + avail_out strm)) (\<lambda>strm.
            Inr (Inl (Z_OK, strm)))
        else
          bindR (heap_read (outbuf ustate) (outlen ustate)) (\<lambda>bs.
          bindR (mem_write (next_out strm) bs (out_mem strm)) (\<lambda>m.
          bindR (heap_retreat (outbuf ustate) (unat (total_out strm))) (\<lambda>b.
          bindR (heap_free b) (\<lambda>_.
            let ustate = ustate\<lparr>outbuf := PNull\<rparr>;
                strm = strm\<lparr>out_mem := m, avail_out := avail_out strm - of_nat (outlen ustate),
                            next_out := next_out strm + outlen ustate,
                            total_out := total_out strm + of_nat (outlen ustate),
                            state := Some ustate\<rparr>
            in if avail_in strm = 0 then Inr (Inl (Z_OK, strm)) else Inr (Inr (strm, ustate))))))
      else Inr (Inr (strm, ustate)))"

text \<open>Lines 172-221: start a fresh output buffer and compress all available input into it.\<close>

definition deflate_header :: "uzlib_comp \<Rightarrow> int \<Rightarrow> uzlib_comp res" where
  "deflate_header ustate flush =
     (let ustate = ustate\<lparr>outlen := 0, outsize := 0, obits := 0, noutbits := 0,
                          hash_table := (\<lambda>_. None)\<rparr> in
      bindR (if flush = Z_FINISH \<or> comp_disabled ustate
             then bindR (outbits ustate 0x78 8) (\<lambda>ustate. outbits ustate 0x01 8)
             else Inr ustate) (\<lambda>ustate.
        Inr (ustate\<lparr>comp_disabled := False\<rparr>)))"

definition deflate_open_block :: "uzlib_comp \<Rightarrow> int \<Rightarrow> uzlib_comp res" where
  "deflate_open_block ustate flush =
     (if flush \<noteq> Z_FINISH
      then bindR (outbits ustate 0 1) (\<lambda>ustate. outbits ustate 1 2)
      else zlib_start_block ustate)"

definition deflate_close_block :: "uzlib_comp \<Rightarrow> int \<Rightarrow> u32 \<Rightarrow> uzlib_comp res" where
  "deflate_close_block ustate flush adler_v =
     (if flush \<noteq> Z_FINISH
      then bindR (outbits ustate 0 7) (\<lambda>ustate.
           bindR (outbits ustate 0 3) (\<lambda>ustate.
           bindR (outbits ustate 0 7) (\<lambda>ustate.
             out4bytes ustate 0x00 0x00 0xFF 0xFF)))
      else bindR (zlib_finish_block ustate) (\<lambda>ustate.
           bindR (out4bytes ustate (ucast (drop_bit 24 adler_v AND 0xFF)) (ucast (drop_bit 16 adler_v AND 0xFF))
                    (ucast (drop_bit 8 adler_v AND 0xFF)) (ucast (adler_v AND 0xFF))) (\<lambda>ustate.
             Inr (ustate\<lparr>comp_disabled := True\<rparr>))))"

definition deflate_encode ::
  "uzlib_comp z_stream \<Rightarrow> uzlib_comp \<Rightarrow> int \<Rightarrow> (uzlib_comp z_stream \<times> uzlib_comp) res" where
  "deflate_encode strm ustate flush =
     bindR (mem_read (next_in strm) (unat (avail_in strm)) (in_mem strm)) (\<lambda>src.
     bindR (deflate_header ustate flush) (\<lambda>ustate.
     let adler_v = muzic_adler32 src (unat (avail_in strm)) (adler strm) in
     bindR (deflate_open_block ustate flush) (\<lambda>ustate.
     bindR (uzlib_compress ustate src) (\<lambda>ustate.
     bindR (deflate_close_block ustate flush adler_v) (\<lambda>ustate.
     let strm = (if flush \<noteq> Z_FINISH then strm\<lparr>adler := adler_v\<rparr> else strm);
         strm = (if flush = Z_FINISH then strm\<lparr>total_in := avail_in strm\<rparr>
                 else strm\<lparr>total_in := total_in strm + avail_in strm\<rparr>)
     in Inr (strm\<lparr>next_in := next_in strm + unat (avail_in strm), avail_in := 0\<rparr>, ustate))))))"

text \<open>Lines 233-260: deliver the compressed bytes.\<close>

definition deflate_deliver ::
  "uzlib_comp z_stream \<Rightarrow> uzlib_comp \<Rightarrow> int \<Rightarrow> (int \<times> uzlib_comp z_stream) res" where
  "deflate_deliver strm ustate flush =
     (if unat (avail_out strm) < outlen ustate then
        if flush = Z_FINISH then
          bindR (heap_free (outbuf ustate)) (\<lambda>b.
            Inr (Z_BUF_ERROR, strm\<lparr>state := Some (ustate\<lparr>outbuf := b\<rparr>)\<rparr>))
        else
          bindR (deflate_partial strm ustate (avail_out strm)) (\<lambda>strm. Inr (Z_OK, strm))
      else
        bindR (heap_read (outbuf ustate) (outlen ustate)) (\<lambda>bs.
        bindR (mem_write (next_out strm) bs (out_mem strm)) (\<lambda>m.
        bindR (heap_free (outbuf ustate)) (\<lambda>_.
          let strm = (if flush = Z_FINISH then strm\<lparr>total_out := of_nat (outlen ustate)\<rparr>
                      else strm\<lparr>total_out := total_out strm + of_nat (outlen ustate)\<rparr>)
          in Inr (if flush = Z_FINISH then Z_STREAM_END else Z_OK,
                  strm\<lparr>out_mem := m, avail_out := avail_out strm - of_nat (outlen ustate),
                       next_out := next_out strm + outlen ustate,
                       state := Some (ustate\<lparr>outbuf := PNull\<rparr>)\<rparr>)))))"

definition deflate :: "uzlib_comp z_stream \<Rightarrow> int \<Rightarrow> (int \<times> uzlib_comp z_stream) res" where
  "deflate strm flush =
     (case state strm of
        None \<Rightarrow> Inl NullPointer
      | Some ustate \<Rightarrow>
          bindR (deflate_pending strm ustate) (\<lambda>r.
            case r of
              Inl ret \<Rightarrow> Inr ret
            | Inr (strm, ustate) \<Rightarrow>
                if avail_in strm = 0 \<and> flush \<noteq> Z_FINISH then Inr (Z_OK, strm)
                else bindR (deflate_encode strm ustate flush) (\<lambda>(strm, ustate).
                       deflate_deliver strm ustate flush)))"

text \<open>After \<^verbatim>\<open>deflateEnd\<close> the state pointer dangles; the model keeps no usable state.\<close>

definition deflateEnd :: "uzlib_comp z_stream \<Rightarrow> (int \<times> uzlib_comp z_stream) res" where
  "deflateEnd strm =
     (case state strm of None \<Rightarrow> Inl NullPointer | Some _ \<Rightarrow> Inr (Z_OK, strm\<lparr>state := None\<rparr>))"

section \<open>Padding and trailers\<close>

text \<open>A byte list that holds a bit list followed by fewer than eight zero bits.\<close>

definition padded :: "u8 list \<Rightarrow> bool list \<Rightarrow> bool" where
  "padded bytes bs \<longleftrightarrow> (\<exists>k < 8. bytes_bits bytes = bs @ replicate k False)"

text \<open>Writing seven more zero bits flushes every bit written before.\<close>

lemma flushed_padded:
  assumes "bytes_bits bytes @ tail = bs @ replicate 7 False" and "length tail < 8"
  shows "padded bytes bs"
proof -
  have len: "8 * length bytes + length tail = length bs + 7"
    using arg_cong [OF assms(1), of length] by simp
  have le: "length bs \<le> 8 * length bytes" using len assms(2) by simp
  have "bytes_bits bytes = take (8 * length bytes) (bs @ replicate 7 False)"
    using arg_cong [OF assms(1), of "take (8 * length bytes)"] by simp
  also have "\<dots> = bs @ replicate (8 * length bytes - length bs) False"
    using le len by (simp add: min_def)
  finally show ?thesis unfolding padded_def
    using len by (intro exI [of _ "8 * length bytes - length bs"]) simp
qed

lemma out4bytes_ok:
  assumes "buf_inv c"
  shows "\<exists>c'. out4bytes c x y z w = Inr c' \<and> buf_inv c' \<and> comp_bytes c' = comp_bytes c @ [x, y, z, w] \<and>
     outlen c' = outlen c + 4 \<and> comp_frame c c'"
proof -
  have "\<exists>d n. (if outlen c + 4 > outsize c
       then bindR (heap_realloc (outbuf c) (outlen c + 4)) (\<lambda>b. Inr (c\<lparr>outsize := outlen c + 4, outbuf := b\<rparr>))
       else Inr c) = Inr (c\<lparr>outbuf := PHeap d n 0, outsize := n\<rparr>)
       \<and> length d = outlen c \<and> outlen c + 4 \<le> n \<and> d = comp_bytes c"
  proof (cases "outlen c + 4 > outsize c")
    case True
    with assms show ?thesis
      by (auto simp: buf_inv_def comp_bytes_def intro!: exI [of _ "outlen c + 4"])
  next
    case False
    with assms obtain d where "outbuf c = PHeap d (outsize c) 0" "length d = outlen c"
      by (auto simp: buf_inv_def)
    with False show ?thesis
      by (intro exI [of _ d] exI [of _ "outsize c"]) (simp add: comp_bytes_def)
  qed
  then obtain d n where g: "(if outlen c + 4 > outsize c
       then bindR (heap_realloc (outbuf c) (outlen c + 4)) (\<lambda>b. Inr (c\<lparr>outsize := outlen c + 4, outbuf := b\<rparr>))
       else Inr c) = Inr (c\<lparr>outbuf := PHeap d n 0, outsize := n\<rparr>)"
    and d: "length d = outlen c" "outlen c + 4 \<le> n" "d = comp_bytes c" by blast
  let ?c = "c\<lparr>outbuf := PHeap (d @ [x, y, z, w]) n 0, outsize := n, outlen := outlen c + 4\<rparr>"
  have "out4bytes c x y z w = Inr ?c"
    unfolding out4bytes_def Let_def g using d(1,2) by simp
  moreover have "buf_inv ?c" using d by (simp add: buf_inv_def)
  moreover have "comp_bytes ?c = comp_bytes c @ [x, y, z, w]"
    unfolding d(3) [symmetric] by (simp add: comp_bytes_def)
  ultimately show ?thesis by (auto simp: comp_frame_def)
qed

section \<open>What a call of \<open>deflate\<close> writes\<close>

definition zlib_header :: "u8 list" where "zlib_header = [0x78, 0x01]"

definition adler_bytes :: "u32 \<Rightarrow> u8 list" where
  "adler_bytes v = [ucast (drop_bit 24 v), ucast (drop_bit 16 v), ucast (drop_bit 8 v), ucast v]"

lemma deflate_header_ok:
  assumes "outbuf u = PNull"
  shows "\<exists>c. deflate_header u flush = Inr c \<and> comp_inv c \<and> \<not> comp_disabled c \<and>
     dict_size c = dict_size u \<and> hash_bits c = hash_bits u \<and>
     comp_bits c = bytes_bits (if flush = Z_FINISH \<or> comp_disabled u then zlib_header else [])"
proof -
  let ?u = "u\<lparr>outlen := 0, outsize := 0, obits := 0, noutbits := 0, hash_table := (\<lambda>_. None)\<rparr>"
  have inv: "comp_inv ?u" and nil: "comp_bits ?u = []"
    using assms by (simp_all add: comp_inv_def buf_inv_def comp_bits_def comp_bytes_def)
  have bits: "bits_of 8 0x78 @ bits_of 8 0x01 = bytes_bits zlib_header"
    by (simp add: zlib_header_def byte_bits_eq_bits_of)
  have dis: "comp_inv (c\<lparr>comp_disabled := False\<rparr>) = comp_inv c"
      "comp_bits (c\<lparr>comp_disabled := False\<rparr>) = comp_bits c" for c
    by (simp_all add: comp_inv_def buf_inv_def comp_bits_def comp_bytes_def)
  have "emitted comp_inv comp_bits comp_frame ?u (bits_of 8 0x78 @ bits_of 8 0x01)
     (bindR (outbits ?u 0x78 8) (\<lambda>u. outbits u 0x01 8))"
    by (rule ob.emitted_put_bind [OF inv]) (auto intro: ob.put_emits)
  then obtain c where c: "bindR (outbits ?u 0x78 8) (\<lambda>u. outbits u 0x01 8) = Inr c" "comp_inv c"
      "comp_bits c = bytes_bits zlib_header" "comp_frame ?u c"
    using nil bits by (auto simp: emitted_def)
  show ?thesis
  proof (cases "flush = Z_FINISH \<or> comp_disabled u")
    case True
    with c show ?thesis by (auto simp: deflate_header_def Let_def dis comp_frame_def)
  next
    case False
    with inv nil show ?thesis by (auto simp: deflate_header_def Let_def dis)
  qed
qed


lemma deflate_open_block_ok:
  assumes "comp_inv c"
  shows "emitted comp_inv comp_bits comp_frame c [flush = Z_FINISH, True, False] (deflate_open_block c flush)"
proof (cases "flush = Z_FINISH")
  case True
  then show ?thesis using zlib_start_block_emits [OF assms] by (simp add: deflate_open_block_def)
next
  case False
  have "emitted comp_inv comp_bits comp_frame c (bits_of 1 0 @ bits_of 2 1)
     (bindR (outbits c 0 1) (\<lambda>c. outbits c 1 2))"
    by (rule ob.emitted_put_bind [OF assms]) (auto intro: ob.put_emits)
  with False show ?thesis by (simp add: deflate_open_block_def bits_of_def upt_rec)
qed

definition block_tail :: "int \<Rightarrow> bool list" where
  "block_tail flush = (if flush = Z_FINISH then [] else [False, False, False])"

definition trailer :: "int \<Rightarrow> u32 \<Rightarrow> u8 list" where
  "trailer flush ck = (if flush = Z_FINISH then adler_bytes ck else [0x00, 0x00, 0xFF, 0xFF])"

lemma comp_inv_tail: "comp_inv c \<Longrightarrow> length (bits_of (noutbits c) (obits c)) < 8"
  by (simp add: comp_inv_def)

lemma adler_bytes_eq:
  "[ucast (drop_bit 24 v AND 0xFF), ucast (drop_bit 16 v AND 0xFF), ucast (drop_bit 8 v AND 0xFF),
    ucast (v AND 0xFF)] = adler_bytes v" for v :: u32
proof -
  have "ucast (w AND 0xFF) = (ucast w :: u8)" for w :: u32
    unfolding and_0xFF by (rule bit_word_eqI) (simp add: bit_simps)
  then show ?thesis by (simp add: adler_bytes_def)
qed

lemma deflate_close_block_ok:
  assumes "comp_inv c"
  shows "\<exists>c' bytes. deflate_close_block c flush ck = Inr c' \<and> buf_inv c' \<and>
     padded bytes (comp_bits c @ end_of_block @ block_tail flush) \<and>
     comp_bytes c' = bytes @ trailer flush ck \<and>
     dict_size c' = dict_size c \<and> hash_bits c' = hash_bits c \<and> comp_disabled c' = (flush = Z_FINISH \<or> comp_disabled c)"
proof -
  define op where "op = (if flush = Z_FINISH then zlib_finish_block c
      else bindR (outbits c 0 7) (\<lambda>u. bindR (outbits u 0 3) (\<lambda>u. outbits u 0 7)))"
  have "emitted comp_inv comp_bits comp_frame c (bits_of 7 0 @ bits_of 3 0 @ bits_of 7 0)
      (bindR (outbits c 0 7) (\<lambda>u. bindR (outbits u 0 3) (\<lambda>u. outbits u 0 7)))"
    by (intro ob.emitted_put_bind assms) (auto intro: ob.put_emits)
  moreover have "bits_of 7 0 = end_of_block" "bits_of 7 0 = replicate 7 False" "bits_of 3 0 = [False, False, False]"
    unfolding end_of_block_eq by (simp_all add: bits_of_def upt_rec numeral_eq_Suc)
  ultimately have "emitted comp_inv comp_bits comp_frame c
      (end_of_block @ block_tail flush @ replicate 7 False) op"
    using zlib_finish_block_emits [OF assms] by (simp add: op_def block_tail_def)
  then obtain c1 where c1: "op = Inr c1" "comp_inv c1" "comp_frame c c1"
      "comp_bits c1 = (comp_bits c @ end_of_block @ block_tail flush) @ replicate 7 False"
    by (auto simp: emitted_def)
  have pad: "padded (comp_bytes c1) (comp_bits c @ end_of_block @ block_tail flush)"
    by (rule flushed_padded [OF _ comp_inv_tail [OF c1(2)]]) (use c1(4) in \<open>simp add: comp_bits_def\<close>)
  have buf: "buf_inv c1" using c1(2) by (simp add: comp_inv_def)
  show ?thesis
  proof (cases "flush = Z_FINISH")
    case True
    obtain c2 where "out4bytes c1 (ucast (drop_bit 24 ck AND 0xFF)) (ucast (drop_bit 16 ck AND 0xFF))
        (ucast (drop_bit 8 ck AND 0xFF)) (ucast (ck AND 0xFF)) = Inr c2" "buf_inv c2"
        "comp_bytes c2 = comp_bytes c1 @ adler_bytes ck" "comp_frame c1 c2"
      using out4bytes_ok [OF buf] unfolding adler_bytes_eq [symmetric] by blast
    with True c1 pad show ?thesis
      by (intro exI [of _ "c2\<lparr>comp_disabled := True\<rparr>"] exI [of _ "comp_bytes c1"])
        (auto simp: deflate_close_block_def op_def comp_frame_def trailer_def buf_inv_def comp_bytes_def)
  next
    case False
    obtain c2 where "out4bytes c1 0x00 0x00 0xFF 0xFF = Inr c2" "buf_inv c2"
        "comp_bytes c2 = comp_bytes c1 @ [0x00, 0x00, 0xFF, 0xFF]" "comp_frame c1 c2"
      using out4bytes_ok [OF buf] by blast
    moreover have "deflate_close_block c flush ck = bindR op (\<lambda>u. out4bytes u 0x00 0x00 0xFF 0xFF)"
      using False by (auto simp: deflate_close_block_def op_def bindR_def split: sum.splits)
    ultimately show ?thesis using False c1 pad
      by (intro exI [of _ c2] exI [of _ "comp_bytes c1"]) (auto simp: comp_frame_def trailer_def)
  qed
qed

lemma padded_prefix:
  assumes "padded bytes (bytes_bits xs @ bs)"
  shows "\<exists>body. bytes = xs @ body \<and> padded body bs"
  using assms bytes_bits_prefix [of bytes xs] by (fastforce simp: padded_def)

text \<open>The bytes one call produces, for either kind of flush.\<close>

definition deflate_output :: "bool \<Rightarrow> int \<Rightarrow> u8 list \<Rightarrow> u32 \<Rightarrow> u8 list \<Rightarrow> bool" where
  "deflate_output header flush src ck Z \<longleftrightarrow>
     (\<exists>ts body. tokens_ok [] ts \<and> expand [] ts = src \<and>
        Z = (if header then zlib_header else []) @ body @ trailer flush ck \<and>
        padded body ([flush = Z_FINISH, True, False] @ tokens_bits ts @ end_of_block @ block_tail flush))"

lemma deflate_encode_ok:
  assumes u: "outbuf u = PNull" "dict_size u \<le> 32768"
    and src: "mem_read (next_in strm) (unat (avail_in strm)) (in_mem strm) = Inr src"
  shows "\<exists>u' Z ck. deflate_encode strm u flush = Inr
      (strm\<lparr>adler := (if flush = Z_FINISH then adler strm else ck),
            total_in := (if flush = Z_FINISH then avail_in strm else total_in strm + avail_in strm),
            next_in := next_in strm + unat (avail_in strm), avail_in := 0\<rparr>, u') \<and>
     ck = muzic_adler32 src (length src) (adler strm) \<and> buf_inv u' \<and> comp_bytes u' = Z \<and>
     deflate_output (flush = Z_FINISH \<or> comp_disabled u) flush src ck Z \<and>
     dict_size u' = dict_size u \<and> hash_bits u' = hash_bits u \<and> comp_disabled u' = (flush = Z_FINISH)"
proof -
  define H where "H = (if flush = Z_FINISH \<or> comp_disabled u then zlib_header else [])"
  define ck where "ck = muzic_adler32 src (unat (avail_in strm)) (adler strm)"
  have len: "length src = unat (avail_in strm)" using src by (auto simp: mem_read_def split: if_splits)
  obtain c1 where c1: "deflate_header u flush = Inr c1" "comp_inv c1" "\<not> comp_disabled c1"
      "dict_size c1 = dict_size u" "hash_bits c1 = hash_bits u" "comp_bits c1 = bytes_bits H"
    using deflate_header_ok [OF u(1), of flush] unfolding H_def by blast
  obtain c2 where c2: "deflate_open_block c1 flush = Inr c2" "comp_inv c2" "comp_frame c1 c2"
      "comp_bits c2 = bytes_bits H @ [flush = Z_FINISH, True, False]"
    using deflate_open_block_ok [OF c1(2), of flush] c1(6) by (auto simp: emitted_def)
  have "lz_ok c2" using c2 c1 u(2) by (simp add: lz_ok_def comp_frame_def)
  from uzlib_compress_ok [OF this, of src] obtain c3 ts where
    c3: "uzlib_compress c2 src = Inr c3" "lz_ok c3" "lz_frame c2 c3"
      "comp_bits c3 = comp_bits c2 @ tokens_bits ts" "tokens_ok [] ts" "expand [] ts = src" by blast
  have inv3: "comp_inv c3" using c3(2) by (simp add: lz_ok_def)
  obtain c4 bytes where c4: "deflate_close_block c3 flush ck = Inr c4" "buf_inv c4"
      "padded bytes (comp_bits c3 @ end_of_block @ block_tail flush)"
      "comp_bytes c4 = bytes @ trailer flush ck"
      "dict_size c4 = dict_size c3" "hash_bits c4 = hash_bits c3" "comp_disabled c4 = (flush = Z_FINISH \<or> comp_disabled c3)"
    using deflate_close_block_ok [OF inv3, of flush ck] by blast
  have "padded bytes (bytes_bits H @ ([flush = Z_FINISH, True, False] @ tokens_bits ts @ end_of_block @ block_tail flush))"
    using c4(3) c3(4) c2(4) by simp
  then obtain body where body: "bytes = H @ body"
      "padded body ([flush = Z_FINISH, True, False] @ tokens_bits ts @ end_of_block @ block_tail flush)"
    using padded_prefix by blast
  have "deflate_output (flush = Z_FINISH \<or> comp_disabled u) flush src ck (comp_bytes c4)"
    unfolding deflate_output_def using c3(5,6) body c4(4) by (auto simp: H_def)
  moreover have "deflate_encode strm u flush = Inr
      (strm\<lparr>adler := (if flush = Z_FINISH then adler strm else ck),
            total_in := (if flush = Z_FINISH then avail_in strm else total_in strm + avail_in strm),
            next_in := next_in strm + unat (avail_in strm), avail_in := 0\<rparr>, c4)"
    unfolding deflate_encode_def src bindR_simps c1(1) Let_def ck_def [symmetric] c2(1) c3(1) c4(1)
    by simp
  ultimately show ?thesis
    using c4 c3(2,3) c2(3) c1 len by (auto simp: ck_def lz_frame_def comp_frame_def lz_ok_def)
qed

lemma fixed_lit_code_length: "length (fixed_lit_code s) \<le> 9" "256 \<le> s \<Longrightarrow> length (fixed_lit_code s) \<le> 8"
  by (simp_all add: fixed_lit_code_def)

lemma token_bits_length:
  assumes "token_ok out t"
  shows "length (token_bits t) + 11 * length out \<le> 11 * length (expand1 out t)"
proof (cases t)
  case (Literal b)
  then show ?thesis using fixed_lit_code_length(1) [of "unat b"] by simp
next
  case (Match d l)
  with assms have l: "3 \<le> l" "l \<le> 258" and d: "1 \<le> d" "d \<le> 32768" by auto
  have "len_extra ! len_index l \<le> 5" "dist_extra ! dist_index d \<le> 13"
    using extras_le find_lencode_ok(2) [OF l] find_distcode_ok(2) [OF d] by auto
  with Match l fixed_lit_code_length(2) [of "257 + len_index l"] show ?thesis
    by (simp add: fixed_dist_code_def)
qed

lemma tokens_bits_length:
  "tokens_ok out ts \<Longrightarrow> length (tokens_bits ts) + 11 * length out \<le> 11 * length (expand out ts)"
proof (induction ts arbitrary: out)
  case (Cons t ts)
  then show ?case using token_bits_length [of out t] by fastforce
qed simp

lemma deflate_output_length:
  assumes "deflate_output h flush src ck Z"
  shows "length Z \<le> 2 * length src + 10" and "6 \<le> length Z + (if h then 0 else 2)"
proof -
  obtain ts body k where o: "tokens_ok [] ts" "expand [] ts = src"
      "Z = (if h then zlib_header else []) @ body @ trailer flush ck" "k < 8"
      "bytes_bits body = ([flush = Z_FINISH, True, False] @ tokens_bits ts @ end_of_block @ block_tail flush)
         @ replicate k False"
    using assms by (auto simp: deflate_output_def padded_def)
  have "8 * length body \<le> 3 + length (tokens_bits ts) + 7 + 3 + 7"
    using arg_cong [OF o(5), of length] o(4) by (simp add: end_of_block_eq block_tail_def split: if_splits)
  moreover have "length (tokens_bits ts) \<le> 11 * length src" using tokens_bits_length [OF o(1)] o(2) by simp
  ultimately have "8 * length body \<le> 11 * length src + 20" by simp
  then have "length body \<le> 2 * length src + 2" by linarith
  then show "length Z \<le> 2 * length src + 10"
    using o(3) by (simp add: zlib_header_def trailer_def adler_bytes_def)
  show "6 \<le> length Z + (if h then 0 else 2)"
    using o(3) by (simp add: zlib_header_def trailer_def adler_bytes_def)
qed

section \<open>Delivery\<close>

text \<open>
  Between calls the private buffer is either gone or holds the bytes that did not fit; its base is
  found by subtracting \<^verbatim>\<open>total_out\<close> from the current position, which is why \<^verbatim>\<open>total_out\<close> restarts
  with the buffer.
\<close>

definition pending :: "uzlib_comp \<Rightarrow> u32 \<Rightarrow> bool" where
  "pending u tot \<longleftrightarrow>
     (\<exists>d c off. outbuf u = PHeap d c off \<and> length d = off + outlen u \<and> length d \<le> c \<and>
        off = unat tot \<and> length d < 2 ^ 32)"

definition deflate_wf :: "uzlib_comp z_stream \<Rightarrow> bool" where
  "deflate_wf strm \<longleftrightarrow>
     (\<exists>u. state strm = Some u \<and> dict_size u \<le> 32768 \<and>
        (outbuf u = PNull \<or> pending u (total_out strm)))"

definition unsent :: "uzlib_comp z_stream \<Rightarrow> u8 list" where
  "unsent strm = (case state strm of None \<Rightarrow> [] | Some u \<Rightarrow> comp_bytes u)"

lemma deflate_partial_ok:
  assumes h: "outbuf u = PHeap d c off" "length d = off + outlen u" "length d \<le> c"
    and n: "unat (avail_out strm) < outlen u"
    and m: "mem_write (next_out strm) (take (unat (avail_out strm)) (drop off d)) (out_mem strm) = Inr mem"
  shows "deflate_partial strm u t = Inr (strm\<lparr>out_mem := mem,
      next_out := next_out strm + unat (avail_out strm), total_out := t, avail_out := 0,
      state := Some (u\<lparr>outbuf := PHeap d c (off + unat (avail_out strm)),
                       outlen := outlen u - unat (avail_out strm)\<rparr>)\<rparr>)"
  using assms by (simp add: deflate_partial_def Let_def)

lemma pending_bytes: "pending u t \<Longrightarrow> length (comp_bytes u) = outlen u"
  by (auto simp: pending_def comp_bytes_def)

text \<open>A call with pending output and no new input: the next piece is delivered.\<close>

lemma deflate_drains:
  assumes st: "state strm = Some u" "dict_size u \<le> 32768" and p: "pending u (total_out strm)"
    and ai: "avail_in strm = 0"
    and m: "mem_write (next_out strm) (take (unat (avail_out strm)) (comp_bytes u)) (out_mem strm) = Inr mem"
  shows "\<exists>strm'. deflate strm flush = Inr (Z_OK, strm') \<and> deflate_wf strm' \<and> avail_in strm' = 0 \<and>
     out_mem strm' = mem \<and> next_out strm' = next_out strm + min (unat (avail_out strm)) (outlen u) \<and>
     total_out strm' = total_out strm + of_nat (min (unat (avail_out strm)) (outlen u)) \<and>
     unsent strm' = drop (unat (avail_out strm)) (comp_bytes u) \<and> adler strm' = adler strm \<and>
     (\<exists>u'. state strm' = Some u' \<and> (outlen u \<le> unat (avail_out strm) \<longrightarrow> outbuf u' = PNull) \<and>
         (unat (avail_out strm) < outlen u \<longrightarrow> pending u' (total_out strm')))"
proof -
  obtain d c off where h: "outbuf u = PHeap d c off" "length d = off + outlen u" "length d \<le> c"
      "off = unat (total_out strm)" "length d < 2 ^ 32"
    using p by (auto simp: pending_def)
  have cb: "comp_bytes u = drop off d" using h by (simp add: comp_bytes_def)
  show ?thesis
  proof (cases "unat (avail_out strm) < outlen u")
    case True
    let ?u = "u\<lparr>outbuf := PHeap d c (off + unat (avail_out strm)), outlen := outlen u - unat (avail_out strm)\<rparr>"
    have eq: "deflate strm flush = Inr (Z_OK, strm\<lparr>out_mem := mem, next_out := next_out strm + unat (avail_out strm),
        total_out := total_out strm + avail_out strm, avail_out := 0, state := Some ?u\<rparr>)"
      using deflate_partial_ok [OF h(1-3) True, of mem] m cb st h(1) True
      by (simp add: deflate_def deflate_pending_def)
    have "unat (total_out strm + avail_out strm) = off + unat (avail_out strm)"
      using h True by (simp add: unat_word_ariths)
    then have "pending ?u (total_out strm + avail_out strm)" using h True by (simp add: pending_def)
    with eq st True ai cb show ?thesis
      by (auto simp: deflate_wf_def unsent_def comp_bytes_def min_def add.commute)
  next
    case False
    then have tk: "take (unat (avail_out strm)) (comp_bytes u) = drop off d" using h cb by simp
    have "deflate strm flush = Inr (Z_OK, strm\<lparr>out_mem := mem,
        avail_out := avail_out strm - of_nat (outlen u), next_out := next_out strm + outlen u,
        total_out := total_out strm + of_nat (outlen u), state := Some (u\<lparr>outbuf := PNull\<rparr>)\<rparr>)"
      using False h m tk st ai by (simp add: deflate_def deflate_pending_def Let_def)
    with False st ai h cb show ?thesis
      by (auto simp: deflate_wf_def unsent_def comp_bytes_def min_def)
  qed
qed

text \<open>
  A call that has nothing pending: all input is consumed and encoded, and the result is handed to
  the delivery step.
\<close>

lemma deflate_fresh:
  assumes st: "state strm = Some u" "outbuf u = PNull" "dict_size u \<le> 32768"
    and src: "mem_read (next_in strm) (unat (avail_in strm)) (in_mem strm) = Inr src"
    and work: "flush = Z_FINISH \<or> src \<noteq> []"
  obtains u' c Z ck where
    "deflate strm flush = deflate_deliver
      (strm\<lparr>adler := (if flush = Z_FINISH then adler strm else ck),
            total_in := (if flush = Z_FINISH then avail_in strm else total_in strm + avail_in strm),
            next_in := next_in strm + unat (avail_in strm), avail_in := 0\<rparr>) u' flush"
    "ck = muzic_adler32 src (length src) (adler strm)"
    "outbuf u' = PHeap Z c 0" "outlen u' = length Z" "length Z \<le> c"
    "deflate_output (flush = Z_FINISH \<or> comp_disabled u) flush src ck Z"
    "dict_size u' = dict_size u" "hash_bits u' = hash_bits u" "comp_disabled u' = (flush = Z_FINISH)"
proof -
  obtain u' Z ck where e: "deflate_encode strm u flush = Inr
      (strm\<lparr>adler := (if flush = Z_FINISH then adler strm else ck),
            total_in := (if flush = Z_FINISH then avail_in strm else total_in strm + avail_in strm),
            next_in := next_in strm + unat (avail_in strm), avail_in := 0\<rparr>, u')"
     "ck = muzic_adler32 src (length src) (adler strm)" "buf_inv u'" "comp_bytes u' = Z"
     "deflate_output (flush = Z_FINISH \<or> comp_disabled u) flush src ck Z"
     "dict_size u' = dict_size u" "hash_bits u' = hash_bits u" "comp_disabled u' = (flush = Z_FINISH)"
    using deflate_encode_ok [OF st(2,3) src, of flush] by blast
  have "Z \<noteq> []" using deflate_output_length(2) [OF e(5)] by (auto split: if_splits)
  then have "outbuf u' \<noteq> PNull" using e(4) by (auto simp: comp_bytes_def)
  then obtain d where "outbuf u' = PHeap d (outsize u') 0" "length d = outlen u'" "outlen u' \<le> outsize u'"
    using e(3) unfolding buf_inv_def by blast
  then have c: "outbuf u' = PHeap Z (outsize u') 0" "outlen u' = length Z" "length Z \<le> outsize u'"
    using e(4) by (simp_all add: comp_bytes_def)
  have "avail_in strm \<noteq> 0 \<or> flush = Z_FINISH"
    using work src by (auto simp: mem_read_def split: if_splits)
  then have "deflate strm flush = deflate_deliver
      (strm\<lparr>adler := (if flush = Z_FINISH then adler strm else ck),
            total_in := (if flush = Z_FINISH then avail_in strm else total_in strm + avail_in strm),
            next_in := next_in strm + unat (avail_in strm), avail_in := 0\<rparr>) u' flush"
    using st e(1) by (auto simp: deflate_def deflate_pending_def)
  from that [OF this e(2) c e(5-8)] show thesis .
qed

lemma deflate_finish_ok:
  assumes "state strm = Some u" "outbuf u = PNull" "dict_size u \<le> 32768"
    and "mem_read (next_in strm) (unat (avail_in strm)) (in_mem strm) = Inr src"
    and "2 * length src + 10 \<le> unat (avail_out strm)"
    and "next_out strm + unat (avail_out strm) \<le> length (out_mem strm)"
  shows "\<exists>Z strm'. deflate strm Z_FINISH = Inr (Z_STREAM_END, strm') \<and>
     deflate_output True Z_FINISH src (muzic_adler32 src (length src) (adler strm)) Z \<and>
     mem_write (next_out strm) Z (out_mem strm) = Inr (out_mem strm') \<and>
     next_in strm' = next_in strm + length src \<and> avail_in strm' = 0 \<and> unat (total_in strm') = length src \<and>
     next_out strm' = next_out strm + length Z \<and>
     unat (avail_out strm') = unat (avail_out strm) - length Z \<and> unat (total_out strm') = length Z \<and>
     deflate_wf strm' \<and> unsent strm' = [] \<and> adler strm' = adler strm"
proof -
  obtain u' c Z ck where r: "deflate strm Z_FINISH = deflate_deliver
      (strm\<lparr>adler := adler strm, total_in := avail_in strm, next_in := next_in strm + unat (avail_in strm), avail_in := 0\<rparr>) u' Z_FINISH"
    "ck = muzic_adler32 src (length src) (adler strm)"
    "outbuf u' = PHeap Z c 0" "outlen u' = length Z" "length Z \<le> c"
    "deflate_output True Z_FINISH src ck Z" "dict_size u' = dict_size u"
    by (rule deflate_fresh [OF assms(1-4), of Z_FINISH]) simp_all
  have len: "length src = unat (avail_in strm)"
    using assms(4) by (auto simp: mem_read_def split: if_splits)
  have Z: "length Z \<le> unat (avail_out strm)" using deflate_output_length(1) [OF r(6)] assms(5) by simp
  have Zl: "length Z < 2 ^ 32" using Z unsigned_less [of "avail_out strm", where ?'a = nat] by simp
  obtain m where m: "mem_write (next_out strm) Z (out_mem strm) = Inr m"
    using mem_write_ok [of "next_out strm" Z "out_mem strm"] Z assms(6) by auto
  have sub: "unat (avail_out strm - of_nat (length Z)) = unat (avail_out strm) - length Z"
    using Z Zl by (simp add: unat_sub word_le_nat_alt unat_of_nat)
  show ?thesis
    using r m Z len sub Zl assms(3)
    by (intro exI [of _ Z]) (simp add: deflate_deliver_def Let_def deflate_wf_def unsent_def comp_bytes_def unat_of_nat)
qed

lemma deflate_flush_chunk_ok:
  assumes "state strm = Some u" "outbuf u = PNull" "dict_size u \<le> 32768"
    and "mem_read (next_in strm) (unat (avail_in strm)) (in_mem strm) = Inr src"
    and "flush \<noteq> Z_FINISH" and "src \<noteq> []" and "length src < 2 ^ 30"
    and "next_out strm + unat (avail_out strm) \<le> length (out_mem strm)"
  shows "\<exists>Z strm'. deflate strm flush = Inr (Z_OK, strm') \<and>
     deflate_output (comp_disabled u) flush src (muzic_adler32 src (length src) (adler strm)) Z \<and>
     mem_write (next_out strm) (take (unat (avail_out strm)) Z) (out_mem strm) = Inr (out_mem strm') \<and>
     next_out strm' = next_out strm + min (unat (avail_out strm)) (length Z) \<and>
     unsent strm' = drop (unat (avail_out strm)) Z \<and> deflate_wf strm' \<and>
     next_in strm' = next_in strm + length src \<and> avail_in strm' = 0 \<and>
     adler strm' = muzic_adler32 src (length src) (adler strm)"
proof -
  obtain u' c Z ck where r: "deflate strm flush = deflate_deliver
      (strm\<lparr>adler := ck, total_in := total_in strm + avail_in strm, next_in := next_in strm + unat (avail_in strm), avail_in := 0\<rparr>) u' flush"
    "ck = muzic_adler32 src (length src) (adler strm)"
    "outbuf u' = PHeap Z c 0" "outlen u' = length Z" "length Z \<le> c"
    "deflate_output (comp_disabled u) flush src ck Z" "dict_size u' = dict_size u"
    by (rule deflate_fresh [OF assms(1-4), of flush]) (use assms(5,6) in simp_all)
  have len: "length src = unat (avail_in strm)"
    using assms(4) by (auto simp: mem_read_def split: if_splits)
  have Zl: "length Z < 2 ^ 32" using deflate_output_length(1) [OF r(6)] assms(7) by simp
  let ?n = "unat (avail_out strm)"
  obtain m where m: "mem_write (next_out strm) (take ?n Z) (out_mem strm) = Inr m"
    using mem_write_take_ok [of "next_out strm" Z "out_mem strm" ?n] assms(8) by auto
  show ?thesis
  proof (cases "?n < length Z")
    case True
    define s1 where "s1 = strm\<lparr>adler := ck, total_in := total_in strm + avail_in strm,
        next_in := next_in strm + unat (avail_in strm), avail_in := 0\<rparr>"
    have n: "unat (avail_out s1) < outlen u'" "mem_write (next_out s1) (take (unat (avail_out s1)) (drop 0 Z)) (out_mem s1) = Inr m"
      using True r m by (simp_all add: s1_def)
    let ?u = "u'\<lparr>outbuf := PHeap Z c (0 + unat (avail_out s1)), outlen := outlen u' - unat (avail_out s1)\<rparr>"
    have "deflate strm flush = Inr (Z_OK, s1\<lparr>out_mem := m, next_out := next_out s1 + unat (avail_out s1),
        total_out := avail_out s1, avail_out := 0, state := Some ?u\<rparr>)"
      using r(1) deflate_partial_ok [OF r(3) _ r(5) n, of "avail_out s1"] n(1) assms(5) r(4)
      by (simp add: deflate_deliver_def s1_def)
    moreover have "pending ?u (avail_out strm)"
      using True r Zl by (simp add: pending_def s1_def)
    ultimately show ?thesis using True r m len assms(3)
      by (intro exI [of _ Z]) (auto simp: s1_def deflate_wf_def unsent_def comp_bytes_def)
  next
    case False
    with m have "mem_write (next_out strm) Z (out_mem strm) = Inr m" by simp
    with False r len assms(3,5) show ?thesis
      by (intro exI [of _ Z]) (simp add: deflate_deliver_def Let_def deflate_wf_def unsent_def comp_bytes_def)
  qed
qed

text \<open>With room for the whole chunk nothing stays behind and the state is ready for the next one.\<close>

lemma deflate_flush_whole:
  assumes "state strm = Some u" "outbuf u = PNull" "dict_size u \<le> 32768"
    and "mem_read (next_in strm) (unat (avail_in strm)) (in_mem strm) = Inr src"
    and "flush \<noteq> Z_FINISH" and "src \<noteq> []" and "2 * length src + 10 \<le> unat (avail_out strm)"
    and "next_out strm + unat (avail_out strm) \<le> length (out_mem strm)"
  shows "\<exists>Z u' strm'. deflate strm flush = Inr (Z_OK, strm') \<and>
     deflate_output (comp_disabled u) flush src (muzic_adler32 src (length src) (adler strm)) Z \<and>
     mem_write (next_out strm) Z (out_mem strm) = Inr (out_mem strm') \<and> next_out strm' = next_out strm + length Z \<and>
     state strm' = Some u' \<and> outbuf u' = PNull \<and> dict_size u' \<le> 32768 \<and> \<not> comp_disabled u'"
proof -
  obtain u' c Z ck where r: "deflate strm flush = deflate_deliver
      (strm\<lparr>adler := ck, total_in := total_in strm + avail_in strm, next_in := next_in strm + unat (avail_in strm), avail_in := 0\<rparr>) u' flush"
    "ck = muzic_adler32 src (length src) (adler strm)"
    "outbuf u' = PHeap Z c 0" "outlen u' = length Z" "length Z \<le> c"
    "deflate_output (comp_disabled u) flush src ck Z" "dict_size u' = dict_size u" "\<not> comp_disabled u'"
    by (rule deflate_fresh [OF assms(1-4), of flush]) (use assms(5,6) in simp_all)
  have Z: "length Z \<le> unat (avail_out strm)" using deflate_output_length(1) [OF r(6)] assms(7) by simp
  obtain m where "mem_write (next_out strm) Z (out_mem strm) = Inr m"
    using mem_write_ok [of "next_out strm" Z "out_mem strm"] Z assms(8) by auto
  with r Z assms(3,5) show ?thesis
    by (intro exI [of _ Z]) (simp add: deflate_deliver_def Let_def)
qed

text \<open>The stream as \<^verbatim>\<open>deflateInit\<close> leaves it, with a given input and output region.\<close>

definition sample_comp :: uzlib_comp where
  "sample_comp = \<lparr>outbuf = PNull, outlen = 0, outsize = 0, obits = 0, noutbits = 0, comp_disabled = True,
     hash_table = (\<lambda>_. None), hash_bits = 12, dict_size = 32768\<rparr>"

definition sample_stream :: "u8 list \<Rightarrow> u8 list \<Rightarrow> u32 \<Rightarrow> u32 \<Rightarrow> uzlib_comp z_stream" where
  "sample_stream src dst n_in n_out = \<lparr>in_mem = src, next_in = 0, avail_in = n_in, total_in = 0,
     out_mem = dst, next_out = 0, avail_out = n_out, total_out = 0, msg = None,
     state = Some sample_comp, adler = 1\<rparr>"

lemma sample_simps [simp]:
  "outbuf sample_comp = PNull" "dict_size sample_comp = 32768" "comp_disabled sample_comp = True"
  "state (sample_stream src dst n_in n_out) = Some sample_comp"
  "next_in (sample_stream src dst n_in n_out) = 0" "avail_in (sample_stream src dst n_in n_out) = n_in"
  "in_mem (sample_stream src dst n_in n_out) = src" "out_mem (sample_stream src dst n_in n_out) = dst"
  "next_out (sample_stream src dst n_in n_out) = 0" "avail_out (sample_stream src dst n_in n_out) = n_out"
  "adler (sample_stream src dst n_in n_out) = 1"
  by (simp_all add: sample_comp_def sample_stream_def)

text \<open>C9: a call with \<^verbatim>\<open>Z_FINISH\<close>, no output pending and enough output space, on a stream object that has compressed nothing since
  \<^verbatim>\<open>deflateInit\<close> but complete streams, returns \<^verbatim>\<open>Z_STREAM_END\<close>, consumes all input, and writes a complete zlib stream: the two header bytes, one
  final fixed-Huffman block whose tokens are well formed and expand to exactly the input, zero
  padding to a byte boundary, and the Adler-32 of the input as RFC 1950 defines it, most significant byte first. The
  counters are advanced by exactly what was consumed and produced, and the stream object is ready for the next stream. Twice the input plus ten bytes of
  space are always enough; the output is below 2 GiB, so that its length fits the \<^verbatim>\<open>int\<close> members of the compressor.\<close>

theorem deflate_finish_stream:
  assumes "state strm = Some u" "outbuf u = PNull" "dict_size u \<le> 32768" "adler strm = 1"
    and "mem_read (next_in strm) (unat (avail_in strm)) (in_mem strm) = Inr src"
    and "2 * length src + 10 < 2 ^ 31" and "2 * length src + 10 \<le> unat (avail_out strm)"
    and "next_out strm + unat (avail_out strm) \<le> length (out_mem strm)"
  shows "\<exists>Z strm'. deflate strm Z_FINISH = Inr (Z_STREAM_END, strm') \<and>
     deflate_output True Z_FINISH src (adler_pack (adler_ref (1, 0) src)) Z \<and> length Z < 2 ^ 31 \<and>
     mem_write (next_out strm) Z (out_mem strm) = Inr (out_mem strm') \<and>
     next_in strm' = next_in strm + length src \<and> avail_in strm' = 0 \<and> unat (total_in strm') = length src \<and>
     next_out strm' = next_out strm + length Z \<and>
     unat (avail_out strm') = unat (avail_out strm) - length Z \<and> unat (total_out strm') = length Z \<and>
     deflate_wf strm' \<and> unsent strm' = [] \<and> adler strm' = 1"
proof -
  have "adler_unpack 1 = (1, 0)" by (simp add: adler_unpack_def)
  then have ck: "muzic_adler32 src (length src) 1 = adler_pack (adler_ref (1, 0) src)"
    using muzic_adler32_ref [of "length src" src 1] by (simp add: A32_BASE_def)
  note run = deflate_finish_ok [OF assms(1-3,5,7,8), unfolded assms(4) ck]
  have "length Z < 2 ^ 31" if "deflate_output True Z_FINISH src (adler_pack (adler_ref (1, 0) src)) Z" for Z
    using deflate_output_length(1) [OF that] assms(6) by simp
  with run show ?thesis by blast
qed

lemma deflate_finish_stream_witness:
  "\<exists>Z strm'. deflate (sample_stream [97, 98, 97, 98, 97, 98] (replicate 22 0) 6 22) Z_FINISH
       = Inr (Z_STREAM_END, strm') \<and>
     deflate_output True Z_FINISH [97, 98, 97, 98, 97, 98] 0x0804024A Z \<and>
     unat (total_out strm') = length Z \<and> unsent strm' = []"
proof -
  let ?src = "[97, 98, 97, 98, 97, 98] :: u8 list"
  let ?strm = "sample_stream ?src (replicate 22 0) 6 22"
  have "adler_ref (a, b) (x # xs) = adler_ref ((a + unat x) mod 65521, (b + (a + unat x) mod 65521) mod 65521) xs" for a b x xs
    by (simp add: A32_BASE_def Let_def)
  then have "adler_ref (1, 0) ?src = (586, 2052)" by (simp del: adler_ref.simps(2))
  moreover have "adler_pack (586, 2052) = 0x0804024A" by (simp add: adler_pack_def)
  ultimately have ck: "adler_pack (adler_ref (1, 0) ?src) = 0x0804024A" by (simp only:)
  have src: "mem_read (next_in ?strm) (unat (avail_in ?strm)) (in_mem ?strm) = Inr ?src" by (simp add: mem_read_def)
  from deflate_finish_stream [OF _ _ _ _ src, unfolded ck, of sample_comp] show ?thesis by fastforce
qed

text \<open>After chunks that were flushed, however, \<^verbatim>\<open>Z_FINISH\<close> starts a new stream without starting a new checksum: the stream holds the last input alone,
  and ends with the checksum of everything since the last complete stream.\<close>

lemma finish_continues_checksum:
  assumes "state strm = Some u" "outbuf u = PNull" "dict_size u \<le> 32768"
    and "adler strm = muzic_adler32 flushed (length flushed) 1"
    and "mem_read (next_in strm) (unat (avail_in strm)) (in_mem strm) = Inr src"
    and "2 * length src + 10 \<le> unat (avail_out strm)" and "next_out strm + unat (avail_out strm) \<le> length (out_mem strm)"
  shows "\<exists>Z strm'. deflate strm Z_FINISH = Inr (Z_STREAM_END, strm') \<and>
     deflate_output True Z_FINISH src (muzic_adler32 (flushed @ src) (length (flushed @ src)) 1) Z \<and>
     mem_write (next_out strm) Z (out_mem strm) = Inr (out_mem strm')"
  using deflate_finish_ok [OF assms(1-3,5-7)] muzic_adler32_append [of src flushed] assms(4) by metis

text \<open>C16: a call with any other flush mode, fresh input and no output pending compresses all of the
  input into a non-final block followed by an empty stored block, carries the running Adler-32, and
  hands over as many bytes as there is room for; the remaining bytes, in order, are what later calls
  will deliver, and the state invariant holds again.\<close>

theorem deflate_flush_chunk:
  assumes "state strm = Some u" "outbuf u = PNull" "dict_size u \<le> 32768"
    and "mem_read (next_in strm) (unat (avail_in strm)) (in_mem strm) = Inr src"
    and "flush \<noteq> Z_FINISH" and "src \<noteq> []" and "length src < 2 ^ 30"
    and "next_out strm + unat (avail_out strm) \<le> length (out_mem strm)"
  shows "\<exists>Z strm'. deflate strm flush = Inr (Z_OK, strm') \<and>
     deflate_output (comp_disabled u) flush src (muzic_adler32 src (length src) (adler strm)) Z \<and>
     mem_write (next_out strm) (take (unat (avail_out strm)) Z) (out_mem strm) = Inr (out_mem strm') \<and>
     next_out strm' = next_out strm + min (unat (avail_out strm)) (length Z) \<and>
     unsent strm' = drop (unat (avail_out strm)) Z \<and> deflate_wf strm' \<and>
     next_in strm' = next_in strm + length src \<and> avail_in strm' = 0 \<and>
     adler strm' = muzic_adler32 src (length src) (adler strm)"
  using assms by (rule deflate_flush_chunk_ok)

lemma deflate_flush_chunk_witness:
  "\<exists>Z strm'. deflate (sample_stream [97, 98, 97] (replicate 5 0) 3 5) Z_FULL_FLUSH = Inr (Z_OK, strm') \<and>
     deflate_output True Z_FULL_FLUSH [97, 98, 97] (muzic_adler32 [97, 98, 97] (length [97, 98, 97 :: u8]) 1) Z \<and>
     next_out strm' = min 5 (length Z) \<and> unsent strm' = drop 5 Z \<and> deflate_wf strm'"
  using deflate_flush_chunk [of "sample_stream [97, 98, 97] (replicate 5 0) 3 5" sample_comp "[97, 98, 97]" Z_FULL_FLUSH]
  by (auto simp: mem_read_def z_codes)

text \<open>C36: when a \<^verbatim>\<open>Z_FINISH\<close> call does not find room for the stream it returns \<^verbatim>\<open>Z_BUF_ERROR\<close> and
  writes nothing, but it leaves a dangling pointer to the freed output buffer behind: whatever the
  caller asks next, the following call of \<^verbatim>\<open>deflate\<close> uses freed memory.\<close>

theorem deflate_finish_no_space:
  assumes "state strm = Some u" "outbuf u = PNull" "dict_size u \<le> 32768"
    and "mem_read (next_in strm) (unat (avail_in strm)) (in_mem strm) = Inr src"
    and "unat (avail_out strm) < 6"
  shows "\<exists>strm'. deflate strm Z_FINISH = Inr (Z_BUF_ERROR, strm') \<and> out_mem strm' = out_mem strm \<and>
     (\<forall>flush. deflate strm' flush = Inl UseAfterFree)"
proof -
  obtain u' c Z ck where r: "deflate strm Z_FINISH = deflate_deliver
      (strm\<lparr>adler := adler strm, total_in := avail_in strm, next_in := next_in strm + unat (avail_in strm), avail_in := 0\<rparr>) u' Z_FINISH"
    "outbuf u' = PHeap Z c 0" "outlen u' = length Z" "length Z \<le> c"
    "deflate_output True Z_FINISH src ck Z"
    by (rule deflate_fresh [OF assms(1-4), of Z_FINISH]) simp_all
  have "unat (avail_out strm) < length Z" using deflate_output_length(2) [OF r(5)] assms(5) by simp
  with r show ?thesis
    by (auto simp: deflate_deliver_def deflate_def deflate_pending_def deflate_partial_def Let_def)
qed

lemma deflate_finish_no_space_witness:
  "\<exists>strm'. deflate (sample_stream [97, 98, 97] (replicate 5 0) 3 5) Z_FINISH = Inr (Z_BUF_ERROR, strm') \<and>
     deflate strm' Z_FINISH = Inl UseAfterFree"
  using deflate_finish_no_space [of "sample_stream [97, 98, 97] (replicate 5 0) 3 5" sample_comp "[97, 98, 97]"]
  by (auto simp: mem_read_def)

lemma deflate_idle:
  assumes "state strm = Some u" and "outbuf u = PNull" and "avail_in strm = 0" and "flush \<noteq> Z_FINISH"
  shows "deflate strm flush = Inr (Z_OK, strm)"
  using assms by (simp add: deflate_def deflate_pending_def)

lemma deflate_continue:
  assumes "deflate_wf strm" and "avail_in strm = 0" and "flush \<noteq> Z_FINISH"
    and m: "mem_write (next_out strm) (take (unat (avail_out strm)) (unsent strm)) (out_mem strm) = Inr mem"
  shows "\<exists>strm'. deflate strm flush = Inr (Z_OK, strm') \<and> deflate_wf strm' \<and> avail_in strm' = 0 \<and>
     out_mem strm' = mem \<and> next_out strm' = next_out strm + min (unat (avail_out strm)) (length (unsent strm)) \<and>
     unsent strm' = drop (unat (avail_out strm)) (unsent strm)"
proof -
  obtain u where u: "state strm = Some u" "dict_size u \<le> 32768" "outbuf u = PNull \<or> pending u (total_out strm)"
    using assms(1) by (auto simp: deflate_wf_def)
  show ?thesis
  proof (cases "outbuf u = PNull")
    case True
    then have un: "unsent strm = []" using u(1) by (simp add: unsent_def comp_bytes_def)
    with m have "mem = out_mem strm" by (auto simp: mem_write_def split: if_splits)
    with deflate_idle [OF u(1) True assms(2,3)] assms(1,2) un show ?thesis by simp
  next
    case False
    with u(3) have p: "pending u (total_out strm)" by simp
    have un: "unsent strm = comp_bytes u" using u(1) by (simp add: unsent_def)
    show ?thesis
      using deflate_drains [OF u(1,2) p assms(2) m [unfolded un], of flush] pending_bytes [OF p] un by auto
  qed
qed

text \<open>The caller's loop: offer \<open>n\<close> bytes of output space and call again.\<close>

fun deflate_calls :: "uzlib_comp z_stream \<Rightarrow> int \<Rightarrow> u32 list \<Rightarrow> uzlib_comp z_stream res" where
  "deflate_calls strm flush [] = Inr strm"
| "deflate_calls strm flush (n # ns) =
     bindR (deflate (strm\<lparr>avail_out := n\<rparr>) flush) (\<lambda>(r, strm). deflate_calls strm flush ns)"

definition room :: "u32 list \<Rightarrow> nat" where
  "room ns = sum_list (map unat ns)"

lemma deflate_calls_continue:
  assumes "deflate_wf strm" and "avail_in strm = 0" and "flush \<noteq> Z_FINISH"
    and "next_out strm + length (unsent strm) \<le> length (out_mem strm)"
  shows "\<exists>strm'. deflate_calls strm flush ns = Inr strm' \<and>
     mem_write (next_out strm) (take (room ns) (unsent strm)) (out_mem strm) = Inr (out_mem strm') \<and>
     unsent strm' = drop (room ns) (unsent strm)"
  using assms
proof (induction ns arbitrary: strm)
  case Nil
  then show ?case by (simp add: room_def mem_write_def)
next
  case (Cons n ns)
  let ?s = "strm\<lparr>avail_out := n\<rparr>"
  have wf: "deflate_wf ?s" "avail_in ?s = 0" using Cons.prems by (simp_all add: deflate_wf_def)
  have un: "unsent ?s = unsent strm" by (simp add: unsent_def)
  obtain m where m: "mem_write (next_out ?s) (take (unat (avail_out ?s)) (unsent ?s)) (out_mem ?s) = Inr m"
    using mem_write_take_ok [of "next_out strm" "unsent strm" "out_mem strm" "unat n"] Cons.prems(4)
    by (auto simp: un)
  obtain s1 where s1: "deflate ?s flush = Inr (Z_OK, s1)" "deflate_wf s1" "avail_in s1 = 0" "out_mem s1 = m"
      "next_out s1 = next_out strm + min (unat n) (length (unsent strm))"
      "unsent s1 = drop (unat n) (unsent strm)"
    using deflate_continue [OF wf Cons.prems(3) m] by (auto simp: un)
  have "length m = length (out_mem strm)" using m mem_write_length by fastforce
  then have "next_out s1 + length (unsent s1) \<le> length (out_mem s1)"
    using Cons.prems(4) s1 by (auto simp: min_def)
  from Cons.IH [OF s1(2,3) Cons.prems(3) this] obtain s2 where
    s2: "deflate_calls s1 flush ns = Inr s2" "unsent s2 = drop (room ns) (unsent s1)"
      "mem_write (next_out s1) (take (room ns) (unsent s1)) (out_mem s1) = Inr (out_mem s2)" by blast
  have "take (unat n) (unsent strm) @ take (room ns) (unsent s1) = take (room (n # ns)) (unsent strm)"
    by (simp add: s1(6) room_def take_add)
  moreover have "next_out s1 = next_out strm + length (take (unat n) (unsent strm))"
    using s1(5) by (simp add: min.commute)
  ultimately have "mem_write (next_out strm) (take (room (n # ns)) (unsent strm)) (out_mem strm) = Inr (out_mem s2)"
    using mem_write_append [of "next_out strm" "take (unat n) (unsent strm)" "out_mem strm" m "take (room ns) (unsent s1)"]
      m s2(3) s1(4) by (simp add: un)
  with s1 s2 show ?case by (simp add: room_def add.commute)
qed

text \<open>C17: streaming output. Let a caller start a flush and then call \<^verbatim>\<open>deflate\<close> again and again with
  any sequence of output space sizes, zero included. The bytes written to the output, one call after
  the other, are the bytes of the compressed chunk in order, as many as there was room for, and
  nothing is lost or repeated: the rest is still pending.\<close>

theorem deflate_fragmented_output:
  assumes "state strm = Some u" "outbuf u = PNull" "dict_size u \<le> 32768"
    and "mem_read (next_in strm) (unat (avail_in strm)) (in_mem strm) = Inr src"
    and "flush \<noteq> Z_FINISH" and "src \<noteq> []" and "length src < 2 ^ 30"
    and "next_out strm + unat n + 2 * length src + 10 \<le> length (out_mem strm)"
  shows "\<exists>Z strm'. deflate_calls strm flush (n # ns) = Inr strm' \<and>
     deflate_output (comp_disabled u) flush src (muzic_adler32 src (length src) (adler strm)) Z \<and>
     mem_write (next_out strm) (take (room (n # ns)) Z) (out_mem strm) = Inr (out_mem strm') \<and>
     unsent strm' = drop (room (n # ns)) Z"
proof -
  let ?s = "strm\<lparr>avail_out := n\<rparr>"
  obtain Z s1 where s1: "deflate ?s flush = Inr (Z_OK, s1)"
     "deflate_output (comp_disabled u) flush src (muzic_adler32 src (length src) (adler strm)) Z"
     "mem_write (next_out strm) (take (unat n) Z) (out_mem strm) = Inr (out_mem s1)"
     "next_out s1 = next_out strm + min (unat n) (length Z)"
     "unsent s1 = drop (unat n) Z" "deflate_wf s1" "avail_in s1 = 0"
    using deflate_flush_chunk_ok [of ?s u src flush] assms by auto
  have "length (out_mem s1) = length (out_mem strm)" using s1(3) mem_write_length by blast
  then have "next_out s1 + length (unsent s1) \<le> length (out_mem s1)"
    using s1(4,5) deflate_output_length(1) [OF s1(2)] assms(8) by (auto simp: min_def)
  from deflate_calls_continue [OF s1(6,7) assms(5) this, of ns] obtain s2 where
    s2: "deflate_calls s1 flush ns = Inr s2" "unsent s2 = drop (room ns) (unsent s1)"
      "mem_write (next_out s1) (take (room ns) (unsent s1)) (out_mem s1) = Inr (out_mem s2)" by blast
  have "take (unat n) Z @ take (room ns) (unsent s1) = take (room (n # ns)) Z"
    by (simp add: s1(5) room_def take_add)
  moreover have "next_out s1 = next_out strm + length (take (unat n) Z)"
    using s1(4) by (simp add: min.commute)
  ultimately have "mem_write (next_out strm) (take (room (n # ns)) Z) (out_mem strm) = Inr (out_mem s2)"
    using mem_write_append [OF s1(3), of "take (room ns) (unsent s1)"] s2(3) by simp
  with s1 s2 show ?thesis by (intro exI [of _ Z]) (simp add: room_def add.commute)
qed

lemma deflate_fragmented_output_witness:
  "\<exists>Z strm'. deflate_calls (sample_stream [97, 98, 97] (replicate 30 0) 3 0) Z_FULL_FLUSH [4, 0, 3] = Inr strm' \<and>
     deflate_output True Z_FULL_FLUSH [97, 98, 97] (muzic_adler32 [97, 98, 97] (length [97, 98, 97 :: u8]) 1) Z \<and>
     mem_write 0 (take 7 Z) (replicate 30 0) = Inr (out_mem strm') \<and> unsent strm' = drop 7 Z"
  using deflate_fragmented_output [of "sample_stream [97, 98, 97] (replicate 30 0) 3 0" sample_comp "[97, 98, 97]"
      Z_FULL_FLUSH 4 "[0, 3]"]
  by (simp add: mem_read_def z_codes room_def)

end
