(* ===== verification/Bit_Source.thy ===== *)
theory Bit_Source
  imports Muzic_Prelude "HOL-Library.Sublist"
begin

text \<open>
  The interfaces between the bit reader and the decoder. A source is a state with a view of the bits
  that can still be read. A read either takes its bits off the front of the view or, if the view is
  too short, fails without losing any bit, so that it can be repeated once more input has arrived.
  \<open>tight\<close> says that no whole byte is buffered; successful reads keep it.
\<close>

section \<open>Fixed-width fields\<close>

locale bit_source =
  fixes ok :: "'s \<Rightarrow> bool"
    and view :: "'s \<Rightarrow> bool list"
    and tight :: "'s \<Rightarrow> bool"
    and get :: "'s \<Rightarrow> nat \<Rightarrow> (u32 option \<times> 's) res"
    and max_get :: nat
  assumes get_enough: "ok s \<Longrightarrow> n \<le> max_get \<Longrightarrow> n \<le> length (view s) \<Longrightarrow>
      \<exists>v s'. get s n = Inr (Some v, s') \<and> ok s' \<and> (tight s \<longrightarrow> tight s') \<and> take_bit n v = v \<and>
        bits_of n v = take n (view s) \<and> view s' = drop n (view s)"
    and get_short: "ok s \<Longrightarrow> n \<le> max_get \<Longrightarrow> length (view s) < n \<Longrightarrow>
      \<exists>s'. get s n = Inr (None, s') \<and> ok s' \<and> view s' = view s"
begin

text \<open>Reading back a field that was written with \<open>n\<close> bits.\<close>

lemma get_field:
  assumes "ok s" and "tight s" and "n \<le> max_get" and "take_bit n v = v" and "view s = bits_of n v @ rest"
  shows "\<exists>s'. get s n = Inr (Some v, s') \<and> ok s' \<and> tight s' \<and> view s' = rest"
proof -
  obtain w s' where w: "get s n = Inr (Some w, s')" "ok s'" "tight s'" "take_bit n w = w"
      "bits_of n w = take n (view s)" "view s' = drop n (view s)"
    using get_enough [OF assms(1,3)] assms(2,5) by auto
  then have "w = v" using bits_of_inject [of n w v] assms(4,5) by simp
  with w assms(5) show ?thesis by auto
qed

lemma get_total:
  assumes "ok s" and "n \<le> max_get"
  shows "\<exists>r s'. get s n = Inr (r, s') \<and> ok s' \<and> (r = None \<longleftrightarrow> length (view s) < n)"
  using get_enough [OF assms] get_short [OF assms] by (cases "n \<le> length (view s)") fastforce+

end

section \<open>Symbols of a prefix code\<close>

locale symbol_source =
  fixes ok :: "'s \<Rightarrow> bool"
    and view :: "'s \<Rightarrow> bool list"
    and tight :: "'s \<Rightarrow> bool"
    and next_symbol :: "'s \<Rightarrow> (nat option \<times> 's) res"
    and code :: "nat \<Rightarrow> bool list"
    and symbols :: "nat set"
  assumes symbol_enough: "ok s \<Longrightarrow> c \<in> symbols \<Longrightarrow> view s = code c @ rest \<Longrightarrow>
      \<exists>s'. next_symbol s = Inr (Some c, s') \<and> ok s' \<and> (tight s \<longrightarrow> tight s') \<and> view s' = rest"
    and symbol_short: "ok s \<Longrightarrow> c \<in> symbols \<Longrightarrow> strict_prefix (view s) (code c) \<Longrightarrow>
      \<exists>s'. next_symbol s = Inr (None, s') \<and> ok s' \<and> view s' = view s"
begin

text \<open>A source that can show any view witnesses that the code is uniquely decodable.\<close>

lemma code_prefix_free:
  assumes "ok s" and "view s = code c" and "c \<in> symbols" and "d \<in> symbols" and "prefix (code d) (code c)"
  shows "d = c"
proof -
  obtain zs where "code c = code d @ zs" using assms(5) by (auto simp: prefix_def)
  then show ?thesis using symbol_enough [OF assms(1,3), of "[]"] symbol_enough [OF assms(1,4), of zs] assms(2) by auto
qed

end

section \<open>Tokens: literal/length symbols, distance symbols and their extra bits\<close>

locale token_source =
  bits: bit_source ok view tight get max_get +
  lit: symbol_source ok view tight next_lit lit_code lit_symbols +
  dist: symbol_source ok view tight next_dist dist_code dist_symbols
  for ok :: "'s \<Rightarrow> bool" and view :: "'s \<Rightarrow> bool list" and tight :: "'s \<Rightarrow> bool"
    and get :: "'s \<Rightarrow> nat \<Rightarrow> (u32 option \<times> 's) res" and max_get :: nat
    and next_lit next_dist :: "'s \<Rightarrow> (nat option \<times> 's) res"
    and lit_code dist_code :: "nat \<Rightarrow> bool list" and lit_symbols dist_symbols :: "nat set"
begin

text \<open>The four reads that take a length/distance pair off the stream.\<close>

lemma read_pair:
  assumes "ok s" and "tight s" and "c \<in> lit_symbols" and "d \<in> dist_symbols"
    and "m \<le> max_get" and "take_bit m u = u" and "n \<le> max_get" and "take_bit n v = v"
    and "view s = lit_code c @ bits_of m u @ dist_code d @ bits_of n v @ rest"
  shows "\<exists>s1 s2 s3 s4. next_lit s = Inr (Some c, s1) \<and> get s1 m = Inr (Some u, s2) \<and>
     next_dist s2 = Inr (Some d, s3) \<and> get s3 n = Inr (Some v, s4) \<and> ok s4 \<and> tight s4 \<and> view s4 = rest"
proof -
  obtain s1 where 1: "next_lit s = Inr (Some c, s1)" "ok s1" "tight s1"
      "view s1 = bits_of m u @ dist_code d @ bits_of n v @ rest"
    using lit.symbol_enough [OF assms(1,3,9)] assms(2) by blast
  obtain s2 where 2: "get s1 m = Inr (Some u, s2)" "ok s2" "tight s2" "view s2 = dist_code d @ bits_of n v @ rest"
    using bits.get_field [OF 1(2,3) assms(5,6) 1(4)] by blast
  obtain s3 where 3: "next_dist s2 = Inr (Some d, s3)" "ok s3" "tight s3" "view s3 = bits_of n v @ rest"
    using dist.symbol_enough [OF 2(2) assms(4) 2(4)] 2(3) by blast
  obtain s4 where "get s3 n = Inr (Some v, s4)" "ok s4" "tight s4" "view s4 = rest"
    using bits.get_field [OF 3(2,3) assms(7,8) 3(4)] by blast
  with 1 2 3 show ?thesis by blast
qed

end

end
