(* ===== verification/Inf_Bitstream.thy ===== *)
theory Inf_Bitstream
  imports Bit_Source
begin

text \<open>
  \<^verbatim>\<open>inflater.c\<close>, lines 158-251: the bit stream reader \<^verbatim>\<open>Inf_BS\<close>. The input region is a byte list
  \<open>mem\<close>; \<^verbatim>\<open>inputPtr\<close> and \<^verbatim>\<open>inputEnd\<close> are offsets into it. A read returns \<open>None\<close> where the C function
  returns \<^verbatim>\<open>Inf_FALSE\<close>, with the bytes loaded so far kept in the bit buffer.
\<close>

record Inf_BS =
  bits :: u32
  bsize :: nat
  inputPtr :: nat
  inputEnd :: nat

definition Inf_BS_LoadNextByte :: "u8 list \<Rightarrow> Inf_BS \<Rightarrow> (bool \<times> Inf_BS) res" where
  "Inf_BS_LoadNextByte mem bs =
     (if inputPtr bs = inputEnd bs then Inr (False, bs)
      else if inputPtr bs \<ge> length mem then Inl OutOfBounds
      else if bsize bs \<ge> 32 then Inl ShiftRange
      else Inr (True, bs\<lparr>bits := bits bs OR push_bit (bsize bs) (ucast (mem ! inputPtr bs)),
                         inputPtr := inputPtr bs + 1, bsize := bsize bs + 8\<rparr>))"

text \<open>The loop \<^verbatim>\<open>while (bitstream->size < n) { if (!LoadNextByte) return FALSE; }\<close>.\<close>

function Inf_BS_LoadBits :: "u8 list \<Rightarrow> Inf_BS \<Rightarrow> nat \<Rightarrow> (bool \<times> Inf_BS) res" where
  "Inf_BS_LoadBits mem bs n =
     (if bsize bs < n then
        bindR (Inf_BS_LoadNextByte mem bs) (\<lambda>(more, bs).
          if more then Inf_BS_LoadBits mem bs n else Inr (False, bs))
      else Inr (True, bs))"
  by pat_completeness auto
termination
  by (relation "measure (\<lambda>(mem, bs, n). n - bsize bs)")
    (auto simp: Inf_BS_LoadNextByte_def split: if_splits)

declare Inf_BS_LoadBits.simps [simp del]

definition Inf_BS_ReadBits :: "u8 list \<Rightarrow> Inf_BS \<Rightarrow> nat \<Rightarrow> (u32 option \<times> Inf_BS) res" where
  "Inf_BS_ReadBits mem bs n =
     bindR (Inf_BS_LoadBits mem bs n) (\<lambda>(enough, bs).
       if enough then
         Inr (Some (bits bs AND (push_bit n 1 - 1)),
              bs\<lparr>bits := drop_bit n (bits bs), bsize := bsize bs - n\<rparr>)
       else Inr (None, bs))"

definition Inf_BS_ReadDWord :: "u8 list \<Rightarrow> Inf_BS \<Rightarrow> (u32 option \<times> Inf_BS) res" where
  "Inf_BS_ReadDWord mem bs =
     (let bitsToSkip = bsize bs mod 8;
          bs = bs\<lparr>bits := drop_bit bitsToSkip (bits bs), bsize := bsize bs - bitsToSkip\<rparr>
      in bindR (Inf_BS_LoadBits mem bs 32) (\<lambda>(enough, bs).
           if enough then
             assertR (bsize bs = 32) (Inr (Some (bits bs), bs\<lparr>bits := 0, bsize := 0\<rparr>))
           else Inr (None, bs)))"

text \<open>
  \<^verbatim>\<open>Inf_BS_ReadBytes\<close>: the bytes copied, whether all requested bytes were there, the new state.
\<close>

definition Inf_BS_ReadBytes :: "u8 list \<Rightarrow> Inf_BS \<Rightarrow> nat \<Rightarrow> (u8 list \<times> bool \<times> Inf_BS) res" where
  "Inf_BS_ReadBytes mem bs n =
     assertR (bsize bs = 0)
       (let ok = min n (inputEnd bs - inputPtr bs) in
        bindR (mem_read (inputPtr bs) ok mem) (\<lambda>bytes.
          Inr (bytes, ok = n, bs\<lparr>inputPtr := inputPtr bs + ok\<rparr>)))"

section \<open>The view as a bit list\<close>

definition bs_bits :: "u8 list \<Rightarrow> Inf_BS \<Rightarrow> bool list" where
  "bs_bits mem bs =
     bits_of (bsize bs) (bits bs) @ bytes_bits (take (inputEnd bs - inputPtr bs) (drop (inputPtr bs) mem))"

definition bs_inv :: "u8 list \<Rightarrow> Inf_BS \<Rightarrow> bool" where
  "bs_inv mem bs \<longleftrightarrow> bsize bs < 32 \<and> take_bit (bsize bs) (bits bs) = bits bs \<and>
     inputPtr bs \<le> inputEnd bs \<and> inputEnd bs \<le> length mem"

lemma next_input_byte:
  assumes "p < e" and "p < length mem"
  shows "take (e - p) (drop p mem) = mem ! p # take (e - (p + 1)) (drop (p + 1) mem)"
  using assms by (cases "e - p") (auto simp: Cons_nth_drop_Suc [symmetric] intro: arg_cong2 [of _ _ _ _ take])

lemma load_next:
  assumes "bs_inv mem bs" and "inputPtr bs < inputEnd bs" and "bsize bs < 24"
  shows "\<exists>bs'. Inf_BS_LoadNextByte mem bs = Inr (True, bs') \<and> bs_inv mem bs' \<and>
     bs_bits mem bs' = bs_bits mem bs \<and> bsize bs' = bsize bs + 8 \<and> inputEnd bs' = inputEnd bs \<and>
     inputPtr bs' = inputPtr bs + 1"
proof -
  let ?b = "mem ! inputPtr bs"
  let ?bs = "bs\<lparr>bits := bits bs OR push_bit (bsize bs) (ucast ?b), inputPtr := inputPtr bs + 1,
      bsize := bsize bs + 8\<rparr>"
  have lt: "inputPtr bs < length mem" using assms by (auto simp: bs_inv_def)
  have t: "take_bit (bsize bs) (bits bs) = bits bs" using assms(1) by (simp add: bs_inv_def)
  have "take (inputEnd bs - inputPtr bs) (drop (inputPtr bs) mem)
      = ?b # take (inputEnd bs - (inputPtr bs + 1)) (drop (inputPtr bs + 1) mem)"
    by (rule next_input_byte [OF assms(2) lt])
  moreover have "bits_of (bsize bs + 8) (bits bs OR push_bit (bsize bs) (ucast ?b))
      = bits_of (bsize bs) (bits bs) @ byte_bits ?b"
    using bits_of_or_push [OF t, of 8 "ucast ?b"] assms(3) by (simp add: byte_bits_eq_bits_of)
  ultimately have "bs_bits mem ?bs = bs_bits mem bs" by (simp add: bs_bits_def)
  moreover have "bs_inv mem ?bs"
    using assms take_bit_or_push [OF t, of 8 "ucast ?b"] by (simp add: bs_inv_def)
  moreover have "Inf_BS_LoadNextByte mem bs = Inr (True, ?bs)"
    using assms lt by (simp add: Inf_BS_LoadNextByte_def)
  ultimately show ?thesis by auto
qed

lemma load_end: "inputPtr bs = inputEnd bs \<Longrightarrow> Inf_BS_LoadNextByte mem bs = Inr (False, bs)"
  by (simp add: Inf_BS_LoadNextByte_def)

text \<open>The number of bits consumed so far, counted from the start of the region.\<close>

definition bs_pos :: "Inf_BS \<Rightarrow> int" where
  "bs_pos bs = 8 * int (inputPtr bs) - int (bsize bs)"

lemma length_bs_bits: "bs_inv mem bs \<Longrightarrow> length (bs_bits mem bs) = bsize bs + 8 * (inputEnd bs - inputPtr bs)"
  by (auto simp: bs_bits_def bs_inv_def min_def)

text \<open>
  Loading keeps the view. It stops as soon as there are enough bits, so fewer than eight bits are
  loaded beyond what was asked for.
\<close>

lemma load_bits:
  assumes "bs_inv mem bs" and "n \<le> 24"
  shows "\<exists>bs'. Inf_BS_LoadBits mem bs n = Inr (n \<le> length (bs_bits mem bs), bs') \<and> bs_inv mem bs' \<and>
     bs_bits mem bs' = bs_bits mem bs \<and> bs_pos bs' = bs_pos bs \<and> inputEnd bs' = inputEnd bs \<and>
     bsize bs' < max (bsize bs + 1) (n + 8) \<and>
     (if n \<le> length (bs_bits mem bs) then n \<le> bsize bs' else inputPtr bs' = inputEnd bs')"
  using assms
proof (induction "n - bsize bs" arbitrary: bs rule: less_induct)
  case less
  show ?case
  proof (cases "bsize bs < n")
    case False
    then have "n \<le> length (bs_bits mem bs)" using length_bs_bits [OF less.prems(1)] by simp
    with False less.prems show ?thesis by (subst Inf_BS_LoadBits.simps) simp
  next
    case True
    show ?thesis
    proof (cases "inputPtr bs = inputEnd bs")
      case True
      then have "\<not> n \<le> length (bs_bits mem bs)"
        using length_bs_bits [OF less.prems(1)] \<open>bsize bs < n\<close> by simp
      with True \<open>bsize bs < n\<close> less.prems show ?thesis
        by (subst Inf_BS_LoadBits.simps) (simp add: load_end)
    next
      case False
      then have "inputPtr bs < inputEnd bs" "bsize bs < 24"
        using less.prems \<open>bsize bs < n\<close> by (auto simp: bs_inv_def)
      from load_next [OF less.prems(1) this] obtain b1 where
        b1: "Inf_BS_LoadNextByte mem bs = Inr (True, b1)" "bs_inv mem b1" "bs_bits mem b1 = bs_bits mem bs"
          "bsize b1 = bsize bs + 8" "inputEnd b1 = inputEnd bs" "inputPtr b1 = inputPtr bs + 1" by blast
      have "n - bsize b1 < n - bsize bs" using b1(4) True by simp
      from less.hyps [OF this b1(2) less.prems(2)] b1 True show ?thesis
        by (subst Inf_BS_LoadBits.simps) (auto simp: bs_pos_def max_def split: if_splits)
    qed
  qed
qed

lemma read_bits:
  assumes "bs_inv mem bs" and "n \<le> 24"
  shows "\<exists>r bs'. Inf_BS_ReadBits mem bs n = Inr (r, bs') \<and> bs_inv mem bs' \<and> inputEnd bs' = inputEnd bs \<and>
     (if n \<le> length (bs_bits mem bs)
      then (\<exists>v. r = Some v \<and> take_bit n v = v \<and> bits_of n v = take n (bs_bits mem bs)) \<and>
           bs_bits mem bs' = drop n (bs_bits mem bs) \<and> bs_pos bs' = bs_pos bs + int n \<and>
           bsize bs' < max (bsize bs + 1) 8 \<and> bsize bs' + n < max (bsize bs + 1) (n + 8)
      else r = None \<and> bs_bits mem bs' = bs_bits mem bs \<and> bs_pos bs' = bs_pos bs \<and>
           inputPtr bs' = inputEnd bs')"
proof -
  obtain b1 where b1: "Inf_BS_LoadBits mem bs n = Inr (n \<le> length (bs_bits mem bs), b1)" "bs_inv mem b1"
      "bs_bits mem b1 = bs_bits mem bs" "bs_pos b1 = bs_pos bs" "inputEnd b1 = inputEnd bs"
      "bsize b1 < max (bsize bs + 1) (n + 8)"
      "if n \<le> length (bs_bits mem bs) then n \<le> bsize b1 else inputPtr b1 = inputEnd b1"
    using load_bits [OF assms] by blast
  show ?thesis
  proof (cases "n \<le> length (bs_bits mem bs)")
    case True
    let ?b = "b1\<lparr>bits := drop_bit n (bits b1), bsize := bsize b1 - n\<rparr>"
    have n: "n \<le> bsize b1" using b1(7) True by simp
    have t: "take_bit (bsize b1) (bits b1) = bits b1" using b1(2) by (simp add: bs_inv_def)
    have inv: "bs_inv mem ?b" using b1(2) take_bit_drop_bit_self [OF t, of n] by (auto simp: bs_inv_def)
    have drop: "bs_bits mem ?b = drop n (bs_bits mem bs)"
      unfolding b1(3) [symmetric] using n by (simp add: bs_bits_def drop_bits_of)
    have take: "bits_of n (take_bit n (bits b1)) = take n (bs_bits mem bs)"
      unfolding b1(3) [symmetric] using n by (simp add: bs_bits_def take_bits_of)
    have r: "Inf_BS_ReadBits mem bs n = Inr (Some (take_bit n (bits b1)), ?b)"
      unfolding Inf_BS_ReadBits_def mask_and_eq using b1(1) True by simp
    show ?thesis
      using True r inv drop take n b1(4,5,6) by (auto simp: bs_pos_def)
  next
    case False
    with b1 show ?thesis by (auto simp: Inf_BS_ReadBits_def)
  qed
qed

text \<open>
  The reader as a bit source, over the input region \<open>mem\<close> up to \<open>e\<close>. When no whole byte is buffered the
  position in the input is determined by the view.
\<close>

definition bs_ok :: "u8 list \<Rightarrow> nat \<Rightarrow> Inf_BS \<Rightarrow> bool" where
  "bs_ok mem e bs \<longleftrightarrow> bs_inv mem bs \<and> inputEnd bs = e"

definition bs_tight :: "Inf_BS \<Rightarrow> bool" where
  "bs_tight bs \<longleftrightarrow> bsize bs < 8"

interpretation bsr: bit_source "bs_ok mem e" "bs_bits mem" bs_tight "Inf_BS_ReadBits mem" 24 for mem e
proof unfold_locales
  fix s n
  assume "bs_ok mem e s" "n \<le> 24" "n \<le> length (bs_bits mem s)"
  then show "\<exists>v s'. Inf_BS_ReadBits mem s n = Inr (Some v, s') \<and> bs_ok mem e s' \<and> (bs_tight s \<longrightarrow> bs_tight s') \<and>
      take_bit n v = v \<and> bits_of n v = take n (bs_bits mem s) \<and> bs_bits mem s' = drop n (bs_bits mem s)"
    using read_bits [of mem s n] by (auto simp: bs_ok_def bs_tight_def)
next
  fix s n
  assume "bs_ok mem e s" "n \<le> 24" "length (bs_bits mem s) < n"
  then show "\<exists>s'. Inf_BS_ReadBits mem s n = Inr (None, s') \<and> bs_ok mem e s' \<and> bs_bits mem s' = bs_bits mem s"
    using read_bits [of mem s n] by (auto simp: bs_ok_def)
qed

lemma tight_position:
  assumes "bs_ok mem e bs" and "bs_tight bs"
  shows "inputPtr bs = e - length (bs_bits mem bs) div 8" and "inputPtr bs \<le> e" and "e \<le> length mem"
  using assms length_bs_bits [of mem bs] by (auto simp: bs_ok_def bs_inv_def bs_tight_def)

section \<open>Aligned reads\<close>

text \<open>
  \<^verbatim>\<open>Inf_BS_ReadDWord\<close> drops the bits up to the next byte boundary and takes the 32 bits that follow.
\<close>

lemma load_dword:
  assumes "bs_inv mem bs" and "bsize bs = 8 * k"
  shows "\<exists>bs'. Inf_BS_LoadBits mem bs 32 = Inr (32 \<le> length (bs_bits mem bs), bs') \<and> inputEnd bs' = inputEnd bs \<and>
     inputPtr bs' \<le> inputEnd bs' \<and> take_bit (bsize bs') (bits bs') = bits bs' \<and> bs_bits mem bs' = bs_bits mem bs \<and>
     (if 32 \<le> length (bs_bits mem bs) then bsize bs' = 32 else inputPtr bs' = inputEnd bs' \<and> bsize bs' < 32)"
  using assms
proof (induction "32 - bsize bs" arbitrary: bs k rule: less_induct)
  case less
  show ?case
  proof (cases "inputPtr bs = inputEnd bs")
    case True
    have "bsize bs < 32" using less.prems(1) by (simp add: bs_inv_def)
    then show ?thesis
      using less.prems True length_bs_bits [OF less.prems(1)]
      by (subst Inf_BS_LoadBits.simps) (simp add: load_end bs_inv_def)
  next
    case False
    note len = length_bs_bits [OF less.prems(1)]
    have b: "bsize bs < 32" "inputPtr bs < inputEnd bs" using less.prems(1) False by (auto simp: bs_inv_def)
    show ?thesis
    proof (cases "bsize bs < 24")
      case True
      from load_next [OF less.prems(1) b(2) True] obtain b1 where
        b1: "Inf_BS_LoadNextByte mem bs = Inr (True, b1)" "bs_inv mem b1" "bs_bits mem b1 = bs_bits mem bs"
          "bsize b1 = bsize bs + 8" "inputEnd b1 = inputEnd bs" by blast
      have "32 - bsize b1 < 32 - bsize bs" "bsize b1 = 8 * (k + 1)" using b1(4) True less.prems(2) by auto
      from less.hyps [OF this(1) b1(2) this(2)] b1 b(1) show ?thesis
        by (subst Inf_BS_LoadBits.simps) (auto split: if_splits)
    next
      case False
      have 24: "bsize bs = 24" using False b(1) less.prems(2) by presburger
      let ?b = "mem ! inputPtr bs"
      let ?bs = "bs\<lparr>bits := bits bs OR push_bit 24 (ucast ?b), inputPtr := inputPtr bs + 1, bsize := 32\<rparr>"
      have t: "take_bit 24 (bits bs) = bits bs" and lt: "inputPtr bs < length mem"
        using less.prems(1) 24 b(2) by (auto simp: bs_inv_def)
      have "bits_of 32 (bits bs OR push_bit 24 (ucast ?b)) = bits_of 24 (bits bs) @ byte_bits ?b"
        using bits_of_or_push [OF t, of 8 "ucast ?b"] by (simp add: byte_bits_eq_bits_of)
      moreover have "take (inputEnd bs - inputPtr bs) (drop (inputPtr bs) mem)
          = ?b # take (inputEnd bs - (inputPtr bs + 1)) (drop (inputPtr bs + 1) mem)"
        by (rule next_input_byte [OF b(2) lt])
      ultimately have "bs_bits mem ?bs = bs_bits mem bs" using 24 by (simp add: bs_bits_def)
      moreover have "Inf_BS_LoadBits mem bs 32 = Inr (True, ?bs)"
        using 24 b(2) lt
        by (simp add: Inf_BS_LoadBits.simps [of mem bs 32] Inf_BS_LoadNextByte_def, subst Inf_BS_LoadBits.simps) simp
      moreover have "take_bit 32 (bits ?bs) = bits ?bs" by (rule bit_word_eqI) (simp add: bit_simps)
      ultimately show ?thesis using 24 b(2) len by auto
    qed
  qed
qed

lemma ReadDWord_ok:
  assumes "bs_ok mem e bs" and p: "p = length (bs_bits mem bs) mod 8"
  shows "\<exists>r bs'. Inf_BS_ReadDWord mem bs = Inr (r, bs') \<and> bs_ok mem e bs' \<and>
     (if p + 32 \<le> length (bs_bits mem bs)
      then (\<exists>v. r = Some v \<and> bits_of 32 v = take 32 (drop p (bs_bits mem bs))) \<and> bsize bs' = 0 \<and>
           bs_bits mem bs' = drop (p + 32) (bs_bits mem bs)
      else r = None \<and> bs_bits mem bs' = drop p (bs_bits mem bs) \<and> inputPtr bs' = e \<and> bsize bs' < 32)"
proof -
  have bs: "bs_inv mem bs" "inputEnd bs = e" using assms(1) by (auto simp: bs_ok_def)
  note len = length_bs_bits [OF bs(1)]
  have p8: "p = bsize bs mod 8" unfolding p len by presburger
  let ?b0 = "bs\<lparr>bits := drop_bit p (bits bs), bsize := bsize bs - p\<rparr>"
  have b0: "bs_inv mem ?b0" using bs(1) take_bit_drop_bit_self [of "bsize bs" "bits bs" p] by (auto simp: bs_inv_def)
  have v0: "bs_bits mem ?b0 = drop p (bs_bits mem bs)" using p8 by (simp add: bs_bits_def drop_bits_of)
  have "bsize ?b0 = 8 * (bsize bs div 8)" unfolding p8 by (simp add: minus_mod_eq_mult_div)
  from load_dword [OF b0 this] obtain b1 where b1:
    "Inf_BS_LoadBits mem ?b0 32 = Inr (32 \<le> length (bs_bits mem ?b0), b1)" "inputEnd b1 = e" "inputPtr b1 \<le> e"
    "take_bit (bsize b1) (bits b1) = bits b1" "bs_bits mem b1 = bs_bits mem ?b0"
    "if 32 \<le> length (bs_bits mem ?b0) then bsize b1 = 32 else inputPtr b1 = inputEnd b1 \<and> bsize b1 < 32"
    using bs(2) by auto
  have e: "e \<le> length mem" using bs by (simp add: bs_inv_def)
  have run: "Inf_BS_ReadDWord mem bs = bindR (Inf_BS_LoadBits mem ?b0 32) (\<lambda>(enough, bs).
           if enough then assertR (bsize bs = 32) (Inr (Some (bits bs), bs\<lparr>bits := 0, bsize := 0\<rparr>))
           else Inr (None, bs))"
    by (simp add: Inf_BS_ReadDWord_def Let_def p8)
  show ?thesis
  proof (cases "32 \<le> length (bs_bits mem ?b0)")
    case True
    then have 32: "bsize b1 = 32" "p + 32 \<le> length (bs_bits mem bs)" using b1(6) v0 by auto
    have "bits_of 32 (bits b1) = take 32 (drop p (bs_bits mem bs))"
      "drop (p + 32) (bs_bits mem bs) = bytes_bits (take (e - inputPtr b1) (drop (inputPtr b1) mem))"
    proof -
      have eq: "drop p (bs_bits mem bs) = bits_of 32 (bits b1) @ bytes_bits (take (e - inputPtr b1) (drop (inputPtr b1) mem))"
        using v0 b1(5) bs_bits_def [of mem b1] by (simp add: 32(1) b1(2))
      show "bits_of 32 (bits b1) = take 32 (drop p (bs_bits mem bs))" by (simp add: eq)
      show "drop (p + 32) (bs_bits mem bs) = bytes_bits (take (e - inputPtr b1) (drop (inputPtr b1) mem))"
        using arg_cong [OF eq, of "drop 32"] by (simp add: add.commute)
    qed
    then show ?thesis
      unfolding run b1(1) using True 32 b1(2,3) e by (auto simp: bs_ok_def bs_inv_def bs_bits_def)
  next
    case False
    then show ?thesis
      unfolding run b1(1) using b1 v0 e by (auto simp: bs_ok_def bs_inv_def)
  qed
qed

text \<open>\<^verbatim>\<open>Inf_BS_ReadBytes\<close> hands over the next bytes, as many as there are.\<close>

lemma ReadBytes_ok:
  assumes "bs_ok mem e bs" and "bsize bs = 0"
  shows "Inf_BS_ReadBytes mem bs n =
     Inr (take n (take (e - inputPtr bs) (drop (inputPtr bs) mem)), n \<le> e - inputPtr bs,
          bs\<lparr>inputPtr := inputPtr bs + min n (e - inputPtr bs)\<rparr>)"
  using assms by (auto simp: Inf_BS_ReadBytes_def mem_read_def bs_ok_def bs_inv_def Let_def min_def)

end
