(* ===== verification/Inf_Huff.thy ===== *)
theory Inf_Huff
  imports Canonical_Code Inf_Bitstream
begin

text \<open>
  \<^verbatim>\<open>inflater.c\<close>, lines 102-154, 193-217 and 426-527: Huffman decoding tables. A table has 2048
  entries. The first 256 are indexed by the next eight bits of the stream; an entry there is either
  the decoded symbol with its code length, or (for codes longer than eight bits) a reference to a
  subtable that is indexed by the bits that follow. Numbers that stand for codewords are natural
  numbers: with lengths of at most 18 and at most 291 symbols they stay below \<open>2 ^ 27\<close>.
\<close>

section \<open>Tables\<close>

definition Inf_MainTableSize :: nat where "Inf_MainTableSize = 256"
definition Inf_HuffTableSize :: nat where "Inf_HuffTableSize = 2048"
definition Inf_InvalidLength :: nat where "Inf_InvalidLength = 24"

definition Inf_Reverse :: "u8 list" where
  "Inf_Reverse = [
    0x00, 0x80, 0x40, 0xC0, 0x20, 0xA0, 0x60, 0xE0, 0x10, 0x90, 0x50, 0xD0, 0x30, 0xB0, 0x70,
    0xF0, 0x08, 0x88, 0x48, 0xC8, 0x28, 0xA8, 0x68, 0xE8, 0x18, 0x98, 0x58, 0xD8, 0x38, 0xB8,
    0x78, 0xF8, 0x04, 0x84, 0x44, 0xC4, 0x24, 0xA4, 0x64, 0xE4, 0x14, 0x94, 0x54, 0xD4, 0x34,
    0xB4, 0x74, 0xF4, 0x0C, 0x8C, 0x4C, 0xCC, 0x2C, 0xAC, 0x6C, 0xEC, 0x1C, 0x9C, 0x5C, 0xDC,
    0x3C, 0xBC, 0x7C, 0xFC, 0x02, 0x82, 0x42, 0xC2, 0x22, 0xA2, 0x62, 0xE2, 0x12, 0x92, 0x52,
    0xD2, 0x32, 0xB2, 0x72, 0xF2, 0x0A, 0x8A, 0x4A, 0xCA, 0x2A, 0xAA, 0x6A, 0xEA, 0x1A, 0x9A,
    0x5A, 0xDA, 0x3A, 0xBA, 0x7A, 0xFA, 0x06, 0x86, 0x46, 0xC6, 0x26, 0xA6, 0x66, 0xE6, 0x16,
    0x96, 0x56, 0xD6, 0x36, 0xB6, 0x76, 0xF6, 0x0E, 0x8E, 0x4E, 0xCE, 0x2E, 0xAE, 0x6E, 0xEE,
    0x1E, 0x9E, 0x5E, 0xDE, 0x3E, 0xBE, 0x7E, 0xFE, 0x01, 0x81, 0x41, 0xC1, 0x21, 0xA1, 0x61,
    0xE1, 0x11, 0x91, 0x51, 0xD1, 0x31, 0xB1, 0x71, 0xF1, 0x09, 0x89, 0x49, 0xC9, 0x29, 0xA9,
    0x69, 0xE9, 0x19, 0x99, 0x59, 0xD9, 0x39, 0xB9, 0x79, 0xF9, 0x05, 0x85, 0x45, 0xC5, 0x25,
    0xA5, 0x65, 0xE5, 0x15, 0x95, 0x55, 0xD5, 0x35, 0xB5, 0x75, 0xF5, 0x0D, 0x8D, 0x4D, 0xCD,
    0x2D, 0xAD, 0x6D, 0xED, 0x1D, 0x9D, 0x5D, 0xDD, 0x3D, 0xBD, 0x7D, 0xFD, 0x03, 0x83, 0x43,
    0xC3, 0x23, 0xA3, 0x63, 0xE3, 0x13, 0x93, 0x53, 0xD3, 0x33, 0xB3, 0x73, 0xF3, 0x0B, 0x8B,
    0x4B, 0xCB, 0x2B, 0xAB, 0x6B, 0xEB, 0x1B, 0x9B, 0x5B, 0xDB, 0x3B, 0xBB, 0x7B, 0xFB, 0x07,
    0x87, 0x47, 0xC7, 0x27, 0xA7, 0x67, 0xE7, 0x17, 0x97, 0x57, 0xD7, 0x37, 0xB7, 0x77, 0xF7,
    0x0F, 0x8F, 0x4F, 0xCF, 0x2F, 0xAF, 0x6F, 0xEF, 0x1F, 0x9F, 0x5F, 0xDF, 0x3F, 0xBF, 0x7F,
    0xFF]"

text \<open>
  The union \<^verbatim>\<open>Inf_Huff\<close>: its two structures overlay each other field by field, \<^verbatim>\<open>value.length\<close> with
  \<^verbatim>\<open>subtable.mask\<close>, \<^verbatim>\<open>value.isvalid\<close> with \<^verbatim>\<open>subtable.error\<close> and \<^verbatim>\<open>value.code\<close> with \<^verbatim>\<open>subtable.index\<close>.
\<close>

record Inf_Huff =
  h_length :: nat
  h_isvalid :: bool
  h_code :: nat

definition Inf_HuffConst :: "nat \<Rightarrow> nat \<Rightarrow> Inf_Huff" where
  "Inf_HuffConst cd len = \<lparr>h_length = len mod 2 ^ 15, h_isvalid = True, h_code = cd mod 2 ^ 15\<rparr>"

definition Inf_Huff_SetValue :: "nat \<Rightarrow> nat \<Rightarrow> Inf_Huff" where
  "Inf_Huff_SetValue hufflen byte =
     \<lparr>h_length = hufflen mod 2 ^ 15, h_isvalid = True, h_code = byte mod 2 ^ 15\<rparr>"

definition Inf_Huff_SetTableRef :: "nat \<Rightarrow> nat \<Rightarrow> Inf_Huff" where
  "Inf_Huff_SetTableRef index msk =
     \<lparr>h_length = msk mod 2 ^ 15, h_isvalid = False, h_code = index mod 2 ^ 15\<rparr>"

text \<open>A table in memory; \<open>None\<close> is an entry that has not been written yet.\<close>

type_synonym huff_table = "nat \<Rightarrow> Inf_Huff option"

definition table_get :: "huff_table \<Rightarrow> nat \<Rightarrow> Inf_Huff res" where
  "table_get table i =
     (if i < Inf_HuffTableSize
      then (case table i of None \<Rightarrow> Inl Uninitialised | Some d \<Rightarrow> Inr d)
      else Inl OutOfBounds)"

definition table_set :: "huff_table \<Rightarrow> nat \<Rightarrow> Inf_Huff \<Rightarrow> huff_table res" where
  "table_set table i d = (if i < Inf_HuffTableSize then Inr (table(i := Some d)) else Inl OutOfBounds)"

definition Inf_Huff_Decode :: "huff_table \<Rightarrow> u32 \<Rightarrow> Inf_Huff res" where
  "Inf_Huff_Decode table bitbuffer =
     bindR (table_get table (unat (bitbuffer AND 0xFF))) (\<lambda>tmp.
       if h_isvalid tmp then Inr tmp
       else table_get table (h_code tmp + unat (drop_bit 8 bitbuffer AND of_nat (h_length tmp))))"

section \<open>Reading an encoded symbol\<close>

text \<open>The loop of lines 206-212 and what follows it.\<close>

function Inf_BS_EncodedLoop ::
  "u8 list \<Rightarrow> huff_table \<Rightarrow> Inf_BS \<Rightarrow> Inf_Huff \<Rightarrow> (nat option \<times> Inf_BS) res" where
  "Inf_BS_EncodedLoop mem decoder bs data =
     (if bsize bs < h_length data then
        bindR (Inf_BS_LoadNextByte mem bs) (\<lambda>(more, bs).
          if more then
            bindR (Inf_Huff_Decode decoder (bits bs)) (\<lambda>data. Inf_BS_EncodedLoop mem decoder bs data)
          else Inr (None, bs))
      else if h_length data \<ge> 32 then Inl ShiftRange
      else Inr (Some (h_code data),
                bs\<lparr>bits := drop_bit (h_length data) (bits bs), bsize := bsize bs - h_length data\<rparr>))"
  by pat_completeness auto
termination
  by (relation "measure (\<lambda>(mem, decoder, bs, data). 40 - bsize bs)")
    (auto simp: Inf_BS_LoadNextByte_def split: if_splits)

declare Inf_BS_EncodedLoop.simps [simp del]

definition Inf_BS_ReadEncodedBits ::
  "u8 list \<Rightarrow> Inf_BS \<Rightarrow> huff_table \<Rightarrow> (nat option \<times> Inf_BS) res" where
  "Inf_BS_ReadEncodedBits mem bs decoder =
     bindR (if bsize bs = 0 then Inf_BS_LoadNextByte mem bs else Inr (True, bs)) (\<lambda>(more, bs).
       if more then
         bindR (Inf_Huff_Decode decoder (bits bs)) (\<lambda>data. Inf_BS_EncodedLoop mem decoder bs data)
       else Inr (None, bs))"

section \<open>Building a table\<close>

text \<open>
  \<^verbatim>\<open>Inf_Huff_NextCanonical\<close> with the test for the end of the list in front of it: the next codeword
  and its length, unchanged at the end of the list.
\<close>

definition huff_next :: "nat \<Rightarrow> nat \<Rightarrow> (nat \<times> nat) list \<Rightarrow> (nat \<times> nat) res" where
  "huff_next huffman currentLength symlen =
     (case symlen of
        [] \<Rightarrow> Inr (huffman, currentLength)
      | (_, newLength) # _ \<Rightarrow>
          if newLength < currentLength \<or> 32 \<le> newLength - currentLength then Inl ShiftRange
          else Inr (push_bit (newLength - currentLength) (huffman + 1), newLength))"

text \<open>Lines 456-458; the step of the loop is \<open>2 ^ n\<close>.\<close>

function huff_fill :: "huff_table \<Rightarrow> nat \<Rightarrow> nat \<Rightarrow> nat \<Rightarrow> nat \<Rightarrow> Inf_Huff \<Rightarrow> nat \<Rightarrow> huff_table res" where
  "huff_fill table base tableSize n known data unknownBits =
     (if unknownBits < tableSize then
        bindR (table_set table (base + (unknownBits OR known)) data) (\<lambda>table.
          huff_fill table base tableSize n known data (unknownBits + 2 ^ n))
      else Inr table)"
  by pat_completeness auto
termination
  by (relation "measure (\<lambda>(_, _, tableSize, _, _, _, u). tableSize - u)") (auto intro: diff_less_mono2)

declare huff_fill.simps [simp del]

definition reverse_huffman :: "nat \<Rightarrow> nat \<Rightarrow> nat" where
  "reverse_huffman huffman huffmanLength =
     drop_bit (16 - huffmanLength)
       (push_bit 8 (unat (Inf_Reverse ! (huffman mod 256))) OR unat (Inf_Reverse ! (huffman div 256)))"

definition Inf_Huff_FillTable ::
  "huff_table \<Rightarrow> nat \<Rightarrow> nat \<Rightarrow> nat \<Rightarrow> nat \<Rightarrow> nat \<Rightarrow> nat \<Rightarrow> huff_table res" where
  "Inf_Huff_FillTable table base tableSize huffman huffmanLength byte discardedBits =
     (if huffmanLength < discardedBits \<or> 16 < huffmanLength then Inl ShiftRange
      else if 256 \<le> huffman div 256 then Inl OutOfBounds
      else
        let reverseHuffman = reverse_huffman huffman huffmanLength in
        assertR (huffmanLength > discardedBits \<and> reverseHuffman < 2 ^ huffmanLength)
          (huff_fill table base tableSize (huffmanLength - discardedBits)
             (drop_bit discardedBits reverseHuffman) (Inf_Huff_SetValue huffmanLength byte) 0))"

text \<open>
  \<^verbatim>\<open>Inf_Huff_MakeDecoder\<close> walks a linked list of symbols sorted by length; here it is the list of
  (symbol, length) pairs that the pointer denotes. Lines 487-492: the codes of up to eight bits.
\<close>

fun huff_short ::
  "huff_table \<Rightarrow> nat \<Rightarrow> nat \<Rightarrow> (nat \<times> nat) list \<Rightarrow> (huff_table \<times> nat \<times> nat \<times> (nat \<times> nat) list) res" where
  "huff_short table huffman huffmanLength [] = Inr (table, huffman, huffmanLength, [])"
| "huff_short table huffman huffmanLength (x # symlen) =
     (if huffmanLength \<le> 8 then
        bindR (Inf_Huff_FillTable table 0 256 huffman huffmanLength (fst x) 0) (\<lambda>table.
        bindR (huff_next huffman huffmanLength symlen) (\<lambda>(huffman, huffmanLength).
          huff_short table huffman huffmanLength symlen))
      else Inr (table, huffman, huffmanLength, x # symlen))"

text \<open>Lines 502-508: find the codes that share the first eight bits; the length of the last of them.\<close>

fun huff_group :: "nat \<Rightarrow> nat \<Rightarrow> nat \<Rightarrow> (nat \<times> nat) list \<Rightarrow> (nat \<times> (nat \<times> nat) list) res" where
  "huff_group index huffman huffmanLength [] = Inr (huffmanLength, [])"
| "huff_group index huffman huffmanLength (x # symlen) =
     bindR (huff_next huffman huffmanLength symlen) (\<lambda>(huffman', huffmanLength').
       if symlen \<noteq> [] \<and> drop_bit (huffmanLength' - 8) huffman' = index
       then huff_group index huffman' huffmanLength' symlen
       else Inr (huffmanLength, symlen))"

text \<open>Lines 517-523: fill a subtable up to the element with \<open>stop\<close> elements left (\<^verbatim>\<open>symlen_end\<close>).\<close>

fun huff_sub ::
  "huff_table \<Rightarrow> nat \<Rightarrow> nat \<Rightarrow> nat \<Rightarrow> nat \<Rightarrow> (nat \<times> nat) list \<Rightarrow> nat \<Rightarrow> (huff_table \<times> nat \<times> nat) res" where
  "huff_sub table base subtableSize huffman huffmanLength [] stop = Inr (table, huffman, huffmanLength)"
| "huff_sub table base subtableSize huffman huffmanLength (x # symlen) stop =
     (if length (x # symlen) = stop then Inr (table, huffman, huffmanLength)
      else
        bindR (Inf_Huff_FillTable table base subtableSize huffman huffmanLength (fst x) 8) (\<lambda>table.
        bindR (huff_next huffman huffmanLength symlen) (\<lambda>(huffman, huffmanLength).
          huff_sub table base subtableSize huffman huffmanLength symlen stop)))"

lemma huff_group_shorter: "huff_group ix h l xs = Inr (sl, ys) \<Longrightarrow> xs \<noteq> [] \<Longrightarrow> length ys < length xs"
proof (induction xs arbitrary: h l)
  case (Cons x xs)
  then show ?case by (fastforce simp: bindR_eq_Inr split: if_splits)
qed simp

text \<open>Lines 494-525: the codes of nine bits and more.\<close>

function huff_long :: "huff_table \<Rightarrow> nat \<Rightarrow> nat \<Rightarrow> nat \<Rightarrow> (nat \<times> nat) list \<Rightarrow> huff_table res" where
  "huff_long table subtableIndex huffman huffmanLength symlen =
     (if symlen = [] then Inr table
      else
        let index = drop_bit (huffmanLength - 8) huffman in
        bindR (huff_group index huffman huffmanLength symlen) (\<lambda>(last, symlen_end).
        let subtableSize = 2 ^ (last - 8) in
        assertR (subtableIndex + subtableSize \<le> Inf_HuffTableSize)
          (if 256 \<le> index then Inl OutOfBounds
           else
             bindR (table_set table (unat (Inf_Reverse ! index))
                      (Inf_Huff_SetTableRef subtableIndex (subtableSize - 1))) (\<lambda>table.
             bindR (huff_sub table subtableIndex subtableSize huffman huffmanLength symlen (length symlen_end))
               (\<lambda>(table, huffman, huffmanLength).
                  huff_long table (subtableIndex + subtableSize) huffman huffmanLength symlen_end)))))"
  by pat_completeness auto
termination
  by (relation "measure (\<lambda>(_, _, _, _, symlen). length symlen)") (auto dest: huff_group_shorter)

declare huff_long.simps [simp del]

definition Inf_Huff_MakeDecoder :: "huff_table \<Rightarrow> (nat \<times> nat) list \<Rightarrow> huff_table res" where
  "Inf_Huff_MakeDecoder table symlen =
     assertR (symlen \<noteq> [])
       (let table = (\<lambda>i. if i < Inf_MainTableSize then Some (Inf_HuffConst 0 Inf_InvalidLength) else table i) in
        bindR (huff_short table 0 (snd (hd symlen)) symlen) (\<lambda>(table, huffman, huffmanLength, symlen).
          huff_long table Inf_MainTableSize huffman huffmanLength symlen))"

section \<open>Filling\<close>

lemma revn_table:
  "map (revn (Suc n)) [0..<2 ^ Suc n]
     = map (\<lambda>x. 2 * x) (map (revn n) [0..<2 ^ n]) @ map (\<lambda>x. 2 * x + 1) (map (revn n) [0..<2 ^ n])"
proof (rule nth_equalityI)
  fix i assume "i < length (map (revn (Suc n)) [0..<2 ^ Suc n])"
  then have i: "i < 2 * 2 ^ n" by simp
  show "map (revn (Suc n)) [0..<2 ^ Suc n] ! i
      = (map (\<lambda>x. 2 * x) (map (revn n) [0..<2 ^ n]) @ map (\<lambda>x. 2 * x + 1) (map (revn n) [0..<2 ^ n])) ! i"
  proof (cases "i < 2 ^ n")
    case True
    with i show ?thesis by (simp add: nth_append)
  next
    case False
    with i have "i div 2 ^ n = 1" by (auto intro!: div_nat_eqI)
    moreover have "revn n (i - 2 ^ n) = revn n i"
      unfolding revn_eq_iff using False by (simp add: le_mod_geq)
    ultimately show ?thesis using i False by (simp add: nth_append)
  qed
qed simp

lemma Inf_Reverse_map: "map unat Inf_Reverse = map (revn 8) [0..<256]"
proof -
  define T where "T n = map (revn n) [0..<2 ^ n]" for n
  have step: "T (Suc n) = map (\<lambda>x. 2 * x) (T n) @ map (\<lambda>x. 2 * x + 1) (T n)" for n
    unfolding T_def by (rule revn_table)
  have start: "T 0 = [0]" by (simp add: T_def)
  have "T (Suc (Suc (Suc (Suc (Suc (Suc (Suc (Suc 0)))))))) = map unat Inf_Reverse"
    by (simp only: step start list.map append.simps) (simp add: Inf_Reverse_def)
  moreover have "Suc (Suc (Suc (Suc (Suc (Suc (Suc (Suc 0))))))) = 8" "(2 :: nat) ^ 8 = 256" by simp_all
  ultimately show ?thesis by (simp only: T_def)
qed

lemma Inf_Reverse_nth: "i < 256 \<Longrightarrow> unat (Inf_Reverse ! i) = revn 8 i"
proof -
  assume i: "i < 256"
  have "length Inf_Reverse = 256" using arg_cong [OF Inf_Reverse_map, of length] by simp
  with i show ?thesis using arg_cong [OF Inf_Reverse_map, of "\<lambda>xs. xs ! i"] by simp
qed

lemma reverse_huffman_revn:
  assumes "h < 2 ^ 16" and "l \<le> 16"
  shows "reverse_huffman h l = revn l h"
proof -
  have "h div 256 < 256" using assms(1) by auto
  then have "push_bit 8 (unat (Inf_Reverse ! (h mod 256))) OR unat (Inf_Reverse ! (h div 256))
      = push_bit 8 (revn 8 (take_bit 8 h)) OR revn 8 (drop_bit 8 h)"
    by (simp add: Inf_Reverse_nth take_bit_eq_mod drop_bit_eq_div)
  also have "\<dots> = revn 16 h"
  proof (rule bit_eqI)
    fix j :: nat
    consider "j < 8" "8 + (7 - j) = 15 - j" | "8 \<le> j" "j < 16" "7 - (j - 8) = 15 - j" | "16 \<le> j" by linarith
    then show "bit (push_bit 8 (revn 8 (take_bit 8 h)) OR revn 8 (drop_bit 8 h)) j = bit (revn 16 h) j"
      by cases (auto simp: bit_revn bit_simps)
  qed
  finally show ?thesis
    using revn_div [of l "16 - l" h] assms(2) by (simp add: reverse_huffman_def drop_bit_eq_div)
qed

lemma or_known:
  assumes "known < 2 ^ n"
  shows "q * 2 ^ n OR known = q * 2 ^ n + (known :: nat)"
proof -
  have "push_bit n q AND known = 0"
    using bit_less_exp [OF assms] by (intro bit_eqI) (force simp: bit_simps)
  then show ?thesis by (simp add: disjunctive_add_eq_or flip: push_bit_eq_mult)
qed

lemma next_multiple:
  assumes "q * 2 ^ n < (2 :: nat) ^ m" and "n \<le> m"
  shows "Suc q * 2 ^ n \<le> 2 ^ m"
proof -
  have m: "(2 :: nat) ^ m = 2 ^ (m - n) * 2 ^ n" using assms(2) by (simp flip: power_add)
  then have "q < 2 ^ (m - n)" using assms(1) by simp
  then have "Suc q * 2 ^ n \<le> 2 ^ (m - n) * 2 ^ n" by (intro mult_le_mono1) simp
  then show ?thesis by (simp add: m)
qed

text \<open>The cells of a table whose index, counted from \<open>base\<close>, has the low digits \<open>known\<close>.\<close>

definition fill_cell :: "nat \<Rightarrow> nat \<Rightarrow> nat \<Rightarrow> nat \<Rightarrow> nat \<Rightarrow> nat \<Rightarrow> bool" where
  "fill_cell base sz n known u i \<longleftrightarrow> base + u \<le> i \<and> i < base + sz \<and> (i - base) mod 2 ^ n = known"

lemma fill_cell_step:
  assumes "known < 2 ^ n" and "Suc q * 2 ^ n \<le> sz"
  shows "fill_cell base sz n known (q * 2 ^ n) i \<longleftrightarrow>
     fill_cell base sz n known (Suc q * 2 ^ n) i \<or> i = base + (q * 2 ^ n + known)"
proof
  assume l: "fill_cell base sz n known (q * 2 ^ n) i"
  show "fill_cell base sz n known (Suc q * 2 ^ n) i \<or> i = base + (q * 2 ^ n + known)"
  proof (cases "base + Suc q * 2 ^ n \<le> i")
    case False
    define j where "j = i - base - q * 2 ^ n"
    have j: "j < 2 ^ n" "i = base + (q * 2 ^ n + j)" using False l by (auto simp: j_def fill_cell_def)
    then have "(i - base) mod 2 ^ n = j" by simp
    with j l show ?thesis by (simp add: fill_cell_def)
  qed (use l in \<open>simp add: fill_cell_def\<close>)
qed (use assms in \<open>auto simp: fill_cell_def\<close>)

lemma huff_fill_ok:
  assumes "known < 2 ^ n" and "n \<le> m" and "base + 2 ^ m \<le> Inf_HuffTableSize"
  shows "huff_fill t base (2 ^ m) n known d (q * 2 ^ n) =
     Inr (\<lambda>i. if fill_cell base (2 ^ m) n known (q * 2 ^ n) i then Some d else t i)"
proof (induction "2 ^ m - q * 2 ^ n" arbitrary: q t rule: less_induct)
  case less
  show ?case
  proof (cases "q * 2 ^ n < 2 ^ m")
    case True
    have le: "Suc q * 2 ^ n \<le> 2 ^ m" by (rule next_multiple [OF True assms(2)])
    let ?t = "t(base + (q * 2 ^ n + known) := Some d)"
    have set: "table_set t (base + (q * 2 ^ n + known)) d = Inr ?t"
      using le assms(1,3) by (simp add: table_set_def)
    have "(2 :: nat) ^ m - Suc q * 2 ^ n < 2 ^ m - q * 2 ^ n" using True le by (simp add: diff_less_mono2)
    note IH = less.hyps [OF this, of ?t]
    have "huff_fill t base (2 ^ m) n known d (q * 2 ^ n) = huff_fill ?t base (2 ^ m) n known d (Suc q * 2 ^ n)"
      using True set by (subst huff_fill.simps) (simp add: or_known [OF assms(1)] add.commute)
    also have "\<dots> = Inr (\<lambda>i. if fill_cell base (2 ^ m) n known (q * 2 ^ n) i then Some d else t i)"
      unfolding IH fill_cell_step [OF assms(1) le] by (auto simp: fun_eq_iff)
    finally show ?thesis .
  next
    case False
    then show ?thesis by (subst huff_fill.simps) (auto simp: fun_eq_iff fill_cell_def)
  qed
qed

text \<open>
  \<^verbatim>\<open>Inf_Huff_FillTable\<close> writes exactly the entries whose index continues the reversed codeword.
\<close>

lemma FillTable_ok:
  assumes "h < 2 ^ l" and "disc < l" and "l \<le> 16" and "l - disc \<le> m" and "base + 2 ^ m \<le> Inf_HuffTableSize"
  shows "Inf_Huff_FillTable t base (2 ^ m) h l s disc =
     Inr (\<lambda>i. if fill_cell base (2 ^ m) (l - disc) (revn l h div 2 ^ disc) 0 i
              then Some (Inf_Huff_SetValue l s) else t i)"
proof -
  have "h < 2 ^ 16" using assms(1,3) power_increasing [of l 16 "2 :: nat"] by simp
  then have h: "h div 256 < 256" and r: "reverse_huffman h l = revn l h"
    using reverse_huffman_revn assms(3) by auto
  have "revn l h div 2 ^ disc < 2 ^ (l - disc)"
    using revn_less [of l h] assms(2) by (simp add: less_mult_imp_div_less flip: power_add)
  from huff_fill_ok [OF this assms(4,5), of t _ 0] show ?thesis
    using h r revn_less [of l h] assms(2,3) by (simp add: Inf_Huff_FillTable_def drop_bit_eq_div Let_def)
qed

end
