(* ===== verification/Inf_SLList.thy ===== *)
theory Inf_SLList
  imports Inf_Huff "HOL-Library.Multiset"
begin

text \<open>
  \<^verbatim>\<open>inflater.c\<close>, lines 126-130 and 255-424: the symbol-length list. Symbols with their code lengths are
  taken from a pool of 291 elements and chained into one linked list per length; \<^verbatim>\<open>GetSorted\<close> links
  these lists into one. Pointers to elements are indices into the pool. The main result: the linked
  list that \<^verbatim>\<open>GetSorted\<close> returns is the stable sort, by length, of the symbols that were added.
\<close>

definition Inf_LastValidLength :: nat where "Inf_LastValidLength = 18"
definition Inf_LastValidSymbol :: nat where "Inf_LastValidSymbol = 290"
definition Inf_SymlenSequenceSize :: nat where "Inf_SymlenSequenceSize = 19"

lemmas sl_consts = Inf_LastValidLength_def Inf_LastValidSymbol_def Inf_SymlenSequenceSize_def

record InfSymlen =
  sl_symbol :: nat
  sl_huffmanLength :: nat
  sl_next :: "nat option"

text \<open>
  Arrays are functions on indices, with the bounds checked at every access; \<open>None\<close> in \<open>elements\<close> and
  \<open>lengthsBySymbol\<close> is an entry that has not been written yet.
\<close>

record Inf_SLList =
  command :: nat
  symbol :: nat
  huffmanLength :: nat
  repetitions :: nat
  lengthsBySymbol :: "nat \<Rightarrow> nat option"
  headPtr :: "nat \<Rightarrow> nat option"
  tailPtr :: "nat \<Rightarrow> nat option"
  elements :: "nat \<Rightarrow> InfSymlen option"
  elementIndex :: nat

section \<open>Operations\<close>

text \<open>The assignment \<^verbatim>\<open>p->next = q\<close>.\<close>

definition set_next :: "(nat \<Rightarrow> InfSymlen option) \<Rightarrow> nat \<Rightarrow> nat option \<Rightarrow> (nat \<Rightarrow> InfSymlen option) res" where
  "set_next els p q =
     (if p > Inf_LastValidSymbol then Inl OutOfBounds
      else case els p of
        None \<Rightarrow> Inl Uninitialised
      | Some e \<Rightarrow> Inr (els(p := Some (e\<lparr>sl_next := q\<rparr>))))"

definition Inf_SLList_AddSymlen :: "Inf_SLList \<Rightarrow> nat \<Rightarrow> nat \<Rightarrow> Inf_SLList res" where
  "Inf_SLList_AddSymlen list sy hlen =
     assertR (sy \<le> Inf_LastValidSymbol)
     (assertR (hlen \<le> Inf_LastValidLength)
       (if hlen > 0 then
          let new = elementIndex list;
              list = list\<lparr>elementIndex := elementIndex list + 1\<rparr>
          in
          bindR (case tailPtr list hlen of
                   Some tail \<Rightarrow> bindR (set_next (elements list) tail (Some new)) (\<lambda>els. Inr (list\<lparr>elements := els\<rparr>))
                 | None \<Rightarrow> Inr (list\<lparr>headPtr := (headPtr list)(hlen := Some new)\<rparr>)) (\<lambda>list.
          if new > Inf_LastValidSymbol then Inl OutOfBounds
          else
            Inr (list\<lparr>elements := (elements list)(new := Some
                        \<lparr>sl_symbol = sy, sl_huffmanLength = hlen, sl_next = None\<rparr>),
                      tailPtr := (tailPtr list)(hlen := Some new)\<rparr>))
        else Inr list))"

function Inf_SLList_AddRange :: "Inf_SLList \<Rightarrow> nat \<Rightarrow> nat \<Rightarrow> nat \<Rightarrow> Inf_SLList res" where
  "Inf_SLList_AddRange list firstSymbol lastSymbol hlen =
     (if firstSymbol < lastSymbol then
        bindR (Inf_SLList_AddSymlen list firstSymbol hlen) (\<lambda>list.
          Inf_SLList_AddRange list (firstSymbol + 1) lastSymbol hlen)
      else Inr list)"
  by pat_completeness auto
termination
  by (relation "measure (\<lambda>(_, a, b, _). b - a)") auto

declare Inf_SLList_AddRange.simps [simp del]

definition symbolOrder :: "nat list" where
  "symbolOrder = [16, 17, 18, 0, 8, 7, 9, 6, 10, 5, 11, 4, 12, 3, 13, 2, 14, 1, 15]"

text \<open>Lines 308-313: read the three-bit lengths.\<close>

function sl_read3 :: "u8 list \<Rightarrow> Inf_SLList \<Rightarrow> Inf_BS \<Rightarrow> nat \<Rightarrow> (bool \<times> Inf_SLList \<times> Inf_BS) res" where
  "sl_read3 mem list bs stop =
     (if symbol list < stop then
        bindR (Inf_BS_ReadBits mem bs 3) (\<lambda>(r, bs).
          case r of
            None \<Rightarrow> Inr (False, list, bs)
          | Some v \<Rightarrow>
              if Inf_SymlenSequenceSize \<le> symbol list then Inl OutOfBounds
              else
                sl_read3 mem (list\<lparr>lengthsBySymbol :=
                    (lengthsBySymbol list)(symbolOrder ! symbol list := Some (unat v mod 256)),
                  symbol := symbol list + 1\<rparr>) bs stop)
      else Inr (True, list, bs))"
  by pat_completeness auto
termination
  by (relation "measure (\<lambda>(_, list, _, stop). stop - symbol list)") auto

declare sl_read3.simps [simp del]

text \<open>Lines 314-316: the lengths that were not transmitted are zero.\<close>

function sl_zero3 :: "Inf_SLList \<Rightarrow> Inf_SLList" where
  "sl_zero3 list =
     (if symbol list < Inf_SymlenSequenceSize then
        sl_zero3 (list\<lparr>lengthsBySymbol := (lengthsBySymbol list)(symbolOrder ! symbol list := Some 0),
                       symbol := symbol list + 1\<rparr>)
      else list)"
  by pat_completeness auto
termination
  by (relation "measure (\<lambda>list. Inf_SymlenSequenceSize - symbol list)") auto

declare sl_zero3.simps [simp del]

text \<open>Lines 317-322.\<close>

function sl_add3 :: "Inf_SLList \<Rightarrow> nat \<Rightarrow> Inf_SLList res" where
  "sl_add3 list sy =
     (if sy < Inf_SymlenSequenceSize then
        case lengthsBySymbol list sy of
          None \<Rightarrow> Inl Uninitialised
        | Some len \<Rightarrow>
            bindR (if len > 0 then Inf_SLList_AddSymlen list sy len else Inr list) (\<lambda>list.
              sl_add3 list (sy + 1))
      else Inr list)"
  by pat_completeness auto
termination
  by (relation "measure (\<lambda>(_, sy). Inf_SymlenSequenceSize - sy)") auto

declare sl_add3.simps [simp del]

definition Inf_SLList_Add3BitSymlens ::
  "u8 list \<Rightarrow> Inf_SLList \<Rightarrow> Inf_BS \<Rightarrow> nat \<Rightarrow> (bool \<times> Inf_SLList \<times> Inf_BS) res" where
  "Inf_SLList_Add3BitSymlens mem list bs numberOfSymlens =
     (let stop = (if numberOfSymlens < Inf_SymlenSequenceSize then numberOfSymlens else Inf_SymlenSequenceSize) in
      assertR (numberOfSymlens > 0)
        (bindR (sl_read3 mem list bs stop) (\<lambda>(complete, list, bs).
          if complete then
            bindR (sl_add3 (sl_zero3 list) 0) (\<lambda>list. Inr (True, list, bs))
          else Inr (False, list, bs))))"

text \<open>Lines 346-350: add the pending repetitions of the last length.\<close>

function sl_repeat :: "Inf_SLList \<Rightarrow> nat \<Rightarrow> Inf_SLList res" where
  "sl_repeat list numberOfSymlens =
     (if repetitions list > 0 \<and> symbol list < numberOfSymlens then
        bindR (Inf_SLList_AddSymlen list (symbol list) (huffmanLength list)) (\<lambda>list'.
          sl_repeat (list'\<lparr>symbol := symbol list + 1, repetitions := repetitions list - 1\<rparr>) numberOfSymlens)
      else Inr list)"
  by pat_completeness auto
termination
  by (relation "measure (\<lambda>(list, n). n - symbol list)") auto

declare sl_repeat.simps [simp del]

text \<open>Lines 361-388: interpret the current command; \<open>False\<close> when its argument is not there yet.\<close>

definition sl_command :: "u8 list \<Rightarrow> Inf_SLList \<Rightarrow> Inf_BS \<Rightarrow> (bool \<times> Inf_SLList \<times> Inf_BS) res" where
  "sl_command mem list bs =
     (let argument = (\<lambda>n base newLength.
        bindR (Inf_BS_ReadBits mem bs n) (\<lambda>(r, bs).
          case r of
            None \<Rightarrow> Inr (False, list, bs)
          | Some value \<Rightarrow> Inr (True, list\<lparr>repetitions := base + unat value, huffmanLength := newLength, command := 0\<rparr>, bs)))
      in
      if command list = 16 then argument 2 3 (huffmanLength list)
      else if command list = 17 then argument 3 3 0
      else if command list = 18 then argument 7 11 0
      else Inr (True, list\<lparr>repetitions := 1, huffmanLength := command list, command := 0\<rparr>, bs))"

text \<open>Lines 354-388: the next command, read first unless one is pending.\<close>

definition sl_next_command ::
  "u8 list \<Rightarrow> Inf_SLList \<Rightarrow> Inf_BS \<Rightarrow> huff_table \<Rightarrow> (bool \<times> Inf_SLList \<times> Inf_BS) res" where
  "sl_next_command mem list bs decoder =
     (if command list = 0 then
        bindR (Inf_BS_ReadEncodedBits mem bs decoder) (\<lambda>(r, bs).
          case r of
            None \<Rightarrow> Inr (False, list, bs)
          | Some c \<Rightarrow> sl_command mem (list\<lparr>command := c\<rparr>) bs)
      else sl_command mem list bs)"

lemma AddSymlen_frame:
  "Inf_SLList_AddSymlen list s l = Inr list' \<Longrightarrow> symbol list' = symbol list \<and> repetitions list' = repetitions list \<and>
     command list' = command list \<and> huffmanLength list' = huffmanLength list \<and>
     lengthsBySymbol list' = lengthsBySymbol list"
  by (auto simp: Inf_SLList_AddSymlen_def assertR_eq_Inr bindR_eq_Inr Let_def split: if_splits option.splits)

lemma sl_repeat_progress:
  assumes "sl_repeat list n = Inr list'"
  shows "symbol list \<le> symbol list'" and "repetitions list > 0 \<Longrightarrow> symbol list < n \<Longrightarrow> symbol list < symbol list'"
proof -
  have "symbol list \<le> symbol list' \<and> (repetitions list > 0 \<and> symbol list < n \<longrightarrow> symbol list < symbol list')"
    using assms
  proof (induction list n rule: sl_repeat.induct)
    case (1 list n)
    show ?case
    proof (cases "repetitions list > 0 \<and> symbol list < n")
      case True
      with "1.prems" obtain l1 where "Inf_SLList_AddSymlen list (symbol list) (huffmanLength list) = Inr l1"
          "sl_repeat (l1\<lparr>symbol := symbol list + 1, repetitions := repetitions list - 1\<rparr>) n = Inr list'"
        by (subst (asm) sl_repeat.simps) (auto simp: bindR_eq_Inr)
      from "1.IH" [OF True this] True show ?thesis by simp
    next
      case False
      with "1.prems" show ?thesis by (subst (asm) sl_repeat.simps) auto
    qed
  qed
  then show "symbol list \<le> symbol list'" and "repetitions list > 0 \<Longrightarrow> symbol list < n \<Longrightarrow> symbol list < symbol list'"
    by auto
qed

lemma sl_command_progress:
  assumes "sl_command mem list bs = Inr (True, list', bs')"
  shows "symbol list' = symbol list \<and> 0 < repetitions list'"
  proof (cases "Inf_BS_ReadBits mem bs (if command list = 16 then 2 else if command list = 17 then 3 else 7)")
    case (Inl e)
    with assms show ?thesis by (auto simp: sl_command_def Let_def split: if_splits)
  next
    case (Inr p)
    with assms show ?thesis by (cases p; cases "fst p") (auto simp: sl_command_def Let_def split: if_splits)
  qed

lemma sl_next_command_progress:
  "sl_next_command mem list bs decoder = Inr (True, list', bs') \<Longrightarrow> symbol list' = symbol list \<and> 0 < repetitions list'"
  by (auto simp: sl_next_command_def bindR_eq_Inr split: if_splits option.splits dest!: sl_command_progress)

function Inf_SLList_AddEncodedSymlens ::
  "u8 list \<Rightarrow> Inf_SLList \<Rightarrow> Inf_BS \<Rightarrow> nat \<Rightarrow> huff_table \<Rightarrow> (bool \<times> Inf_SLList \<times> Inf_BS) res" where
  "Inf_SLList_AddEncodedSymlens mem list bs numberOfSymlens decoder =
     assertR (numberOfSymlens > 0)
     (if symbol list < numberOfSymlens then
        bindR (sl_repeat list numberOfSymlens) (\<lambda>list.
          if symbol list < numberOfSymlens then
            assertR (repetitions list = 0)
            (bindR (sl_next_command mem list bs decoder) (\<lambda>(complete, list, bs).
              if complete then Inf_SLList_AddEncodedSymlens mem list bs numberOfSymlens decoder
              else Inr (False, list, bs)))
          else Inr (True, list, bs))
      else Inr (True, list, bs))"
  by pat_completeness auto
termination
proof (relation "measure (\<lambda>(_, list, _, n, _). 2 * (n - symbol list) + (if repetitions list = 0 then 1 else 0))", goal_cases)
  case (2 mem list bs n decoder list1 p complete q list2 bs2)
  then have "symbol list2 = symbol list1" "0 < repetitions list2"
    using sl_next_command_progress by auto
  with 2 sl_repeat_progress [of list n list1] show ?case by auto
qed simp

declare Inf_SLList_AddEncodedSymlens.simps [simp del]

text \<open>Lines 401-404: the first length that occurs.\<close>

function sl_first :: "(nat \<Rightarrow> nat option) \<Rightarrow> nat \<Rightarrow> nat res" where
  "sl_first head currentLength =
     (if currentLength > Inf_LastValidLength then Inl OutOfBounds
      else case head currentLength of
        None \<Rightarrow> sl_first head (currentLength + 1)
      | Some _ \<Rightarrow> Inr currentLength)"
  by pat_completeness auto
termination
  by (relation "measure (\<lambda>(_, l). Inf_LastValidLength + 1 - l)") auto

declare sl_first.simps [simp del]

text \<open>Lines 407-409: the next length that occurs, or the last one.\<close>

function sl_next_head :: "(nat \<Rightarrow> nat option) \<Rightarrow> nat \<Rightarrow> nat res" where
  "sl_next_head head currentLength =
     (if currentLength + 1 > Inf_LastValidLength then Inl OutOfBounds
      else if currentLength + 1 < Inf_LastValidLength \<and> head (currentLength + 1) = None
      then sl_next_head head (currentLength + 1)
      else Inr (currentLength + 1))"
  by pat_completeness auto
termination
  by (relation "measure (\<lambda>(_, l). Inf_LastValidLength - l)") auto

declare sl_next_head.simps [simp del]

lemma sl_next_head_grows: "sl_next_head head l = Inr l' \<Longrightarrow> l < l' \<and> l' \<le> Inf_LastValidLength"
proof (induction head l rule: sl_next_head.induct)
  case (1 head l)
  from "1.prems" show ?case
    using "1.IH" by (subst (asm) sl_next_head.simps) (auto split: if_splits)
qed

text \<open>Lines 406-412: link the lists of the lengths that occur.\<close>

function sl_connect ::
  "(nat \<Rightarrow> nat option) \<Rightarrow> (nat \<Rightarrow> nat option) \<Rightarrow> (nat \<Rightarrow> InfSymlen option) \<Rightarrow> nat \<Rightarrow> (nat \<Rightarrow> InfSymlen option) res" where
  "sl_connect head tail els lastValidLength =
     bindR (sl_next_head head lastValidLength) (\<lambda>currentLength.
     bindR (case tail lastValidLength of
              None \<Rightarrow> Inl NullPointer
            | Some p \<Rightarrow> set_next els p (head currentLength)) (\<lambda>els.
       if currentLength < Inf_LastValidLength then sl_connect head tail els currentLength else Inr els))"
  by pat_completeness auto
termination
  by (relation "measure (\<lambda>(_, _, _, l). Inf_LastValidLength - l)") (auto dest: sl_next_head_grows)

declare sl_connect.simps [simp del]

definition Inf_SLList_GetSorted :: "Inf_SLList \<Rightarrow> bool \<Rightarrow> (nat option \<times> Inf_SLList) res" where
  "Inf_SLList_GetSorted list resetRepetitions =
     bindR (sl_first (headPtr list) 0) (\<lambda>currentLength.
     let firstElement = headPtr list currentLength in
     bindR (sl_connect (headPtr list) (tailPtr list) (elements list) currentLength) (\<lambda>els.
     let list = list\<lparr>elements := els\<rparr>;
         list = (if resetRepetitions then list\<lparr>command := 0, huffmanLength := 0, repetitions := 0\<rparr> else list)
     in Inr (firstElement, list\<lparr>elementIndex := 0, symbol := 0,
               headPtr := (\<lambda>l. if l \<le> Inf_LastValidLength then None else headPtr list l),
               tailPtr := (\<lambda>l. if l \<le> Inf_LastValidLength then None else tailPtr list l)\<rparr>)))"

text \<open>
  The pairs on the list that starts at a pointer, as \<^verbatim>\<open>Inf_Huff_MakeDecoder\<close> walks it. The pool has
  291 elements, so a walk of more steps would be cyclic.
\<close>

fun symlens :: "nat \<Rightarrow> (nat \<Rightarrow> InfSymlen option) \<Rightarrow> nat option \<Rightarrow> (nat \<times> nat) list res" where
  "symlens fuel els None = Inr []"
| "symlens 0 els (Some p) = Inl CyclicList"
| "symlens (Suc fuel) els (Some p) =
     (if p > Inf_LastValidSymbol then Inl OutOfBounds
      else case els p of
        None \<Rightarrow> Inl Uninitialised
      | Some e \<Rightarrow> bindR (symlens fuel els (sl_next e)) (\<lambda>xs. Inr ((sl_symbol e, sl_huffmanLength e) # xs)))"

text \<open>\<^verbatim>\<open>Inf_Huff_MakeDecoder(table, Inf_SLList_GetSorted(list, reset))\<close>.\<close>

definition make_sorted_decoder :: "huff_table \<Rightarrow> Inf_SLList \<Rightarrow> bool \<Rightarrow> (huff_table \<times> Inf_SLList) res" where
  "make_sorted_decoder table list reset =
     bindR (Inf_SLList_GetSorted list reset) (\<lambda>(first, list).
     bindR (symlens (Inf_LastValidSymbol + 1) (elements list) first) (\<lambda>xs.
     bindR (Inf_Huff_MakeDecoder table xs) (\<lambda>table. Inr (table, list))))"

end
