(* ===== verification/Inf_SLList_Sort.thy ===== *)
theory Inf_SLList_Sort
  imports Inf_SLList
begin

text \<open>
  The linked lists of \<^verbatim>\<open>Inf_SLList\<close> refined to the sequence of pairs added: adding appends a pair, and the
  list returned by \<^verbatim>\<open>Inf_SLList_GetSorted\<close> is the stable sort of that sequence by code length.
\<close>

section \<open>Linked lists as sequences of indices\<close>

fun lseg :: "(nat \<Rightarrow> InfSymlen option) \<Rightarrow> nat option \<Rightarrow> nat list \<Rightarrow> nat option \<Rightarrow> bool" where
  "lseg els p [] q \<longleftrightarrow> p = q"
| "lseg els p (i # is) q \<longleftrightarrow> p = Some i \<and> (\<exists>e. els i = Some e \<and> lseg els (sl_next e) is q)"

lemma lseg_append: "lseg els p (is @ js) q \<longleftrightarrow> (\<exists>r. lseg els p is r \<and> lseg els r js q)"
  by (induction "is" arbitrary: p) auto

lemma lseg_cong: "\<forall>i \<in> set is. els' i = els i \<Longrightarrow> lseg els' p is q \<longleftrightarrow> lseg els p is q"
  by (induction "is" arbitrary: p) auto

lemma lseg_target: "lseg els p (is @ [i]) q \<Longrightarrow> distinct (is @ [i]) \<Longrightarrow>
   els i = Some e \<Longrightarrow> lseg (els(i := Some (e\<lparr>sl_next := r\<rparr>))) p (is @ [i]) r"
proof -
  assume a: "lseg els p (is @ [i]) q" "distinct (is @ [i])" "els i = Some e"
  have "lseg (els(i := Some (e\<lparr>sl_next := r\<rparr>))) p is (Some i)"
    using a by (subst lseg_cong) (auto simp: lseg_append)
  with a show ?thesis by (auto simp: lseg_append)
qed

section \<open>The list represents the pairs added so far\<close>

definition positions :: "(nat \<times> nat) list \<Rightarrow> nat \<Rightarrow> nat list" where
  "positions adds l = filter (\<lambda>i. snd (adds ! i) = l) [0..<length adds]"

definition sl_rep :: "Inf_SLList \<Rightarrow> (nat \<times> nat) list \<Rightarrow> bool" where
  "sl_rep list adds \<longleftrightarrow> elementIndex list = length adds \<and> length adds \<le> Inf_LastValidSymbol + 1 \<and>
     (\<forall>(s, l) \<in> set adds. s \<le> Inf_LastValidSymbol \<and> 1 \<le> l \<and> l \<le> Inf_LastValidLength) \<and>
     (\<forall>i < length adds. \<exists>nx. elements list i = Some \<lparr>sl_symbol = fst (adds ! i), sl_huffmanLength = snd (adds ! i), sl_next = nx\<rparr>) \<and>
     (\<forall>l \<le> Inf_LastValidLength. lseg (elements list) (headPtr list l) (positions adds l) None \<and>
        tailPtr list l = (if positions adds l = [] then None else Some (last (positions adds l))))"

lemma positions_append: "positions (adds @ [(s, l)]) l' = positions adds l' @ (if l' = l then [length adds] else [])"
proof -
  have "filter (\<lambda>i. snd ((adds @ [(s, l)]) ! i) = l') [0..<length adds] = positions adds l'"
    unfolding positions_def by (rule filter_cong) (auto simp: nth_append)
  then show ?thesis by (simp add: positions_def)
qed

lemma positions_set: "i \<in> set (positions adds l) \<longleftrightarrow> i < length adds \<and> snd (adds ! i) = l"
  by (auto simp: positions_def)

lemma positions_distinct: "distinct (positions adds l)"
  by (simp add: positions_def)

lemma lseg_extend:
  assumes "lseg els h (is @ [i]) None" and "distinct (is @ [i])" and "els i = Some e" and "n \<notin> set (is @ [i])"
    and "sl_next new = None"
  shows "lseg (els(i := Some (e\<lparr>sl_next := Some n\<rparr>), n := Some new)) h ((is @ [i]) @ [n]) None"
proof -
  have "lseg (els(i := Some (e\<lparr>sl_next := Some n\<rparr>))) h (is @ [i]) (Some n)"
    by (rule lseg_target [OF assms(1-3)])
  then have "lseg (els(i := Some (e\<lparr>sl_next := Some n\<rparr>), n := Some new)) h (is @ [i]) (Some n)"
    using assms(4) by (subst lseg_cong) auto
  with assms(5) show ?thesis by (subst lseg_append) auto
qed

text \<open>The pool and the head pointers after element \<open>n\<close> has been put at the end of the list of length \<open>l\<close>.\<close>

definition linked_els :: "Inf_SLList \<Rightarrow> nat \<Rightarrow> nat \<Rightarrow> InfSymlen \<Rightarrow> nat \<Rightarrow> InfSymlen option" where
  "linked_els list l n new = (case tailPtr list l of None \<Rightarrow> elements list
      | Some p \<Rightarrow> (elements list)(p := Some (the (elements list p)\<lparr>sl_next := Some n\<rparr>)))(n := Some new)"

definition linked_head :: "Inf_SLList \<Rightarrow> nat \<Rightarrow> nat \<Rightarrow> nat \<Rightarrow> nat option" where
  "linked_head list l n = (case tailPtr list l of None \<Rightarrow> (headPtr list)(l := Some n) | Some _ \<Rightarrow> headPtr list)"

lemma sl_rep_elem:
  assumes "sl_rep list adds" and "i < length adds"
  obtains nx where "elements list i = Some \<lparr>sl_symbol = fst (adds ! i), sl_huffmanLength = snd (adds ! i), sl_next = nx\<rparr>"
  using assms unfolding sl_rep_def by blast

lemma sl_rep_seg:
  assumes "sl_rep list adds" and "l \<le> Inf_LastValidLength"
  shows "lseg (elements list) (headPtr list l) (positions adds l) None"
    and "tailPtr list l = (if positions adds l = [] then None else Some (last (positions adds l)))"
  using assms by (auto simp: sl_rep_def)

lemma sl_rep_tail:
  assumes "sl_rep list adds" and "l \<le> Inf_LastValidLength" and "tailPtr list l = Some p"
  shows "p \<in> set (positions adds l)" and "\<exists>e. elements list p = Some e"
proof -
  have ne: "positions adds l \<noteq> []" "p = last (positions adds l)"
    using sl_rep_seg(2) [OF assms(1,2)] assms(3) by (simp_all split: if_splits)
  then show p: "p \<in> set (positions adds l)" by simp
  then have "p < length adds" by (simp add: positions_set)
  then show "\<exists>e. elements list p = Some e" by (rule sl_rep_elem [OF assms(1)]) blast
qed

lemma linked_els_elem:
  assumes "sl_rep list adds" and "i < length (adds @ [(s, l)])"
  shows "\<exists>nx. linked_els list l (length adds) \<lparr>sl_symbol = s, sl_huffmanLength = l, sl_next = None\<rparr> i
     = Some \<lparr>sl_symbol = fst ((adds @ [(s, l)]) ! i), sl_huffmanLength = snd ((adds @ [(s, l)]) ! i), sl_next = nx\<rparr>"
proof (cases "i = length adds")
  case False
  then have i: "i < length adds" using assms(2) by simp
  obtain nx where "elements list i = Some \<lparr>sl_symbol = fst (adds ! i), sl_huffmanLength = snd (adds ! i), sl_next = nx\<rparr>"
    by (rule sl_rep_elem [OF assms(1) i])
  with False i show ?thesis by (cases "tailPtr list l") (auto simp: linked_els_def nth_append)
qed (simp add: linked_els_def)

lemma linked_els_seg:
  assumes rep: "sl_rep list adds" and l: "l \<le> Inf_LastValidLength" and k: "k \<le> Inf_LastValidLength"
    and new: "sl_next new = None"
  shows "lseg (linked_els list l (length adds) new) (linked_head list l (length adds) k) (positions (adds @ [(s, l)]) k) None"
proof -
  define n where "n = length adds"
  have nn: "n \<notin> set (positions adds k)" for k by (simp add: positions_set n_def)
  consider "k \<noteq> l" | "k = l" "positions adds l = []" | ps p where "k = l" "positions adds l = ps @ [p]"
    by (metis append_butlast_last_id)
  then show ?thesis
  proof cases
    case 1
    have "\<forall>i \<in> set (positions adds k). linked_els list l n new i = elements list i"
      using sl_rep_tail(1) [OF rep l] nn 1 by (auto simp: linked_els_def positions_set n_def split: option.splits)
    moreover have "linked_head list l n k = headPtr list k" using 1 by (simp add: linked_head_def split: option.splits)
    ultimately show ?thesis
      using sl_rep_seg(1) [OF rep k] 1 lseg_cong [of "positions adds k" "linked_els list l n new" "elements list"]
      by (simp add: positions_append n_def)
  next
    case 2
    with sl_rep_seg(2) [OF rep l] new show ?thesis
      by (simp add: positions_append linked_els_def linked_head_def)
  next
    case 3
    then have p: "tailPtr list l = Some p" using sl_rep_seg(2) [OF rep l] by simp
    obtain e where e: "elements list p = Some e" using sl_rep_tail(2) [OF rep l p] by blast
    have "lseg ((elements list)(p := Some (e\<lparr>sl_next := Some n\<rparr>), n := Some new)) (headPtr list l) ((ps @ [p]) @ [n]) None"
      by (rule lseg_extend) (use sl_rep_seg(1) [OF rep l] 3 positions_distinct [of adds l] e nn [of l] new in simp_all)
    with p e 3 show ?thesis by (simp add: positions_append linked_els_def linked_head_def n_def)
  qed
qed

lemma AddSymlen_ok:
  assumes rep: "sl_rep list adds" and s: "s \<le> Inf_LastValidSymbol" and l: "1 \<le> l" "l \<le> Inf_LastValidLength"
    and room: "length adds \<le> Inf_LastValidSymbol"
  shows "\<exists>list'. Inf_SLList_AddSymlen list s l = Inr list' \<and> sl_rep list' (adds @ [(s, l)])"
proof -
  define n where "n = length adds"
  define new where "new = \<lparr>sl_symbol = s, sl_huffmanLength = l, sl_next = None\<rparr>"
  let ?list = "list\<lparr>elements := linked_els list l n new, headPtr := linked_head list l n,
      tailPtr := (tailPtr list)(l := Some n), elementIndex := n + 1\<rparr>"
  have ix: "elementIndex list = n" using rep by (simp add: sl_rep_def n_def)
  have "Inf_SLList_AddSymlen list s l = Inr ?list"
  proof (cases "tailPtr list l")
    case (Some p)
    have "p < n" using sl_rep_tail(1) [OF rep l(2) Some] by (simp add: positions_set n_def)
    with Some sl_rep_tail(2) [OF rep l(2) Some] s l room ix show ?thesis
      by (auto simp: Inf_SLList_AddSymlen_def Let_def linked_els_def linked_head_def new_def n_def set_next_def)
  qed (use s l room ix in \<open>simp add: Inf_SLList_AddSymlen_def Let_def linked_els_def linked_head_def new_def n_def\<close>)
  moreover have "sl_rep ?list (adds @ [(s, l)])"
    using rep s l room linked_els_elem [OF rep] linked_els_seg [OF rep l(2)] sl_rep_seg(2) [OF rep]
    by (simp add: sl_rep_def n_def new_def positions_append)
  ultimately show ?thesis by blast
qed

lemma AddSymlen_zero: "s \<le> Inf_LastValidSymbol \<Longrightarrow> Inf_SLList_AddSymlen list s 0 = Inr list"
  by (simp add: Inf_SLList_AddSymlen_def)

lemma AddRange_ok:
  assumes "sl_rep list adds" and "b \<le> Inf_LastValidSymbol + 1" and "1 \<le> l" "l \<le> Inf_LastValidLength"
    and "length adds + (b - a) \<le> Inf_LastValidSymbol + 1"
  shows "\<exists>list'. Inf_SLList_AddRange list a b l = Inr list' \<and> sl_rep list' (adds @ map (\<lambda>s. (s, l)) [a..<b])"
  using assms
proof (induction "b - a" arbitrary: list adds a)
  case 0
  then show ?case by (subst Inf_SLList_AddRange.simps) simp
next
  case (Suc n)
  then have ab: "a < b" by simp
  then have "length adds \<le> Inf_LastValidSymbol" using Suc.prems(5) by linarith
  then obtain l1 where l1: "Inf_SLList_AddSymlen list a l = Inr l1" "sl_rep l1 (adds @ [(a, l)])"
    using AddSymlen_ok [OF Suc.prems(1), of a l] ab Suc.prems by auto
  have "\<exists>list'. Inf_SLList_AddRange l1 (a + 1) b l = Inr list' \<and> sl_rep list' ((adds @ [(a, l)]) @ map (\<lambda>s. (s, l)) [a + 1..<b])"
    by (rule Suc.hyps(1) [OF _ l1(2)]) (use Suc.hyps(2) Suc.prems ab in auto)
  with l1(1) ab show ?case by (subst Inf_SLList_AddRange.simps) (auto simp: upt_conv_Cons)
qed

section \<open>Linking the lists\<close>

definition chain :: "(nat \<times> nat) list \<Rightarrow> nat \<Rightarrow> nat list" where
  "chain adds l = concat (map (positions adds) [l..<Inf_LastValidLength + 1])"

lemma chain_step: "l \<le> Inf_LastValidLength \<Longrightarrow> chain adds l = positions adds l @ chain adds (l + 1)"
  unfolding chain_def by (subst upt_conv_Cons) simp_all

lemma chain_skip: "l \<le> m \<Longrightarrow> (\<forall>k. l \<le> k \<and> k < m \<longrightarrow> positions adds k = []) \<Longrightarrow> m \<le> Inf_LastValidLength + 1 \<Longrightarrow>
    chain adds l = chain adds m"
proof (induction "m - l" arbitrary: l)
  case (Suc n)
  then show ?case using chain_step [of l adds] by simp
qed simp

lemma chain_set: "i \<in> set (chain adds l) \<Longrightarrow> l \<le> snd (adds ! i)"
  by (auto simp: chain_def positions_set)

lemma sl_next_head_ok:
  assumes "l < Inf_LastValidLength"
  shows "\<exists>m. sl_next_head head l = Inr m \<and> l < m \<and> m \<le> Inf_LastValidLength \<and>
     (\<forall>k. l < k \<and> k < m \<longrightarrow> head k = None) \<and> (m < Inf_LastValidLength \<longrightarrow> head m \<noteq> None)"
  using assms
proof (induction head l rule: sl_next_head.induct)
  case (1 head l)
  show ?case
  proof (cases "l + 1 < Inf_LastValidLength \<and> head (l + 1) = None")
    case True
    with 1 obtain m where m: "sl_next_head head (l + 1) = Inr m" "l + 1 < m" "m \<le> Inf_LastValidLength"
        "\<forall>k. l + 1 < k \<and> k < m \<longrightarrow> head k = None" "m < Inf_LastValidLength \<longrightarrow> head m \<noteq> None" by auto
    have "\<forall>k. l < k \<and> k < m \<longrightarrow> head k = None" using m(4) True by (metis Suc_eq_plus1 Suc_lessI)
    with m True show ?thesis by (subst sl_next_head.simps) auto
  next
    case False
    with "1.prems" show ?thesis by (subst sl_next_head.simps) (auto simp: le_less_Suc_eq)
  qed
qed

text \<open>
  The state of the linking loop: the pool still holds the pairs, and the lists of the lengths from
  \<open>l\<close> on are untouched.
\<close>

definition unlinked :: "Inf_SLList \<Rightarrow> (nat \<times> nat) list \<Rightarrow> (nat \<Rightarrow> InfSymlen option) \<Rightarrow> nat \<Rightarrow> bool" where
  "unlinked list adds els l \<longleftrightarrow> (\<forall>k. l \<le> k \<and> k \<le> Inf_LastValidLength \<longrightarrow> lseg els (headPtr list k) (positions adds k) None)"

lemma head_None: "sl_rep list adds \<Longrightarrow> l \<le> Inf_LastValidLength \<Longrightarrow> headPtr list l = None \<longleftrightarrow> positions adds l = []"
  using sl_rep_seg(1) [of list adds l] by (cases "positions adds l") auto

text \<open>Linking changes nothing but \<^verbatim>\<open>next\<close> pointers.\<close>

definition pair_of :: "InfSymlen \<Rightarrow> nat \<times> nat" where
  "pair_of e = (sl_symbol e, sl_huffmanLength e)"

definition same_pairs :: "(nat \<Rightarrow> InfSymlen option) \<Rightarrow> (nat \<Rightarrow> InfSymlen option) \<Rightarrow> bool" where
  "same_pairs els els' \<longleftrightarrow> (\<forall>i. map_option pair_of (els' i) = map_option pair_of (els i))"

lemma sl_connect_ok:
  assumes rep: "sl_rep list adds" and l: "l < Inf_LastValidLength" "positions adds l \<noteq> []"
    and seg: "unlinked list adds els l" 
  shows "\<exists>els'. sl_connect (headPtr list) (tailPtr list) els l = Inr els' \<and>
     lseg els' (headPtr list l) (chain adds l) None \<and>
     same_pairs els els' \<and> (\<forall>i. i \<notin> set (chain adds l) \<longrightarrow> els' i = els i)"
  using l seg
proof (induction "Inf_LastValidLength - l" arbitrary: l els rule: less_induct)
  case less
  obtain ps p where ps: "positions adds l = ps @ [p]" using less.prems(2) by (metis append_butlast_last_id)
  have le: "l \<le> Inf_LastValidLength" using less.prems(1) by simp
  have sl: "lseg els (headPtr list l) (ps @ [p]) None" using less.prems(3) le ps unfolding unlinked_def by (metis order_refl)
  then obtain e where e: "els p = Some e" by (auto simp: lseg_append)
  have tl: "tailPtr list l = Some p" using sl_rep_seg(2) [OF rep le] ps by simp
  have p: "p \<le> Inf_LastValidSymbol" "snd (adds ! p) = l"
    using ps rep positions_set [of p adds l] by (auto simp: sl_rep_def)
  obtain m where m: "sl_next_head (headPtr list) l = Inr m" "l < m" "m \<le> Inf_LastValidLength"
      "\<forall>k. l < k \<and> k < m \<longrightarrow> headPtr list k = None" "m < Inf_LastValidLength \<longrightarrow> headPtr list m \<noteq> None"
    using sl_next_head_ok [OF less.prems(1)] by blast
  let ?els = "els(p := Some (e\<lparr>sl_next := headPtr list m\<rparr>))"
  have set: "set_next els p (headPtr list m) = Inr ?els" using e p by (simp add: set_next_def)
  have here: "lseg ?els (headPtr list l) (ps @ [p]) (headPtr list m)"
    by (rule lseg_target [OF sl _ e]) (use positions_distinct [of adds l] ps in simp)
  have ch: "chain adds l = (ps @ [p]) @ chain adds m"
    using chain_step [OF le, of adds] chain_skip [of "l + 1" m adds] m head_None [OF rep] ps by auto
  have later: "lseg ?els (headPtr list k) (positions adds k) None" if "m \<le> k" "k \<le> Inf_LastValidLength" for k
  proof -
    have "\<forall>i \<in> set (positions adds k). ?els i = els i" using that m(2) p(2) by (auto simp: positions_set)
    moreover have "lseg els (headPtr list k) (positions adds k) None"
      using less.prems(3) that m(2) by (simp add: unlinked_def)
    ultimately show ?thesis using lseg_cong [of "positions adds k" ?els els] by blast
  qed
  have same: "same_pairs els ?els" using e by (simp add: same_pairs_def pair_of_def)
  show ?case
  proof (cases "m < Inf_LastValidLength")
    case False
    with m(3) have "m = Inf_LastValidLength" by simp
    then have "chain adds m = positions adds m" by (simp add: chain_def)
    moreover have "sl_connect (headPtr list) (tailPtr list) els l = Inr ?els"
      using False m(1) tl set by (subst sl_connect.simps) simp
    ultimately show ?thesis
      using here later [of m] m(3) same unfolding ch by (auto simp: lseg_append)
  next
    case True
    have ne: "positions adds m \<noteq> []" using m(5) True head_None [OF rep m(3)] by simp
    have "unlinked list adds ?els m" using later by (simp add: unlinked_def)
    moreover have "Inf_LastValidLength - m < Inf_LastValidLength - l" using m(2) less.prems(1) by (simp add: diff_less_mono2)
    ultimately obtain els' where
      IH: "sl_connect (headPtr list) (tailPtr list) ?els m = Inr els'" "lseg els' (headPtr list m) (chain adds m) None"
        "same_pairs ?els els'" "\<forall>i. i \<notin> set (chain adds m) \<longrightarrow> els' i = ?els i" using less.hyps [OF _ True ne] by blast
    have out: "i \<notin> set (chain adds m)" if "i \<in> set (ps @ [p])" for i
      using chain_set [of i adds m] that ps positions_set [of i adds l] m(2) by auto
    have "lseg els' (headPtr list l) (ps @ [p]) (headPtr list m)"
    proof -
      have "\<forall>i \<in> set (ps @ [p]). els' i = ?els i" using IH(4) out by blast
      then show ?thesis using here lseg_cong [of "ps @ [p]" els' ?els] by blast
    qed
    then have "lseg els' (headPtr list l) (chain adds l) None" unfolding ch lseg_append [of els' _ "ps @ [p]"] using IH(2) by blast
    moreover have "sl_connect (headPtr list) (tailPtr list) els l = Inr els'"
      using True m(1) tl set IH(1) by (subst sl_connect.simps) simp
    moreover have "same_pairs els els'" using same IH(3) by (simp add: same_pairs_def)
    ultimately show ?thesis using IH(4) unfolding ch by auto
  qed
qed

section \<open>The sorted list\<close>

definition by_length :: "(nat \<times> nat) list \<Rightarrow> (nat \<times> nat) list" where
  "by_length adds = concat (map (\<lambda>l. filter (\<lambda>p. snd p = l) adds) [0..<Inf_LastValidLength + 1])"

lemma by_length_sort:
  assumes "\<forall>p \<in> set adds. snd p \<le> Inf_LastValidLength"
  shows "by_length adds = sort_key snd adds"
proof (rule sym, rule properties_for_sort_key)
  have fl: "filter (\<lambda>p. snd p = k) (concat (map (\<lambda>l. filter (\<lambda>p. snd p = l) adds) ls)) =
      (if k \<in> set ls then filter (\<lambda>p. snd p = k) adds else [])" if "distinct ls" for k ls
    using that by (induction ls) (auto simp: filter_empty_conv)
  have k: "filter (\<lambda>p. snd p = k) (by_length adds) = filter (\<lambda>p. snd p = k) adds" if "k \<le> Inf_LastValidLength" for k
    unfolding by_length_def using fl [of "[0..<Inf_LastValidLength + 1]" k] that by simp
  show "mset (by_length adds) = mset adds"
  proof (rule multiset_eqI)
    fix p
    have c: "count (mset xs) p = length (filter (\<lambda>q. q = p) (filter (\<lambda>q. snd q = snd p) xs))" for xs :: "(nat \<times> nat) list"
      by (induction xs) auto
    show "count (mset (by_length adds)) p = count (mset adds) p"
    proof (cases "snd p \<le> Inf_LastValidLength")
      case True
      then show ?thesis unfolding c by (simp only: k)
    next
      case False
      then have "p \<notin> set adds" "p \<notin> set (by_length adds)" using assms by (auto simp: by_length_def)
      then show ?thesis by (metis count_mset_0_iff)
    qed
  qed
  show "filter (\<lambda>x. snd p = snd x) (by_length adds) = filter (\<lambda>x. snd p = snd x) adds"
    if "p \<in> set (by_length adds)" for p
  proof -
    have "snd p \<le> Inf_LastValidLength" using that by (auto simp: by_length_def)
    from k [OF this] show ?thesis by (simp add: eq_commute [of "snd p"])
  qed
  have const: "sorted (map snd (filter (\<lambda>p. snd p = k) adds))" for k
    by (induction adds) auto
  have "sorted (map snd (concat (map (\<lambda>l. filter (\<lambda>p. snd p = l) adds) ls)))" if "sorted ls" for ls
    using that by (induction ls) (auto simp: sorted_append const)
  then show "sorted (map snd (by_length adds))" unfolding by_length_def by (metis sorted_upt)
qed

lemma symlens_lseg:
  assumes "lseg els p is None" and "\<forall>i \<in> set is. i \<le> Inf_LastValidSymbol" and "length is \<le> fuel"
  shows "symlens fuel els p = Inr (map (\<lambda>i. pair_of (the (els i))) is)"
  using assms
proof (induction "is" arbitrary: p fuel)
  case (Cons i "is")
  then obtain fuel' where "fuel = Suc fuel'" by (cases fuel) auto
  with Cons show ?case by (auto simp: pair_of_def)
qed simp

lemma chain_pairs: "map (\<lambda>i. adds ! i) (chain adds 0) = by_length adds"
proof -
  have "map (\<lambda>i. adds ! i) (positions adds l) = filter (\<lambda>p. snd p = l) adds" for l
  proof -
    have "filter (\<lambda>p. snd p = l) (map (\<lambda>i. adds ! i) [0..<length adds]) = map (\<lambda>i. adds ! i) (positions adds l)"
      unfolding positions_def filter_map by (simp add: comp_def)
    then show ?thesis by (simp add: map_nth)
  qed
  then show ?thesis by (simp add: chain_def by_length_def map_concat comp_def)
qed

lemma sl_first_ok:
  assumes "\<exists>k. l \<le> k \<and> k \<le> Inf_LastValidLength \<and> head k \<noteq> None"
  shows "\<exists>m. sl_first head l = Inr m \<and> l \<le> m \<and> m \<le> Inf_LastValidLength \<and> head m \<noteq> None \<and>
     (\<forall>k. l \<le> k \<and> k < m \<longrightarrow> head k = None)"
  using assms
proof (induction head l rule: sl_first.induct)
  case (1 head l)
  then have l: "l \<le> Inf_LastValidLength" by auto
  show ?case
  proof (cases "head l")
    case None
    have "\<exists>k. l + 1 \<le> k \<and> k \<le> Inf_LastValidLength \<and> head k \<noteq> None"
      using "1.prems" None by (metis Suc_eq_plus1 not_less_eq_eq le_antisym)
    from "1.IH" [OF _ None this] l obtain m where m: "sl_first head (l + 1) = Inr m" "l + 1 \<le> m"
        "m \<le> Inf_LastValidLength" "head m \<noteq> None" "\<forall>k. l + 1 \<le> k \<and> k < m \<longrightarrow> head k = None" by auto
    have "\<forall>k. l \<le> k \<and> k < m \<longrightarrow> head k = None" using m(5) None by (metis Suc_eq_plus1 not_less_eq_eq le_antisym)
    with m l None show ?thesis by (subst sl_first.simps) auto
  next
    case (Some p)
    with l show ?thesis by (subst sl_first.simps) auto
  qed
qed

text \<open>With no symbol at all the search for the first list runs off the array.\<close>

lemma sl_first_none: "\<forall>k \<le> Inf_LastValidLength. head k = None \<Longrightarrow> sl_first head l = Inl OutOfBounds"
proof (induction head l rule: sl_first.induct)
  case (1 head l)
  then show ?case by (subst sl_first.simps) auto
qed

text \<open>The empty list with the counters for pending repetitions.\<close>

lemma sl_rep_empty:
  "elementIndex list = 0 \<Longrightarrow> (\<forall>l \<le> Inf_LastValidLength. headPtr list l = None \<and> tailPtr list l = None) \<Longrightarrow> sl_rep list []"
  by (simp add: sl_rep_def positions_def)

lemma sl_rep_pair:
  assumes "sl_rep list adds" and "i < length adds"
  shows "1 \<le> snd (adds ! i) \<and> snd (adds ! i) \<le> Inf_LastValidLength"
proof -
  obtain s l where "adds ! i = (s, l)" by fastforce
  with assms nth_mem [OF assms(2)] show ?thesis unfolding sl_rep_def by fastforce
qed

lemma GetSorted_ok:
  assumes rep: "sl_rep list adds" and ne: "adds \<noteq> []" and len: "\<forall>(s, l) \<in> set adds. l < Inf_LastValidLength"
  shows "\<exists>p list'. Inf_SLList_GetSorted list reset = Inr (p, list') \<and>
     symlens (Inf_LastValidSymbol + 1) (elements list') p = Inr (by_length adds) \<and>
     sl_rep list' [] \<and> symbol list' = 0 \<and>
     (if reset then command list' = 0 \<and> huffmanLength list' = 0 \<and> repetitions list' = 0
      else command list' = command list \<and> huffmanLength list' = huffmanLength list \<and> repetitions list' = repetitions list)"
proof -
  have "snd (adds ! 0) \<le> Inf_LastValidLength" "0 \<in> set (positions adds (snd (adds ! 0)))"
    using sl_rep_pair [OF rep, of 0] ne by (simp_all add: positions_set)
  then have "\<exists>k. 0 \<le> k \<and> k \<le> Inf_LastValidLength \<and> headPtr list k \<noteq> None"
    using head_None [OF rep] by (metis empty_iff empty_set le0)
  from sl_first_ok [OF this] obtain m where m: "sl_first (headPtr list) 0 = Inr m" "m \<le> Inf_LastValidLength"
      "headPtr list m \<noteq> None" "\<forall>k. 0 \<le> k \<and> k < m \<longrightarrow> headPtr list k = None" by blast
  have pm: "positions adds m \<noteq> []" using m(3) head_None [OF rep m(2)] by simp
  then have lt: "m < Inf_LastValidLength"
    using len last_in_set [OF pm] positions_set [of "last (positions adds m)" adds m] nth_mem by fastforce
  have "unlinked list adds (elements list) m" using sl_rep_seg(1) [OF rep] by (simp add: unlinked_def)
  from sl_connect_ok [OF rep lt pm this] obtain els where
    c: "sl_connect (headPtr list) (tailPtr list) (elements list) m = Inr els"
      "lseg els (headPtr list m) (chain adds m) None" "same_pairs (elements list) els" by blast
  have ch: "chain adds m = chain adds 0"
    using chain_skip [of 0 m adds] m(2,4) head_None [OF rep] by auto
  have sub: "i < length adds" if "i \<in> set (chain adds 0)" for i using that by (auto simp: chain_def positions_set)
  have fits: "\<forall>i \<in> set (chain adds 0). i \<le> Inf_LastValidSymbol" "length (chain adds 0) \<le> Inf_LastValidSymbol + 1"
  proof -
    have n: "length adds \<le> Inf_LastValidSymbol + 1" using rep by (simp add: sl_rep_def)
    show "\<forall>i \<in> set (chain adds 0). i \<le> Inf_LastValidSymbol" using sub n by fastforce
    have "length (chain adds 0) = length (by_length adds)" using chain_pairs [of adds] by (metis length_map)
    also have "\<dots> = length adds"
      using by_length_sort [of adds] rep by (fastforce simp: sl_rep_def)
    finally show "length (chain adds 0) \<le> Inf_LastValidSymbol + 1" using n by simp
  qed
  have "pair_of (the (els i)) = adds ! i" if mem: "i \<in> set (chain adds 0)" for i
  proof -
    obtain nx where "elements list i = Some \<lparr>sl_symbol = fst (adds ! i), sl_huffmanLength = snd (adds ! i), sl_next = nx\<rparr>"
      by (rule sl_rep_elem [OF rep sub [OF mem]])
    then have "map_option pair_of (els i) = Some (adds ! i)" using c(3) by (simp add: same_pairs_def pair_of_def)
    then show ?thesis by auto
  qed
  then have "symlens (Inf_LastValidSymbol + 1) els (headPtr list m) = Inr (by_length adds)"
    using symlens_lseg [OF c(2) [unfolded ch] fits] chain_pairs [of adds] by (simp cong: map_cong)
  with m(1) c(1) show ?thesis
    by (auto simp: Inf_SLList_GetSorted_def Let_def intro!: sl_rep_empty)
qed

end
