(* ===== verification/Inf_Huff_Build.thy ===== *)
theory Inf_Huff_Build
  imports Inf_Huff
begin

text \<open>
  The tables built by \<^verbatim>\<open>Inf_Huff_MakeDecoder\<close> decode the canonical code they are built for, for any
  code that is not oversubscribed, and building them never runs out of table entries.
\<close>

section \<open>Positions in the code\<close>

text \<open>
  The construction has reached the left-aligned codeword \<open>S\<close>; the pairs \<open>rest\<close> are still to come, the
  next codeword is \<open>h\<close> with length \<open>l\<close>. \<open>look\<close> is the code to be built.
\<close>

definition at_pos ::
  "(nat \<Rightarrow> (nat \<times> nat) option) \<Rightarrow> nat \<Rightarrow> nat \<Rightarrow> nat \<Rightarrow> (nat \<times> nat) list \<Rightarrow> bool" where
  "at_pos look S h l rest \<longleftrightarrow>
     (\<forall>x \<ge> S. look x = code_lookup S rest x) \<and> S + kraft rest \<le> 2 ^ 16 \<and> sorted (map snd rest) \<and>
     (\<forall>(s, l) \<in> set rest. 1 \<le> l \<and> l \<le> 15 \<and> s < 2 ^ 15) \<and>
     (rest \<noteq> [] \<longrightarrow> l = snd (hd rest) \<and> slot l dvd S \<and> h = S div slot l)"

lemma at_pos_head:
  assumes "at_pos look S h l ((s, l0) # rest)"
  shows "l0 = l" "1 \<le> l" "l \<le> 15" "s < 2 ^ 15" "S = h * slot l" "h < 2 ^ l"
    "\<And>x. S \<le> x \<Longrightarrow> x < S + slot l \<Longrightarrow> look x = Some (s, l)"
proof -
  show l: "l0 = l" "1 \<le> l" "l \<le> 15" "s < 2 ^ 15" and S: "S = h * slot l"
    using assms by (auto simp: at_pos_def)
  have "S + slot l \<le> 2 ^ l * slot l" using assms l slot_mult [of l] by (simp add: at_pos_def)
  then have "h * slot l < 2 ^ l * slot l" unfolding S using slot_pos [of l] by linarith
  then show "h < 2 ^ l" by simp
  show "\<And>x. S \<le> x \<Longrightarrow> x < S + slot l \<Longrightarrow> look x = Some (s, l)"
    using assms l(1) by (auto simp: at_pos_def)
qed

lemma huff_next_ok:
  assumes "at_pos look S h l ((s, l0) # rest)"
  shows "\<exists>h' l'. huff_next h l rest = Inr (h', l') \<and> at_pos look (S + slot l) h' l' rest \<and> l \<le> l' \<and>
     (rest = [] \<longrightarrow> l' = l)"
proof (cases rest)
  case Nil
  with assms show ?thesis by (auto simp: huff_next_def at_pos_def)
next
  case (Cons x xs)
  obtain s' l' where x: "x = (s', l')" by fastforce
  note hd = at_pos_head [OF assms]
  have l': "l \<le> l'" "l' \<le> 15" using assms Cons x hd(1) by (auto simp: at_pos_def)
  have sl: "slot l = 2 ^ (l' - l) * slot l'" using l' by (simp add: slot_def flip: power_add)
  have n: "(S + slot l) div slot l' = 2 ^ (l' - l) * (h + 1)" "slot l' dvd S + slot l"
    unfolding hd(5) sl by (simp_all add: algebra_simps less_imp_neq [OF slot_pos, symmetric] flip: distrib_right)
  have "at_pos look (S + slot l) (2 ^ (l' - l) * (h + 1)) l' rest"
    using assms hd(1) n Cons x by (auto simp: at_pos_def)
  moreover have "huff_next h l rest = Inr (2 ^ (l' - l) * (h + 1), l')"
    using Cons x l' by (simp add: huff_next_def push_bit_eq_mult mult.commute)
  ultimately show ?thesis using l' Cons by blast
qed

lemma position_prefix:
  assumes "8 \<le> l" and "l \<le> 16"
  shows "S div slot l div 2 ^ (l - 8) = S div 256"
proof -
  have "slot l * 2 ^ (l - 8) = 2 ^ 8" using assms by (simp add: slot_def flip: power_add)
  then show ?thesis by (simp flip: div_mult2_eq)
qed

section \<open>What a table decodes\<close>

text \<open>
  All codewords below \<open>B\<close> are decoded: the main entry is the symbol, or it refers to a subtable below
  \<open>idx\<close> whose entry is the symbol.
\<close>

definition decodes :: "huff_table \<Rightarrow> (nat \<Rightarrow> (nat \<times> nat) option) \<Rightarrow> nat \<Rightarrow> nat \<Rightarrow> bool" where
  "decodes t look idx B \<longleftrightarrow> (\<forall>w. revn 16 w < B \<longrightarrow> (\<exists>s l. look (revn 16 w) = Some (s, l) \<and>
     (t (w mod 256) = Some (Inf_Huff_SetValue l s) \<or>
      (\<exists>b k. t (w mod 256) = Some (Inf_Huff_SetTableRef b (2 ^ k - 1)) \<and> 256 \<le> b \<and> b + 2 ^ k \<le> idx \<and> k \<le> 7 \<and>
         t (b + w div 256 mod 2 ^ k) = Some (Inf_Huff_SetValue l s)))))"

lemma decodes_short:
  assumes "decodes t look 256 S" and pos: "at_pos look S h l ((s, l0) # rest)" and "l \<le> 8"
  shows "\<exists>t'. Inf_Huff_FillTable t 0 256 h l s 0 = Inr t' \<and> decodes t' look 256 (S + slot l)"
proof -
  note hd = at_pos_head [OF pos]
  let ?t = "\<lambda>i. if fill_cell 0 (2 ^ 8) (l - 0) (revn l h div 2 ^ 0) 0 i then Some (Inf_Huff_SetValue l s) else t i"
  have eq: "Inf_Huff_FillTable t 0 (2 ^ 8) h l s 0 = Inr ?t"
    by (rule FillTable_ok) (use hd assms(3) in \<open>auto simp: Inf_HuffTableSize_def\<close>)
  have "decodes ?t look 256 (S + slot l)"
    unfolding decodes_def
  proof (intro allI impI)
    fix w assume w: "revn 16 w < S + slot l"
    have "fill_cell 0 (2 ^ 8) (l - 0) (revn l h div 2 ^ 0) 0 (w mod 256) \<longleftrightarrow> w mod 256 mod 2 ^ l = revn l h"
      by (simp add: fill_cell_def)
    also have "w mod 256 mod 2 ^ l = w mod 2 ^ l"
      using assms(3) le_imp_power_dvd [of l 8 "2 :: nat"] by (simp add: mod_mod_cancel)
    also have "w mod 2 ^ l = revn l h \<longleftrightarrow> revn l w = h"
      using revn_eq_iff [of l w "revn l h"] revn_revn [OF hd(6)] revn_less [of l h] by simp
    also have "\<dots> \<longleftrightarrow> S \<le> revn 16 w"
      using in_interval_iff [of l S w] w hd(3,5) by simp
    finally have cell: "fill_cell 0 (2 ^ 8) (l - 0) (revn l h div 2 ^ 0) 0 (w mod 256) \<longleftrightarrow> S \<le> revn 16 w" .
    show "\<exists>s l. look (revn 16 w) = Some (s, l) \<and> (?t (w mod 256) = Some (Inf_Huff_SetValue l s) \<or>
      (\<exists>b k. ?t (w mod 256) = Some (Inf_Huff_SetTableRef b (2 ^ k - 1)) \<and> 256 \<le> b \<and> b + 2 ^ k \<le> 256 \<and> k \<le> 7 \<and>
         ?t (b + w div 256 mod 2 ^ k) = Some (Inf_Huff_SetValue l s)))"
    proof (cases "S \<le> revn 16 w")
      case True
      with hd(7) w cell show ?thesis by simp
    next
      case False
      have none: "\<not> (256 \<le> b \<and> b + 2 ^ k \<le> (256 :: nat))" for b k
        using zero_less_power [of "2 :: nat" k] by linarith
      from False obtain s1 l1 where "look (revn 16 w) = Some (s1, l1)" "t (w mod 256) = Some (Inf_Huff_SetValue l1 s1)"
        using assms(1) none unfolding decodes_def by (meson not_le)
      with False cell show ?thesis by simp
    qed
  qed
  with eq show ?thesis by auto
qed

lemma huff_short_ok:
  assumes "decodes t look 256 S" and "at_pos look S h l xs" and "\<forall>(s, l) \<in> set ps. l \<le> 8" and "S = kraft ps"
  shows "\<exists>t' h' l' ys zs. huff_short t h l xs = Inr (t', h', l', ys) \<and> xs = zs @ ys \<and>
     decodes t' look 256 (S + kraft zs) \<and> at_pos look (S + kraft zs) h' l' ys \<and>
     (ys \<noteq> [] \<longrightarrow> 9 \<le> l' \<and> 256 dvd S + kraft zs)"
  using assms
proof (induction xs arbitrary: t S h l ps)
  case (Cons x xs)
  obtain s l0 where x: "x = (s, l0)" by fastforce
  note pos = Cons.prems(2) [unfolded x] and hd = at_pos_head [OF Cons.prems(2) [unfolded x]]
  show ?case
  proof (cases "l \<le> 8")
    case True
    obtain t1 where t1: "Inf_Huff_FillTable t 0 256 h l s 0 = Inr t1" "decodes t1 look 256 (S + slot l)"
      using decodes_short [OF Cons.prems(1) pos True] by blast
    obtain h1 l1 where n: "huff_next h l xs = Inr (h1, l1)" "at_pos look (S + slot l) h1 l1 xs"
      using huff_next_ok [OF pos] by blast
    have "\<forall>(s, l) \<in> set (ps @ [x]). l \<le> 8" "S + slot l = kraft (ps @ [x])"
      using Cons.prems(3,4) True x hd(1) by auto
    from Cons.IH [OF t1(2) n(2) this] obtain t' h' l' ys zs where
      IH: "huff_short t1 h1 l1 xs = Inr (t', h', l', ys)" "xs = zs @ ys" "decodes t' look 256 (S + slot l + kraft zs)"
        "at_pos look (S + slot l + kraft zs) h' l' ys" "ys \<noteq> [] \<longrightarrow> 9 \<le> l' \<and> 256 dvd S + slot l + kraft zs" by blast
    show ?thesis
      using True t1(1) n(1) IH x hd(1)
      by (intro exI [of _ t'] exI [of _ h'] exI [of _ l'] exI [of _ ys] exI [of _ "x # zs"]) (simp add: add.assoc)
  next
    case False
    moreover have "256 dvd S" using kraft_dvd [OF Cons.prems(3)] Cons.prems(4) by (simp add: slot_def)
    ultimately show ?thesis
      using Cons.prems(1,2)
      by (intro exI [of _ t] exI [of _ h] exI [of _ l] exI [of _ "x # xs"] exI [of _ "[]"]) simp
  qed
qed (auto intro!: exI [of _ "[]"])

text \<open>The codes of one group stay within the eight-bit prefix \<open>ix\<close>.\<close>

lemma slot_in_prefix:
  assumes "8 \<le> l" "l \<le> 16" and "slot l dvd S"
  shows "S + slot l \<le> (S div 256 + 1) * 256"
proof -
  have 256: "(256 :: nat) = 2 ^ (l - 8) * slot l" using assms by (simp add: slot_def flip: power_add)
  obtain q where q: "S = q * slot l" using assms(3) by (metis dvd_div_mult_self)
  have "S div 256 = q div 2 ^ (l - 8)"
    unfolding 256 q using slot_pos [of l] by (simp add: mult.commute [of _ "slot l"] del: slot_pos)
  moreover have "q + 1 \<le> (q div 2 ^ (l - 8) + 1) * 2 ^ (l - 8)"
    using dividend_less_div_times [of "2 ^ (l - 8)" q] by simp
  ultimately have "(q + 1) * slot l \<le> (S div 256 + 1) * 2 ^ (l - 8) * slot l" by (metis mult_le_mono1)
  then show ?thesis unfolding mult.assoc 256 [symmetric] by (simp add: q)
qed

lemma huff_group_ok:
  assumes "at_pos look S h l xs" and "xs \<noteq> []" and "9 \<le> l" and "S div 256 = ix"
  shows "\<exists>g ys. huff_group ix h l xs = Inr (snd (last g), ys) \<and> xs = g @ ys \<and> g \<noteq> [] \<and>
     S + kraft g \<le> (ix + 1) * 256 \<and> (ys \<noteq> [] \<longrightarrow> S + kraft g = (ix + 1) * 256)"
  using assms
proof (induction xs arbitrary: S h l)
  case (Cons x xs)
  obtain s l0 where x: "x = (s, l0)" by fastforce
  note hd = at_pos_head [OF Cons.prems(1) [unfolded x]]
  obtain h1 l1 where n: "huff_next h l xs = Inr (h1, l1)" "at_pos look (S + slot l) h1 l1 xs" "l \<le> l1" "xs = [] \<longrightarrow> l1 = l"
    using huff_next_ok [OF Cons.prems(1) [unfolded x]] by blast
  have le: "S + slot l \<le> (ix + 1) * 256"
    using slot_in_prefix [of l S] Cons.prems(3,4) hd(3,5) by simp
  have pre: "drop_bit (l1 - 8) h1 = (S + slot l) div 256" if ne: "xs \<noteq> []"
  proof -
    obtain s1 l2 xs' where xs: "xs = (s1, l2) # xs'" using ne by (cases xs) auto
    note hd1 = at_pos_head [OF n(2) [unfolded xs]]
    have "h1 = (S + slot l) div slot l1" using n(2) ne by (simp add: at_pos_def)
    then show ?thesis
      using position_prefix [of l1 "S + slot l"] hd1(3) n(3) Cons.prems(3) by (simp add: drop_bit_eq_div)
  qed
  show ?case
  proof (cases "xs \<noteq> [] \<and> (S + slot l) div 256 = ix")
    case True
    from Cons.IH [OF n(2)] True n(3) Cons.prems(3) obtain g ys where
      IH: "huff_group ix h1 l1 xs = Inr (snd (last g), ys)" "xs = g @ ys" "g \<noteq> []"
        "S + slot l + kraft g \<le> (ix + 1) * 256" "ys \<noteq> [] \<longrightarrow> S + slot l + kraft g = (ix + 1) * 256" by auto
    show ?thesis
      using True n(1) IH x hd(1) pre by (intro exI [of _ "x # g"] exI [of _ ys]) (simp add: add.assoc)
  next
    case False
    have "S + slot l = (ix + 1) * 256" if "xs \<noteq> []"
    proof -
      have "(S + slot l) div 256 \<noteq> ix" "ix \<le> (S + slot l) div 256"
        using False that Cons.prems(4) by (auto intro: div_le_mono)
      then have "(ix + 1) * 256 \<le> S + slot l" by (simp add: Suc_le_eq [symmetric] less_eq_div_iff_mult_less_eq)
      with le show ?thesis by simp
    qed
    with False n(1) x hd(1) le pre show ?thesis
      by (intro exI [of _ "[x]"] exI [of _ xs]) auto
  qed
qed simp

text \<open>The subtable at \<open>idx\<close>, of \<open>2 ^ m\<close> entries, decodes the codewords from \<open>A\<close> up to \<open>B\<close>.\<close>

definition filled :: "huff_table \<Rightarrow> (nat \<Rightarrow> (nat \<times> nat) option) \<Rightarrow> nat \<Rightarrow> nat \<Rightarrow> nat \<Rightarrow> nat \<Rightarrow> bool" where
  "filled t look idx m A B \<longleftrightarrow> (\<forall>w. A \<le> revn 16 w \<and> revn 16 w < B \<longrightarrow>
     (\<exists>s l. look (revn 16 w) = Some (s, l) \<and> t (idx + w div 256 mod 2 ^ m) = Some (Inf_Huff_SetValue l s)))"

lemma sub_index_iff:
  assumes "8 \<le> l" "l \<le> 16" and "h < 2 ^ l" and "revn 8 w = h div 2 ^ (l - 8)"
  shows "w div 256 mod 2 ^ (l - 8) = revn l h div 256 \<longleftrightarrow> revn l w = h"
proof -
  define r where "r = revn l h"
  have r: "r < 2 ^ l" "revn l r = h" using revn_less revn_revn [OF assms(3)] by (simp_all add: r_def)
  have "revn 8 w = revn 8 r"
    using assms(4) r(2) revn_div [of 8 "l - 8" r] assms(1) by simp
  then have lo: "w mod 256 = r mod 256" using revn_eq_iff [of 8 w r] by simp
  have l: "(2 :: nat) ^ l = 256 * 2 ^ (l - 8)" using assms(1) power_add [of "2 :: nat" 8 "l - 8"] by simp
  have "revn l w = h \<longleftrightarrow> w mod 2 ^ l = r" using revn_eq_iff [of l w r] r by simp
  also have "\<dots> \<longleftrightarrow> 256 * (w div 256 mod 2 ^ (l - 8)) + w mod 256 = 256 * (r div 256) + r mod 256"
    unfolding l mod_mult2_eq by simp
  also have "\<dots> \<longleftrightarrow> w div 256 mod 2 ^ (l - 8) = r div 256"
    unfolding lo add_right_cancel mult_cancel1 by simp
  finally show ?thesis by (simp add: r_def)
qed

lemma filled_step:
  assumes "filled t look idx m A S" and pos: "at_pos look S h l ((s, l0) # rest)"
    and "9 \<le> l" and "l - 8 \<le> m" and "idx + 2 ^ m \<le> Inf_HuffTableSize" and "A div 256 = S div 256"
  shows "\<exists>t'. Inf_Huff_FillTable t idx (2 ^ m) h l s 8 = Inr t' \<and> filled t' look idx m A (S + slot l) \<and>
     (\<forall>i. i < idx \<or> idx + 2 ^ m \<le> i \<longrightarrow> t' i = t i)"
proof -
  note hd = at_pos_head [OF pos]
  let ?c = "fill_cell idx (2 ^ m) (l - 8) (revn l h div 2 ^ 8) 0"
  let ?t = "\<lambda>i. if ?c i then Some (Inf_Huff_SetValue l s) else t i"
  have eq: "Inf_Huff_FillTable t idx (2 ^ m) h l s 8 = Inr ?t"
    by (rule FillTable_ok) (use hd assms in auto)
  have ix: "S div 256 = h div 2 ^ (l - 8)"
    using position_prefix [of l S] hd(3,5) assms(3) by simp
  have "filled ?t look idx m A (S + slot l)"
    unfolding filled_def
  proof (intro allI impI)
    fix w assume w: "A \<le> revn 16 w \<and> revn 16 w < S + slot l"
    have up: "S + slot l \<le> (S div 256 + 1) * 256" using slot_in_prefix [of l S] hd(3,5) assms(3) by simp
    have "A div 256 \<le> revn 16 w div 256" using w by (simp add: div_le_mono)
    moreover have "revn 16 w div 256 < S div 256 + 1" using w up by (simp add: div_less_iff_less_mult)
    ultimately have "revn 8 w = h div 2 ^ (l - 8)"
      using leading_digits [of 8 w] ix assms(6) by (simp add: slot_def)
    note sub = sub_index_iff [OF _ _ hd(6) this]
    have "?c (idx + w div 256 mod 2 ^ m) \<longleftrightarrow> w div 256 mod 2 ^ m mod 2 ^ (l - 8) = revn l h div 256"
      by (simp add: fill_cell_def)
    also have "w div 256 mod 2 ^ m mod 2 ^ (l - 8) = w div 256 mod 2 ^ (l - 8)"
      using assms(4) le_imp_power_dvd [of "l - 8" m "2 :: nat"] by (simp add: mod_mod_cancel)
    also have "\<dots> = revn l h div 256 \<longleftrightarrow> revn l w = h" using sub assms(3) hd(3) by simp
    also have "\<dots> \<longleftrightarrow> S \<le> revn 16 w" using in_interval_iff [of l S w] w hd(3,5) by simp
    finally have cell: "?c (idx + w div 256 mod 2 ^ m) \<longleftrightarrow> S \<le> revn 16 w" .
    show "\<exists>s l. look (revn 16 w) = Some (s, l) \<and> ?t (idx + w div 256 mod 2 ^ m) = Some (Inf_Huff_SetValue l s)"
    proof (cases "S \<le> revn 16 w")
      case True
      with hd(7) w cell show ?thesis by simp
    next
      case False
      with assms(1) w cell show ?thesis by (simp add: filled_def)
    qed
  qed
  with eq show ?thesis by (auto simp: fill_cell_def)
qed

lemma huff_sub_ok:
  assumes "filled t look idx m A S" and "at_pos look S h l (g @ ys)" and "9 \<le> l"
    and "\<forall>(s, l) \<in> set g. l - 8 \<le> m" and "idx + 2 ^ m \<le> Inf_HuffTableSize"
    and "A \<le> S" and "S + kraft g \<le> (A div 256 + 1) * 256"
  shows "\<exists>t' h' l'. huff_sub t idx (2 ^ m) h l (g @ ys) (length ys) = Inr (t', h', l') \<and>
     filled t' look idx m A (S + kraft g) \<and> at_pos look (S + kraft g) h' l' ys \<and> l \<le> l' \<and>
     (\<forall>i. i < idx \<or> idx + 2 ^ m \<le> i \<longrightarrow> t' i = t i)"
  using assms
proof (induction g arbitrary: t S h l)
  case Nil
  then show ?case by (cases ys) auto
next
  case (Cons x g)
  obtain s l0 where x: "x = (s, l0)" by fastforce
  have pos: "at_pos look S h l ((s, l0) # (g @ ys))" using Cons.prems(2) x by simp
  note hd = at_pos_head [OF pos]
  have "S < (A div 256 + 1) * 256" using Cons.prems(7) x slot_pos [of l0] by (simp del: slot_pos)
  then have same: "A div 256 = S div 256"
    using Cons.prems(6) by (intro antisym) (simp_all add: div_le_mono div_less_iff_less_mult flip: less_Suc_eq_le)
  obtain t1 where t1: "Inf_Huff_FillTable t idx (2 ^ m) h l s 8 = Inr t1" "filled t1 look idx m A (S + slot l)"
      "\<forall>i. i < idx \<or> idx + 2 ^ m \<le> i \<longrightarrow> t1 i = t i"
    using filled_step [OF Cons.prems(1) pos Cons.prems(3) _ Cons.prems(5) same] Cons.prems(4) x hd(1) by auto
  obtain h1 l1 where n: "huff_next h l (g @ ys) = Inr (h1, l1)" "at_pos look (S + slot l) h1 l1 (g @ ys)" "l \<le> l1"
    using huff_next_ok [OF pos] by blast
  have IH: "\<exists>t' h' l'. huff_sub t1 idx (2 ^ m) h1 l1 (g @ ys) (length ys) = Inr (t', h', l') \<and>
     filled t' look idx m A (S + slot l + kraft g) \<and> at_pos look (S + slot l + kraft g) h' l' ys \<and> l1 \<le> l' \<and>
     (\<forall>i. i < idx \<or> idx + 2 ^ m \<le> i \<longrightarrow> t' i = t1 i)"
    by (rule Cons.IH [OF t1(2) n(2)]) (use n(3) Cons.prems x hd(1) in auto)
  then show ?case using t1 n x hd(1) by (fastforce simp: add.assoc)
qed

lemma prefix_cell: "ix < 256 \<Longrightarrow> w mod 256 = revn 8 ix \<longleftrightarrow> revn 16 w div 256 = ix"
  using revn_eq_iff [of 8 w "revn 8 ix"] revn_revn [of ix 8] revn_less [of 8 ix] leading_digits [of 8 w]
  by (simp add: slot_def)

lemma decodes_group:
  assumes "decodes t look idx S" and "S = ix * 256" and "ix < 256" and "256 \<le> idx" and "m \<le> 7"
    and "filled t2 look idx m S B" and "B \<le> (ix + 1) * 256"
    and "\<forall>i. i < idx \<or> idx + 2 ^ m \<le> i \<longrightarrow> t2 i = (t(revn 8 ix := Some (Inf_Huff_SetTableRef idx (2 ^ m - 1)))) i"
  shows "decodes t2 look (idx + 2 ^ m) B"
  unfolding decodes_def
proof (intro allI impI)
  fix w assume w: "revn 16 w < B"
  have main: "t2 (w mod 256) = (if revn 16 w div 256 = ix then Some (Inf_Huff_SetTableRef idx (2 ^ m - 1)) else t (w mod 256))"
    using assms(4,8) mod_less_divisor [of 256 w] prefix_cell [OF assms(3), of w] by (simp add: order_less_le_trans)
  have sub: "t2 (b + j) = t (b + j)" if "256 \<le> b" "b + 2 ^ k \<le> idx" "j < 2 ^ k" for b j k :: nat
    using assms(8) that revn_less [of 8 ix] by simp
  show "\<exists>s l. look (revn 16 w) = Some (s, l) \<and> (t2 (w mod 256) = Some (Inf_Huff_SetValue l s) \<or>
      (\<exists>b k. t2 (w mod 256) = Some (Inf_Huff_SetTableRef b (2 ^ k - 1)) \<and> 256 \<le> b \<and> b + 2 ^ k \<le> idx + 2 ^ m \<and> k \<le> 7 \<and>
         t2 (b + w div 256 mod 2 ^ k) = Some (Inf_Huff_SetValue l s)))"
  proof (cases "revn 16 w < S")
    case True
    then have "revn 16 w div 256 \<noteq> ix" using assms(2) by (metis div_less_iff_less_mult less_irrefl zero_less_numeral)
    then have t2: "t2 (w mod 256) = t (w mod 256)" using main by simp
    from assms(1) True obtain s l where look: "look (revn 16 w) = Some (s, l)" and
      "t (w mod 256) = Some (Inf_Huff_SetValue l s) \<or>
        (\<exists>b k. t (w mod 256) = Some (Inf_Huff_SetTableRef b (2 ^ k - 1)) \<and> 256 \<le> b \<and> b + 2 ^ k \<le> idx \<and> k \<le> 7 \<and>
         t (b + w div 256 mod 2 ^ k) = Some (Inf_Huff_SetValue l s))"
      unfolding decodes_def by blast
    then show ?thesis
    proof (elim disjE exE conjE)
      fix b k
      assume "t (w mod 256) = Some (Inf_Huff_SetTableRef b (2 ^ k - 1))" "256 \<le> b" "b + 2 ^ k \<le> idx" "k \<le> 7"
        "t (b + w div 256 mod 2 ^ k) = Some (Inf_Huff_SetValue l s)"
      then have "\<exists>b k. t2 (w mod 256) = Some (Inf_Huff_SetTableRef b (2 ^ k - 1)) \<and> 256 \<le> b \<and> b + 2 ^ k \<le> idx + 2 ^ m \<and> k \<le> 7 \<and>
         t2 (b + w div 256 mod 2 ^ k) = Some (Inf_Huff_SetValue l s)"
        using t2 sub [of b k "w div 256 mod 2 ^ k"] by - (rule exI [of _ b], rule exI [of _ k], simp)
      with look show ?thesis by blast
    qed (use look t2 in simp)
  next
    case False
    then obtain s l where s: "look (revn 16 w) = Some (s, l)"
        "t2 (idx + w div 256 mod 2 ^ m) = Some (Inf_Huff_SetValue l s)"
      using assms(6) w unfolding filled_def by force
    have "revn 16 w div 256 = ix"
      using False w assms(2,7) by (intro div_nat_eqI) auto
    with main s(2) assms(4,5) have "\<exists>b k. t2 (w mod 256) = Some (Inf_Huff_SetTableRef b (2 ^ k - 1)) \<and> 256 \<le> b \<and>
        b + 2 ^ k \<le> idx + 2 ^ m \<and> k \<le> 7 \<and> t2 (b + w div 256 mod 2 ^ k) = Some (Inf_Huff_SetValue l s)"
      by - (rule exI [of _ idx], rule exI [of _ m], simp)
    with s(1) show ?thesis by blast
  qed
qed

lemma sorted_last: "sorted (map snd g) \<Longrightarrow> p \<in> set g \<Longrightarrow> snd p \<le> snd (last g)"
  by (induction g rule: rev_induct) (auto simp: sorted_append)

lemma uniform_group:
  assumes "\<forall>(s, l') \<in> set g. l' = l" shows "kraft g = length g * slot l"
  using assms by (induction g) auto

text \<open>
  Room for the subtables: a group of equal lengths takes as many entries as it has codewords, a group
  of mixed lengths at most 128, and the lengths only grow.
\<close>

lemma group_room:
  assumes "sorted (map snd (g @ ys))" and "g \<noteq> []" and "snd (hd g) = l" and "9 \<le> l" and "ys \<noteq> []"
    and "l' = snd (hd ys)" and "l' \<le> 15" and "kraft g = 256"
  shows "2 ^ (snd (last g) - 8) + 128 * (l - 9) \<le> length g + 128 * (l' - 9)" and "l \<le> l'"
proof -
  have ord: "l \<le> snd (last g)" "snd (last g) \<le> l'"
    using assms(1-3,5,6) by (cases g; cases ys; auto simp: sorted_append)+
  show "l \<le> l'" using ord by simp
  show "2 ^ (snd (last g) - 8) + 128 * (l - 9) \<le> length g + 128 * (l' - 9)"
  proof (cases "snd (last g) = l")
    case True
    have "\<forall>(s, k) \<in> set g. k = l"
    proof
      fix p assume p: "p \<in> set g"
      have "snd p \<le> snd (last g)" using sorted_last [OF _ p] assms(1) by (simp add: sorted_append)
      moreover have "l \<le> snd p"
        using assms(1,3) p by (cases g) auto
      ultimately show "case p of (s, k) \<Rightarrow> k = l" using True by (cases p) auto
    qed
    then have "length g * slot l = 256" using uniform_group assms(8) by simp
    moreover have "2 ^ (l - 8) * slot l = 256" using assms(4,7) ord by (simp add: slot_def flip: power_add)
    ultimately have "length g = 2 ^ (l - 8)" by (metis mult_right_cancel slot_pos less_irrefl)
    with True ord show ?thesis by simp
  next
    case False
    with ord have "l + 1 \<le> l'" by simp
    moreover have "(2 :: nat) ^ (snd (last g) - 8) \<le> 2 ^ 7" using ord assms(7) by (intro power_increasing) auto
    ultimately show ?thesis using assms(4) by simp
  qed
qed

lemma huff_long_ok:
  assumes "decodes t look idx S" and "at_pos look S h l xs" and "256 \<le> idx"
    and "xs \<noteq> [] \<longrightarrow> 9 \<le> l \<and> 256 dvd S \<and> idx \<le> 256 + n + 128 * (l - 9)" and "n + length xs \<le> 291"
    and "idx \<le> Inf_HuffTableSize"
  shows "\<exists>t' idx'. huff_long t idx h l xs = Inr t' \<and> decodes t' look idx' (S + kraft xs) \<and> idx' \<le> Inf_HuffTableSize"
  using assms
proof (induction "length xs" arbitrary: t idx S h l n xs rule: less_induct)
  case less
  show ?case
  proof (cases "xs = []")
    case True
    then show ?thesis using less.prems(1,6) by (subst huff_long.simps) auto
  next
    case False
    obtain s l0 xs' where xs: "xs = (s, l0) # xs'" using False by (cases xs) auto
    note hd = at_pos_head [OF less.prems(2) [unfolded xs]]
    define ix where "ix = S div 256"
    have l9: "9 \<le> l" and S: "S = ix * 256" and room: "idx \<le> 256 + n + 128 * (l - 9)"
      using less.prems(4) False by (auto simp: ix_def)
    have index: "drop_bit (l - 8) h = ix"
      using position_prefix [of l S] l9 hd(3,5) by (simp add: drop_bit_eq_div ix_def)
    obtain g ys where g: "huff_group ix h l xs = Inr (snd (last g), ys)" "xs = g @ ys" "g \<noteq> []"
        "S + kraft g \<le> (ix + 1) * 256" "ys \<noteq> [] \<longrightarrow> S + kraft g = (ix + 1) * 256"
      using huff_group_ok [OF less.prems(2) False l9] ix_def by auto
    define m where "m = snd (last g) - 8"
    have srt: "sorted (map snd (g @ ys))" using less.prems(2) g(2) by (simp add: at_pos_def)
    have "last g \<in> set xs" using g(2) last_in_set [OF g(3)] by simp
    then have last: "snd (last g) \<le> 15" using less.prems(2) unfolding at_pos_def by (metis (no_types, lifting) case_prodD prod.collapse)
    from srt last have m: "m \<le> 7" "\<forall>(s, k) \<in> set g. k - 8 \<le> m"
      using sorted_last [of g] by (auto simp: m_def sorted_append intro: diff_le_mono)
    have "(2 :: nat) ^ m \<le> 2 ^ 7" using m(1) by (intro power_increasing) auto
    then have fit: "idx + 2 ^ m \<le> Inf_HuffTableSize"
      using room less.prems(5) hd(3) by (simp add: Inf_HuffTableSize_def)
    have "S < 2 ^ 16" using hd(3,5,6) slot_mult [of l] mult_strict_right_mono [OF hd(6) slot_pos [of l]] by simp
    then have ix: "ix < 256" by (simp add: ix_def div_less_iff_less_mult)
    let ?t1 = "t(revn 8 ix := Some (Inf_Huff_SetTableRef idx (2 ^ m - 1)))"
    have set: "table_set t (unat (Inf_Reverse ! ix)) (Inf_Huff_SetTableRef idx (2 ^ m - 1)) = Inr ?t1"
      using Inf_Reverse_nth [OF ix] revn_less [of 8 ix] by (simp add: table_set_def Inf_HuffTableSize_def)
    have "filled ?t1 look idx m S S" unfolding filled_def by (meson not_le)
    from huff_sub_ok [OF this less.prems(2) [unfolded g(2)] l9 m(2) fit order_refl] g(4) ix_def
    obtain t2 h2 l2 where sub: "huff_sub ?t1 idx (2 ^ m) h l (g @ ys) (length ys) = Inr (t2, h2, l2)"
        "filled t2 look idx m S (S + kraft g)" "at_pos look (S + kraft g) h2 l2 ys"
        "\<forall>i. i < idx \<or> idx + 2 ^ m \<le> i \<longrightarrow> t2 i = ?t1 i" by auto
    have dec: "decodes t2 look (idx + 2 ^ m) (S + kraft g)"
      by (rule decodes_group [OF less.prems(1) S ix less.prems(3) m(1) sub(2) g(4) sub(4)])
    have next_room: "ys \<noteq> [] \<longrightarrow> 9 \<le> l2 \<and> 256 dvd S + kraft g \<and> idx + 2 ^ m \<le> 256 + (n + length g) + 128 * (l2 - 9)"
    proof
      assume ys: "ys \<noteq> []"
      have l2: "l2 = snd (hd ys)" "l2 \<le> 15" using sub(3) ys by (cases ys; auto simp: at_pos_def)+
      have "snd (hd g) = l" using g(2,3) xs hd(1) by (cases g) auto
      moreover have "kraft g = 256" using g(5) ys S by simp
      ultimately show "9 \<le> l2 \<and> 256 dvd S + kraft g \<and> idx + 2 ^ m \<le> 256 + (n + length g) + 128 * (l2 - 9)"
        using group_room [OF srt g(3) _ l9 ys l2(1,2)] l9 room g(5) ys by (auto simp: m_def)
    qed
    have "length ys < length xs" using g(2,3) by simp
    from less.hyps [OF this dec sub(3) _ next_room _ fit] less.prems(3,5) g(2)
    obtain t' idx' where "huff_long t2 (idx + 2 ^ m) h2 l2 ys = Inr t'" "idx' \<le> Inf_HuffTableSize"
        "decodes t' look idx' (S + kraft g + kraft ys)" by auto
    with False index g(1) fit ix set sub(1) g(2) show ?thesis
      by (subst huff_long.simps) (auto simp: Let_def m_def add.assoc)
  qed
qed

text \<open>A table that decodes a code: the entry found for any bit buffer that starts with a codeword.\<close>

definition table_for :: "huff_table \<Rightarrow> (nat \<times> nat) list \<Rightarrow> bool" where
  "table_for t xs \<longleftrightarrow> (\<forall>w s l. code_lookup 0 xs (revn 16 (unat w)) = Some (s, l) \<longrightarrow>
     Inf_Huff_Decode t w = Inr (Inf_Huff_SetValue l s))"

lemma unat_and_mask: "unat (w AND (of_nat (2 ^ k - 1) :: u32)) = unat w mod 2 ^ k" if "k \<le> 31" for w :: u32
proof -
  have "(of_nat (2 ^ k - 1) :: u32) = push_bit k 1 - 1" by (simp add: push_bit_eq_mult of_nat_diff)
  then have "w AND of_nat (2 ^ k - 1) = take_bit k w" by (simp only: mask_and_eq)
  then have "unat (w AND of_nat (2 ^ k - 1)) = take_bit k (unat w)" by (simp only: unsigned_take_bit_eq)
  then show ?thesis by (simp only: take_bit_eq_mod)
qed

lemma decodes_table:
  assumes "decodes t (code_lookup 0 xs) idx (kraft xs)" and "idx \<le> Inf_HuffTableSize"
  shows "table_for t xs"
  unfolding table_for_def
proof (intro allI impI)
  fix w :: u32 and s l
  assume look: "code_lookup 0 xs (revn 16 (unat w)) = Some (s, l)"
  then have "revn 16 (unat w) < kraft xs" using code_lookup_less by fastforce
  with assms(1) look consider
    "t (unat w mod 256) = Some (Inf_Huff_SetValue l s)" |
    b k where "t (unat w mod 256) = Some (Inf_Huff_SetTableRef b (2 ^ k - 1))" "256 \<le> b" "b + 2 ^ k \<le> idx" "k \<le> 7"
      "t (b + unat w div 256 mod 2 ^ k) = Some (Inf_Huff_SetValue l s)"
    unfolding decodes_def by fastforce
  then show "Inf_Huff_Decode t w = Inr (Inf_Huff_SetValue l s)"
  proof cases
    case 1
    moreover have "unat (w AND 0xFF) = unat w mod 256" using unat_and_mask [of 8 w] by simp
    ultimately show ?thesis
      by (simp add: Inf_Huff_Decode_def table_get_def Inf_HuffTableSize_def Inf_Huff_SetValue_def)
  next
    case 2
    have m: "unat (w AND 0xFF) = unat w mod 256" using unat_and_mask [of 8 w] by simp
    have "(2 :: nat) ^ k \<le> 2 ^ 7" using 2(4) by (intro power_increasing) auto
    then have k: "(2 ^ k - 1) mod 2 ^ 15 = (2 ^ k - 1 :: nat)" "b mod 2 ^ 15 = b"
      using 2(3) assms(2) by (auto simp: Inf_HuffTableSize_def)
    have "unat (drop_bit 8 w AND of_nat (2 ^ k - 1)) = unat w div 256 mod 2 ^ k"
      using unat_and_mask [of k "drop_bit 8 w"] 2(4) by (simp add: drop_bit_eq_div unat_div)
    moreover have "b + unat w div 256 mod 2 ^ k < Inf_HuffTableSize"
      using 2(3) assms(2) mod_less_divisor [of "2 ^ k" "unat w div 256"] by (simp del: mod_less_divisor)
    ultimately show ?thesis
      using 2(1,5) m k by (simp add: Inf_Huff_Decode_def table_get_def Inf_Huff_SetTableRef_def Inf_HuffTableSize_def)
  qed
qed

lemma MakeDecoder_ok:
  assumes "code_ok xs"
  shows "\<exists>t'. Inf_Huff_MakeDecoder t xs = Inr t' \<and> table_for t' xs"
proof -
  let ?t = "\<lambda>i. if i < Inf_MainTableSize then Some (Inf_HuffConst 0 Inf_InvalidLength) else t i"
  have pos: "at_pos (code_lookup 0 xs) 0 0 (snd (hd xs)) xs" and dec: "decodes ?t (code_lookup 0 xs) 256 0"
    using assms by (simp_all add: code_ok_def at_pos_def decodes_def)
  obtain t1 h l ys zs where s: "huff_short ?t 0 (snd (hd xs)) xs = Inr (t1, h, l, ys)" "xs = zs @ ys"
      "decodes t1 (code_lookup 0 xs) 256 (kraft zs)" "at_pos (code_lookup 0 xs) (kraft zs) h l ys"
      "ys \<noteq> [] \<longrightarrow> 9 \<le> l \<and> 256 dvd kraft zs"
    using huff_short_ok [OF dec pos, of "[]"] unfolding add_0 by fastforce
  have "\<exists>t' idx'. huff_long t1 256 h l ys = Inr t' \<and> decodes t' (code_lookup 0 xs) idx' (kraft zs + kraft ys) \<and>
      idx' \<le> Inf_HuffTableSize"
    by (rule huff_long_ok [OF s(3,4), of "length zs"]) (use s(2,5) assms in \<open>auto simp: Inf_HuffTableSize_def code_ok_def\<close>)
  then obtain t' idx' where l: "huff_long t1 256 h l ys = Inr t'" "idx' \<le> Inf_HuffTableSize"
      "decodes t' (code_lookup 0 xs) idx' (kraft xs)" unfolding s(2) by auto
  have "Inf_Huff_MakeDecoder t xs = Inr t'"
    using s(1) l(1) assms by (simp add: Inf_Huff_MakeDecoder_def code_ok_def Inf_MainTableSize_def)
  with decodes_table [OF l(3,2)] show ?thesis by blast
qed

end
