(* ===== verification/Inf_Huff_Read.thy ===== *)
theory Inf_Huff_Read
  imports Inf_Huff_Build
begin

text \<open>
  \<^verbatim>\<open>Inf_BS_ReadEncodedBits\<close> with a table for a canonical code: it returns the symbol whose codeword comes
  next and consumes exactly that codeword, although it looks the table up before all bits of the
  codeword have been loaded; with a codeword cut off by the end of the input it asks for more and
  loses nothing.
\<close>

section \<open>Reading a codeword\<close>

text \<open>
  The entry found when only the first \<open>b\<close> bits of a codeword have been loaded, the rest of the bit
  buffer being zero: the symbol itself if all bits are there, otherwise an entry with a length greater
  than \<open>b\<close>, so that the reader will load more.
\<close>

lemma partial_lookup:
  assumes ok: "code_ok xs" "i < length xs" "xs ! i = (s, l)" and tab: "table_for t xs"
    and w: "unat w < 2 ^ b" and "b < l" and pre: "bits_of b w = take b (codeword xs i)"
  shows "\<exists>s2 l2. Inf_Huff_Decode t w = Inr (Inf_Huff_SetValue l2 s2) \<and> b < l2 \<and> l2 \<le> 15"
proof -
  define S where "S = kraft (take i xs)"
  define h where "h = S div slot l"
  note int = code_interval [OF ok S_def]
  have S: "S = h * slot l" using int(4) by (simp add: h_def)
  have slots: "slot b = 2 ^ (l - b) * slot l" using \<open>b < l\<close> int(2) by (simp add: slot_def flip: power_add)
  have h: "h < 2 ^ l" using int(6) by (simp add: h_def)
  then have "h div 2 ^ (l - b) < 2 ^ b" using \<open>b < l\<close> by (simp add: div_less_iff_less_mult flip: power_add)
  moreover have "bits_of b w = msb_bits b (of_nat (h div 2 ^ (l - b)))"
  proof -
    have "(of_nat (h div 2 ^ (l - b)) :: u32) = drop_bit (l - b) (of_nat h)"
      using h int(2) power_increasing [of l 32 "2 :: nat"]
      by (intro bit_word_eqI) (auto simp: bit_simps bit_of_nat_iff drop_bit_eq_div [symmetric] add.commute dest: bit_less_exp [OF h])
    then show ?thesis using pre ok(3) \<open>b < l\<close> take_msb_bits [of b l "of_nat h"] by (simp add: codeword_def S_def [symmetric] h_def)
  qed
  ultimately have rb: "revn b (unat w) = h div 2 ^ (l - b)"
    using revn_eq_msb [of _ b w] \<open>b < l\<close> int(2) by simp
  define x where "x = revn 16 (unat w)"
  have x: "x = h div 2 ^ (l - b) * slot b" using revn_small [OF w] rb \<open>b < l\<close> int(2) by (simp add: x_def)
  also have "\<dots> \<le> S" unfolding S slots using div_times_less_eq_dividend [of h "2 ^ (l - b)"] by (simp flip: mult.assoc)
  finally have "x < kraft xs" using int(5) slot_pos [of l] by linarith
  then obtain r where "code_lookup 0 xs x = Some r" "r \<in> set xs" using code_lookup_total [of 0 x xs] by auto
  moreover obtain s2 l2 where r: "r = (s2, l2)" by fastforce
  ultimately have look: "code_lookup 0 xs x = Some (s2, l2)" "l2 \<le> 15" using ok(1) by (auto simp: code_ok_def)
  have "b < l2"
  proof (rule ccontr)
    assume n: "\<not> b < l2"
    obtain j where j: "j < length xs" "xs ! j = (s2, l2)" "kraft (take j xs) \<le> x" "x < kraft (take j xs) + slot l2"
      using code_lookup_index [OF look(1)] by auto
    note jnt = code_interval [OF ok(1) j(1,2) refl]
    have "slot l2 = slot b * 2 ^ (b - l2)" using n \<open>b < l\<close> int(2) by (simp add: slot_def flip: power_add)
    moreover have "S div slot b = x div slot b" unfolding x S slots using slot_pos [of l] by (simp add: div_mult2_eq [symmetric] del: slot_pos)
    ultimately have "S div slot l2 = x div slot l2" by (simp add: div_mult2_eq)
    then have "kraft (take j xs) \<le> S" "S < kraft (take j xs) + slot l2"
      using interval_iff [OF jnt(4)] j(3,4) by metis+
    then have "code_lookup 0 xs S = Some (s2, l2)" by (rule jnt(7))
    moreover have "code_lookup 0 xs S = Some (s, l)" using int(7) by simp
    ultimately show False using n \<open>b < l\<close> by simp
  qed
  with look tab show ?thesis unfolding table_for_def x_def by blast
qed

lemma full_lookup:
  assumes ok: "code_ok xs" "i < length xs" "xs ! i = (s, l)" and tab: "table_for t xs"
    and pre: "bits_of l w = codeword xs i"
  shows "Inf_Huff_Decode t w = Inr (Inf_Huff_SetValue l s)"
proof -
  note int = code_interval [OF ok refl]
  have "revn l (unat w) = kraft (take i xs) div slot l"
    using revn_eq_msb [OF int(6)] int(2) pre ok(3) by (simp add: codeword_def)
  then have "code_lookup 0 xs (revn 16 (unat w)) = Some (s, l)"
    using in_interval_iff [OF int(4), of "unat w"] int(2,7) by simp
  with tab show ?thesis by (simp add: table_for_def)
qed

text \<open>A view that starts with a codeword, or is cut off in the middle of it.\<close>

definition facing :: "bool list \<Rightarrow> bool list \<Rightarrow> bool" where
  "facing cw view \<longleftrightarrow> prefix cw view \<or> strict_prefix view cw"

lemma entry_found:
  assumes ok: "code_ok xs" "i < length xs" "xs ! i = (s, l)" and tab: "table_for t xs"
    and bs: "bs_inv mem bs" and face: "facing (codeword xs i) (bs_bits mem bs)"
  obtains s2 l2 where "Inf_Huff_Decode t (bits bs) = Inr (Inf_Huff_SetValue l2 s2)" "l2 \<le> 15"
    "l \<le> bsize bs \<Longrightarrow> s2 = s \<and> l2 = l" "bsize bs < l \<Longrightarrow> bsize bs < l2"
proof -
  note int = code_interval [OF ok refl] and len = length_bs_bits [OF bs]
  have cw: "length (codeword xs i) = l" using ok(3) by (simp add: codeword_def)
  have loaded: "bits_of k (bits bs) = take k (bs_bits mem bs)" if "k \<le> bsize bs" for k
    using that take_bits_of [OF that, of "bits bs"] by (simp add: bs_bits_def)
  show thesis
  proof (cases "l \<le> bsize bs")
    case True
    then have "prefix (codeword xs i) (bs_bits mem bs)"
      using face len cw prefix_length_less [of "bs_bits mem bs" "codeword xs i"] by (auto simp: facing_def)
    then have "bits_of l (bits bs) = codeword xs i" using loaded [OF True] cw by (auto simp: prefix_def)
    from that [OF full_lookup [OF ok tab this]] True int(2) show ?thesis by simp
  next
    case False
    have w: "unat (bits bs) < 2 ^ bsize bs"
      using bs take_bit_eq_self_iff_unat by (auto simp: bs_inv_def)
    have "bits_of (bsize bs) (bits bs) = take (bsize bs) (codeword xs i)"
      unfolding loaded [OF order_refl] using face False len cw
      by (auto simp: facing_def prefix_def strict_prefix_def)
    from partial_lookup [OF ok tab w _ this] False that show ?thesis by fastforce
  qed
qed

definition symbol_read :: "u8 list \<Rightarrow> Inf_BS \<Rightarrow> bool list \<Rightarrow> nat \<Rightarrow> (nat option \<times> Inf_BS) res \<Rightarrow> bool" where
  "symbol_read mem bs cw s res \<longleftrightarrow> (\<exists>r bs'. res = Inr (r, bs') \<and> bs_inv mem bs' \<and> inputEnd bs' = inputEnd bs \<and>
     (if prefix cw (bs_bits mem bs)
      then r = Some s \<and> bs_bits mem bs' = drop (length cw) (bs_bits mem bs) \<and>
           (if length cw \<le> bsize bs then bsize bs' = bsize bs - length cw else bsize bs' < 8)
      else r = None \<and> bs_bits mem bs' = bs_bits mem bs \<and> inputPtr bs' = inputEnd bs'))"

lemma EncodedLoop_ok:
  assumes ok: "code_ok xs" "i < length xs" "xs ! i = (s, l)" and tab: "table_for t xs"
    and bs: "bs_inv mem bs" "facing (codeword xs i) (bs_bits mem bs)"
    and "Inf_Huff_Decode t (bits bs) = Inr d"
  shows "symbol_read mem bs (codeword xs i) s (Inf_BS_EncodedLoop mem t bs d)"
  using bs assms(7)
proof (induction "l - bsize bs" arbitrary: bs d rule: less_induct)
  case less
  note int = code_interval [OF ok refl] and len = length_bs_bits [OF less.prems(1)]
  have cw: "length (codeword xs i) = l" using ok(3) by (simp add: codeword_def)
  obtain s2 l2 where d: "d = Inf_Huff_SetValue l2 s2" "l2 \<le> 15" "l \<le> bsize bs \<Longrightarrow> s2 = s \<and> l2 = l"
      "bsize bs < l \<Longrightarrow> bsize bs < l2"
    using entry_found [OF ok tab less.prems(1,2)] less.prems(3) by (metis sum.inject(2))
  show ?case
  proof (cases "l \<le> bsize bs")
    case True
    let ?b = "bs\<lparr>bits := drop_bit l (bits bs), bsize := bsize bs - l\<rparr>"
    have "Inf_BS_EncodedLoop mem t bs d = Inr (Some s, ?b)"
      using True int(2,3) d(1,3) by (subst Inf_BS_EncodedLoop.simps) (simp add: Inf_Huff_SetValue_def)
    moreover have "bs_inv mem ?b"
      using less.prems(1) take_bit_drop_bit_self [of "bsize bs" "bits bs" l] by (auto simp: bs_inv_def)
    moreover have "bs_bits mem ?b = drop l (bs_bits mem bs)" using True by (simp add: bs_bits_def drop_bits_of)
    moreover have "prefix (codeword xs i) (bs_bits mem bs)"
      using True less.prems(2) len cw prefix_length_less [of "bs_bits mem bs" "codeword xs i"] by (auto simp: facing_def)
    ultimately show ?thesis using True cw by (simp add: symbol_read_def)
  next
    case False
    then have more: "bsize bs < h_length d" using d by (simp add: Inf_Huff_SetValue_def)
    show ?thesis
    proof (cases "inputPtr bs = inputEnd bs")
      case True
      then have "\<not> prefix (codeword xs i) (bs_bits mem bs)" using False len cw by (auto dest: prefix_length_le)
      with True more less.prems show ?thesis
        by (subst Inf_BS_EncodedLoop.simps) (simp add: load_end symbol_read_def)
    next
      case False
      then have "inputPtr bs < inputEnd bs" "bsize bs < 24"
        using less.prems(1) d(2,4) \<open>\<not> l \<le> bsize bs\<close> by (auto simp: bs_inv_def)
      from load_next [OF less.prems(1) this] obtain b1 where
        b1: "Inf_BS_LoadNextByte mem bs = Inr (True, b1)" "bs_inv mem b1" "bs_bits mem b1 = bs_bits mem bs"
          "bsize b1 = bsize bs + 8" "inputEnd b1 = inputEnd bs" by blast
      have face: "facing (codeword xs i) (bs_bits mem b1)" using less.prems(2) b1(3) by simp
      obtain d1 where d1: "Inf_Huff_Decode t (bits b1) = Inr d1"
        using entry_found [OF ok tab b1(2) face] by metis
      have "l - bsize b1 < l - bsize bs" using b1(4) \<open>\<not> l \<le> bsize bs\<close> by simp
      from less.hyps [OF this b1(2) face d1] b1 more d1 \<open>\<not> l \<le> bsize bs\<close> cw show ?thesis
        by (subst Inf_BS_EncodedLoop.simps) (auto simp: symbol_read_def split: if_splits)
    qed
  qed
qed

lemma ReadEncodedBits_ok:
  assumes ok: "code_ok xs" "i < length xs" "xs ! i = (s, l)" and tab: "table_for t xs"
    and bs: "bs_inv mem bs" "facing (codeword xs i) (bs_bits mem bs)"
  shows "symbol_read mem bs (codeword xs i) s (Inf_BS_ReadEncodedBits mem bs t)"
proof -
  have cw: "length (codeword xs i) = l" "1 \<le> l"
    using ok(3) code_interval(1) [OF ok refl] by (simp_all add: codeword_def)
  have loop: "symbol_read mem b (codeword xs i) s
      (bindR (Inf_Huff_Decode t (bits b)) (\<lambda>d. Inf_BS_EncodedLoop mem t b d))"
    if "bs_inv mem b" "facing (codeword xs i) (bs_bits mem b)" for b
    using entry_found [OF ok tab that] EncodedLoop_ok [OF ok tab that] by (metis bindR_simps(2))
  consider "bsize bs \<noteq> 0" | "bsize bs = 0" "inputPtr bs = inputEnd bs" | "bsize bs = 0" "inputPtr bs < inputEnd bs"
    using bs(1) by (fastforce simp: bs_inv_def)
  then show ?thesis
  proof cases
    case 1
    with loop [OF bs] show ?thesis by (simp add: Inf_BS_ReadEncodedBits_def)
  next
    case 2
    then have "\<not> prefix (codeword xs i) (bs_bits mem bs)"
      using length_bs_bits [OF bs(1)] cw by (auto dest: prefix_length_le)
    with 2 bs(1) show ?thesis by (simp add: Inf_BS_ReadEncodedBits_def load_end symbol_read_def)
  next
    case 3
    with load_next [OF bs(1)] obtain b1 where
      b1: "Inf_BS_LoadNextByte mem bs = Inr (True, b1)" "bs_inv mem b1" "bs_bits mem b1 = bs_bits mem bs"
        "bsize b1 = bsize bs + 8" "inputEnd b1 = inputEnd bs" by auto
    have "facing (codeword xs i) (bs_bits mem b1)" using bs(2) b1(3) by simp
    from loop [OF b1(2) this] b1 3 cw show ?thesis
      by (auto simp: Inf_BS_ReadEncodedBits_def symbol_read_def split: if_splits)
  qed
qed

end
