(* ===== verification/Inf_Fixed.thy ===== *)
theory Inf_Fixed
  imports Inf_SLList_Sort Inf_Huff_Read Deflate_Format
begin

text \<open>
  \<^verbatim>\<open>inflater.c\<close>, lines 529-552: the decoders for the fixed Huffman codes, built once and cached in static
  variables. They decode exactly the fixed codes of the format specification.
\<close>

record inf_statics =
  cachedLiteral :: "huff_table option"
  cachedDistance :: "huff_table option"

text \<open>Static storage starts out as zeros.\<close>

definition zero_table :: huff_table where
  "zero_table = (\<lambda>_. Some \<lparr>h_length = 0, h_isvalid = False, h_code = 0\<rparr>)"

definition Inf_Huff_MakeFixedLiteralDecoder :: "inf_statics \<Rightarrow> Inf_SLList \<Rightarrow> (inf_statics \<times> Inf_SLList) res" where
  "Inf_Huff_MakeFixedLiteralDecoder statics tmplist =
     (if cachedLiteral statics \<noteq> None then Inr (statics, tmplist)
      else
        bindR (Inf_SLList_AddRange tmplist 0 144 8) (\<lambda>tmplist.
        bindR (Inf_SLList_AddRange tmplist 144 256 9) (\<lambda>tmplist.
        bindR (Inf_SLList_AddRange tmplist 256 280 7) (\<lambda>tmplist.
        bindR (Inf_SLList_AddRange tmplist 280 288 8) (\<lambda>tmplist.
        bindR (make_sorted_decoder zero_table tmplist True) (\<lambda>(table, tmplist).
          Inr (statics\<lparr>cachedLiteral := Some table\<rparr>, tmplist)))))))"

definition Inf_Huff_MakeFixedDistanceDecoder :: "inf_statics \<Rightarrow> Inf_SLList \<Rightarrow> (inf_statics \<times> Inf_SLList) res" where
  "Inf_Huff_MakeFixedDistanceDecoder statics tmplist =
     (if cachedDistance statics \<noteq> None then Inr (statics, tmplist)
      else
        bindR (Inf_SLList_AddRange tmplist 0 32 5) (\<lambda>tmplist.
        bindR (make_sorted_decoder zero_table tmplist True) (\<lambda>(table, tmplist).
          Inr (statics\<lparr>cachedDistance := Some table\<rparr>, tmplist))))"

section \<open>The fixed codes as canonical codes\<close>

definition run :: "nat \<Rightarrow> nat \<Rightarrow> nat \<Rightarrow> (nat \<times> nat) list" where
  "run a b l = map (\<lambda>s. (s, l)) [a..<b]"

definition fixed_lit_pairs :: "(nat \<times> nat) list" where
  "fixed_lit_pairs = run 256 280 7 @ run 0 144 8 @ run 280 288 8 @ run 144 256 9"

definition fixed_dist_pairs :: "(nat \<times> nat) list" where
  "fixed_dist_pairs = run 0 32 5"

lemma length_run [simp]: "length (run a b l) = b - a"
  by (simp add: run_def)

lemma set_run: "set (run a b l) = {a..<b} \<times> {l}"
  by (auto simp: run_def)

lemma nth_run: "i < b - a \<Longrightarrow> run a b l ! i = (a + i, l)"
  by (simp add: run_def)

lemma take_run: "i \<le> b - a \<Longrightarrow> take i (run a b l) = run a (a + i) l"
  by (cases "a + i \<le> b") (auto simp: run_def take_map)

lemma kraft_run [simp]: "kraft (run a b l) = (b - a) * slot l"
proof -
  have "\<forall>(s, l') \<in> set (run a b l). l' = l" by (auto simp: run_def)
  from uniform_group [OF this] show ?thesis by simp
qed

lemma filter_run: "filter (\<lambda>p. snd p = k) (run a b l) = (if k = l then run a b l else [])"
  by (auto simp: run_def filter_empty_conv filter_id_conv)

lemma map_snd_run: "map snd (run a b l) = replicate (b - a) l"
  by (simp add: run_def comp_def map_replicate_const)

lemma slots: "slot 5 = 2048" "slot 7 = 512" "slot 8 = 256" "slot 9 = 128"
  by (simp_all add: slot_def)

lemma fixed_pairs_ok: "code_ok fixed_lit_pairs" "code_ok fixed_dist_pairs"
proof -
  show "code_ok fixed_lit_pairs"
    unfolding code_ok_def fixed_lit_pairs_def
    by (auto simp: map_snd_run sorted_append set_run slots sorted_replicate simp flip: length_0_conv)
  show "code_ok fixed_dist_pairs"
    unfolding code_ok_def fixed_dist_pairs_def
    by (auto simp: map_snd_run set_run slots sorted_replicate simp flip: length_0_conv)
qed

definition fixed_lit_pos :: "nat \<Rightarrow> nat" where
  "fixed_lit_pos s = (if s < 144 then 24 + s else if s < 256 then 176 + (s - 144)
     else if s < 280 then s - 256 else 168 + (s - 280))"

lemma fixed_lit_codeword:
  assumes "s < 288"
  shows "fixed_lit_pos s < length fixed_lit_pairs" and "fst (fixed_lit_pairs ! fixed_lit_pos s) = s"
    and "codeword fixed_lit_pairs (fixed_lit_pos s) = fixed_lit_code s"
proof -
  consider "s < 144" | "144 \<le> s" "s < 256" | "256 \<le> s" "s < 280"
    | "280 \<le> s" "s - 280 < 8" "\<not> s - 136 < 144" "\<not> s - 112 < 24" "s - 112 < 288" using assms by linarith
  then have "fixed_lit_pos s < length fixed_lit_pairs \<and> fst (fixed_lit_pairs ! fixed_lit_pos s) = s \<and>
      codeword fixed_lit_pairs (fixed_lit_pos s) = fixed_lit_code s"
    using assms
    by cases (simp_all add: fixed_lit_pos_def fixed_lit_pairs_def nth_append nth_run take_run codeword_def slots fixed_lit_code_def)
  then show "fixed_lit_pos s < length fixed_lit_pairs" "fst (fixed_lit_pairs ! fixed_lit_pos s) = s"
    "codeword fixed_lit_pairs (fixed_lit_pos s) = fixed_lit_code s" by auto
qed

lemma fixed_dist_codeword:
  assumes "s < 32"
  shows "s < length fixed_dist_pairs" and "fst (fixed_dist_pairs ! s) = s"
    and "codeword fixed_dist_pairs s = fixed_dist_code s"
  using assms by (simp_all add: fixed_dist_pairs_def nth_run take_run codeword_def slots fixed_dist_code_def)

section \<open>The decoders that are built\<close>

definition fixed_lit_table :: huff_table where
  "fixed_lit_table = projr (Inf_Huff_MakeDecoder zero_table fixed_lit_pairs)"

definition fixed_dist_table :: huff_table where
  "fixed_dist_table = projr (Inf_Huff_MakeDecoder zero_table fixed_dist_pairs)"

lemma fixed_tables:
  "Inf_Huff_MakeDecoder zero_table fixed_lit_pairs = Inr fixed_lit_table" "table_for fixed_lit_table fixed_lit_pairs"
  "Inf_Huff_MakeDecoder zero_table fixed_dist_pairs = Inr fixed_dist_table" "table_for fixed_dist_table fixed_dist_pairs"
  using MakeDecoder_ok [OF fixed_pairs_ok(1), of zero_table] MakeDecoder_ok [OF fixed_pairs_ok(2), of zero_table]
  by (auto simp: fixed_lit_table_def fixed_dist_table_def)

definition statics_ok :: "inf_statics \<Rightarrow> bool" where
  "statics_ok st \<longleftrightarrow> cachedLiteral st \<in> {None, Some fixed_lit_table} \<and> cachedDistance st \<in> {None, Some fixed_dist_table}"

text \<open>The list between two uses: empty, with nothing pending.\<close>

definition sl_idle :: "Inf_SLList \<Rightarrow> bool" where
  "sl_idle list \<longleftrightarrow> sl_rep list [] \<and> symbol list = 0 \<and> command list = 0 \<and> huffmanLength list = 0 \<and> repetitions list = 0"

lemma make_sorted_ok:
  assumes "sl_rep list adds" and "adds \<noteq> []" and "\<forall>(s, l) \<in> set adds. l < Inf_LastValidLength"
    and "Inf_Huff_MakeDecoder t (by_length adds) = Inr t'"
  shows "\<exists>list'. make_sorted_decoder t list True = Inr (t', list') \<and> sl_idle list'"
  using GetSorted_ok [OF assms(1-3), of True] assms(4) by (auto simp: make_sorted_decoder_def sl_idle_def)

lemma upt19: "[0..<Inf_LastValidLength + 1] = [0, 1, 2, 3, 4, 5, 6, 7, 8, 9, 10, 11, 12, 13, 14, 15, 16, 17, 18]"
  by (simp add: sl_consts upt_rec)

lemma fixed_by_length:
  "by_length (run 0 144 8 @ run 144 256 9 @ run 256 280 7 @ run 280 288 8) = fixed_lit_pairs"
  "by_length (run 0 32 5) = fixed_dist_pairs"
  unfolding by_length_def upt19 by (simp_all add: filter_run fixed_lit_pairs_def fixed_dist_pairs_def)

lemma MakeFixedLiteralDecoder_ok:
  assumes "statics_ok st" and "sl_idle list"
  shows "\<exists>st' list'. Inf_Huff_MakeFixedLiteralDecoder st list = Inr (st', list') \<and>
     cachedLiteral st' = Some fixed_lit_table \<and> cachedDistance st' = cachedDistance st \<and> sl_idle list'"
proof (cases "cachedLiteral st")
  case None
  note add = AddRange_ok [folded run_def]
  obtain l1 where l1: "Inf_SLList_AddRange list 0 144 8 = Inr l1" "sl_rep l1 (run 0 144 8)"
    using add [of list "[]" 144 8 0] assms(2) by (auto simp: sl_consts sl_idle_def)
  obtain l2 where l2: "Inf_SLList_AddRange l1 144 256 9 = Inr l2" "sl_rep l2 (run 0 144 8 @ run 144 256 9)"
    using add [OF l1(2), of 256 9 144] by (auto simp: sl_consts)
  obtain l3 where l3: "Inf_SLList_AddRange l2 256 280 7 = Inr l3" "sl_rep l3 (run 0 144 8 @ run 144 256 9 @ run 256 280 7)"
    using add [OF l2(2), of 280 7 256] by (auto simp: sl_consts)
  obtain l4 where l4: "Inf_SLList_AddRange l3 280 288 8 = Inr l4"
      "sl_rep l4 (run 0 144 8 @ run 144 256 9 @ run 256 280 7 @ run 280 288 8)"
    using add [OF l3(2), of 288 8 280] by (auto simp: sl_consts)
  have "\<exists>list'. make_sorted_decoder zero_table l4 True = Inr (fixed_lit_table, list') \<and> sl_idle list'"
    by (rule make_sorted_ok [OF l4(2)])
      (auto simp: set_run sl_consts fixed_by_length fixed_tables simp flip: length_0_conv)
  with None l1 l2 l3 l4 show ?thesis by (auto simp: Inf_Huff_MakeFixedLiteralDecoder_def)
qed (use assms in \<open>auto simp: Inf_Huff_MakeFixedLiteralDecoder_def statics_ok_def\<close>)

lemma MakeFixedDistanceDecoder_ok:
  assumes "statics_ok st" and "sl_idle list"
  shows "\<exists>st' list'. Inf_Huff_MakeFixedDistanceDecoder st list = Inr (st', list') \<and>
     cachedDistance st' = Some fixed_dist_table \<and> cachedLiteral st' = cachedLiteral st \<and> sl_idle list'"
proof (cases "cachedDistance st")
  case None
  obtain l1 where l1: "Inf_SLList_AddRange list 0 32 5 = Inr l1" "sl_rep l1 (run 0 32 5)"
    using AddRange_ok [folded run_def, of list "[]" 32 5 0] assms(2) by (auto simp: sl_consts sl_idle_def)
  have "\<exists>list'. make_sorted_decoder zero_table l1 True = Inr (fixed_dist_table, list') \<and> sl_idle list'"
    by (rule make_sorted_ok [OF l1(2)])
      (auto simp: set_run sl_consts fixed_by_length fixed_tables simp flip: length_0_conv)
  with None l1 show ?thesis by (auto simp: Inf_Huff_MakeFixedDistanceDecoder_def)
qed (use assms in \<open>auto simp: Inf_Huff_MakeFixedDistanceDecoder_def statics_ok_def\<close>)

section \<open>The fixed decoders as symbol and token sources\<close>

lemma table_symbol_enough:
  assumes "code_ok xs" "i < length xs" "fst (xs ! i) = s" "table_for t xs" "bs_ok mem e bs"
    and "bs_bits mem bs = codeword xs i @ rest"
  shows "\<exists>bs'. Inf_BS_ReadEncodedBits mem bs t = Inr (Some s, bs') \<and> bs_ok mem e bs' \<and>
     (bs_tight bs \<longrightarrow> bs_tight bs') \<and> bs_bits mem bs' = rest"
proof -
  obtain l where l: "xs ! i = (s, l)" using assms(3) by (metis prod.collapse)
  have "symbol_read mem bs (codeword xs i) s (Inf_BS_ReadEncodedBits mem bs t)"
    by (rule ReadEncodedBits_ok [OF assms(1,2) l assms(4)]) (use assms in \<open>auto simp: bs_ok_def facing_def\<close>)
  with assms(5,6) show ?thesis by (auto simp: symbol_read_def bs_ok_def bs_tight_def split: if_splits)
qed

lemma table_symbol_short:
  assumes "code_ok xs" "i < length xs" "table_for t xs" "bs_ok mem e bs"
    and "strict_prefix (bs_bits mem bs) (codeword xs i)"
  shows "\<exists>bs'. Inf_BS_ReadEncodedBits mem bs t = Inr (None, bs') \<and> bs_ok mem e bs' \<and> bs_bits mem bs' = bs_bits mem bs"
proof -
  obtain s l where l: "xs ! i = (s, l)" by fastforce
  have "symbol_read mem bs (codeword xs i) s (Inf_BS_ReadEncodedBits mem bs t)"
    by (rule ReadEncodedBits_ok [OF assms(1,2) l assms(3)]) (use assms in \<open>auto simp: bs_ok_def facing_def\<close>)
  moreover have "\<not> prefix (codeword xs i) (bs_bits mem bs)" using assms(5) by (auto simp: strict_prefix_def dest: prefix_order.antisym)
  ultimately show ?thesis using assms(4) by (auto simp: symbol_read_def bs_ok_def)
qed

interpretation fixed_lit: symbol_source "bs_ok mem e" "bs_bits mem" bs_tight
  "\<lambda>bs. Inf_BS_ReadEncodedBits mem bs fixed_lit_table" fixed_lit_code "{..<288}" for mem e
  using table_symbol_enough [OF fixed_pairs_ok(1) fixed_lit_codeword(1,2) fixed_tables(2)]
    table_symbol_short [OF fixed_pairs_ok(1) fixed_lit_codeword(1) fixed_tables(2)]
  by unfold_locales (simp_all add: fixed_lit_codeword(3))

interpretation fixed_dist: symbol_source "bs_ok mem e" "bs_bits mem" bs_tight
  "\<lambda>bs. Inf_BS_ReadEncodedBits mem bs fixed_dist_table" fixed_dist_code "{..<32}" for mem e
  using table_symbol_enough [OF fixed_pairs_ok(2) fixed_dist_codeword(1,2) fixed_tables(4)]
    table_symbol_short [OF fixed_pairs_ok(2) fixed_dist_codeword(1) fixed_tables(4)]
  by unfold_locales (simp_all add: fixed_dist_codeword(3))

interpretation fixed: token_source "bs_ok mem e" "bs_bits mem" bs_tight "Inf_BS_ReadBits mem" 24
  "\<lambda>bs. Inf_BS_ReadEncodedBits mem bs fixed_lit_table" "\<lambda>bs. Inf_BS_ReadEncodedBits mem bs fixed_dist_table"
  fixed_lit_code fixed_dist_code "{..<288}" "{..<32}" for mem e
  by unfold_locales

end
