(* ===== verification/History_Window.thy ===== *)
theory History_Window
  imports Deflate_Format
begin

text \<open>
  The interface between the decoder and the history window: a window represents the bytes produced so
  far, single bytes and blocks are appended to it, and a back reference is copied into the output and
  appended at the same time. \<open>reach\<close> is the length of the history up to which copies are promised.
\<close>

locale history_window =
  fixes rep :: "'w \<Rightarrow> u8 list \<Rightarrow> bool"
    and put :: "'w \<Rightarrow> u8 \<Rightarrow> 'w res"
    and put_all :: "'w \<Rightarrow> u8 list \<Rightarrow> 'w res"
    and copy :: "'w \<Rightarrow> u8 list \<Rightarrow> nat \<Rightarrow> nat \<Rightarrow> nat \<Rightarrow> (bool \<times> 'w \<times> u8 list) res"
    and reach :: nat
  assumes put_rep: "rep w h \<Longrightarrow> \<exists>w'. put w c = Inr w' \<and> rep w' (h @ [c])"
    and put_all_rep: "rep w h \<Longrightarrow> \<exists>w'. put_all w bs = Inr w' \<and> rep w' (h @ bs)"
    and copy_rep: "rep w h \<Longrightarrow> 1 \<le> d \<Longrightarrow> d \<le> length h \<Longrightarrow> length h + n \<le> reach \<Longrightarrow> dest + n \<le> length out \<Longrightarrow>
      \<exists>w' out'. copy w out dest d n = Inr (True, w', out') \<and> rep w' (lz_copy h d n) \<and>
        mem_write dest (drop (length h) (lz_copy h d n)) out = Inr out'"
begin

text \<open>
  A copy that is interrupted because the output is full and later continued gives the same bytes as
  one copy.
\<close>

lemma copy_in_two:
  assumes "rep w h" and "1 \<le> d" and "d \<le> length h" and "length h + (m + n) \<le> reach" and "dest + (m + n) \<le> length out"
  shows "\<exists>w1 out1 w2 out2. copy w out dest d m = Inr (True, w1, out1) \<and>
     copy w1 out1 (dest + m) d n = Inr (True, w2, out2) \<and> rep w2 (lz_copy h d (m + n)) \<and>
     mem_write dest (drop (length h) (lz_copy h d (m + n))) out = Inr out2"
proof -
  obtain w1 out1 where 1: "copy w out dest d m = Inr (True, w1, out1)" "rep w1 (lz_copy h d m)"
      "mem_write dest (drop (length h) (lz_copy h d m)) out = Inr out1"
    using copy_rep [OF assms(1-3), of m dest out] assms(4,5) by auto
  obtain w2 out2 where 2: "copy w1 out1 (dest + m) d n = Inr (True, w2, out2)" "rep w2 (lz_copy (lz_copy h d m) d n)"
      "mem_write (dest + m) (drop (length (lz_copy h d m)) (lz_copy (lz_copy h d m) d n)) out1 = Inr out2"
    using copy_rep [OF 1(2) assms(2), of n "dest + m" out1] assms(3-5) mem_write_length [OF 1(3)] by auto
  obtain ys zs where yz: "lz_copy h d m = h @ ys" "length ys = m" "lz_copy (h @ ys) d n = (h @ ys) @ zs"
    using lz_copy_prefix by metis
  have "mem_write dest (ys @ zs) out = Inr out2"
    using mem_write_append [OF 1(3), of zs] 2(3) yz by simp
  with 1 2 yz show ?thesis by (simp add: lz_copy_add)
qed

text \<open>Literals and matches alike append the text of the token.\<close>

lemma token_appended:
  assumes "rep w h" and "token_ok h t" and "length (expand1 h t) \<le> reach"
    and "dest + (length (expand1 h t) - length h) \<le> length out"
  shows "\<exists>w' out'. rep w' (expand1 h t) \<and> mem_write dest (drop (length h) (expand1 h t)) out = Inr out' \<and>
     (case t of Literal c \<Rightarrow> put w c = Inr w' | Match d n \<Rightarrow> copy w out dest d n = Inr (True, w', out'))"
proof (cases t)
  case (Literal c)
  obtain out' where "mem_write dest [c] out = Inr out'"
    using mem_write_ok [of dest "[c]" out] assms(4) Literal by auto
  with Literal put_rep [OF assms(1), of c] show ?thesis by auto
next
  case (Match d n)
  with copy_rep [OF assms(1), of d n dest out] assms(2-4) show ?thesis by auto
qed

end

end
