(* ===== verification/Inf_Outbuf.thy ===== *)
theory Inf_Outbuf
  imports History_Window
begin

text \<open>
  \<^verbatim>\<open>inflater.c\<close>, lines 554-629: the history window, a ring buffer of 32 KiB that every output byte is also
  written to and that back references are copied from. The window is a function on offsets; \<open>None\<close> is a
  byte that has never been written. Reading such a byte, a read beyond the end of the buffer and a
  \<^verbatim>\<open>memcpy\<close> between overlapping regions are faults.
\<close>

definition Inf_Outbuf_size :: nat where "Inf_Outbuf_size = 1024 * 32"

record Inf_Outbuf =
  seqence_buf :: "(nat \<Rightarrow> u8 option) option"
  seqence_ptr :: nat
  seqence_end :: nat

section \<open>Operations\<close>

text \<open>\<open>ok\<close>: whether the allocation succeeds.\<close>

definition Inf_Outbuf_init :: "bool \<Rightarrow> bool \<times> Inf_Outbuf" where
  "Inf_Outbuf_init ok =
     (ok, \<lparr>seqence_buf = (if ok then Some (\<lambda>_. None) else None), seqence_ptr = 0, seqence_end = Inf_Outbuf_size\<rparr>)"

definition win_load :: "Inf_Outbuf \<Rightarrow> nat \<Rightarrow> u8 res" where
  "win_load infbuf p =
     (case seqence_buf infbuf of
        None \<Rightarrow> Inl NullPointer
      | Some w \<Rightarrow> if p \<ge> Inf_Outbuf_size then Inl OutOfBounds
                  else case w p of None \<Rightarrow> Inl Uninitialised | Some c \<Rightarrow> Inr c)"

fun win_loads :: "Inf_Outbuf \<Rightarrow> nat \<Rightarrow> nat \<Rightarrow> u8 list res" where
  "win_loads infbuf p 0 = Inr []"
| "win_loads infbuf p (Suc n) =
     bindR (win_load infbuf p) (\<lambda>c. bindR (win_loads infbuf (p + 1) n) (\<lambda>cs. Inr (c # cs)))"

fun win_stores :: "Inf_Outbuf \<Rightarrow> nat \<Rightarrow> u8 list \<Rightarrow> Inf_Outbuf res" where
  "win_stores infbuf p [] = Inr infbuf"
| "win_stores infbuf p (c # cs) =
     (case seqence_buf infbuf of
        None \<Rightarrow> Inl NullPointer
      | Some w \<Rightarrow> if p \<ge> Inf_Outbuf_size then Inl OutOfBounds
                  else win_stores (infbuf\<lparr>seqence_buf := Some (w(p := Some c))\<rparr>) (p + 1) cs)"

definition Inf_Outbuf_putc :: "Inf_Outbuf \<Rightarrow> u8 \<Rightarrow> Inf_Outbuf res" where
  "Inf_Outbuf_putc infbuf c =
     assertR (seqence_ptr infbuf \<le> seqence_end infbuf)
       (let infbuf = (if seqence_ptr infbuf = seqence_end infbuf then infbuf\<lparr>seqence_ptr := 0\<rparr> else infbuf) in
        bindR (win_stores infbuf (seqence_ptr infbuf) [c]) (\<lambda>infbuf.
          Inr (infbuf\<lparr>seqence_ptr := seqence_ptr infbuf + 1\<rparr>)))"

text \<open>What \<^verbatim>\<open>Inf_Outbuf_write\<close> copies from: bytes outside the window, or the window itself.\<close>

datatype copy_src = Outside "u8 list" | Inside nat

fun src_advance :: "copy_src \<Rightarrow> nat \<Rightarrow> copy_src" where
  "src_advance (Outside bs) n = Outside (drop n bs)"
| "src_advance (Inside p) n = Inside (p + n)"

text \<open>\<^verbatim>\<open>memcpy(infbuf->seqence_ptr, buf, n)\<close>.\<close>

fun win_memcpy :: "Inf_Outbuf \<Rightarrow> copy_src \<Rightarrow> nat \<Rightarrow> Inf_Outbuf res" where
  "win_memcpy infbuf (Outside bs) n =
     (if n \<le> length bs then win_stores infbuf (seqence_ptr infbuf) (take n bs) else Inl OutOfBounds)"
| "win_memcpy infbuf (Inside p) n =
     (if n > 0 \<and> p < seqence_ptr infbuf + n \<and> seqence_ptr infbuf < p + n then Inl OverlappingCopy
      else bindR (win_loads infbuf p n) (\<lambda>bs. win_stores infbuf (seqence_ptr infbuf) bs))"

function outbuf_write_loop :: "Inf_Outbuf \<Rightarrow> copy_src \<Rightarrow> nat \<Rightarrow> nat \<Rightarrow> Inf_Outbuf res" where
  "outbuf_write_loop infbuf buf len restBytes =
     (if len > restBytes then
        bindR (win_memcpy infbuf buf restBytes) (\<lambda>infbuf.
          outbuf_write_loop (infbuf\<lparr>seqence_ptr := 0\<rparr>) (src_advance buf restBytes) (len - restBytes) Inf_Outbuf_size)
      else
        bindR (win_memcpy infbuf buf len) (\<lambda>infbuf.
          Inr (infbuf\<lparr>seqence_ptr := seqence_ptr infbuf + len\<rparr>)))"
  by pat_completeness auto
termination
  by (relation "measure (\<lambda>(_, _, len, rest). 2 * len + (if rest = 0 then 1 else 0))") (auto simp: Inf_Outbuf_size_def)

declare outbuf_write_loop.simps [simp del]

definition Inf_Outbuf_write :: "Inf_Outbuf \<Rightarrow> copy_src \<Rightarrow> nat \<Rightarrow> Inf_Outbuf res" where
  "Inf_Outbuf_write infbuf buf len =
     outbuf_write_loop infbuf buf len (seqence_end infbuf - seqence_ptr infbuf)"

text \<open>Lines 618-621. The byte is read again after \<^verbatim>\<open>putc\<close> has stored it.\<close>

fun outbuf_copy :: "Inf_Outbuf \<Rightarrow> u8 list \<Rightarrow> nat \<Rightarrow> nat \<Rightarrow> nat \<Rightarrow> (Inf_Outbuf \<times> u8 list) res" where
  "outbuf_copy infbuf out dest sequencePtr 0 = Inr (infbuf, out)"
| "outbuf_copy infbuf out dest sequencePtr (Suc len) =
     bindR (win_load infbuf sequencePtr) (\<lambda>c.
     bindR (Inf_Outbuf_putc infbuf c) (\<lambda>infbuf.
     bindR (win_load infbuf sequencePtr) (\<lambda>c.
     bindR (mem_write dest [c] out) (\<lambda>out.
       outbuf_copy infbuf out (dest + 1) (sequencePtr + 1) len))))"

definition Inf_Outbuf_read ::
  "Inf_Outbuf \<Rightarrow> u8 list \<Rightarrow> nat \<Rightarrow> nat \<Rightarrow> nat \<Rightarrow> (bool \<times> Inf_Outbuf \<times> u8 list) res" where
  "Inf_Outbuf_read infbuf out dest distance len =
     (if seqence_ptr infbuf < distance then
        if seqence_ptr infbuf + Inf_Outbuf_size < distance then Inl OutOfBounds
        else
          let sequencePtr = seqence_ptr infbuf + Inf_Outbuf_size - distance;
              restBytes = seqence_end infbuf - sequencePtr;
              n = (if restBytes \<ge> len then len else restBytes)
          in
          bindR (win_loads infbuf sequencePtr n) (\<lambda>bs.
          bindR (mem_write dest bs out) (\<lambda>out.
          bindR (Inf_Outbuf_write infbuf (Inside sequencePtr) n) (\<lambda>infbuf.
            if restBytes \<ge> len then Inr (True, infbuf, out)
            else if len - restBytes > seqence_ptr infbuf then Inr (False, infbuf, out)
            else bindR (outbuf_copy infbuf out (dest + restBytes) 0 (len - restBytes)) (\<lambda>(infbuf, out).
                   Inr (True, infbuf, out)))))
      else bindR (outbuf_copy infbuf out dest (seqence_ptr infbuf - distance) len) (\<lambda>(infbuf, out).
             Inr (True, infbuf, out)))"

definition Inf_Outbuf_Destroy :: "Inf_Outbuf \<Rightarrow> Inf_Outbuf" where
  "Inf_Outbuf_Destroy infbuf = infbuf\<lparr>seqence_buf := None\<rparr>"

section \<open>The window as the recent history\<close>

text \<open>The window holds the last 32768 bytes of the history \<open>h\<close>, each at its position modulo the size.\<close>

definition win_rep :: "Inf_Outbuf \<Rightarrow> u8 list \<Rightarrow> bool" where
  "win_rep infbuf h \<longleftrightarrow> seqence_end infbuf = Inf_Outbuf_size \<and> seqence_ptr infbuf \<le> Inf_Outbuf_size \<and>
     seqence_ptr infbuf mod Inf_Outbuf_size = length h mod Inf_Outbuf_size \<and>
     (\<exists>w. seqence_buf infbuf = Some w \<and>
        (\<forall>j < length h. length h \<le> j + Inf_Outbuf_size \<longrightarrow> w (j mod Inf_Outbuf_size) = Some (h ! j)))"

lemma win_size_pos [simp]: "0 < Inf_Outbuf_size"
  by (simp add: Inf_Outbuf_size_def)

lemma win_rep_init: "win_rep (snd (Inf_Outbuf_init True)) []"
  by (simp add: win_rep_def Inf_Outbuf_init_def)

lemma win_rep_load:
  assumes "win_rep ob h" and "1 \<le> d" and "d \<le> length h" and "d \<le> Inf_Outbuf_size"
  shows "win_load ob ((length h - d) mod Inf_Outbuf_size) = Inr (h ! (length h - d))"
  using assms by (auto simp: win_rep_def win_load_def not_le)

text \<open>Two positions less than the window size apart have different places in the window.\<close>

lemma place_differs:
  assumes "j < n" and "n \<le> j + k" and "k \<le> Inf_Outbuf_size" and "n \<noteq> j + Inf_Outbuf_size"
  shows "j mod Inf_Outbuf_size \<noteq> n mod Inf_Outbuf_size"
proof
  assume "j mod Inf_Outbuf_size = n mod Inf_Outbuf_size"
  then have "Inf_Outbuf_size dvd n - j" using assms(1) by (metis less_imp_le mod_eq_dvd_iff_nat)
  moreover have "0 < n - j" "n - j < Inf_Outbuf_size" using assms by auto
  ultimately show False by (meson nat_dvd_not_less)
qed

text \<open>Storing one byte at the position of the pointer.\<close>

lemma win_rep_store:
  assumes "win_rep ob h" and "seqence_ptr ob < Inf_Outbuf_size"
  shows "\<exists>ob'. win_stores ob (seqence_ptr ob) [c] = Inr ob' \<and> seqence_ptr ob' = seqence_ptr ob \<and>
     win_rep (ob'\<lparr>seqence_ptr := seqence_ptr ob + 1\<rparr>) (h @ [c])"
proof -
  obtain w where w: "seqence_buf ob = Some w"
      "\<And>j. j < length h \<Longrightarrow> length h \<le> j + Inf_Outbuf_size \<Longrightarrow> w (j mod Inf_Outbuf_size) = Some (h ! j)"
    and p: "seqence_end ob = Inf_Outbuf_size" "seqence_ptr ob mod Inf_Outbuf_size = length h mod Inf_Outbuf_size"
    using assms(1) by (auto simp: win_rep_def)
  have ptr: "seqence_ptr ob = length h mod Inf_Outbuf_size" using p(2) assms(2) by simp
  let ?w = "w(seqence_ptr ob := Some c)"
  have cells: "?w (j mod Inf_Outbuf_size) = Some ((h @ [c]) ! j)"
    if "j < length (h @ [c])" "length (h @ [c]) \<le> j + Inf_Outbuf_size" for j
  proof (cases "j = length h")
    case False
    with that have j: "j < length h" "length h < j + Inf_Outbuf_size" by auto
    then have "j mod Inf_Outbuf_size \<noteq> seqence_ptr ob"
      unfolding ptr by (intro place_differs [of _ _ Inf_Outbuf_size]) auto
    with j w(2) show ?thesis by (simp add: nth_append)
  qed (simp add: ptr)
  have "(seqence_ptr ob + 1) mod Inf_Outbuf_size = (length h + 1) mod Inf_Outbuf_size"
    using p(2) by (metis mod_add_left_eq)
  moreover have "win_stores ob (seqence_ptr ob) [c] = Inr (ob\<lparr>seqence_buf := Some ?w\<rparr>)" using assms(2) w(1) by simp
  ultimately show ?thesis using cells assms(2) p(1)
    by (intro exI [of _ "ob\<lparr>seqence_buf := Some ?w\<rparr>"]) (auto simp: win_rep_def)
qed

lemma win_rep_wrap: "win_rep ob h \<Longrightarrow> seqence_ptr ob = Inf_Outbuf_size \<Longrightarrow> win_rep (ob\<lparr>seqence_ptr := 0\<rparr>) h"
  by (simp add: win_rep_def)

lemma putc_ok:
  assumes "win_rep ob h"
  shows "\<exists>ob'. Inf_Outbuf_putc ob c = Inr ob' \<and> win_rep ob' (h @ [c])"
proof -
  define ob0 where "ob0 = (if seqence_ptr ob = seqence_end ob then ob\<lparr>seqence_ptr := 0\<rparr> else ob)"
  have le: "seqence_ptr ob \<le> seqence_end ob" "seqence_end ob = Inf_Outbuf_size" using assms by (auto simp: win_rep_def)
  have "win_rep ob0 h" "seqence_ptr ob0 < Inf_Outbuf_size"
    using assms le win_rep_wrap by (auto simp: ob0_def)
  from win_rep_store [OF this, of c] le show ?thesis
    unfolding Inf_Outbuf_putc_def Let_def ob0_def [symmetric] by auto
qed


section \<open>Writing many bytes\<close>

lemma win_rep_ptr: "win_rep ob h \<Longrightarrow> seqence_end ob = Inf_Outbuf_size \<and> seqence_ptr ob \<le> Inf_Outbuf_size"
  by (simp add: win_rep_def)

lemma win_stores_append:
  "win_stores ob p (bs @ cs) = bindR (win_stores ob p bs) (\<lambda>ob. win_stores ob (p + length bs) cs)"
  by (induction bs arbitrary: ob p) (auto split: option.split)

lemma win_stores_ptr: "win_stores ob p bs = Inr ob' \<Longrightarrow> seqence_ptr ob' = seqence_ptr ob"
  by (induction bs arbitrary: ob p) (auto split: option.splits if_splits)

text \<open>The store does not depend on the pointer field.\<close>

lemma win_stores_set_ptr:
  "win_stores (ob\<lparr>seqence_ptr := q\<rparr>) p bs = (case win_stores ob p bs of Inl e \<Rightarrow> Inl e | Inr ob' \<Rightarrow> Inr (ob'\<lparr>seqence_ptr := q\<rparr>))"
proof (induction bs arbitrary: ob p)
  case (Cons c bs)
  show ?case
  proof (cases "seqence_buf ob")
    case (Some w)
    with Cons [of "ob\<lparr>seqence_buf := Some (w(p \<mapsto> c))\<rparr>" "p + 1"] show ?thesis by (cases ob) simp
  qed simp
qed simp

lemma win_stores_rep:
  assumes "win_rep ob h" and "seqence_ptr ob + length bs \<le> Inf_Outbuf_size"
  shows "\<exists>ob'. win_stores ob (seqence_ptr ob) bs = Inr ob' \<and>
     win_rep (ob'\<lparr>seqence_ptr := seqence_ptr ob + length bs\<rparr>) (h @ bs)"
  using assms(2)
proof (induction bs rule: rev_induct)
  case Nil
  then show ?case using assms(1) by simp
next
  case (snoc c bs)
  then obtain ob1 where ob1: "win_stores ob (seqence_ptr ob) bs = Inr ob1"
      "win_rep (ob1\<lparr>seqence_ptr := seqence_ptr ob + length bs\<rparr>) (h @ bs)" by auto
  obtain ob2 where ob2: "win_stores (ob1\<lparr>seqence_ptr := seqence_ptr ob + length bs\<rparr>) (seqence_ptr ob + length bs) [c] = Inr ob2"
      "win_rep (ob2\<lparr>seqence_ptr := seqence_ptr ob + length bs + 1\<rparr>) ((h @ bs) @ [c])"
    using win_rep_store [OF ob1(2), of c] snoc.prems by auto
  then obtain ob3 where "win_stores ob1 (seqence_ptr ob + length bs) [c] = Inr ob3"
      "ob2 = ob3\<lparr>seqence_ptr := seqence_ptr ob + length bs\<rparr>"
    unfolding win_stores_set_ptr by (auto split: sum.splits)
  with ob1(1) ob2(2) show ?case by (auto simp: win_stores_append add.assoc)
qed

lemma write_loop_ok:
  assumes "win_rep ob h" and "rest = Inf_Outbuf_size - seqence_ptr ob" and "length bs = len"
  shows "\<exists>ob'. outbuf_write_loop ob (Outside bs) len rest = Inr ob' \<and> win_rep ob' (h @ bs)"
  using assms
proof (induction ob "Outside bs" len rest arbitrary: bs h rule: outbuf_write_loop.induct)
  case (1 ob len rest bs h)
  note le = win_rep_ptr [OF "1.prems"(1)]
  show ?case
  proof (cases "len > rest")
    case True
    then have n: "length (take rest bs) = rest" using "1.prems"(3) by simp
    obtain ob1 where ob1: "win_stores ob (seqence_ptr ob) (take rest bs) = Inr ob1"
        "win_rep (ob1\<lparr>seqence_ptr := seqence_ptr ob + rest\<rparr>) (h @ take rest bs)"
      using win_stores_rep [OF "1.prems"(1), of "take rest bs"] n "1.prems"(2) le by auto
    have cp: "win_memcpy ob (Outside bs) rest = Inr ob1" using ob1(1) True "1.prems"(3) by simp
    have "win_rep (ob1\<lparr>seqence_ptr := 0\<rparr>) (h @ take rest bs)"
      using win_rep_wrap [OF ob1(2)] le "1.prems"(2) by simp
    from "1.hyps" [OF True cp _ this] "1.prems"(3) obtain ob2 where
      "outbuf_write_loop (ob1\<lparr>seqence_ptr := 0\<rparr>) (Outside (drop rest bs)) (len - rest) Inf_Outbuf_size = Inr ob2"
      "win_rep ob2 ((h @ take rest bs) @ drop rest bs)" by auto
    with True cp show ?thesis by (subst outbuf_write_loop.simps) auto
  next
    case False
    then have "seqence_ptr ob + length bs \<le> Inf_Outbuf_size" using "1.prems"(2,3) le by linarith
    then obtain ob1 where ob1: "win_stores ob (seqence_ptr ob) bs = Inr ob1"
        "win_rep (ob1\<lparr>seqence_ptr := seqence_ptr ob + len\<rparr>) (h @ bs)"
      using win_stores_rep [OF "1.prems"(1), of bs] "1.prems"(3) by auto
    with False "1.prems"(3) win_stores_ptr [OF ob1(1)] show ?thesis
      by (subst outbuf_write_loop.simps) auto
  qed
qed

text \<open>Writing keeps the window up to date, whatever the length.\<close>

lemma write_ok:
  assumes "win_rep ob h"
  shows "\<exists>ob'. Inf_Outbuf_write ob (Outside bs) (length bs) = Inr ob' \<and> win_rep ob' (h @ bs)"
  using write_loop_ok [OF assms] win_rep_ptr [OF assms] by (simp add: Inf_Outbuf_write_def)

section \<open>Copying a back reference\<close>

lemma copy_ok:
  assumes "win_rep ob h" and "1 \<le> d" and "d \<le> length h" and "d \<le> Inf_Outbuf_size"
    and "sp = (length h - d) mod Inf_Outbuf_size" and "sp + n \<le> Inf_Outbuf_size"
    and "dest + n \<le> length out"
  shows "\<exists>ob' out'. outbuf_copy ob out dest sp n = Inr (ob', out') \<and> win_rep ob' (lz_copy h d n) \<and>
     mem_write dest (drop (length h) (lz_copy h d n)) out = Inr out'"
  using assms
proof (induction n arbitrary: ob h out dest sp)
  case 0
  then show ?case by (simp add: mem_write_Nil)
next
  case (Suc n)
  define c where "c = h ! (length h - d)"
  have c: "win_load ob sp = Inr c"
    using win_rep_load [OF Suc.prems(1-4)] Suc.prems(5) by (simp add: c_def)
  obtain ob1 where ob1: "Inf_Outbuf_putc ob c = Inr ob1" "win_rep ob1 (h @ [c])" using putc_ok [OF Suc.prems(1)] by blast
  have again: "win_load ob1 sp = Inr c"
  proof (cases "d = Inf_Outbuf_size")
    case True
    have "win_load ob1 (length h mod Inf_Outbuf_size) = Inr c"
      using win_rep_load [OF ob1(2), of 1] by (simp add: Suc_le_eq)
    moreover have "sp = length h mod Inf_Outbuf_size"
      using Suc.prems(3,5) True by (simp add: le_mod_geq)
    ultimately show ?thesis by simp
  next
    case False
    with win_rep_load [OF ob1(2), of "d + 1"] Suc.prems show ?thesis by (simp add: nth_append c_def)
  qed
  obtain out1 where out1: "mem_write dest [c] out = Inr out1" using mem_write_ok [of dest "[c]" out] Suc.prems(7) by auto
  obtain ys where ys: "lz_copy (h @ [c]) d n = (h @ [c]) @ ys" using lz_copy_prefix by blast
  have IH: "\<exists>ob' out'. outbuf_copy ob1 out1 (dest + 1) (sp + 1) n = Inr (ob', out') \<and>
      win_rep ob' (lz_copy (h @ [c]) d n) \<and>
      mem_write (dest + 1) (drop (length (h @ [c])) (lz_copy (h @ [c]) d n)) out1 = Inr out'"
  proof (cases "n = 0")
    case True
    then show ?thesis using ob1(2) mem_write_length [OF out1] Suc.prems(7) by (simp add: mem_write_Nil)
  next
    case False
    have "sp + 1 = (length (h @ [c]) - d) mod Inf_Outbuf_size"
      using Suc.prems(3,5,6) False mod_Suc [of "length h - d" Inf_Outbuf_size] by (simp add: Suc_diff_le)
    then show ?thesis
      by (intro Suc.IH [OF ob1(2) Suc.prems(2)]) (use Suc.prems mem_write_length [OF out1] in simp_all)
  qed
  have "mem_write dest (c # ys) out = mem_write (dest + 1) ys out1"
    using mem_write_append [OF out1, of ys] by simp
  with IH c ob1(1) again out1 ys show ?case by (auto simp: c_def)
qed

lemma ptr_place:
  assumes "win_rep ob h" and "1 \<le> d" and "d \<le> length h" and "d \<le> seqence_ptr ob"
  shows "(length h - d) mod Inf_Outbuf_size = seqence_ptr ob - d"
proof -
  have p: "seqence_ptr ob \<le> Inf_Outbuf_size" "seqence_ptr ob mod Inf_Outbuf_size = length h mod Inf_Outbuf_size"
    using assms(1) by (auto simp: win_rep_def)
  have le: "seqence_ptr ob \<le> length h"
  proof (rule ccontr)
    assume "\<not> seqence_ptr ob \<le> length h"
    then have "length h mod Inf_Outbuf_size = length h" "length h < seqence_ptr ob" using p(1) by auto
    with p assms(2,3) show False by (cases "seqence_ptr ob = Inf_Outbuf_size") auto
  qed
  then have "Inf_Outbuf_size dvd length h - seqence_ptr ob" using p(2) by (metis mod_eq_dvd_iff_nat)
  then obtain k where "length h - seqence_ptr ob = Inf_Outbuf_size * k" by (auto simp: dvd_def)
  then have "length h - d = (seqence_ptr ob - d) + Inf_Outbuf_size * k" using le assms(4) by linarith
  moreover have "seqence_ptr ob - d < Inf_Outbuf_size" using assms(2,4) p(1) by linarith
  ultimately show ?thesis by simp
qed

lemma read_direct:
  assumes "win_rep ob h" and "1 \<le> d" and "d \<le> length h" and "d \<le> seqence_ptr ob"
    and "seqence_ptr ob - d + n \<le> Inf_Outbuf_size" and "dest + n \<le> length out"
  shows "\<exists>ob' out'. Inf_Outbuf_read ob out dest d n = Inr (True, ob', out') \<and> win_rep ob' (lz_copy h d n) \<and>
     mem_write dest (drop (length h) (lz_copy h d n)) out = Inr out'"
proof -
  have "d \<le> Inf_Outbuf_size" using assms(4) win_rep_ptr [OF assms(1)] by simp
  from copy_ok [OF assms(1-3) this _ assms(5,6)] ptr_place [OF assms(1-4)] assms(4) show ?thesis
    by (auto simp: Inf_Outbuf_read_def)
qed

lemma read_zero: "d \<le> Inf_Outbuf_size \<Longrightarrow> dest \<le> length out \<Longrightarrow> Inf_Outbuf_read ob out dest d 0 = Inr (True, ob, out)"
  by (simp add: Inf_Outbuf_read_def Inf_Outbuf_write_def outbuf_write_loop.simps [of ob _ 0] Let_def mem_write_Nil)

text \<open>As long as the history fits the window nothing wraps and every back reference is copied.\<close>

lemma read_short_history:
  assumes "win_rep ob h" and "1 \<le> d" and "d \<le> length h" and "length h + n \<le> Inf_Outbuf_size"
    and "dest + n \<le> length out"
  shows "\<exists>ob' out'. Inf_Outbuf_read ob out dest d n = Inr (True, ob', out') \<and> win_rep ob' (lz_copy h d n) \<and>
     mem_write dest (drop (length h) (lz_copy h d n)) out = Inr out'"
proof (cases "n = 0")
  case True
  with read_zero [of d dest out ob] assms show ?thesis by (simp add: mem_write_Nil)
next
  case False
  then have "length h < Inf_Outbuf_size" using assms(4) by simp
  then have "seqence_ptr ob = length h"
    using assms(1-3) by (cases "seqence_ptr ob = Inf_Outbuf_size") (auto simp: win_rep_def)
  with read_direct [OF assms(1-3), of n dest out] assms(2-5) show ?thesis by auto
qed

section \<open>Where the copy goes wrong\<close>

lemma outbuf_copy_add:
  "outbuf_copy ob out dest sp (m + n) =
     bindR (outbuf_copy ob out dest sp m) (\<lambda>(ob, out). outbuf_copy ob out (dest + m) (sp + m) n)"
proof (induction m arbitrary: ob out dest sp)
  case (Suc m)
  show ?case by (auto simp: Suc bindR_def split: sum.split)
qed simp

text \<open>The copy loop does not wrap its source pointer at the end of the window.\<close>

lemma read_overruns:
  assumes "win_rep ob h" and "1 \<le> d" and "d \<le> length h" and "d \<le> seqence_ptr ob"
    and "Inf_Outbuf_size < seqence_ptr ob - d + n" and "dest + n \<le> length out"
  shows "Inf_Outbuf_read ob out dest d n = Inl OutOfBounds"
proof -
  define m where "m = Inf_Outbuf_size - (seqence_ptr ob - d)"
  have le: "seqence_ptr ob \<le> Inf_Outbuf_size" using win_rep_ptr [OF assms(1)] by simp
  define k where "k = n - m - 1"
  have k: "n = m + Suc k" using assms(5) le unfolding k_def m_def by linarith
  have end_: "seqence_ptr ob - d + m = Inf_Outbuf_size" using le by (simp add: m_def)
  have d: "d \<le> Inf_Outbuf_size" using assms(4) le by simp
  have "\<exists>ob' out'. outbuf_copy ob out dest (seqence_ptr ob - d) m = Inr (ob', out') \<and> win_rep ob' (lz_copy h d m) \<and>
     mem_write dest (drop (length h) (lz_copy h d m)) out = Inr out'"
    by (rule copy_ok [OF assms(1-3) d]) (use ptr_place [OF assms(1-4)] end_ k assms(6) in auto)
  then obtain ob' out' where c: "outbuf_copy ob out dest (seqence_ptr ob - d) m = Inr (ob', out')" "win_rep ob' (lz_copy h d m)"
    by blast
  have "win_load ob' Inf_Outbuf_size = Inl OutOfBounds" using c(2) by (auto simp: win_rep_def win_load_def)
  then have "outbuf_copy ob out dest (seqence_ptr ob - d) n = Inl OutOfBounds"
    unfolding k outbuf_copy_add c(1) using end_ by simp
  with assms(4) show ?thesis by (simp add: Inf_Outbuf_read_def)
qed

lemma win_loads_rep:
  assumes "win_rep ob h" and "d \<le> length h" and "d \<le> Inf_Outbuf_size" and "n \<le> d"
    and "p = (length h - d) mod Inf_Outbuf_size" and "p + n \<le> Inf_Outbuf_size"
  shows "win_loads ob p n = Inr (take n (drop (length h - d) h))"
  using assms
proof (induction n arbitrary: p d)
  case (Suc n)
  have c: "win_load ob p = Inr (h ! (length h - d))" using win_rep_load [of ob h d] Suc.prems by simp
  have "win_loads ob (p + 1) n = Inr (take n (drop (length h - (d - 1)) h))"
  proof (cases "n = 0")
    case False
    have "p + 1 = (length h - (d - 1)) mod Inf_Outbuf_size"
      using Suc.prems False mod_Suc [of "length h - d" Inf_Outbuf_size] by (simp add: Suc_diff_le Suc_diff_diff [symmetric])
    then show ?thesis using Suc.IH [of "d - 1" "p + 1"] Suc.prems by simp
  qed simp
  moreover have "drop (length h - d) h = h ! (length h - d) # drop (length h - (d - 1)) h"
    using Suc.prems(2,4) by (subst Cons_nth_drop_Suc [symmetric]) (auto simp: Suc_diff_le)
  ultimately show ?case using c by simp
qed simp


text \<open>A source that lies before the wrap point and a destination that does not reach it.\<close>

lemma wrapped_place:
  assumes "win_rep ob h" and "d \<le> length h" and "d \<le> Inf_Outbuf_size" and "seqence_ptr ob < d"
  shows "(length h - d) mod Inf_Outbuf_size = seqence_ptr ob + Inf_Outbuf_size - d"
proof -
  have p: "seqence_ptr ob < Inf_Outbuf_size" "length h mod Inf_Outbuf_size = seqence_ptr ob"
    using assms(1,3,4) by (auto simp: win_rep_def)
  obtain k where k: "length h = seqence_ptr ob + Inf_Outbuf_size * k" using p(2) by (metis mod_mult_div_eq)
  then obtain j where "k = Suc j" using assms(2,4) by (cases k) auto
  with k have "length h - d = (seqence_ptr ob + Inf_Outbuf_size - d) + Inf_Outbuf_size * j" using assms(3) by simp
  moreover have "seqence_ptr ob + Inf_Outbuf_size - d < Inf_Outbuf_size" using assms(3,4) by linarith
  ultimately show ?thesis by simp
qed

lemma write_inside_ok:
  assumes "win_rep ob h" and "d \<le> length h" and "d \<le> Inf_Outbuf_size" and "seqence_ptr ob < d"
    and "n \<le> d - seqence_ptr ob" and "n \<le> Inf_Outbuf_size - d"
  shows "win_loads ob (seqence_ptr ob + Inf_Outbuf_size - d) n = Inr (take n (drop (length h - d) h))"
    and "\<exists>ob'. Inf_Outbuf_write ob (Inside (seqence_ptr ob + Inf_Outbuf_size - d)) n = Inr ob' \<and>
       win_rep ob' (h @ take n (drop (length h - d) h)) \<and> seqence_ptr ob' = seqence_ptr ob + n"
proof -
  let ?bs = "take n (drop (length h - d) h)"
  show l: "win_loads ob (seqence_ptr ob + Inf_Outbuf_size - d) n = Inr ?bs"
    by (rule win_loads_rep [OF assms(1-3)]) (use wrapped_place [OF assms(1-4)] assms(3-5) in auto)
  have len: "length ?bs = n" using assms(2,5) by simp
  have fit: "seqence_ptr ob + n \<le> Inf_Outbuf_size" using assms(3-5) by linarith
  then have norest: "\<not> Inf_Outbuf_size - seqence_ptr ob < n" by linarith
  obtain ob1 where ob1: "win_stores ob (seqence_ptr ob) ?bs = Inr ob1"
      "win_rep (ob1\<lparr>seqence_ptr := seqence_ptr ob + n\<rparr>) (h @ ?bs)"
    using win_stores_rep [OF assms(1), of ?bs] len fit by auto
  have "\<not> (n > 0 \<and> seqence_ptr ob + Inf_Outbuf_size - d < seqence_ptr ob + n)" using assms(3,6) by linarith
  then have "win_memcpy ob (Inside (seqence_ptr ob + Inf_Outbuf_size - d)) n = Inr ob1" using l ob1(1) by auto
  then have "Inf_Outbuf_write ob (Inside (seqence_ptr ob + Inf_Outbuf_size - d)) n = Inr (ob1\<lparr>seqence_ptr := seqence_ptr ob + n\<rparr>)"
    unfolding Inf_Outbuf_write_def outbuf_write_loop.simps [of ob _ n]
    using norest win_rep_ptr [OF assms(1)] win_stores_ptr [OF ob1(1)] by (simp del: win_memcpy.simps)
  with ob1(2) show "\<exists>ob'. Inf_Outbuf_write ob (Inside (seqence_ptr ob + Inf_Outbuf_size - d)) n = Inr ob' \<and>
       win_rep ob' (h @ ?bs) \<and> seqence_ptr ob' = seqence_ptr ob + n" by auto
qed

lemma lz_copy_short:
  assumes "1 \<le> d" and "n \<le> d" and "d \<le> length h"
  shows "lz_copy h d n = h @ take n (drop (length h - d) h)"
  using assms
proof (induction n)
  case (Suc n)
  have split: "lz_copy h d (n + 1) = lz_copy h d n @ [lz_copy h d n ! (length h + n - d)]"
    unfolding lz_copy_add by simp
  have "lz_copy h d n ! (length h + n - d) = h ! (length h - d + n)"
    using Suc by (simp add: nth_append)
  moreover have "take (Suc n) (drop (length h - d) h) = take n (drop (length h - d) h) @ [h ! (length h - d + n)]"
    using Suc.prems by (subst take_Suc_conv_app_nth) auto
  ultimately show ?case using split Suc by simp
qed simp

lemma read_wrapped:
  assumes "win_rep ob h" and "1 \<le> d" and "d \<le> length h" and "d \<le> Inf_Outbuf_size" and "seqence_ptr ob < d"
    and "n \<le> d - seqence_ptr ob" and "n \<le> Inf_Outbuf_size - d" and "dest + n \<le> length out"
  shows "\<exists>ob' out'. Inf_Outbuf_read ob out dest d n = Inr (True, ob', out') \<and> win_rep ob' (lz_copy h d n) \<and>
     mem_write dest (drop (length h) (lz_copy h d n)) out = Inr out'"
proof -
  let ?bs = "take n (drop (length h - d) h)"
  note w = write_inside_ok [OF assms(1,3-7)]
  obtain out' where out: "mem_write dest ?bs out = Inr out'"
    using mem_write_take_ok [of dest "drop (length h - d) h" out n] assms(8) by blast
  have eq: "lz_copy h d n = h @ ?bs" using lz_copy_short [OF assms(2) _ assms(3)] assms(6) by simp
  show ?thesis
    unfolding eq using w out win_rep_ptr [OF assms(1)] assms(4-6)
    by (auto simp: Inf_Outbuf_read_def Let_def)
qed

text \<open>
  A back reference that wraps around and repeats itself more than once is rejected, although the bytes
  it needs are in the window.
\<close>

lemma read_rejects:
  assumes "win_rep ob h" and "d \<le> length h" and "seqence_ptr ob < d" and "2 * d < n + seqence_ptr ob"
    and "2 * d \<le> Inf_Outbuf_size + seqence_ptr ob" and "d \<le> Inf_Outbuf_size" and "dest + n \<le> length out"
  shows "\<exists>ob' out'. Inf_Outbuf_read ob out dest d n = Inr (False, ob', out')"
proof -
  let ?k = "d - seqence_ptr ob"
  have k: "?k \<le> Inf_Outbuf_size - d" "?k < n" "n - ?k > seqence_ptr ob + ?k" using assms(3-6) by linarith+
  note w = write_inside_ok [OF assms(1,2,6,3) order_refl k(1)]
  let ?bs = "take ?k (drop (length h - d) h)"
  obtain out' where out: "mem_write dest ?bs out = Inr out'"
    using mem_write_take_ok [of dest "drop (length h - d) h" out ?k] assms(7) k(2) by auto
  have rest: "seqence_end ob - (seqence_ptr ob + Inf_Outbuf_size - d) = ?k"
    using win_rep_ptr [OF assms(1)] assms(3,6) by auto
  show ?thesis
    unfolding Inf_Outbuf_read_def Let_def rest using w out assms(3,6) k by auto
qed

text \<open>A \<^verbatim>\<open>memcpy\<close> of the window onto itself.\<close>

lemma read_overlaps:
  assumes "win_rep ob h" and "d \<le> length h" and "d \<le> Inf_Outbuf_size" and "seqence_ptr ob < d"
    and "n \<le> d - seqence_ptr ob" and "Inf_Outbuf_size - d < n" and "dest + n \<le> length out"
  shows "Inf_Outbuf_read ob out dest d n = Inl OverlappingCopy"
proof -
  let ?bs = "take n (drop (length h - d) h)"
  have l: "win_loads ob (seqence_ptr ob + Inf_Outbuf_size - d) n = Inr ?bs"
    by (rule win_loads_rep [OF assms(1-3)]) (use wrapped_place [OF assms(1-4)] assms(3-5) in auto)
  obtain out' where out: "mem_write dest ?bs out = Inr out'"
    using mem_write_take_ok [of dest "drop (length h - d) h" out n] assms(7) by blast
  have "Inf_Outbuf_write ob (Inside (seqence_ptr ob + Inf_Outbuf_size - d)) n = Inl OverlappingCopy"
    unfolding Inf_Outbuf_write_def outbuf_write_loop.simps [of ob _ n]
    using win_rep_ptr [OF assms(1)] assms(3-6) by auto
  with l out assms(3-5) win_rep_ptr [OF assms(1)] show ?thesis by (auto simp: Inf_Outbuf_read_def Let_def)
qed

section \<open>The window as a history\<close>

interpretation hist: history_window win_rep Inf_Outbuf_putc "\<lambda>ob bs. Inf_Outbuf_write ob (Outside bs) (length bs)"
  Inf_Outbuf_read Inf_Outbuf_size
  by unfold_locales (simp_all add: putc_ok write_ok read_short_history)

end
