(* ===== verification/Inflater.thy ===== *)
theory Inflater
  imports Inf_Fixed Inf_Outbuf Zlib_Stream
begin

text \<open>
  \<^verbatim>\<open>inflater.c\<close>, lines 62-100 and 631-1061: the inflater. \<^verbatim>\<open>inflate\<close> is a loop around a \<^verbatim>\<open>switch\<close> on the
  current step; it can be suspended wherever input runs out or the output is full, and resumes at
  the same step. Each case of the \<^verbatim>\<open>switch\<close> is one definition here; a case that falls through calls the
  next one. The configuration is that of \<^verbatim>\<open>mz_config.h\<close>. Input pointers are offsets into the region
  \<open>in_mem\<close>, output pointers offsets into \<open>out_mem\<close>.
\<close>

section \<open>State\<close>

datatype InfStep =
    InfStep_START
  | InfStep_PROCESS_NEXT_BLOCK
  | InfStep_READ_BLOCK_HEADER
  | InfStep_PROCESS_UNCOMPRESSED_BLOCK
  | InfStep_OUTPUT_UNCOMPRESSED_BLOCK
  | InfStep_LOAD_FIXED_HUFFMAN_DECODERS
  | InfStep_LOAD_DYNAMIC_HUFFMAN_DECODERS
  | InfStep_LOAD_FRONT_DECODER
  | InfStep_LOAD_LITERAL_DECODER
  | InfStep_LOAD_DISTANCE_DECODER
  | InfStep_PROCESS_COMPRESSED_BLOCK
  | InfStep_Read_LiteralOrLength
  | InfStep_Read_LiteralOrLength2
  | InfStep_Read_LengthBits
  | InfStep_Read_Distance
  | InfStep_Read_DistanceBits
  | InfStep_OUTPUT_SEQUENCE
  | InfStep_FATAL_ERROR
  | InfStep_ADLER32_CHECKSUM
  | InfStep_END

datatype InfAction =
    InfAction_Finish
  | InfAction_FillInputBuffer
  | InfAction_UseOutputBufferContent
  | InfAction_Feed2ndZlibHeaderByte
  | InfAction_ProcessNextChunk
  | InfAction_Init

text \<open>What a decoder pointer points to: a table of the state or one of the two static tables.\<close>

datatype decoder = TableA | TableB | FixedLiteral | FixedDistance

record Inf_State =
  bitstream :: Inf_BS
  sllist :: Inf_SLList
  action :: InfAction
  step :: InfStep
  isLastBlock :: nat
  symcount :: u32
  lit :: nat
  sequence_dist :: nat
  sequence_len :: nat
  frontDecoder :: "decoder option"
  literalDecoder :: "decoder option"
  distanceDecoder :: "decoder option"
  huffmanTableA :: huff_table
  huffmanTableB :: huff_table
  outputBuf :: Inf_Outbuf

definition decoder_table :: "inf_statics \<Rightarrow> Inf_State \<Rightarrow> decoder option \<Rightarrow> huff_table res" where
  "decoder_table statics st d =
     (case d of
        None \<Rightarrow> Inl NullPointer
      | Some TableA \<Rightarrow> Inr (huffmanTableA st)
      | Some TableB \<Rightarrow> Inr (huffmanTableB st)
      | Some FixedLiteral \<Rightarrow> (case cachedLiteral statics of None \<Rightarrow> Inl NullPointer | Some t \<Rightarrow> Inr t)
      | Some FixedDistance \<Rightarrow> (case cachedDistance statics of None \<Rightarrow> Inl NullPointer | Some t \<Rightarrow> Inr t))"

text \<open>
  \<^verbatim>\<open>inflateInit\<close>: \<open>mem\<close> is the block that \<^verbatim>\<open>malloc\<close> returns, with arbitrary content, \<open>ok\<close> whether the
  second allocation succeeds. The arrays of the new block count as uninitialised.
\<close>

definition inflateInit ::
  "Inf_State option \<Rightarrow> bool \<Rightarrow> Inf_State z_stream option \<Rightarrow> int \<times> Inf_State z_stream option" where
  "inflateInit mem ok strm =
     (case mem of
        None \<Rightarrow> (Z_MEM_ERROR, strm)
      | Some st \<Rightarrow>
          (case strm of
             None \<Rightarrow> (Z_STREAM_ERROR, None)
           | Some strm \<Rightarrow>
               let strm = strm\<lparr>msg := None, total_in := 0, total_out := 0\<rparr>;
                   (inited, ob) = Inf_Outbuf_init ok;
                   st = st\<lparr>action := InfAction_Init, step := InfStep_START,
                           bitstream := (bitstream st)\<lparr>bits := 0, bsize := 0\<rparr>,
                           sllist := (sllist st)\<lparr>command := 0, huffmanLength := 0, repetitions := 0, symbol := 0,
                             elementIndex := 0, headPtr := (\<lambda>_. None), tailPtr := (\<lambda>_. None),
                             lengthsBySymbol := (\<lambda>_. None), elements := (\<lambda>_. None)\<rparr>,
                           huffmanTableA := (\<lambda>_. None), huffmanTableB := (\<lambda>_. None), outputBuf := ob\<rparr>
               in if \<not> inited then (Z_MEM_ERROR, Some strm)
                  else (Z_OK, Some (strm\<lparr>state := Some st\<rparr>))))"

section \<open>The steps\<close>

text \<open>
  The local variables of \<^verbatim>\<open>inflate\<close> that the loop changes, with the state it points to, the output
  region, the message and the static variables.
\<close>

record inf_run =
  st :: Inf_State
  cur :: InfStep
  writePtr :: nat
  out :: "u8 list"
  rmsg :: "string option"
  res :: int
  statics :: inf_statics

definition set_bs :: "Inf_BS \<Rightarrow> inf_run \<Rightarrow> inf_run" where
  "set_bs bs r = r\<lparr>st := (st r)\<lparr>bitstream := bs\<rparr>\<rparr>"

definition inf_FILL_INPUT_BUFFER :: "inf_run \<Rightarrow> inf_run" where
  "inf_FILL_INPUT_BUFFER r = r\<lparr>st := (st r)\<lparr>action := InfAction_FillInputBuffer\<rparr>, res := Z_OK\<rparr>"

definition inf_USE_OUTPUT_BUFFER_CONTENT :: "inf_run \<Rightarrow> inf_run" where
  "inf_USE_OUTPUT_BUFFER_CONTENT r = r\<lparr>st := (st r)\<lparr>action := InfAction_UseOutputBufferContent\<rparr>, res := Z_OK\<rparr>"

definition inf_goto :: "InfStep \<Rightarrow> inf_run \<Rightarrow> inf_run" where
  "inf_goto dest r = r\<lparr>cur := dest\<rparr>"

definition inf_fatal :: "string option \<Rightarrow> inf_run \<Rightarrow> inf_run" where
  "inf_fatal m r = r\<lparr>cur := InfStep_FATAL_ERROR, st := (st r)\<lparr>action := InfAction_Finish\<rparr>,
     rmsg := (case m of None \<Rightarrow> rmsg r | Some _ \<Rightarrow> m), res := Z_DATA_ERROR\<rparr>"

text \<open>Read a field, or suspend: \<^verbatim>\<open>if (!Inf_BS_ReadBits(bitstream, &temp, n)) { inf__FILL_INPUT_BUFFER(); }\<close>.\<close>

definition with_bits :: "u8 list \<Rightarrow> inf_run \<Rightarrow> nat \<Rightarrow> (inf_run \<Rightarrow> u32 \<Rightarrow> inf_run res) \<Rightarrow> inf_run res" where
  "with_bits mem r n k =
     bindR (Inf_BS_ReadBits mem (bitstream (st r)) n) (\<lambda>(v, bs).
       case v of None \<Rightarrow> Inr (inf_FILL_INPUT_BUFFER (set_bs bs r)) | Some temp \<Rightarrow> k (set_bs bs r) temp)"

text \<open>The same for an encoded symbol.\<close>

definition with_symbol ::
  "u8 list \<Rightarrow> inf_run \<Rightarrow> decoder option \<Rightarrow> (inf_run \<Rightarrow> nat \<Rightarrow> inf_run res) \<Rightarrow> inf_run res" where
  "with_symbol mem r d k =
     bindR (decoder_table (statics r) (st r) d) (\<lambda>table.
     bindR (Inf_BS_ReadEncodedBits mem (bitstream (st r)) table) (\<lambda>(v, bs).
       case v of None \<Rightarrow> Inr (inf_FILL_INPUT_BUFFER (set_bs bs r)) | Some s \<Rightarrow> k (set_bs bs r) s))"

definition lengthStarts :: "nat list" where
  "lengthStarts = [3, 4, 5, 6, 7, 8, 9, 10, 11, 13, 15, 17, 19, 23, 27,
     31, 35, 43, 51, 59, 67, 83, 99, 115, 131, 163, 195, 227, 258]"

definition lengthExtraBits :: "nat list" where
  "lengthExtraBits = [0, 0, 0, 0, 0, 0, 0, 0, 1, 1, 1, 1, 2, 2, 2, 2, 3, 3, 3, 3, 4, 4, 4, 4, 5, 5, 5, 5, 0]"

definition distanceStarts :: "nat list" where
  "distanceStarts = [1, 2, 3, 4, 5, 7, 9, 13, 17, 25, 33, 49, 65, 97, 129,
     193, 257, 385, 513, 769, 1025, 1537, 2049, 3073, 4097, 6145, 8193, 12289, 16385, 24577]"

definition distanceExtraBits :: "nat list" where
  "distanceExtraBits = [0, 0, 0, 0, 1, 1, 2, 2, 3, 3, 4, 4, 5, 5, 6,
     6, 7, 7, 8, 8, 9, 9, 10, 10, 11, 11, 12, 12, 13, 13]"

definition array_get :: "nat list \<Rightarrow> nat \<Rightarrow> nat res" where
  "array_get xs i = (if i < length xs then Inr (xs ! i) else Inl OutOfBounds)"

definition step_OUTPUT_SEQUENCE :: "nat \<Rightarrow> inf_run \<Rightarrow> inf_run res" where
  "step_OUTPUT_SEQUENCE writeEnd r =
     (let restBytes = writeEnd - writePtr r;
          s = st r in
      if restBytes \<ge> sequence_len s then
        bindR (Inf_Outbuf_read (outputBuf s) (out r) (writePtr r) (sequence_dist s) (sequence_len s))
          (\<lambda>(succ, ob, o').
            let r = r\<lparr>st := s\<lparr>outputBuf := ob, sequence_len := 0\<rparr>, out := o', writePtr := writePtr r + sequence_len s\<rparr>
            in Inr (if succ then inf_goto InfStep_Read_LiteralOrLength r else inf_fatal None r))
      else
        bindR (Inf_Outbuf_read (outputBuf s) (out r) (writePtr r) (sequence_dist s) restBytes)
          (\<lambda>(succ, ob, o').
            let r = r\<lparr>st := s\<lparr>outputBuf := ob, sequence_len := sequence_len s - restBytes\<rparr>, out := o', writePtr := writeEnd\<rparr>
            in Inr (if succ then inf_USE_OUTPUT_BUFFER_CONTENT r else inf_fatal None r)))"

definition step_Read_DistanceBits :: "u8 list \<Rightarrow> nat \<Rightarrow> inf_run \<Rightarrow> inf_run res" where
  "step_Read_DistanceBits mem writeEnd r =
     bindR (array_get distanceExtraBits (lit (st r))) (\<lambda>n.
     with_bits mem r n (\<lambda>r temp.
     bindR (array_get distanceStarts (lit (st r))) (\<lambda>start.
     let r = r\<lparr>st := (st r)\<lparr>sequence_dist := unat temp + start\<rparr>\<rparr> in
     assertR (sequence_dist (st r) < 32 * 1024)
       (step_OUTPUT_SEQUENCE writeEnd (inf_goto InfStep_OUTPUT_SEQUENCE r)))))"

definition step_Read_Distance :: "u8 list \<Rightarrow> nat \<Rightarrow> inf_run \<Rightarrow> inf_run res" where
  "step_Read_Distance mem writeEnd r =
     with_symbol mem r (distanceDecoder (st r)) (\<lambda>r s.
     let r = r\<lparr>st := (st r)\<lparr>lit := s\<rparr>\<rparr> in
     if lit (st r) > 29 then Inr (inf_fatal (Some ''too many length or distance symbols'') r)
     else step_Read_DistanceBits mem writeEnd (inf_goto InfStep_Read_DistanceBits r))"

definition step_Read_LengthBits :: "u8 list \<Rightarrow> nat \<Rightarrow> inf_run \<Rightarrow> inf_run res" where
  "step_Read_LengthBits mem writeEnd r =
     bindR (array_get lengthExtraBits (lit (st r))) (\<lambda>n.
     with_bits mem r n (\<lambda>r temp.
     bindR (array_get lengthStarts (lit (st r))) (\<lambda>start.
     let r = r\<lparr>st := (st r)\<lparr>sequence_len := unat temp + start\<rparr>\<rparr> in
     assertR (sequence_len (st r) < 32 * 1024)
       (step_Read_Distance mem writeEnd (inf_goto InfStep_Read_Distance r)))))"

definition step_Read_LiteralOrLength2 :: "u8 list \<Rightarrow> nat \<Rightarrow> inf_run \<Rightarrow> inf_run res" where
  "step_Read_LiteralOrLength2 mem writeEnd r =
     (if lit (st r) < 256 then
        if writePtr r = writeEnd then Inr (inf_USE_OUTPUT_BUFFER_CONTENT r)
        else
          bindR (mem_write (writePtr r) [of_nat (lit (st r))] (out r)) (\<lambda>o'.
          bindR (Inf_Outbuf_putc (outputBuf (st r)) (of_nat (lit (st r)))) (\<lambda>ob.
            Inr (inf_goto InfStep_Read_LiteralOrLength
              (r\<lparr>out := o', writePtr := writePtr r + 1, st := (st r)\<lparr>outputBuf := ob\<rparr>\<rparr>))))
      else if lit (st r) = 256 then Inr (inf_goto InfStep_PROCESS_NEXT_BLOCK r)
      else if lit (st r) > 285 then Inr (inf_fatal (Some ''too many length or distance symbols'') r)
      else
        step_Read_LengthBits mem writeEnd
          (inf_goto InfStep_Read_LengthBits (r\<lparr>st := (st r)\<lparr>lit := lit (st r) - 257\<rparr>\<rparr>)))"

text \<open>The cases \<^verbatim>\<open>PROCESS_COMPRESSED_BLOCK\<close> and \<^verbatim>\<open>Read_LiteralOrLength\<close> share their code.\<close>

definition step_Read_LiteralOrLength :: "u8 list \<Rightarrow> nat \<Rightarrow> inf_run \<Rightarrow> inf_run res" where
  "step_Read_LiteralOrLength mem writeEnd r =
     with_symbol mem r (literalDecoder (st r)) (\<lambda>r s.
       step_Read_LiteralOrLength2 mem writeEnd
         (inf_goto InfStep_Read_LiteralOrLength2 (r\<lparr>st := (st r)\<lparr>lit := s\<rparr>\<rparr>)))"

definition step_LOAD_DISTANCE_DECODER :: "u8 list \<Rightarrow> nat \<Rightarrow> inf_run \<Rightarrow> inf_run res" where
  "step_LOAD_DISTANCE_DECODER mem writeEnd r =
     bindR (decoder_table (statics r) (st r) (frontDecoder (st r))) (\<lambda>front.
     bindR (Inf_SLList_AddEncodedSymlens mem (sllist (st r)) (bitstream (st r))
              (unat (drop_bit 5 (symcount (st r)) AND 0x1F) + 1) front) (\<lambda>(complete, list, bs).
     let r = r\<lparr>st := (st r)\<lparr>sllist := list, bitstream := bs\<rparr>\<rparr> in
     if \<not> complete then Inr (inf_FILL_INPUT_BUFFER r)
     else
       bindR (make_sorted_decoder (huffmanTableA (st r)) (sllist (st r)) True) (\<lambda>(table, list).
         step_Read_LiteralOrLength mem writeEnd (inf_goto InfStep_PROCESS_COMPRESSED_BLOCK
           (r\<lparr>st := (st r)\<lparr>huffmanTableA := table, sllist := list, distanceDecoder := Some TableA\<rparr>\<rparr>)))))"

definition step_LOAD_LITERAL_DECODER :: "u8 list \<Rightarrow> nat \<Rightarrow> inf_run \<Rightarrow> inf_run res" where
  "step_LOAD_LITERAL_DECODER mem writeEnd r =
     bindR (decoder_table (statics r) (st r) (frontDecoder (st r))) (\<lambda>front.
     bindR (Inf_SLList_AddEncodedSymlens mem (sllist (st r)) (bitstream (st r))
              (unat (symcount (st r) AND 0x1F) + 257) front) (\<lambda>(complete, list, bs).
     let r = r\<lparr>st := (st r)\<lparr>sllist := list, bitstream := bs\<rparr>\<rparr> in
     if \<not> complete then Inr (inf_FILL_INPUT_BUFFER r)
     else
       bindR (make_sorted_decoder (huffmanTableB (st r)) (sllist (st r)) False) (\<lambda>(table, list).
         step_LOAD_DISTANCE_DECODER mem writeEnd (inf_goto InfStep_LOAD_DISTANCE_DECODER
           (r\<lparr>st := (st r)\<lparr>huffmanTableB := table, sllist := list, literalDecoder := Some TableB\<rparr>\<rparr>)))))"

definition step_LOAD_FRONT_DECODER :: "u8 list \<Rightarrow> nat \<Rightarrow> inf_run \<Rightarrow> inf_run res" where
  "step_LOAD_FRONT_DECODER mem writeEnd r =
     bindR (Inf_SLList_Add3BitSymlens mem (sllist (st r)) (bitstream (st r))
              (unat (drop_bit 10 (symcount (st r)) AND 0x0F) + 4)) (\<lambda>(complete, list, bs).
     let r = r\<lparr>st := (st r)\<lparr>sllist := list, bitstream := bs\<rparr>\<rparr> in
     if \<not> complete then Inr (inf_FILL_INPUT_BUFFER r)
     else
       bindR (make_sorted_decoder (huffmanTableA (st r)) (sllist (st r)) True) (\<lambda>(table, list).
         step_LOAD_LITERAL_DECODER mem writeEnd (inf_goto InfStep_LOAD_LITERAL_DECODER
           (r\<lparr>st := (st r)\<lparr>huffmanTableA := table, sllist := list, frontDecoder := Some TableA\<rparr>\<rparr>))))"

definition step_LOAD_DYNAMIC_HUFFMAN_DECODERS :: "u8 list \<Rightarrow> nat \<Rightarrow> inf_run \<Rightarrow> inf_run res" where
  "step_LOAD_DYNAMIC_HUFFMAN_DECODERS mem writeEnd r =
     with_bits mem r (5 + 5 + 4) (\<lambda>r v.
       step_LOAD_FRONT_DECODER mem writeEnd
         (inf_goto InfStep_LOAD_FRONT_DECODER (r\<lparr>st := (st r)\<lparr>symcount := v\<rparr>\<rparr>)))"

definition step_LOAD_FIXED_HUFFMAN_DECODERS :: "inf_run \<Rightarrow> inf_run res" where
  "step_LOAD_FIXED_HUFFMAN_DECODERS r =
     bindR (Inf_Huff_MakeFixedLiteralDecoder (statics r) (sllist (st r))) (\<lambda>(statics1, list1).
     bindR (Inf_Huff_MakeFixedDistanceDecoder statics1 list1) (\<lambda>(statics2, list2).
       Inr (inf_goto InfStep_PROCESS_COMPRESSED_BLOCK
         (r\<lparr>statics := statics2, st := (st r)\<lparr>sllist := list2, literalDecoder := Some FixedLiteral,
            distanceDecoder := Some FixedDistance\<rparr>\<rparr>))))"

definition step_OUTPUT_UNCOMPRESSED_BLOCK :: "u8 list \<Rightarrow> nat \<Rightarrow> inf_run \<Rightarrow> inf_run res" where
  "step_OUTPUT_UNCOMPRESSED_BLOCK mem writeEnd r =
     bindR (Inf_BS_ReadBytes mem (bitstream (st r)) (min (sequence_len (st r)) (writeEnd - writePtr r)))
       (\<lambda>(bytes, canReadAll, bs).
     bindR (mem_write (writePtr r) bytes (out r)) (\<lambda>o'.
     bindR (Inf_Outbuf_write (outputBuf (st r)) (Outside bytes) (length bytes)) (\<lambda>ob.
     let r = r\<lparr>st := (st r)\<lparr>bitstream := bs, outputBuf := ob, sequence_len := sequence_len (st r) - length bytes\<rparr>,
               out := o', writePtr := writePtr r + length bytes\<rparr>
     in
     if \<not> canReadAll then Inr (inf_FILL_INPUT_BUFFER r)
     else if sequence_len (st r) > 0 then Inr (inf_USE_OUTPUT_BUFFER_CONTENT r)
     else Inr (inf_goto InfStep_PROCESS_NEXT_BLOCK r))))"

definition step_PROCESS_UNCOMPRESSED_BLOCK :: "u8 list \<Rightarrow> nat \<Rightarrow> inf_run \<Rightarrow> inf_run res" where
  "step_PROCESS_UNCOMPRESSED_BLOCK mem writeEnd r =
     bindR (Inf_BS_ReadDWord mem (bitstream (st r))) (\<lambda>(v, bs).
       case v of
         None \<Rightarrow> Inr (inf_FILL_INPUT_BUFFER (set_bs bs r))
       | Some temp \<Rightarrow>
           let r = set_bs bs r;
               r = r\<lparr>st := (st r)\<lparr>sequence_len := unat (temp AND 0xFFFF)\<rparr>\<rparr>
           in
           if sequence_len (st r) \<noteq> unat (drop_bit 16 (NOT temp))
           then Inr (inf_fatal (Some ''invalid stored block lengths'') r)
           else step_OUTPUT_UNCOMPRESSED_BLOCK mem writeEnd (inf_goto InfStep_OUTPUT_UNCOMPRESSED_BLOCK r))"

definition step_READ_BLOCK_HEADER :: "u8 list \<Rightarrow> inf_run \<Rightarrow> inf_run res" where
  "step_READ_BLOCK_HEADER mem r =
     with_bits mem r 3 (\<lambda>r temp.
       let r = r\<lparr>st := (st r)\<lparr>isLastBlock := unat (temp AND 0x01)\<rparr>\<rparr> in
       if drop_bit 1 temp = 0 then Inr (inf_goto InfStep_PROCESS_UNCOMPRESSED_BLOCK r)
       else if drop_bit 1 temp = 1 then Inr (inf_goto InfStep_LOAD_FIXED_HUFFMAN_DECODERS r)
       else if drop_bit 1 temp = 2 then Inr (inf_goto InfStep_LOAD_DYNAMIC_HUFFMAN_DECODERS r)
       else Inr (inf_fatal (Some ''invalid block type'') r))"

definition step_PROCESS_NEXT_BLOCK :: "u8 list \<Rightarrow> inf_run \<Rightarrow> inf_run res" where
  "step_PROCESS_NEXT_BLOCK mem r =
     (if isLastBlock (st r) \<noteq> 0
      then Inr (inf_goto InfStep_ADLER32_CHECKSUM (r\<lparr>st := (st r)\<lparr>isLastBlock := 4\<rparr>\<rparr>))
      else step_READ_BLOCK_HEADER mem (inf_goto InfStep_READ_BLOCK_HEADER r))"

definition step_START :: "u8 list \<Rightarrow> inf_run \<Rightarrow> inf_run res" where
  "step_START mem r =
     step_PROCESS_NEXT_BLOCK mem (inf_goto InfStep_PROCESS_NEXT_BLOCK (r\<lparr>st := (st r)\<lparr>isLastBlock := 0\<rparr>\<rparr>))"

definition step_ADLER32_CHECKSUM :: "u8 list \<Rightarrow> inf_run \<Rightarrow> inf_run res" where
  "step_ADLER32_CHECKSUM mem r =
     (let bs = bitstream (st r);
          byte_read = min (isLastBlock (st r)) (inputEnd bs - inputPtr bs)
      in
      bindR (mem_read (inputPtr bs) byte_read mem) (\<lambda>checksum_buf.
      let r = r\<lparr>st := (st r)\<lparr>bitstream := bs\<lparr>inputPtr := inputPtr bs + byte_read\<rparr>,
                             isLastBlock := isLastBlock (st r) - byte_read\<rparr>\<rparr>
      in Inr (if isLastBlock (st r) = 0 then inf_goto InfStep_END r else inf_FILL_INPUT_BUFFER r)))"

definition step_END :: "inf_run \<Rightarrow> inf_run res" where
  "step_END r = Inr (r\<lparr>res := Z_STREAM_END, st := (st r)\<lparr>action := InfAction_Init\<rparr>\<rparr>)"

definition inf_switch :: "u8 list \<Rightarrow> nat \<Rightarrow> inf_run \<Rightarrow> inf_run res" where
  "inf_switch mem writeEnd r =
     (case cur r of
        InfStep_START \<Rightarrow> step_START mem r
      | InfStep_PROCESS_NEXT_BLOCK \<Rightarrow> step_PROCESS_NEXT_BLOCK mem r
      | InfStep_READ_BLOCK_HEADER \<Rightarrow> step_READ_BLOCK_HEADER mem r
      | InfStep_PROCESS_UNCOMPRESSED_BLOCK \<Rightarrow> step_PROCESS_UNCOMPRESSED_BLOCK mem writeEnd r
      | InfStep_OUTPUT_UNCOMPRESSED_BLOCK \<Rightarrow> step_OUTPUT_UNCOMPRESSED_BLOCK mem writeEnd r
      | InfStep_LOAD_FIXED_HUFFMAN_DECODERS \<Rightarrow> step_LOAD_FIXED_HUFFMAN_DECODERS r
      | InfStep_LOAD_DYNAMIC_HUFFMAN_DECODERS \<Rightarrow> step_LOAD_DYNAMIC_HUFFMAN_DECODERS mem writeEnd r
      | InfStep_LOAD_FRONT_DECODER \<Rightarrow> step_LOAD_FRONT_DECODER mem writeEnd r
      | InfStep_LOAD_LITERAL_DECODER \<Rightarrow> step_LOAD_LITERAL_DECODER mem writeEnd r
      | InfStep_LOAD_DISTANCE_DECODER \<Rightarrow> step_LOAD_DISTANCE_DECODER mem writeEnd r
      | InfStep_PROCESS_COMPRESSED_BLOCK \<Rightarrow> step_Read_LiteralOrLength mem writeEnd r
      | InfStep_Read_LiteralOrLength \<Rightarrow> step_Read_LiteralOrLength mem writeEnd r
      | InfStep_Read_LiteralOrLength2 \<Rightarrow> step_Read_LiteralOrLength2 mem writeEnd r
      | InfStep_Read_LengthBits \<Rightarrow> step_Read_LengthBits mem writeEnd r
      | InfStep_Read_Distance \<Rightarrow> step_Read_Distance mem writeEnd r
      | InfStep_Read_DistanceBits \<Rightarrow> step_Read_DistanceBits mem writeEnd r
      | InfStep_OUTPUT_SEQUENCE \<Rightarrow> step_OUTPUT_SEQUENCE writeEnd r
      | InfStep_FATAL_ERROR \<Rightarrow> Inr r
      | InfStep_ADLER32_CHECKSUM \<Rightarrow> step_ADLER32_CHECKSUM mem r
      | InfStep_END \<Rightarrow> step_END r)"

text \<open>The loop; \<open>None\<close> is a run that never ends.\<close>

partial_function (option) inf_loop :: "u8 list \<Rightarrow> nat \<Rightarrow> inf_run \<Rightarrow> inf_run res option" where
  "inf_loop mem writeEnd r =
     (if action (st r) = InfAction_ProcessNextChunk then
        (case inf_switch mem writeEnd r of Inl e \<Rightarrow> Some (Inl e) | Inr r' \<Rightarrow> inf_loop mem writeEnd r')
      else Some (Inr r))"

section \<open>\<open>inflate\<close> and \<open>inflateEnd\<close>\<close>

text \<open>
  Lines 726-783: the entry. \<open>Inl\<close> is a return from \<^verbatim>\<open>inflate\<close>; otherwise the stream and the value of the
  variable \<^verbatim>\<open>inputBuffer\<close>.
\<close>

definition inflate_entry ::
  "Inf_State z_stream \<Rightarrow> Inf_State \<Rightarrow> (int \<times> Inf_State z_stream + Inf_State z_stream \<times> Inf_State \<times> nat) res" where
  "inflate_entry strm s =
     (let inputBuffer = next_in strm; inputBufferSize = avail_in strm;
          at = (\<lambda>p e s. s\<lparr>bitstream := (bitstream s)\<lparr>inputPtr := p, inputEnd := e\<rparr>\<rparr>);
          consume = (\<lambda>n strm s. (Z_OK, strm\<lparr>next_in := next_in strm + n, avail_in := 0, state := Some s\<rparr>))
      in
      assertR (inputBufferSize > 0)
      (case action s of
         InfAction_Init \<Rightarrow>
           let s = at inputBuffer (inputBuffer + unat inputBufferSize) s in
           if inputBuffer \<ge> length (in_mem strm) then Inl OutOfBounds
           else if in_mem strm ! inputBuffer \<noteq> 0x78 then
             Inr (Inl (Z_DATA_ERROR, strm\<lparr>msg := Some ''incorrect header check'',
                                          state := Some (s\<lparr>action := InfAction_Init\<rparr>)\<rparr>))
           else if inputBufferSize = 1 then
             Inr (Inl (consume 1 (strm\<lparr>total_in := 1\<rparr>) (s\<lparr>action := InfAction_Feed2ndZlibHeaderByte\<rparr>)))
           else if inputBufferSize = 2 then
             Inr (Inl (consume 2 (strm\<lparr>total_in := 2\<rparr>) (s\<lparr>action := InfAction_FillInputBuffer\<rparr>)))
           else
             let strm = strm\<lparr>total_in := 2, avail_in := avail_in strm - 2\<rparr>;
                 inputBuffer = inputBuffer + 2
             in Inr (Inr (strm, s\<lparr>bitstream := (bitstream s)\<lparr>inputPtr := inputBuffer\<rparr>\<rparr>, inputBuffer))
       | InfAction_Feed2ndZlibHeaderByte \<Rightarrow>
           if inputBufferSize = 1 then
             Inr (Inl (consume 1 (strm\<lparr>total_in := 2\<rparr>) (s\<lparr>action := InfAction_FillInputBuffer\<rparr>)))
           else
             let strm = strm\<lparr>total_in := 2, avail_in := avail_in strm - 1\<rparr>;
                 inputBuffer = inputBuffer + 1
             in Inr (Inr (strm, s\<lparr>bitstream := (bitstream s)\<lparr>inputPtr := inputBuffer\<rparr>\<rparr>, inputBuffer))
       | InfAction_FillInputBuffer \<Rightarrow>
           Inr (Inr (strm, at inputBuffer (inputBuffer + unat inputBufferSize) s, inputBuffer))
       | InfAction_UseOutputBufferContent \<Rightarrow> Inr (Inr (strm, s, inputBuffer))
       | InfAction_ProcessNextChunk \<Rightarrow> Inr (Inr (strm, s, inputBuffer))
       | InfAction_Finish \<Rightarrow> Inr (Inl (0, strm))))"

text \<open>Lines 1032-1050: the counters after the loop.\<close>

definition inflate_epilogue ::
  "Inf_State z_stream \<Rightarrow> nat \<Rightarrow> inf_run \<Rightarrow> int \<times> inf_statics \<times> Inf_State z_stream" where
  "inflate_epilogue strm inputBuffer r =
     (let s = (st r)\<lparr>step := cur r\<rparr>;
          consumed = of_nat (inputPtr (bitstream s)) - of_nat inputBuffer :: u32;
          produced = of_nat (writePtr r) - of_nat (next_out strm) :: u32
      in (res r, statics r,
          strm\<lparr>next_in := inputPtr (bitstream s), avail_in := avail_in strm - consumed,
               total_in := total_in strm + consumed, total_out := total_out strm + produced,
               next_out := writePtr r, out_mem := out r, msg := rmsg r,
               avail_out := (if action s \<noteq> InfAction_UseOutputBufferContent then avail_out strm - produced else 0),
               state := Some s\<rparr>))"

definition inflate ::
  "inf_statics \<Rightarrow> Inf_State z_stream \<Rightarrow> int \<Rightarrow> (int \<times> inf_statics \<times> Inf_State z_stream) res option" where
  "inflate stat strm flush =
     (case state strm of
        None \<Rightarrow> Some (Inl NullPointer)
      | Some s \<Rightarrow>
          (case inflate_entry strm s of
             Inl e \<Rightarrow> Some (Inl e)
           | Inr (Inl (ret, strm)) \<Rightarrow> Some (Inr (ret, stat, strm))
           | Inr (Inr (strm, s, inputBuffer)) \<Rightarrow>
               if \<not> (0 < avail_out strm \<and> inputPtr (bitstream s) \<le> inputEnd (bitstream s))
               then Some (Inl AssertFail)
               else
                 (case inf_loop (in_mem strm) (next_out strm + unat (avail_out strm))
                         \<lparr>st = s\<lparr>action := InfAction_ProcessNextChunk\<rparr>, cur = step s, writePtr = next_out strm,
                          out = out_mem strm, rmsg = msg strm, res = 0, statics = stat\<rparr> of
                    None \<Rightarrow> None
                  | Some (Inl e) \<Rightarrow> Some (Inl e)
                  | Some (Inr r) \<Rightarrow> Some (Inr (inflate_epilogue strm inputBuffer r)))))"

definition inflateEnd :: "Inf_State z_stream option \<Rightarrow> (int \<times> Inf_State z_stream option) res" where
  "inflateEnd strm =
     (case strm of
        None \<Rightarrow> Inr (Z_STREAM_ERROR, None)
      | Some strm \<Rightarrow> (case state strm of
            None \<Rightarrow> Inl NullPointer
          | Some s \<Rightarrow> Inr (Z_OK, Some (strm\<lparr>state := None\<rparr>))))"

end
