(* ===== verification/Inf_Wait.thy ===== *)
theory Inf_Wait
  imports Inf_Fixed
begin

text \<open>
  Reads on input that arrives in pieces. A reader that has loaded a part of the stream either gets what
  it asks for or waits: the input is used up, no bit is lost, and the same read succeeds once more
  input is there.
\<close>

section \<open>A reader on a part of the stream\<close>

text \<open>
  \<open>V\<close> is the rest of the stream, of which the bits \<open>W\<close> are still to come. No whole byte is buffered, except when
  a read of \<open>n\<close> bits is waiting.
\<close>

definition bs_at :: "u8 list \<Rightarrow> nat \<Rightarrow> bool list \<Rightarrow> nat \<Rightarrow> bool list \<Rightarrow> Inf_BS \<Rightarrow> bool" where
  "bs_at mem e W n V bs \<longleftrightarrow> bs_ok mem e bs \<and> bs_bits mem bs @ W = V \<and> (bsize bs < 8 \<or> bsize bs < n)"

definition starved :: "u8 list \<Rightarrow> nat \<Rightarrow> bool list \<Rightarrow> nat \<Rightarrow> bool list \<Rightarrow> Inf_BS \<Rightarrow> bool" where
  "starved mem e W n V bs \<longleftrightarrow> bs_at mem e W n V bs \<and> inputPtr bs = e \<and> W \<noteq> []"

lemma bs_at_tight: "bs_at mem e W n V bs \<Longrightarrow> n \<le> 8 \<Longrightarrow> bs_at mem e W m V bs"
  by (auto simp: bs_at_def)

lemma bs_at_Nil: "bs_at mem e [] 0 V bs \<longleftrightarrow> bs_ok mem e bs \<and> bs_tight bs \<and> bs_bits mem bs = V"
  by (auto simp: bs_at_def bs_tight_def)

lemma starved_Nil [simp]: "\<not> starved mem e [] n V bs"
  by (simp add: starved_def)

definition field_read :: "u8 list \<Rightarrow> nat \<Rightarrow> bool list \<Rightarrow> nat \<Rightarrow> nat \<Rightarrow> bool list \<Rightarrow> (u32 option \<times> Inf_BS) res \<Rightarrow> bool" where
  "field_read mem e W n x R res \<longleftrightarrow> (\<exists>r bs. res = Inr (r, bs) \<and>
     (case r of None \<Rightarrow> starved mem e W n (bits_of n (of_nat x) @ R) bs | Some v \<Rightarrow> unat v = x \<and> bs_at mem e W 0 R bs))"

lemma read_field:
  assumes "bs_at mem e W n (bits_of n (of_nat x) @ R) bs" and "n \<le> 24" and "x < 2 ^ n"
  shows "field_read mem e W n x R (Inf_BS_ReadBits mem bs n)"
proof -
  have at: "bs_inv mem bs" "inputEnd bs = e" "bs_bits mem bs @ W = bits_of n (of_nat x) @ R" "bsize bs < 8 \<or> bsize bs < n"
    using assms(1) by (auto simp: bs_at_def bs_ok_def)
  obtain r bs' where r: "Inf_BS_ReadBits mem bs n = Inr (r, bs')" "bs_inv mem bs'" "inputEnd bs' = inputEnd bs"
     "if n \<le> length (bs_bits mem bs)
      then (\<exists>v. r = Some v \<and> take_bit n v = v \<and> bits_of n v = take n (bs_bits mem bs)) \<and>
           bs_bits mem bs' = drop n (bs_bits mem bs) \<and> bsize bs' + n < max (bsize bs + 1) (n + 8)
      else r = None \<and> bs_bits mem bs' = bs_bits mem bs \<and> inputPtr bs' = inputEnd bs'"
    using read_bits [OF at(1) assms(2)] by (auto split: if_splits)
  show ?thesis
  proof (cases "n \<le> length (bs_bits mem bs)")
    case True
    with r(4) obtain v where v: "r = Some v" "take_bit n v = v" "bits_of n v = take n (bs_bits mem bs)"
        "bs_bits mem bs' = drop n (bs_bits mem bs)" "bsize bs' + n < max (bsize bs + 1) (n + 8)" by auto
    have "take n (bs_bits mem bs) = bits_of n (of_nat x)" "drop n (bs_bits mem bs) @ W = R"
      using arg_cong [OF at(3), of "take n"] arg_cong [OF at(3), of "drop n"] True by simp_all
    moreover have "take_bit n (of_nat x :: u32) = of_nat x" using assms(2,3) by (simp add: take_bit_of_nat_small)
    ultimately have "v = of_nat x" using bits_of_inject [of n v] v(2,3) by simp
    moreover have "x < 2 ^ 32" using assms(2,3) power_increasing [of n 32 "2 :: nat"] by linarith
    ultimately have "unat v = x" by (simp add: unat_of_nat take_bit_eq_mod)
    moreover have "bs_at mem e W 0 R bs'"
      using r(2,3) v(4,5) at(2,4) \<open>drop n (bs_bits mem bs) @ W = R\<close> by (auto simp: bs_at_def bs_ok_def max_def split: if_splits)
    ultimately show ?thesis using r(1) v(1) by (auto simp: field_read_def)
  next
    case False
    then have n: "r = None" "bs_bits mem bs' = bs_bits mem bs" "inputPtr bs' = inputEnd bs'" using r(4) by auto
    have "bsize bs' < n" using length_bs_bits [OF r(2)] n(2) False by simp
    moreover have "W \<noteq> []" using arg_cong [OF at(3), of length] False by auto
    ultimately show ?thesis using r(1-3) n at(2,3) by (simp add: field_read_def starved_def bs_at_def bs_ok_def)
  qed
qed

section \<open>Symbols\<close>

text \<open>A table that decodes the symbols \<open>S\<close> of a code.\<close>

definition table_reads :: "huff_table \<Rightarrow> (nat \<Rightarrow> bool list) \<Rightarrow> nat set \<Rightarrow> bool" where
  "table_reads t code S \<longleftrightarrow> (\<exists>xs. code_ok xs \<and> table_for t xs \<and>
     (\<forall>s \<in> S. \<exists>i < length xs. fst (xs ! i) = s \<and> code s = codeword xs i))"

lemma fixed_tables_read: "table_reads fixed_lit_table fixed_lit_code {..<288}" "table_reads fixed_dist_table fixed_dist_code {..<32}"
proof -
  have "\<exists>i < length fixed_lit_pairs. fst (fixed_lit_pairs ! i) = s \<and> fixed_lit_code s = codeword fixed_lit_pairs i" if "s < 288" for s
    using fixed_lit_codeword [OF that] by metis
  then show "table_reads fixed_lit_table fixed_lit_code {..<288}"
    unfolding table_reads_def using fixed_pairs_ok(1) fixed_tables(2) by blast
  have "\<exists>i < length fixed_dist_pairs. fst (fixed_dist_pairs ! i) = s \<and> fixed_dist_code s = codeword fixed_dist_pairs i" if "s < 32" for s
    using fixed_dist_codeword [OF that] by metis
  then show "table_reads fixed_dist_table fixed_dist_code {..<32}"
    unfolding table_reads_def using fixed_pairs_ok(2) fixed_tables(4) by blast
qed

lemma code_table_reads: "code_ok (code_of ls) \<Longrightarrow> table_for t (code_of ls) \<Longrightarrow> table_reads t (sym_code ls) (symbols_of ls)"
  unfolding table_reads_def using sym_index_ok [of _ ls] by (auto simp: sym_code_def intro!: exI [of _ "code_of ls"])

lemma table_reads_pos:
  assumes "table_reads t code S" and "s \<in> S"
  shows "0 < length (code s)"
proof -
  obtain xs i where xs: "code_ok xs" "i < length xs" "code s = codeword xs i" using assms by (auto simp: table_reads_def)
  have "1 \<le> snd (xs ! i)" using code_interval(1) [OF xs(1,2)] by (metis prod.collapse)
  then show ?thesis by (simp add: xs(3) codeword_def)
qed

definition symbol_or_wait :: "u8 list \<Rightarrow> nat \<Rightarrow> bool list \<Rightarrow> bool list \<Rightarrow> nat \<Rightarrow> bool list \<Rightarrow> (nat option \<times> Inf_BS) res \<Rightarrow> bool" where
  "symbol_or_wait mem e W cw s R res \<longleftrightarrow> (\<exists>r bs. res = Inr (r, bs) \<and>
     (case r of None \<Rightarrow> starved mem e W (length cw) (cw @ R) bs | Some s' \<Rightarrow> s' = s \<and> bs_at mem e W 0 R bs))"

lemma read_symbol:
  assumes "table_reads t code S" and "s \<in> S" and "bs_at mem e W (length (code s)) (code s @ R) bs"
  shows "symbol_or_wait mem e W (code s) s R (Inf_BS_ReadEncodedBits mem bs t)"
proof -
  obtain xs i where xs: "code_ok xs" "table_for t xs" "i < length xs" "fst (xs ! i) = s" "code s = codeword xs i"
    using assms(1,2) by (auto simp: table_reads_def)
  obtain l where l: "xs ! i = (s, l)" using xs(4) by (metis prod.collapse)
  have at: "bs_inv mem bs" "inputEnd bs = e" "bs_bits mem bs @ W = code s @ R" "bsize bs < 8 \<or> bsize bs < length (code s)"
    using assms(3) by (auto simp: bs_at_def bs_ok_def)
  have face: "facing (codeword xs i) (bs_bits mem bs)"
    unfolding facing_def xs(5) [symmetric] using at(3) by (metis prefixI prefix_order.le_less prefix_same_cases)
  obtain r bs' where r: "Inf_BS_ReadEncodedBits mem bs t = Inr (r, bs')" "bs_inv mem bs'" "inputEnd bs' = inputEnd bs"
     "if prefix (code s) (bs_bits mem bs)
      then r = Some s \<and> bs_bits mem bs' = drop (length (code s)) (bs_bits mem bs) \<and>
           (if length (code s) \<le> bsize bs then bsize bs' = bsize bs - length (code s) else bsize bs' < 8)
      else r = None \<and> bs_bits mem bs' = bs_bits mem bs \<and> inputPtr bs' = inputEnd bs'"
    using ReadEncodedBits_ok [OF xs(1,3) l xs(2) at(1) face] unfolding symbol_read_def xs(5) [symmetric] by blast
  show ?thesis
  proof (cases "prefix (code s) (bs_bits mem bs)")
    case True
    then obtain zs where zs: "bs_bits mem bs = code s @ zs" by (auto simp: prefix_def)
    with r(4) True at(3,4) have "r = Some s" "bs_bits mem bs' @ W = R" "bsize bs' < 8" by (auto split: if_splits)
    with r at(2) show ?thesis by (simp add: symbol_or_wait_def bs_at_def bs_ok_def)
  next
    case False
    then have n: "r = None" "bs_bits mem bs' = bs_bits mem bs" "inputPtr bs' = inputEnd bs'" using r(4) by auto
    have sp: "strict_prefix (bs_bits mem bs) (code s)" using face False xs(5) by (simp add: facing_def)
    then have "bsize bs' < length (code s)" using length_bs_bits [OF r(2)] n(2) prefix_length_less [OF sp] by simp
    moreover have "W \<noteq> []" using arg_cong [OF at(3), of length] prefix_length_less [OF sp] by auto
    ultimately show ?thesis using r(1-3) n at(2,3) by (simp add: symbol_or_wait_def starved_def bs_at_def bs_ok_def)
  qed
qed

end
