(* ===== verification/Inf_Symlens.thy ===== *)
theory Inf_Symlens
  imports Inf_Wait
begin

text \<open>
  The code lengths of a dynamic block as \<^verbatim>\<open>Inf_SLList\<close> reads them (\<^verbatim>\<open>inflater.c\<close>, lines 302-390): the
  three-bit lengths of the command code, and the commands that give the lengths of the two other codes.
  The lists that result represent the symbols of the codes of the format specification. Both loops can be
  interrupted by the end of the input after any field and continue from there.
\<close>

section \<open>The lengths of the command code\<close>

lemma symbolOrder_eq: "symbolOrder = cl_order"
  by (simp add: symbolOrder_def cl_order_def)

text \<open>The first \<open>n\<close> lengths, in the order of transmission, are in the table.\<close>

definition has_lengths :: "Inf_SLList \<Rightarrow> nat list \<Rightarrow> nat \<Rightarrow> bool" where
  "has_lengths list cls n \<longleftrightarrow> (\<forall>j < n. lengthsBySymbol list (cl_order ! j) = Some (cls ! j))"

lemma has_lengths_step:
  assumes "has_lengths list cls n" and "n < 19" and "x = cls ! n"
  shows "has_lengths (list\<lparr>lengthsBySymbol := (lengthsBySymbol list)(cl_order ! n := Some x), symbol := m\<rparr>) cls (Suc n)"
  using assms cl_order_distinct by (auto simp: has_lengths_def nth_eq_iff_index_eq less_Suc_eq)

text \<open>The bits of the lengths from the \<open>i\<close>-th on.\<close>

definition cls_bits :: "nat list \<Rightarrow> nat \<Rightarrow> bool list" where
  "cls_bits cls i = concat (map (\<lambda>l. bits_of 3 (of_nat l)) (drop i cls))"

lemma cls_bits_step: "i < length cls \<Longrightarrow> cls_bits cls i = bits_of 3 (of_nat (cls ! i)) @ cls_bits cls (Suc i)"
  by (simp add: cls_bits_def flip: Cons_nth_drop_Suc)

lemma cls_bits_end [simp]: "cls_bits cls (length cls) = []"
  by (simp add: cls_bits_def)

definition read3_result :: "u8 list \<Rightarrow> nat \<Rightarrow> bool list \<Rightarrow> nat list \<Rightarrow> bool list \<Rightarrow> Inf_SLList \<Rightarrow> (bool \<times> Inf_SLList \<times> Inf_BS) res \<Rightarrow> bool" where
  "read3_result mem e W cls R list res \<longleftrightarrow> (\<exists>complete lbs j bs. res = Inr (complete, list\<lparr>lengthsBySymbol := lbs, symbol := j\<rparr>, bs) \<and>
     has_lengths (list\<lparr>lengthsBySymbol := lbs, symbol := j\<rparr>) cls j \<and> j \<le> length cls \<and>
     (if complete then j = length cls \<and> bs_at mem e W 0 R bs else starved mem e W 3 (cls_bits cls j @ R) bs))"

lemma sl_read3_ok:
  assumes "bs_at mem e W 3 (cls_bits cls (symbol list) @ R) bs" and "symbol list \<le> length cls" and "length cls \<le> 19"
    and "\<forall>l \<in> set cls. l < 8" and "has_lengths list cls (symbol list)"
  shows "read3_result mem e W cls R list (sl_read3 mem list bs (length cls))"
  using assms
proof (induction "length cls - symbol list" arbitrary: list bs)
  case 0
  then have n: "symbol list = length cls" by simp
  with 0 have "bs_at mem e W 0 R bs" using bs_at_tight [of mem e W 3 R bs 0] by simp
  moreover have "list\<lparr>lengthsBySymbol := lengthsBySymbol list, symbol := length cls\<rparr> = list" using n by simp
  ultimately show ?case unfolding read3_result_def using n 0(6)
    by (subst sl_read3.simps) (intro exI [of _ True] exI [of _ "lengthsBySymbol list"] exI [of _ "length cls"] exI [of _ bs], simp add: has_lengths_def)
next
  case (Suc k)
  let ?n = "symbol list"
  have n: "?n < length cls" "?n < 19" using Suc.hyps(2) Suc.prems(3) by linarith+
  have x: "cls ! ?n < 2 ^ 3" using Suc.prems(4) n(1) by simp
  have "field_read mem e W 3 (cls ! ?n) (cls_bits cls (Suc ?n) @ R) (Inf_BS_ReadBits mem bs 3)"
    by (rule read_field) (use Suc.prems(1) x n(1) in \<open>simp_all add: cls_bits_step\<close>)
  then obtain r b1 where b1: "Inf_BS_ReadBits mem bs 3 = Inr (r, b1)"
      "case r of None \<Rightarrow> starved mem e W 3 (cls_bits cls ?n @ R) b1 | Some v \<Rightarrow> unat v = cls ! ?n \<and> bs_at mem e W 0 (cls_bits cls (Suc ?n) @ R) b1"
    unfolding field_read_def cls_bits_step [OF n(1)] append_assoc by blast
  show ?case
  proof (cases r)
    case None
    have "list\<lparr>lengthsBySymbol := lengthsBySymbol list, symbol := ?n\<rparr> = list" by simp
    then show ?thesis unfolding read3_result_def using None b1 n Suc.prems(5)
      by (subst sl_read3.simps) (intro exI [of _ False] exI [of _ "lengthsBySymbol list"] exI [of _ ?n] exI [of _ b1], simp)
  next
    case (Some v)
    let ?l = "list\<lparr>lengthsBySymbol := (lengthsBySymbol list)(cl_order ! ?n := Some (cls ! ?n)), symbol := ?n + 1\<rparr>"
    have hl: "has_lengths ?l cls (symbol ?l)" using has_lengths_step [OF Suc.prems(5) n(2) refl] by simp
    have k: "k = length cls - symbol ?l" using Suc.hyps(2) by simp
    have "bs_at mem e W 3 (cls_bits cls (symbol ?l) @ R) b1" using b1(2) Some bs_at_tight [of mem e W 0 _ b1 3] by simp
    from Suc.hyps(1) [OF k this _ Suc.prems(3,4) hl] n(1)
    have "read3_result mem e W cls R ?l (sl_read3 mem ?l b1 (length cls))" by simp
    moreover have "sl_read3 mem list bs (length cls) = sl_read3 mem ?l b1 (length cls)"
      using n b1 Some x by (subst sl_read3.simps) (simp add: symbolOrder_eq Inf_SymlenSequenceSize_def)
    ultimately show ?thesis by (simp add: read3_result_def)
  qed
qed

lemma sl_zero3_ok:
  assumes "symbol list \<le> 19" and "has_lengths list ls (symbol list)" and "\<forall>j < 19. symbol list \<le> j \<longrightarrow> ls ! j = 0"
  shows "\<exists>lbs. sl_zero3 list = list\<lparr>lengthsBySymbol := lbs, symbol := 19\<rparr> \<and>
     has_lengths (list\<lparr>lengthsBySymbol := lbs, symbol := 19\<rparr>) ls 19"
  using assms
proof (induction "19 - symbol list" arbitrary: list)
  case 0
  then show ?case by (subst sl_zero3.simps)
      (auto intro!: exI [of _ "lengthsBySymbol list"] simp: has_lengths_def Inf_SymlenSequenceSize_def)
next
  case (Suc k)
  let ?n = "symbol list"
  let ?l = "list\<lparr>lengthsBySymbol := (lengthsBySymbol list)(cl_order ! ?n := Some 0), symbol := ?n + 1\<rparr>"
  have n: "?n < 19" using Suc.hyps(2) by linarith
  have "has_lengths ?l ls (symbol ?l)" using has_lengths_step [OF Suc.prems(2) n, of 0] Suc.prems(3) n by simp
  moreover have "k = 19 - symbol ?l" using Suc.hyps(2) by simp
  ultimately obtain lbs where "sl_zero3 ?l = ?l\<lparr>lengthsBySymbol := lbs, symbol := 19\<rparr>"
    "has_lengths (?l\<lparr>lengthsBySymbol := lbs, symbol := 19\<rparr>) ls 19"
    using Suc.hyps(1) [of ?l] Suc.prems(3) n by auto
  moreover have "sl_zero3 list = sl_zero3 ?l"
    using n by (subst sl_zero3.simps) (simp add: symbolOrder_eq Inf_SymlenSequenceSize_def)
  ultimately show ?case by auto
qed

text \<open>Adding the next symbol of an alphabet with its length.\<close>

lemma AddSymlen_next:
  assumes "sl_rep list (code_pairs ls)" and "length ls \<le> Inf_LastValidSymbol" and "l \<le> 15"
  shows "\<exists>list'. Inf_SLList_AddSymlen list (length ls) l = Inr list' \<and> sl_rep list' (code_pairs (ls @ [l]))"
proof (cases "l = 0")
  case False
  then show ?thesis
    using AddSymlen_ok [OF assms(1), of "length ls" l] assms(2,3) length_code_pairs [of ls] by (simp add: Inf_LastValidLength_def)
qed (use assms in \<open>simp add: AddSymlen_zero\<close>)

lemma sl_add3_ok:
  assumes "sl_rep list (code_pairs (take s ls))" and "\<forall>j < 19. lengthsBySymbol list j = Some (ls ! j)" and "length ls = 19"
    and "\<forall>l \<in> set ls. l \<le> 15" and "s \<le> 19"
  shows "\<exists>list'. sl_add3 list s = Inr list' \<and> sl_rep list' (code_pairs ls)"
  using assms
proof (induction "19 - s" arbitrary: list s)
  case 0
  then show ?case by (subst sl_add3.simps) (simp add: Inf_SymlenSequenceSize_def)
next
  case (Suc k)
  have s: "s < 19" using Suc.hyps(2) by linarith
  have t: "take (Suc s) ls = take s ls @ [ls ! s]" using s Suc.prems(3) by (simp add: take_Suc_conv_app_nth)
  have len: "length (take s ls) = s" "ls ! s \<le> 15" using s Suc.prems(3,4) by auto
  obtain l1 where l1: "Inf_SLList_AddSymlen list s (ls ! s) = Inr l1" "sl_rep l1 (code_pairs (take (Suc s) ls))"
    using AddSymlen_next [OF Suc.prems(1), of "ls ! s"] len s t by (auto simp: Inf_LastValidSymbol_def)
  have "lengthsBySymbol l1 = lengthsBySymbol list" using AddSymlen_frame [OF l1(1)] by simp
  moreover have "k = 19 - Suc s" using Suc.hyps(2) by simp
  ultimately obtain list' where l2: "sl_add3 l1 (s + 1) = Inr list'" "sl_rep list' (code_pairs ls)"
    using Suc.hyps(1) [OF _ l1(2)] Suc.prems(2-5) s by auto
  have "(if ls ! s > 0 then Inf_SLList_AddSymlen list s (ls ! s) else Inr list) = Inr l1"
    using l1(1) AddSymlen_zero [of s list] s by (auto simp: Inf_LastValidSymbol_def)
  with l2 Suc.prems(2) s show ?case by (subst sl_add3.simps) (simp add: Inf_SymlenSequenceSize_def)
qed

lemma sl_rep_update [simp]:
  "sl_rep (list\<lparr>symbol := s\<rparr>) adds = sl_rep list adds" "sl_rep (list\<lparr>lengthsBySymbol := b\<rparr>) adds = sl_rep list adds"
  "sl_rep (list\<lparr>repetitions := n\<rparr>) adds = sl_rep list adds" "sl_rep (list\<lparr>huffmanLength := n\<rparr>) adds = sl_rep list adds"
  "sl_rep (list\<lparr>command := n\<rparr>) adds = sl_rep list adds"
  by (simp_all add: sl_rep_def)

lemma front_lens_le:
  assumes "\<forall>l \<in> set cls. l < 8" and "length cls \<le> 19" and "l \<in> set (front_lens cls)"
  shows "l \<le> 15"
proof -
  obtain s where s: "s < 19" "l = front_lens cls ! s" using assms(3) by (auto simp: in_set_conv_nth)
  have "s \<in> set cl_order" using s(1) cl_order_distinct(3) by simp
  then obtain j where j: "j < 19" "s = cl_order ! j" using cl_order_distinct(2) by (metis in_set_conv_nth)
  have "front_lens cls ! s = (cls @ replicate (19 - length cls) 0) ! j" using front_lens_nth [OF j(1) assms(2)] j(2) by simp
  moreover have "(cls @ replicate (19 - length cls) 0) ! j \<in> set (cls @ replicate (19 - length cls) 0)"
    by (rule nth_mem) (use assms(2) j in simp)
  ultimately show ?thesis using s(2) assms(1) by (auto split: if_splits)
qed

text \<open>
  The list while the lengths are read: \<open>i\<close> of them are in the table. When it is complete, the symbols are added.
\<close>

definition sl_front :: "Inf_SLList \<Rightarrow> nat list \<Rightarrow> nat \<Rightarrow> bool" where
  "sl_front list cls i \<longleftrightarrow> sl_rep list [] \<and> symbol list = i \<and> i \<le> length cls \<and> has_lengths list cls i"

lemma Add3BitSymlens_ok:
  assumes front: "sl_front list cls i" and at: "bs_at mem e W 3 (cls_bits cls i @ R) bs"
    and cls: "4 \<le> length cls" "length cls \<le> 19" "\<forall>l \<in> set cls. l < 8"
  shows "\<exists>complete list' bs'. Inf_SLList_Add3BitSymlens mem list bs (length cls) = Inr (complete, list', bs') \<and>
     (if complete then sl_rep list' (code_pairs (front_lens cls)) \<and> bs_at mem e W 0 R bs'
      else \<exists>j. sl_front list' cls j \<and> starved mem e W 3 (cls_bits cls j @ R) bs')"
proof -
  let ?all = "cls @ replicate (19 - length cls) 0"
  have idle: "sl_rep list []" "symbol list = i" using front by (auto simp: sl_front_def)
  obtain complete lbs j bs' where r: "sl_read3 mem list bs (length cls) = Inr (complete, list\<lparr>lengthsBySymbol := lbs, symbol := j\<rparr>, bs')"
      "has_lengths (list\<lparr>lengthsBySymbol := lbs, symbol := j\<rparr>) cls j" "j \<le> length cls"
      "if complete then j = length cls \<and> bs_at mem e W 0 R bs' else starved mem e W 3 (cls_bits cls j @ R) bs'"
    using sl_read3_ok [of mem e W cls list R bs] front at cls by (auto simp: sl_front_def read3_result_def)
  let ?l1 = "list\<lparr>lengthsBySymbol := lbs, symbol := j\<rparr>"
  have ne: "cls \<noteq> []" and stop: "(if length cls < Inf_SymlenSequenceSize then length cls else Inf_SymlenSequenceSize) = length cls"
    using cls by (auto simp: Inf_SymlenSequenceSize_def)
  show ?thesis
  proof (cases complete)
    case False
    with r idle ne stop show ?thesis by (auto simp: Inf_SLList_Add3BitSymlens_def Let_def sl_front_def)
  next
    case True
    then have j: "j = length cls" "bs_at mem e W 0 R bs'" using r(4) by auto
    have "has_lengths ?l1 ?all (symbol ?l1)" using r(2) j(1) by (simp add: has_lengths_def nth_append)
    then obtain lbs2 where z: "sl_zero3 ?l1 = ?l1\<lparr>lengthsBySymbol := lbs2, symbol := 19\<rparr>"
        "has_lengths (?l1\<lparr>lengthsBySymbol := lbs2, symbol := 19\<rparr>) ?all 19"
      using sl_zero3_ok [of ?l1 ?all] cls(2) j(1) by (auto simp: nth_append)
    let ?l2 = "?l1\<lparr>lengthsBySymbol := lbs2, symbol := 19\<rparr>"
    have "lengthsBySymbol ?l2 s = Some (front_lens cls ! s)" if "s < 19" for s
    proof -
      have "s \<in> set cl_order" using that cl_order_distinct(3) by simp
      then obtain i where "i < 19" "s = cl_order ! i" using cl_order_distinct(2) by (metis in_set_conv_nth)
      then show ?thesis using z(2) front_lens_nth [of i cls] cls(2) by (simp add: has_lengths_def)
    qed
    then obtain list' where "sl_add3 ?l2 0 = Inr list'" "sl_rep list' (code_pairs (front_lens cls))"
      using sl_add3_ok [of ?l2 0 "front_lens cls"] idle(1) front_lens_le [OF cls(3,2)] by auto
    with r(1) z(1) ne stop True j show ?thesis by (auto simp: Inf_SLList_Add3BitSymlens_def Let_def)
  qed
qed

section \<open>The lengths of the literal and distance codes\<close>

text \<open>
  The list has the lengths \<open>ls\<close> of the first symbols; \<open>prev\<close> is the length that the next command may repeat,
  and it is due \<open>m\<close> more times.
\<close>

definition sl_at :: "Inf_SLList \<Rightarrow> nat list \<Rightarrow> nat \<Rightarrow> nat \<Rightarrow> bool" where
  "sl_at list ls prev m \<longleftrightarrow> sl_rep list (code_pairs ls) \<and> symbol list = length ls \<and> huffmanLength list = prev \<and>
     repetitions list = m \<and> command list = 0"

lemma sl_repeat_ok:
  assumes "sl_at list ls prev m" and "n \<le> Inf_LastValidSymbol + 1" and "prev \<le> 15"
  shows "\<exists>list'. sl_repeat list n = Inr list' \<and>
     sl_at list' (ls @ replicate (min m (n - length ls)) prev) prev (m - (n - length ls))"
  using assms
proof (induction m arbitrary: list ls)
  case 0
  then show ?case by (subst sl_repeat.simps) (simp add: sl_at_def)
next
  case (Suc m)
  have at: "sl_rep list (code_pairs ls)" "symbol list = length ls" "huffmanLength list = prev" "repetitions list = Suc m" "command list = 0"
    using Suc.prems(1) by (auto simp: sl_at_def)
  show ?case
  proof (cases "length ls < n")
    case True
    obtain l1 where l1: "Inf_SLList_AddSymlen list (length ls) prev = Inr l1" "sl_rep l1 (code_pairs (ls @ [prev]))"
      using AddSymlen_next [OF at(1) _ Suc.prems(3)] True Suc.prems(2) by auto
    let ?l = "l1\<lparr>symbol := length ls + 1, repetitions := m\<rparr>"
    have "sl_at ?l (ls @ [prev]) prev m" using l1(2) AddSymlen_frame [OF l1(1)] at by (simp add: sl_at_def)
    from Suc.IH [OF this Suc.prems(2,3)] obtain list' where "sl_repeat ?l n = Inr list'"
      "sl_at list' ((ls @ [prev]) @ replicate (min m (n - Suc (length ls))) prev) prev (m - (n - Suc (length ls)))" by auto
    moreover have "sl_repeat list n = sl_repeat ?l n" using True at l1(1) by (subst sl_repeat.simps) simp
    moreover have "n - length ls = Suc (n - Suc (length ls))" using True by simp
    ultimately show ?thesis by simp
  qed (use Suc.prems(1) at in \<open>subst sl_repeat.simps, simp\<close>)
qed

text \<open>
  A command may be pending: its symbol has been read, its argument has not. The bits and the lengths still to
  come, and the number of bits the next read takes.
\<close>

definition sl_pend :: "Inf_SLList \<Rightarrow> nat list \<Rightarrow> nat \<Rightarrow> nat \<Rightarrow> len_cmd option \<Rightarrow> bool" where
  "sl_pend list ls prev m p \<longleftrightarrow> sl_at (list\<lparr>command := 0\<rparr>) ls prev m \<and>
     (case p of None \<Rightarrow> command list = 0 | Some c \<Rightarrow> command list = cmd_symbol c \<and> m = 0 \<and> cmd_ok c \<and> cmd_extra c \<noteq> [])"

definition pend_cmds :: "len_cmd option \<Rightarrow> len_cmd list \<Rightarrow> len_cmd list" where
  "pend_cmds p cs = (case p of None \<Rightarrow> cs | Some c \<Rightarrow> c # cs)"

definition pend_bits :: "(nat \<Rightarrow> bool list) \<Rightarrow> len_cmd option \<Rightarrow> len_cmd list \<Rightarrow> bool list" where
  "pend_bits code p cs = (case p of None \<Rightarrow> [] | Some c \<Rightarrow> cmd_extra c) @ cmds_bits code cs"

definition pend_need :: "(nat \<Rightarrow> bool list) \<Rightarrow> len_cmd option \<Rightarrow> len_cmd list \<Rightarrow> nat" where
  "pend_need code p cs = (case p of Some c \<Rightarrow> length (cmd_extra c) | None \<Rightarrow> (case cs of [] \<Rightarrow> 0 | c # _ \<Rightarrow> length (code (cmd_symbol c))))"

lemma sl_pend_None: "sl_pend list ls prev m None \<longleftrightarrow> sl_at list ls prev m"
  by (auto simp: sl_pend_def sl_at_def)

lemma sl_command_ok:
  assumes at: "sl_at (list\<lparr>command := 0\<rparr>) ls prev 0" and cmd: "command list = cmd_symbol c" "cmd_ok c"
    and bs: "bs_at mem e W (length (cmd_extra c)) (cmd_extra c @ R) bs"
  shows "\<exists>complete list' bs'. sl_command mem list bs = Inr (complete, list', bs') \<and>
     (if complete then sl_at list' ls (cmd_len prev c) (cmd_times c) \<and> bs_at mem e W 0 R bs'
      else list' = list \<and> cmd_extra c \<noteq> [] \<and> starved mem e W (length (cmd_extra c)) (cmd_extra c @ R) bs')"
proof -
  have arg: "\<exists>r b. Inf_BS_ReadBits mem bs k = Inr (r, b) \<and> (case r of None \<Rightarrow> cmd_extra c \<noteq> [] \<and> starved mem e W (length (cmd_extra c)) (cmd_extra c @ R) b
       | Some v \<Rightarrow> unat v = x \<and> bs_at mem e W 0 R b)"
    if x: "cmd_extra c = bits_of k (of_nat x)" "x < 2 ^ k" "0 < k" "k \<le> 24" for k x
  proof -
    obtain r b where "Inf_BS_ReadBits mem bs k = Inr (r, b)"
        "case r of None \<Rightarrow> starved mem e W k (bits_of k (of_nat x) @ R) b | Some v \<Rightarrow> unat v = x \<and> bs_at mem e W 0 R b"
      using read_field [OF bs [unfolded x(1) length_bits_of] x(4,2)] unfolding field_read_def by blast
    moreover have "cmd_extra c \<noteq> []" "length (cmd_extra c) = k" unfolding length_0_conv [symmetric] using x(1,3) by simp_all
    ultimately show ?thesis using x(1) by (intro exI [of _ r] exI [of _ b]) (auto split: option.splits)
  qed
  show ?thesis
  proof (cases c)
    case (Len l)
    then show ?thesis using at cmd bs by (auto simp: sl_command_def sl_at_def)
  next
    case (Copy n)
    obtain r b where "Inf_BS_ReadBits mem bs 2 = Inr (r, b)" "case r of None \<Rightarrow> cmd_extra c \<noteq> [] \<and> starved mem e W (length (cmd_extra c)) (cmd_extra c @ R) b
       | Some v \<Rightarrow> unat v = n - 3 \<and> bs_at mem e W 0 R b"
      using arg [of 2 "n - 3"] Copy cmd(2) by (auto simp: less_diff_conv2)
    then show ?thesis using at cmd Copy by (cases r) (auto simp: sl_command_def sl_at_def)
  next
    case (Zeros n)
    define k base where kb: "k = (if n \<le> 10 then 3 else 7 :: nat)" "base = (if n \<le> 10 then 3 else 11 :: nat)"
    obtain r b where "Inf_BS_ReadBits mem bs k = Inr (r, b)" "case r of None \<Rightarrow> cmd_extra c \<noteq> [] \<and> starved mem e W (length (cmd_extra c)) (cmd_extra c @ R) b
       | Some v \<Rightarrow> unat v = n - base \<and> bs_at mem e W 0 R b"
      using arg [of k "n - base"] Zeros cmd(2) by (cases "n \<le> 10") (auto simp: kb less_diff_conv2 simp del: of_nat_diff)
    then show ?thesis using at cmd Zeros by (cases r; cases "n \<le> 10") (auto simp: sl_command_def sl_at_def kb)
  qed
qed

lemma sl_next_command_ok:
  assumes pend: "sl_pend list ls prev 0 p" and cs: "pend_cmds p cs = c # cs'" "cmd_ok c" "cmd_symbol c \<in> S"
    and t: "table_reads t code S" and bs: "bs_at mem e W (pend_need code p cs) (pend_bits code p cs @ R) bs"
  shows "\<exists>complete list' bs'. sl_next_command mem list bs t = Inr (complete, list', bs') \<and>
     (if complete then sl_at list' ls (cmd_len prev c) (cmd_times c) \<and> bs_at mem e W 0 (cmds_bits code cs' @ R) bs'
      else \<exists>q ds. sl_pend list' ls prev 0 q \<and> pend_cmds q ds = c # cs' \<and> starved mem e W (pend_need code q ds) (pend_bits code q ds @ R) bs')"
proof (cases p)
  case (Some c')
  then have c: "c' = c" "cs = cs'" using cs(1) by (auto simp: pend_cmds_def)
  then have at: "sl_at (list\<lparr>command := 0\<rparr>) ls prev 0" "command list = cmd_symbol c" "cmd_extra c \<noteq> []"
    using pend Some by (auto simp: sl_pend_def)
  have "command list \<noteq> 0" using at(2,3) by (cases c) auto
  then have run: "sl_next_command mem list bs t = sl_command mem list bs" by (simp add: sl_next_command_def)
  have "bs_at mem e W (length (cmd_extra c)) (cmd_extra c @ cmds_bits code cs' @ R) bs"
    using bs Some c by (simp add: pend_need_def pend_bits_def)
  from sl_command_ok [OF at(1,2) cs(2) this] obtain complete list' bs' where r: "sl_command mem list bs = Inr (complete, list', bs')"
     "if complete then sl_at list' ls (cmd_len prev c) (cmd_times c) \<and> bs_at mem e W 0 (cmds_bits code cs' @ R) bs'
      else list' = list \<and> cmd_extra c \<noteq> [] \<and> starved mem e W (length (cmd_extra c)) (cmd_extra c @ cmds_bits code cs' @ R) bs'" by blast
  have "\<not> complete \<Longrightarrow> sl_pend list' ls prev 0 p \<and> pend_cmds p cs = c # cs' \<and> starved mem e W (pend_need code p cs) (pend_bits code p cs @ R) bs'"
    using r(2) pend Some c by (simp add: pend_need_def pend_bits_def pend_cmds_def)
  then show ?thesis using r run by (cases complete) auto
next
  case None
  then have c: "cs = c # cs'" and at: "sl_at list ls prev 0" using cs(1) pend by (auto simp: pend_cmds_def sl_pend_None)
  have n: "pend_need code None cs = length (code (cmd_symbol c))"
      "pend_bits code None cs @ R = code (cmd_symbol c) @ cmd_extra c @ cmds_bits code cs' @ R"
    using c by (simp_all add: pend_need_def pend_bits_def)
  have "bs_at mem e W (length (code (cmd_symbol c))) (code (cmd_symbol c) @ cmd_extra c @ cmds_bits code cs' @ R) bs"
    using bs None n by simp
  from read_symbol [OF t cs(3) this] obtain r b1 where b1: "Inf_BS_ReadEncodedBits mem bs t = Inr (r, b1)"
      "case r of None \<Rightarrow> starved mem e W (pend_need code None cs) (pend_bits code None cs @ R) b1
       | Some s \<Rightarrow> s = cmd_symbol c \<and> bs_at mem e W 0 (cmd_extra c @ cmds_bits code cs' @ R) b1"
    unfolding n symbol_or_wait_def by blast
  show ?thesis
  proof (cases r)
    case None
    have "sl_next_command mem list bs t = Inr (False, list, b1)"
      using b1(1) None at by (simp add: sl_next_command_def sl_at_def)
    moreover have "sl_pend list ls prev 0 None \<and> pend_cmds None cs = c # cs' \<and>
        starved mem e W (pend_need code None cs) (pend_bits code None cs @ R) b1"
      using b1(2) None at c by (simp add: sl_pend_None pend_cmds_def)
    ultimately show ?thesis by auto
  next
    case (Some s)
    let ?l = "list\<lparr>command := cmd_symbol c\<rparr>"
    have s: "bs_at mem e W (length (cmd_extra c)) (cmd_extra c @ cmds_bits code cs' @ R) b1"
      using b1(2) Some bs_at_tight [of mem e W 0] by simp
    have l: "sl_at (?l\<lparr>command := 0\<rparr>) ls prev 0" using at by (simp add: sl_at_def)
    from sl_command_ok [OF l _ cs(2) s] obtain complete list' bs' where r: "sl_command mem ?l b1 = Inr (complete, list', bs')"
       "if complete then sl_at list' ls (cmd_len prev c) (cmd_times c) \<and> bs_at mem e W 0 (cmds_bits code cs' @ R) bs'
        else list' = ?l \<and> cmd_extra c \<noteq> [] \<and> starved mem e W (length (cmd_extra c)) (cmd_extra c @ cmds_bits code cs' @ R) bs'" by auto
    have "\<not> complete \<Longrightarrow> sl_pend list' ls prev 0 (Some c) \<and> pend_cmds (Some c) cs' = c # cs' \<and>
        starved mem e W (pend_need code (Some c) cs') (pend_bits code (Some c) cs' @ R) bs'"
      using r(2) l cs(2) by (simp add: pend_need_def pend_bits_def pend_cmds_def sl_pend_def)
    moreover have "sl_next_command mem list bs t = sl_command mem ?l b1"
      using b1 Some at by (simp add: sl_next_command_def sl_at_def)
    ultimately show ?thesis using r by (cases complete) auto
  qed
qed

text \<open>
  The list on its way through the lengths \<open>all\<close>: the lengths \<open>ls\<close> have been added, \<open>prev\<close> is due \<open>m\<close> times, and the rest is
  given by the pending command and the commands \<open>cs\<close>.
\<close>

definition sl_lens :: "nat set \<Rightarrow> nat list \<Rightarrow> Inf_SLList \<Rightarrow> nat list \<Rightarrow> nat \<Rightarrow> nat \<Rightarrow> len_cmd option \<Rightarrow> len_cmd list \<Rightarrow> bool" where
  "sl_lens S all list ls prev m p cs \<longleftrightarrow> sl_pend list ls prev m p \<and> prev \<le> 15 \<and>
     (\<forall>c \<in> set (pend_cmds p cs). cmd_ok c \<and> cmd_symbol c \<in> S) \<and> all = ls @ replicate m prev @ cmds_lens prev (pend_cmds p cs)"

text \<open>
  Reading up to the \<open>n\<close>-th symbol: complete, with what the last command gives too much still due, or waiting for
  input.
\<close>

definition lens_read :: "u8 list \<Rightarrow> nat \<Rightarrow> bool list \<Rightarrow> (nat \<Rightarrow> bool list) \<Rightarrow> nat set \<Rightarrow> nat list \<Rightarrow> nat \<Rightarrow> bool list \<Rightarrow>
     (bool \<times> Inf_SLList \<times> Inf_BS) res \<Rightarrow> bool" where
  "lens_read mem e W code S all n R res \<longleftrightarrow> (\<exists>complete list bs ls prev m p cs. res = Inr (complete, list, bs) \<and>
     sl_lens S all list ls prev m p cs \<and>
     (if complete then p = None \<and> length ls = n \<and> bs_at mem e W 0 (cmds_bits code cs @ R) bs
      else m = 0 \<and> length ls < n \<and> starved mem e W (pend_need code p cs) (pend_bits code p cs @ R) bs))"

lemma AddEncodedSymlens_due:
  assumes lens: "sl_lens S all list ls prev m None cs" and n: "0 < n" "n \<le> Inf_LastValidSymbol + 1" "length ls \<le> n" "n - length ls \<le> m"
    and bs: "bs_at mem e W 0 (cmds_bits code cs @ R) bs"
  shows "lens_read mem e W code S all n R (Inf_SLList_AddEncodedSymlens mem list bs n t)"
proof -
  let ?k = "n - length ls"
  have at: "sl_at list ls prev m" "prev \<le> 15" using lens by (auto simp: sl_lens_def sl_pend_None)
  obtain l1 where l1: "sl_repeat list n = Inr l1" "sl_at l1 (ls @ replicate (min m ?k) prev) prev (m - ?k)"
    using sl_repeat_ok [OF at(1) n(2) at(2)] by blast
  have m: "min m ?k = ?k" "m = ?k + (m - ?k)" using n(4) by auto
  let ?l = "if length ls < n then l1 else list"
  have "Inf_SLList_AddEncodedSymlens mem list bs n t = Inr (True, ?l, bs)"
    using l1 m(1) at n by (subst Inf_SLList_AddEncodedSymlens.simps) (auto simp: sl_at_def)
  moreover have "sl_at ?l (ls @ replicate ?k prev) prev (m - ?k)" using l1(2) m(1) at n(3) by auto
  moreover have "replicate m prev = replicate ?k prev @ replicate (m - ?k) prev" using m(2) by (metis replicate_add)
  ultimately show ?thesis unfolding lens_read_def sl_lens_def
    using lens n(3) bs by (intro exI [of _ True] exI [of _ ?l] exI [of _ bs] exI [of _ "ls @ replicate ?k prev"] exI [of _ prev]
        exI [of _ "m - ?k"] exI [of _ None] exI [of _ cs]) (simp add: sl_lens_def sl_pend_None)
qed

lemma AddEncodedSymlens_ok:
  assumes t: "table_reads t code S" and n: "0 < n" "n \<le> Inf_LastValidSymbol + 1" "n \<le> length all"
  shows "sl_lens S all list ls prev m p cs \<Longrightarrow> length ls \<le> n \<Longrightarrow> p = None \<or> length ls < n \<Longrightarrow>
     bs_at mem e W (if m = 0 \<and> length ls < n then pend_need code p cs else 0) (pend_bits code p cs @ R) bs \<Longrightarrow>
     lens_read mem e W code S all n R (Inf_SLList_AddEncodedSymlens mem list bs n t)"
proof (induction "pend_cmds p cs" arbitrary: list ls prev m p cs bs)
  case Nil
  then have p: "p = None" "cs = []" by (auto simp: pend_cmds_def split: option.splits)
  have "bs_at mem e W 0 (cmds_bits code cs @ R) bs" using Nil.prems(4) p by (simp add: pend_need_def pend_bits_def split: if_splits)
  moreover have "n - length ls \<le> m" using Nil.prems(1) n(3) p by (auto simp: sl_lens_def pend_cmds_def)
  ultimately show ?case using AddEncodedSymlens_due [OF _ n(1,2) Nil.prems(2)] Nil.prems(1) p by simp
next
  case (Cons c cs')
  have pend: "sl_pend list ls prev m p" "prev \<le> 15" "cmd_ok c" "cmd_symbol c \<in> S"
      "\<forall>c \<in> set cs'. cmd_ok c \<and> cmd_symbol c \<in> S" "all = ls @ replicate m prev @ cmds_lens prev (c # cs')"
    using Cons.prems(1) Cons.hyps(2) [symmetric] by (auto simp: sl_lens_def)
  show ?case
  proof (cases "n - length ls \<le> m")
    case True
    then have p: "p = None" using Cons.prems(3) pend(1) by (auto simp: sl_pend_def split: option.splits)
    have "bs_at mem e W 0 (cmds_bits code cs @ R) bs"
      using Cons.prems(2,4) p True by (auto simp: pend_bits_def split: if_splits)
    then show ?thesis using AddEncodedSymlens_due [OF _ n(1,2) Cons.prems(2) True] Cons.prems(1) p by simp
  next
    case False
    let ?ls = "ls @ replicate m prev"
    have "\<exists>l1. sl_repeat list n = Inr l1 \<and> sl_pend l1 ?ls prev 0 p"
    proof (cases p)
      case None
      then show ?thesis using sl_repeat_ok [OF _ n(2) pend(2)] pend(1) False by (fastforce simp: sl_pend_None min_absorb1)
    next
      case (Some c')
      then have "m = 0" "repetitions list = 0" using pend(1) by (auto simp: sl_pend_def sl_at_def)
      then show ?thesis using pend(1) by (subst sl_repeat.simps) simp
    qed
    then obtain l1 where l1: "sl_repeat list n = Inr l1" "sl_pend l1 ?ls prev 0 p" by blast
    have "bs_at mem e W (pend_need code p cs) (pend_bits code p cs @ R) bs"
      using Cons.prems(4) bs_at_tight [of mem e W 0 _ bs] by (auto split: if_splits)
    from sl_next_command_ok [OF l1(2) Cons.hyps(2) [symmetric] pend(3,4) t this]
    obtain complete l2 b2 where l2: "sl_next_command mem l1 bs t = Inr (complete, l2, b2)"
       "if complete then sl_at l2 ?ls (cmd_len prev c) (cmd_times c) \<and> bs_at mem e W 0 (cmds_bits code cs' @ R) b2
        else \<exists>q ds. sl_pend l2 ?ls prev 0 q \<and> pend_cmds q ds = c # cs' \<and> starved mem e W (pend_need code q ds) (pend_bits code q ds @ R) b2" by blast
    have len: "symbol list < n" "symbol l1 < n" "repetitions l1 = 0"
      using pend(1) l1(2) False by (auto simp: sl_pend_def sl_at_def)
    show ?thesis
    proof (cases complete)
      case True
      have p: "cmd_len prev c \<le> 15" using pend(2,3) by (cases c) auto
      have "sl_lens S all l2 ?ls (cmd_len prev c) (cmd_times c) None cs'"
        using l2(2) True p pend(5,6) by (simp add: sl_lens_def sl_pend_None pend_cmds_def)
      moreover have "bs_at mem e W m' (pend_bits code None cs' @ R) b2" for m'
        using l2(2) True bs_at_tight [of mem e W 0 _ b2 m'] by (simp add: pend_bits_def)
      ultimately have "lens_read mem e W code S all n R (Inf_SLList_AddEncodedSymlens mem l2 b2 n t)"
        using Cons.hyps(1) [of None cs' l2 ?ls "cmd_len prev c" "cmd_times c" b2] False by (simp add: pend_cmds_def)
      moreover have "Inf_SLList_AddEncodedSymlens mem list bs n t = Inf_SLList_AddEncodedSymlens mem l2 b2 n t"
        using l1(1) l2(1) len n(1) True by (subst Inf_SLList_AddEncodedSymlens.simps) simp
      ultimately show ?thesis by simp
    next
      case wait: False
      then obtain q ds where q: "sl_pend l2 ?ls prev 0 q" "pend_cmds q ds = c # cs'" "starved mem e W (pend_need code q ds) (pend_bits code q ds @ R) b2"
        using l2(2) by auto
      have "Inf_SLList_AddEncodedSymlens mem list bs n t = Inr (False, l2, b2)"
        using l1(1) l2(1) len n(1) wait by (subst Inf_SLList_AddEncodedSymlens.simps) simp
      moreover have "sl_lens S all l2 ?ls prev 0 q ds" using q(1,2) pend by (simp add: sl_lens_def)
      ultimately show ?thesis using q(3) False unfolding lens_read_def
        by (intro exI [of _ False] exI [of _ l2] exI [of _ b2] exI [of _ ?ls] exI [of _ prev] exI [of _ 0] exI [of _ q] exI [of _ ds]) simp
    qed
  qed
qed

end
