(* ===== verification/Inf_Decode.thy ===== *)
theory Inf_Decode
  imports Inflater Inf_Symlens
begin

text \<open>
  What the loop of \<^verbatim>\<open>inflate\<close> does with a well-formed stream: it reads the blocks one after the other,
  the tokens of a compressed block in the codes of the block, and appends the text they stand for to
  the output.
\<close>

lemma inf_loop_step:
  "action (st r) = InfAction_ProcessNextChunk \<Longrightarrow> inf_switch mem we r = Inr r' \<Longrightarrow> inf_loop mem we r = inf_loop mem we r'"
  by (simp add: inf_loop.simps [of mem we r])

lemma inf_loop_done: "action (st r) \<noteq> InfAction_ProcessNextChunk \<Longrightarrow> inf_loop mem we r = Some (Inr r)"
  by (simp add: inf_loop.simps [of mem we r])

lemmas run_simps = set_bs_def inf_goto_def inf_FILL_INPUT_BUFFER_def inf_USE_OUTPUT_BUFFER_CONTENT_def

section \<open>The state between two steps\<close>

text \<open>
  What is constant during one call: the input region and the end of the input, the output region as it
  was, the first and one past the last position to write, and how many bytes the calls before produced.
\<close>

record inf_call =
  c_mem :: "u8 list"
  c_end :: nat
  c_out :: "u8 list"
  c_from :: nat
  c_to :: nat
  c_past :: nat

text \<open>
  A run that has produced the bytes \<open>h\<close>, in this and in earlier calls, and still has the bits \<open>view\<close>
  to read.
\<close>

definition decoding :: "inf_call \<Rightarrow> bool list \<Rightarrow> u8 list \<Rightarrow> inf_run \<Rightarrow> bool" where
  "decoding k view h r \<longleftrightarrow>
     action (st r) = InfAction_ProcessNextChunk \<and> bs_ok (c_mem k) (c_end k) (bitstream (st r)) \<and> bs_tight (bitstream (st r)) \<and>
     bs_bits (c_mem k) (bitstream (st r)) = view \<and> win_rep (outputBuf (st r)) h \<and> c_past k \<le> length h \<and>
     writePtr r = c_from k + (length h - c_past k) \<and> writePtr r \<le> c_to k \<and> c_to k \<le> length (c_out k) \<and>
     mem_write (c_from k) (drop (c_past k) h) (c_out k) = Inr (out r) \<and>
     sl_idle (sllist (st r)) \<and> statics_ok (statics r)"

text \<open>A text that the call has room for and that fits the window.\<close>

definition room_for :: "inf_call \<Rightarrow> u8 list \<Rightarrow> bool" where
  "room_for k h \<longleftrightarrow> c_from k + (length h - c_past k) \<le> c_to k \<and> length h \<le> Inf_Outbuf_size"

lemma room_for_mono: "room_for k h' \<Longrightarrow> length h \<le> length h' \<Longrightarrow> room_for k h"
  by (auto simp: room_for_def)

text \<open>Appending bytes to the output.\<close>

lemma decoding_write:
  assumes "decoding k view h r" and "c_from k + (length (h @ bs) - c_past k) \<le> c_to k"
  shows "\<exists>o'. mem_write (writePtr r) bs (out r) = Inr o' \<and> mem_write (c_from k) (drop (c_past k) (h @ bs)) (c_out k) = Inr o'"
proof -
  have w: "mem_write (c_from k) (drop (c_past k) h) (c_out k) = Inr (out r)"
    "writePtr r = c_from k + length (drop (c_past k) h)" "c_past k \<le> length h" "c_to k \<le> length (c_out k)"
    using assms(1) by (auto simp: decoding_def)
  have "writePtr r + length bs \<le> length (out r)"
    using mem_write_length [OF w(1)] w(2-4) assms(2) by simp
  then obtain o' where "mem_write (writePtr r) bs (out r) = Inr o'" using mem_write_ok by blast
  with mem_write_append [OF w(1), of bs] w show ?thesis by auto
qed

text \<open>The codes of a compressed block, and a run inside such a block.\<close>

record codes =
  lit_code :: "nat \<Rightarrow> bool list"
  lit_symbols :: "nat set"
  dist_code :: "nat \<Rightarrow> bool list"
  dist_symbols :: "nat set"

definition fixed_codes :: codes where
  "fixed_codes = \<lparr>lit_code = fixed_lit_code, lit_symbols = {..<288}, dist_code = fixed_dist_code, dist_symbols = {..<32}\<rparr>"

definition dyn_codes :: "dyn_header \<Rightarrow> codes" where
  "dyn_codes d = \<lparr>lit_code = sym_code (lit_lens d), lit_symbols = symbols_of (lit_lens d),
     dist_code = sym_code (dist_lens d), dist_symbols = symbols_of (dist_lens d)\<rparr>"

definition in_block :: "codes \<Rightarrow> inf_run \<Rightarrow> bool" where
  "in_block c r \<longleftrightarrow> cur r \<in> {InfStep_PROCESS_COMPRESSED_BLOCK, InfStep_Read_LiteralOrLength} \<and>
     (\<exists>t. decoder_table (statics r) (st r) (literalDecoder (st r)) = Inr t \<and> table_reads t (lit_code c) (lit_symbols c)) \<and>
     (\<exists>t. decoder_table (statics r) (st r) (distanceDecoder (st r)) = Inr t \<and> table_reads t (dist_code c) (dist_symbols c))"

lemma table_reads_source:
  assumes "table_reads t code S"
  shows "symbol_source (bs_ok mem e) (bs_bits mem) bs_tight (\<lambda>bs. Inf_BS_ReadEncodedBits mem bs t) code S"
proof -
  obtain xs where xs: "code_ok xs" "table_for t xs" "\<forall>s \<in> S. \<exists>i < length xs. fst (xs ! i) = s \<and> code s = codeword xs i"
    using assms by (auto simp: table_reads_def)
  show ?thesis
  proof unfold_locales
    fix bs c rest
    assume a: "bs_ok mem e bs" "c \<in> S" "bs_bits mem bs = code c @ rest"
    then obtain i where "i < length xs" "fst (xs ! i) = c" "code c = codeword xs i" using xs(3) by auto
    with table_symbol_enough [OF xs(1) this(1,2) xs(2) a(1)] a(3)
    show "\<exists>s'. Inf_BS_ReadEncodedBits mem bs t = Inr (Some c, s') \<and> bs_ok mem e s' \<and> (bs_tight bs \<longrightarrow> bs_tight s') \<and> bs_bits mem s' = rest"
      by simp
  next
    fix bs c
    assume a: "bs_ok mem e bs" "c \<in> S" "strict_prefix (bs_bits mem bs) (code c)"
    then obtain i where "i < length xs" "fst (xs ! i) = c" "code c = codeword xs i" using xs(3) by auto
    with table_symbol_short [OF xs(1) this(1) xs(2) a(1)] a(3)
    show "\<exists>s'. Inf_BS_ReadEncodedBits mem bs t = Inr (None, s') \<and> bs_ok mem e s' \<and> bs_bits mem s' = bs_bits mem bs" by simp
  qed
qed

lemma table_reads_symbol:
  assumes "table_reads t code S" and "bs_ok mem e bs" and "bs_tight bs" and "s \<in> S" and "bs_bits mem bs = code s @ rest"
  shows "\<exists>bs'. Inf_BS_ReadEncodedBits mem bs t = Inr (Some s, bs') \<and> bs_ok mem e bs' \<and> bs_tight bs' \<and> bs_bits mem bs' = rest"
  using symbol_source.symbol_enough [OF table_reads_source [OF assms(1)] assms(2,4,5)] assms(3) by blast

definition run_frame :: "inf_run \<Rightarrow> inf_run \<Rightarrow> bool" where
  "run_frame r r' \<longleftrightarrow> isLastBlock (st r') = isLastBlock (st r) \<and> rmsg r' = rmsg r"

lemma in_block_switch: "in_block c r \<Longrightarrow> inf_switch mem we r = step_Read_LiteralOrLength mem we r"
  by (auto simp: in_block_def inf_switch_def)

lemma decoder_table_cong:
  "huffmanTableA s' = huffmanTableA s \<Longrightarrow> huffmanTableB s' = huffmanTableB s \<Longrightarrow> decoder_table stat s' d = decoder_table stat s d"
  by (simp add: decoder_table_def split: option.split decoder.split)

lemma in_block_keep:
  assumes "in_block c r" and "cur r' = InfStep_Read_LiteralOrLength" and "statics r' = statics r"
    and "literalDecoder (st r') = literalDecoder (st r)" and "distanceDecoder (st r') = distanceDecoder (st r)"
    and "huffmanTableA (st r') = huffmanTableA (st r)" and "huffmanTableB (st r') = huffmanTableB (st r)"
  shows "in_block c r'"
  using assms decoder_table_cong [of "st r'" "st r"] by (simp add: in_block_def)

section \<open>One token\<close>

lemma literal_step:
  assumes d: "decoding k (lit_code c (unat b) @ rest) h r" and f: "in_block c r" and sym: "unat b \<in> lit_symbols c"
    and space: "room_for k (h @ [b])"
  shows "\<exists>r'. inf_switch (c_mem k) (c_to k) r = Inr r' \<and> decoding k rest (h @ [b]) r' \<and> in_block c r' \<and> run_frame r r'"
proof -
  let ?bs = "bitstream (st r)"
  have bs: "bs_ok (c_mem k) (c_end k) ?bs" "bs_tight ?bs" "bs_bits (c_mem k) ?bs = lit_code c (unat b) @ rest"
    using d by (auto simp: decoding_def)
  have b: "unat b < 256" using unsigned_less [of b, where ?'a = nat] by simp
  obtain tL where tL: "decoder_table (statics r) (st r) (literalDecoder (st r)) = Inr tL" "table_reads tL (lit_code c) (lit_symbols c)"
    using f by (auto simp: in_block_def)
  obtain bs1 where bs1: "Inf_BS_ReadEncodedBits (c_mem k) ?bs tL = Inr (Some (unat b), bs1)" "bs_ok (c_mem k) (c_end k) bs1"
      "bs_tight bs1" "bs_bits (c_mem k) bs1 = rest"
    using table_reads_symbol [OF tL(2) bs(1,2) sym bs(3)] by blast
  obtain ob where ob: "Inf_Outbuf_putc (outputBuf (st r)) b = Inr ob" "win_rep ob (h @ [b])"
    using hist.put_rep [of "outputBuf (st r)" h b] d by (auto simp: decoding_def)
  obtain o' where o': "mem_write (writePtr r) [b] (out r) = Inr o'" "mem_write (c_from k) (drop (c_past k) (h @ [b])) (c_out k) = Inr o'"
    using decoding_write [OF d, of "[b]"] space by (auto simp: room_for_def)
  have w: "writePtr r < c_to k" using d space by (auto simp: decoding_def room_for_def)
  let ?r = "inf_goto InfStep_Read_LiteralOrLength
      (r\<lparr>out := o', writePtr := writePtr r + 1, st := (st r)\<lparr>bitstream := bs1, lit := unat b, outputBuf := ob\<rparr>\<rparr>)"
  have "(of_nat (unat b) :: u8) = b" by simp
  then have "inf_switch (c_mem k) (c_to k) r = Inr ?r"
    using bs1(1) b ob(1) o'(1) w
    unfolding in_block_switch [OF f] step_Read_LiteralOrLength_def with_symbol_def tL(1)
    by (simp add: step_Read_LiteralOrLength2_def run_simps)
  moreover have "decoding k rest (h @ [b]) ?r"
    using d bs1 ob(2) o'(2) w by (auto simp: decoding_def inf_goto_def)
  moreover have "in_block c ?r" by (rule in_block_keep [OF f]) (simp_all add: inf_goto_def)
  ultimately show ?thesis by (auto simp: run_frame_def inf_goto_def)
qed

lemma inflater_tables:
  "lengthStarts = len_base" "lengthExtraBits = len_extra" "distanceStarts = dist_base" "distanceExtraBits = dist_extra"
  by (simp_all add: lengthStarts_def len_base_def lengthExtraBits_def len_extra_def distanceStarts_def dist_base_def
      distanceExtraBits_def dist_extra_def)

lemma array_get_tables:
  "k < 29 \<Longrightarrow> array_get lengthStarts k = Inr (len_base ! k)" "k < 29 \<Longrightarrow> array_get lengthExtraBits k = Inr (len_extra ! k)"
  "k < 30 \<Longrightarrow> array_get distanceStarts k = Inr (dist_base ! k)" "k < 30 \<Longrightarrow> array_get distanceExtraBits k = Inr (dist_extra ! k)"
  by (simp_all add: array_get_def inflater_tables)

text \<open>The four reads of a back reference.\<close>

lemma pair_read:
  assumes "bs_ok mem e bs" and "bs_tight bs" and "3 \<le> l" and "l \<le> 258" and "1 \<le> d" and "d \<le> 32768"
    and sym: "token_coded L D (Match d l)" and reads: "table_reads tL lc L" "table_reads tD dc D"
    and view: "bs_bits mem bs = coded_bits lc dc (Match d l) @ rest"
  shows "\<exists>b1 u b2 b3 v b4. Inf_BS_ReadEncodedBits mem bs tL = Inr (Some (257 + len_index l), b1) \<and>
     Inf_BS_ReadBits mem b1 (len_extra ! len_index l) = Inr (Some u, b2) \<and>
     Inf_BS_ReadEncodedBits mem b2 tD = Inr (Some (dist_index d), b3) \<and>
     Inf_BS_ReadBits mem b3 (dist_extra ! dist_index d) = Inr (Some v, b4) \<and>
     unat u + len_base ! len_index l = l \<and> unat v + dist_base ! dist_index d = d \<and>
     bs_ok mem e b4 \<and> bs_tight b4 \<and> bs_bits mem b4 = rest"
proof -
  note l = len_index_ok [OF assms(3,4)] and d = dist_index_ok [OF assms(5,6)]
  let ?u = "of_nat (l - len_base ! len_index l) :: u32" and ?v = "of_nat (d - dist_base ! dist_index d) :: u32"
  have x: "len_extra ! len_index l \<le> 24" "dist_extra ! dist_index d \<le> 24"
    using extras_le(1) [OF l(1)] extras_le(2) [OF d(1)] by simp_all
  have "token_source (bs_ok mem e) (bs_bits mem) bs_tight (Inf_BS_ReadBits mem) 24
      (\<lambda>bs. Inf_BS_ReadEncodedBits mem bs tL) (\<lambda>bs. Inf_BS_ReadEncodedBits mem bs tD) lc dc L D"
    using table_reads_source reads by (auto intro: token_source.intro bsr.bit_source_axioms)
  note read = token_source.read_pair [OF this assms(1,2)]
  have "take_bit (len_extra ! len_index l) ?u = ?u" "take_bit (dist_extra ! dist_index d) ?v = ?v"
    using take_bit_of_nat_small [OF l(3)] take_bit_of_nat_small [OF d(3)] x by simp_all
  moreover have "unat (of_nat x :: u32) = x" if "x \<le> 32768" for x
    using that by (simp add: unat_of_nat take_bit_eq_mod)
  then have "unat ?u + len_base ! len_index l = l" "unat ?v + dist_base ! dist_index d = d"
    using l(2) d(2) assms(4,6) by (simp_all del: of_nat_diff)
  ultimately show ?thesis
    using read [of "257 + len_index l" "dist_index d" "len_extra ! len_index l" ?u "dist_extra ! dist_index d" ?v rest]
      x sym view by (auto simp del: of_nat_diff)
qed

lemma match_step:
  assumes d: "decoding k (coded_bits (lit_code c) (dist_code c) (Match d l) @ rest) h r" and f: "in_block c r"
    and sym: "token_coded (lit_symbols c) (dist_symbols c) (Match d l)" and t: "token_ok h (Match d l)" and space: "room_for k (lz_copy h d l)"
  shows "\<exists>r'. inf_switch (c_mem k) (c_to k) r = Inr r' \<and> decoding k rest (lz_copy h d l) r' \<and> in_block c r' \<and> run_frame r r'"
proof -
  have tok: "3 \<le> l" "l \<le> 258" "1 \<le> d" "d \<le> length h" using t by auto
  have reach: "length h + l \<le> Inf_Outbuf_size" using space by (simp add: room_for_def)
  with tok have dl: "d \<le> 32768" "d < 32 * 1024" by (simp_all add: Inf_Outbuf_size_def)
  obtain tL tD where tab: "decoder_table (statics r) (st r) (literalDecoder (st r)) = Inr tL" "table_reads tL (lit_code c) (lit_symbols c)"
      "decoder_table (statics r) (st r) (distanceDecoder (st r)) = Inr tD" "table_reads tD (dist_code c) (dist_symbols c)"
    using f by (auto simp: in_block_def)
  have dt: "decoder_table (statics r) s (distanceDecoder (st r)) = Inr tD"
    if "huffmanTableA s = huffmanTableA (st r)" "huffmanTableB s = huffmanTableB (st r)" for s
    using tab(3) decoder_table_cong [OF that] by simp
  obtain b1 u b2 b3 v b4 where rd: "Inf_BS_ReadEncodedBits (c_mem k) (bitstream (st r)) tL = Inr (Some (257 + len_index l), b1)"
      "Inf_BS_ReadBits (c_mem k) b1 (len_extra ! len_index l) = Inr (Some u, b2)"
      "Inf_BS_ReadEncodedBits (c_mem k) b2 tD = Inr (Some (dist_index d), b3)"
      "Inf_BS_ReadBits (c_mem k) b3 (dist_extra ! dist_index d) = Inr (Some v, b4)"
      "unat u + len_base ! len_index l = l" "unat v + dist_base ! dist_index d = d"
      "bs_ok (c_mem k) (c_end k) b4" "bs_tight b4" "bs_bits (c_mem k) b4 = rest"
    using pair_read [OF _ _ tok(1-3) dl(1) sym tab(2,4), of "c_mem k" "c_end k" "bitstream (st r)" rest] d
    by (auto simp: decoding_def)
  obtain ys where ys: "lz_copy h d l = h @ ys" "length ys = l" using lz_copy_prefix by blast
  obtain o1 where o1: "mem_write (writePtr r) ys (out r) = Inr o1" "mem_write (c_from k) (drop (c_past k) (h @ ys)) (c_out k) = Inr o1"
    using decoding_write [OF d, of ys] space ys by (auto simp: room_for_def)
  have fits: "l \<le> c_to k - writePtr r" "writePtr r + l \<le> c_to k" "writePtr r + l \<le> length (out r)"
    using d space o1(1) ys(2) by (auto simp: decoding_def room_for_def mem_write_def split: if_splits)
  obtain ob where ob: "Inf_Outbuf_read (outputBuf (st r)) (out r) (writePtr r) d l = Inr (True, ob, o1)" "win_rep ob (lz_copy h d l)"
    using hist.copy_rep [of "outputBuf (st r)" h d l "writePtr r" "out r"] d tok reach fits o1(1) ys(1) by (auto simp: decoding_def)
  note idx = len_index_ok(1) [OF tok(1,2)] dist_index_ok(1) [OF tok(3) dl(1)]
  let ?r = "inf_goto InfStep_Read_LiteralOrLength
      (r\<lparr>out := o1, writePtr := writePtr r + l,
         st := (st r)\<lparr>bitstream := b4, lit := dist_index d, sequence_dist := d, sequence_len := 0, outputBuf := ob\<rparr>\<rparr>)"
  have "inf_switch (c_mem k) (c_to k) r = Inr ?r"
    using rd(1-6) idx ob(1) fits(1) dl tok(2)
    unfolding in_block_switch [OF f] step_Read_LiteralOrLength_def with_symbol_def tab(1)
    by (simp add: step_Read_LiteralOrLength2_def step_Read_LengthBits_def step_Read_Distance_def step_Read_DistanceBits_def
        step_OUTPUT_SEQUENCE_def with_bits_def with_symbol_def dt array_get_tables run_simps Let_def)
  moreover have "decoding k rest (lz_copy h d l) ?r"
    using d rd(7-9) ob(2) o1(2) fits(2) ys by (auto simp: decoding_def inf_goto_def)
  moreover have "in_block c ?r" by (rule in_block_keep [OF f]) (simp_all add: inf_goto_def)
  ultimately show ?thesis by (auto simp: run_frame_def inf_goto_def)
qed

section \<open>A block\<close>

lemma token_step:
  assumes "decoding k (coded_bits (lit_code c) (dist_code c) t @ rest) h r" and "in_block c r" and "token_ok h t"
    and "token_coded (lit_symbols c) (dist_symbols c) t" and "room_for k (expand1 h t)"
  shows "\<exists>r'. inf_switch (c_mem k) (c_to k) r = Inr r' \<and> decoding k rest (expand1 h t) r' \<and> in_block c r' \<and> run_frame r r'"
proof (cases t)
  case (Literal b)
  then show ?thesis using literal_step [of k c b rest h r] assms by simp
next
  case (Match d l)
  then show ?thesis using match_step [of k c d l rest h r] assms by simp
qed

lemma run_frame_trans: "run_frame a b \<Longrightarrow> run_frame b c \<Longrightarrow> run_frame a c"
  by (simp add: run_frame_def)

definition codes_bits :: "codes \<Rightarrow> token list \<Rightarrow> bool list" where
  "codes_bits c ts = concat (map (coded_bits (lit_code c) (dist_code c)) ts)"

definition codes_ok :: "codes \<Rightarrow> token list \<Rightarrow> bool" where
  "codes_ok c ts \<longleftrightarrow> (\<forall>t \<in> set ts. token_coded (lit_symbols c) (dist_symbols c) t)"

lemma tokens_loop:
  assumes "decoding k (codes_bits c ts @ rest) h r" and "in_block c r" and "tokens_ok h ts" and "codes_ok c ts"
    and "room_for k (expand h ts)"
  shows "\<exists>r'. inf_loop (c_mem k) (c_to k) r = inf_loop (c_mem k) (c_to k) r' \<and> decoding k rest (expand h ts) r' \<and>
     in_block c r' \<and> run_frame r r'"
  using assms
proof (induction ts arbitrary: h r)
  case Nil
  then show ?case by (auto simp: run_frame_def codes_bits_def)
next
  case (Cons t ts)
  have room: "room_for k (expand1 h t)"
    using room_for_mono [OF _ expand_length_mono [of "expand1 h t" ts]] Cons.prems(5) by simp
  obtain r1 where r1: "inf_switch (c_mem k) (c_to k) r = Inr r1" "decoding k (codes_bits c ts @ rest) (expand1 h t) r1"
      "in_block c r1" "run_frame r r1"
    using token_step [of k c t "codes_bits c ts @ rest" h r] Cons.prems room by (auto simp: codes_bits_def codes_ok_def)
  have "action (st r) = InfAction_ProcessNextChunk" using Cons.prems(1) by (simp add: decoding_def)
  note step = inf_loop_step [OF this r1(1)]
  obtain r' where "inf_loop (c_mem k) (c_to k) r1 = inf_loop (c_mem k) (c_to k) r'" "decoding k rest (expand (expand1 h t) ts) r'"
      "in_block c r'" "run_frame r1 r'"
    using Cons.IH [OF r1(2,3)] Cons.prems(3-5) by (auto simp: codes_ok_def)
  then show ?case using step run_frame_trans [OF r1(4)] by auto
qed

lemma end_of_block_step:
  assumes d: "decoding k (lit_code c 256 @ rest) h r" and f: "in_block c r" and sym: "256 \<in> lit_symbols c"
  shows "\<exists>r'. inf_switch (c_mem k) (c_to k) r = Inr r' \<and> decoding k rest h r' \<and>
     cur r' = InfStep_PROCESS_NEXT_BLOCK \<and> run_frame r r'"
proof -
  obtain tL where tL: "decoder_table (statics r) (st r) (literalDecoder (st r)) = Inr tL" "table_reads tL (lit_code c) (lit_symbols c)"
    using f by (auto simp: in_block_def)
  obtain bs1 where bs1: "Inf_BS_ReadEncodedBits (c_mem k) (bitstream (st r)) tL = Inr (Some 256, bs1)" "bs_ok (c_mem k) (c_end k) bs1"
      "bs_tight bs1" "bs_bits (c_mem k) bs1 = rest"
    using table_reads_symbol [OF tL(2) _ _ sym, of "c_mem k" "c_end k" "bitstream (st r)" rest] d by (auto simp: decoding_def)
  let ?r = "inf_goto InfStep_PROCESS_NEXT_BLOCK (r\<lparr>st := (st r)\<lparr>bitstream := bs1, lit := 256\<rparr>\<rparr>)"
  have "inf_switch (c_mem k) (c_to k) r = Inr ?r"
    using bs1(1)
    unfolding in_block_switch [OF f] step_Read_LiteralOrLength_def with_symbol_def tL(1)
    by (simp add: step_Read_LiteralOrLength2_def run_simps)
  moreover have "decoding k rest h ?r" using d bs1 by (auto simp: decoding_def inf_goto_def)
  ultimately show ?thesis by (auto simp: run_frame_def inf_goto_def)
qed

lemma fixed_step:
  assumes d: "decoding k view h r" and c: "cur r = InfStep_LOAD_FIXED_HUFFMAN_DECODERS"
  shows "\<exists>r'. inf_switch (c_mem k) (c_to k) r = Inr r' \<and> decoding k view h r' \<and> in_block fixed_codes r' \<and> run_frame r r'"
proof -
  have s: "statics_ok (statics r)" "sl_idle (sllist (st r))" using d by (auto simp: decoding_def)
  obtain s1 l1 where 1: "Inf_Huff_MakeFixedLiteralDecoder (statics r) (sllist (st r)) = Inr (s1, l1)"
      "cachedLiteral s1 = Some fixed_lit_table" "cachedDistance s1 = cachedDistance (statics r)" "sl_idle l1"
    using MakeFixedLiteralDecoder_ok [OF s] by blast
  have "statics_ok s1" using s(1) 1(2,3) by (simp add: statics_ok_def)
  then obtain s2 l2 where 2: "Inf_Huff_MakeFixedDistanceDecoder s1 l1 = Inr (s2, l2)"
      "cachedDistance s2 = Some fixed_dist_table" "cachedLiteral s2 = cachedLiteral s1" "sl_idle l2"
    using MakeFixedDistanceDecoder_ok [OF _ 1(4)] by blast
  let ?r = "inf_goto InfStep_PROCESS_COMPRESSED_BLOCK
         (r\<lparr>statics := s2, st := (st r)\<lparr>sllist := l2, literalDecoder := Some FixedLiteral, distanceDecoder := Some FixedDistance\<rparr>\<rparr>)"
  have "inf_switch (c_mem k) (c_to k) r = Inr ?r"
    using c 1(1) 2(1) by (simp add: inf_switch_def step_LOAD_FIXED_HUFFMAN_DECODERS_def)
  moreover have "decoding k view h ?r" using d 1(2) 2 by (auto simp: decoding_def inf_goto_def statics_ok_def)
  moreover have "in_block fixed_codes ?r"
    using 1(2) 2(2,3) fixed_tables_read by (simp add: in_block_def inf_goto_def decoder_table_def fixed_codes_def)
  ultimately show ?thesis by (auto simp: run_frame_def inf_goto_def)
qed

section \<open>Block headers\<close>

definition at_header :: "inf_run \<Rightarrow> bool" where
  "at_header r \<longleftrightarrow> cur r \<in> {InfStep_START, InfStep_READ_BLOCK_HEADER} \<or>
     cur r = InfStep_PROCESS_NEXT_BLOCK \<and> isLastBlock (st r) = 0"

lemma at_header_switch:
  assumes "at_header r"
  shows "\<exists>n. inf_switch mem we r = step_READ_BLOCK_HEADER mem
     (inf_goto InfStep_READ_BLOCK_HEADER (r\<lparr>st := (st r)\<lparr>isLastBlock := n\<rparr>\<rparr>))"
proof (cases "cur r = InfStep_START")
  case True
  then show ?thesis
    by (intro exI [of _ 0]) (simp add: inf_switch_def step_START_def step_PROCESS_NEXT_BLOCK_def inf_goto_def)
next
  case False
  with assms show ?thesis
    by (intro exI [of _ "isLastBlock (st r)"], cases r)
      (auto simp: at_header_def inf_switch_def step_PROCESS_NEXT_BLOCK_def inf_goto_def)
qed

definition header_word :: "bool \<Rightarrow> bool \<Rightarrow> bool \<Rightarrow> u32" where
  "header_word f a b = of_bool f + 2 * of_bool a + 4 * of_bool b"

lemma header_word:
  "bits_of 3 (header_word f a b) = [f, a, b]" "take_bit 3 (header_word f a b) = header_word f a b"
  "unat (header_word f a b AND 1) = of_bool f" "drop_bit 1 (header_word f a b) = of_bool a + 2 * of_bool b"
  by (cases f; cases a; cases b; simp add: header_word_def bits_of_def upt_rec)+

lemma header_step:
  assumes d: "decoding k (f # a # b # rest) h r" and "at_header r"
  shows "\<exists>r'. decoding k rest h r' \<and> isLastBlock (st r') = of_bool f \<and> rmsg r' = rmsg r \<and>
     inf_switch (c_mem k) (c_to k) r =
       Inr (if a \<and> b then inf_fatal (Some ''invalid block type'') r'
            else inf_goto (if a then InfStep_LOAD_FIXED_HUFFMAN_DECODERS else if b then InfStep_LOAD_DYNAMIC_HUFFMAN_DECODERS
                           else InfStep_PROCESS_UNCOMPRESSED_BLOCK) r')"
proof -
  obtain n where sw: "inf_switch (c_mem k) (c_to k) r = step_READ_BLOCK_HEADER (c_mem k)
     (inf_goto InfStep_READ_BLOCK_HEADER (r\<lparr>st := (st r)\<lparr>isLastBlock := n\<rparr>\<rparr>))"
    using at_header_switch [OF assms(2)] by blast
  obtain bs1 where bs1: "Inf_BS_ReadBits (c_mem k) (bitstream (st r)) 3 = Inr (Some (header_word f a b), bs1)"
      "bs_ok (c_mem k) (c_end k) bs1" "bs_tight bs1" "bs_bits (c_mem k) bs1 = rest"
    using bsr.get_field [of "c_mem k" "c_end k" "bitstream (st r)" 3 "header_word f a b" rest] d
    by (auto simp: decoding_def header_word)
  let ?r = "inf_goto InfStep_READ_BLOCK_HEADER (r\<lparr>st := (st r)\<lparr>isLastBlock := of_bool f, bitstream := bs1\<rparr>\<rparr>)"
  have "decoding k rest h ?r" using d bs1 by (auto simp: decoding_def inf_goto_def)
  moreover have "inf_switch (c_mem k) (c_to k) r =
       Inr (if a \<and> b then inf_fatal (Some ''invalid block type'') ?r
            else inf_goto (if a then InfStep_LOAD_FIXED_HUFFMAN_DECODERS else if b then InfStep_LOAD_DYNAMIC_HUFFMAN_DECODERS
                           else InfStep_PROCESS_UNCOMPRESSED_BLOCK) ?r)"
    unfolding sw step_READ_BLOCK_HEADER_def with_bits_def
    using bs1(1) header_word(3,4) [of f a b] by (cases a; cases b) (simp_all add: run_simps inf_fatal_def Let_def)
  ultimately show ?thesis by (intro exI [of _ ?r]) (simp add: inf_goto_def)
qed

section \<open>Stored blocks\<close>

lemma stored_header_word:
  assumes "n < 65536" and "bits_of 32 v = stored_header n"
  shows "unat (v AND 0xFFFF) = n" and "unat (drop_bit 16 (NOT v)) = n"
proof -
  have b: "bit v i = (bits_of 32 v) ! i" if "i < 32" for i using that by simp
  have low: "bit v i = bit (of_nat n :: u32) i" if "i < 16" for i
    using b [of i] that by (simp add: assms(2) stored_header_def nth_append)
  have high: "bit v (16 + i) = (\<not> bit (of_nat n :: u32) i)" if "i < 16" for i
    using b [of "16 + i"] that by (simp add: assms(2) stored_header_def nth_append bit_not_iff)
  have n: "take_bit 16 (of_nat n :: u32) = of_nat n" using assms(1) by (simp add: take_bit_of_nat_small)
  have "take_bit 16 v = take_bit 16 (of_nat n)" by (rule bit_word_eqI) (auto simp: bit_take_bit_iff low)
  moreover have "v AND 0xFFFF = take_bit 16 v" by (simp add: take_bit_eq_mask mask_eq_exp_minus_1)
  ultimately show "unat (v AND 0xFFFF) = n" using assms(1) n by (simp add: unat_of_nat take_bit_eq_mod)
  have "drop_bit 16 (NOT v) = take_bit 16 (of_nat n)"
  proof (rule bit_word_eqI)
    fix i assume "i < LENGTH(32)"
    then show "bit (drop_bit 16 (NOT v)) i = bit (take_bit 16 (of_nat n :: u32)) i"
      using high [of i] bit_imp_le_length [of v "16 + i"]
      by (cases "i < 16") (auto simp: bit_take_bit_iff bit_drop_bit_eq bit_not_iff)
  qed
  then show "unat (drop_bit 16 (NOT v)) = n" using assms(1) n by (simp add: unat_of_nat take_bit_eq_mod)
qed

text \<open>The bytes that follow an aligned position.\<close>

lemma aligned_bytes:
  assumes "bs_ok mem e bs" and "bsize bs = 0" and "bs_bits mem bs = bytes_bits data @ rest"
  shows "take (length data) (take (e - inputPtr bs) (drop (inputPtr bs) mem)) = data" and "length data \<le> e - inputPtr bs"
    and "bs_bits mem (bs\<lparr>inputPtr := inputPtr bs + length data\<rparr>) = rest"
proof -
  let ?in = "take (e - inputPtr bs) (drop (inputPtr bs) mem)"
  have bits: "bytes_bits ?in = bytes_bits data @ rest" using assms by (simp add: bs_bits_def bs_ok_def)
  then obtain more where more: "?in = data @ more" using bytes_bits_prefix by blast
  then show "take (length data) ?in = data" by simp
  have "length ?in = e - inputPtr bs" using assms(1) by (auto simp: bs_ok_def bs_inv_def)
  then show le: "length data \<le> e - inputPtr bs" using more by (metis le_add1 length_append)
  have "bytes_bits more = rest" using bits more by simp
  moreover have "take (e - (inputPtr bs + length data)) (drop (inputPtr bs + length data) mem) = more"
    using arg_cong [OF more, of "drop (length data)"] by (simp add: drop_take add.commute)
  ultimately show "bs_bits mem (bs\<lparr>inputPtr := inputPtr bs + length data\<rparr>) = rest"
    using assms(1,2) by (simp add: bs_bits_def bs_ok_def)
qed

lemma stored_step:
  assumes d: "decoding k (pad @ stored_header (length data) @ bytes_bits data @ rest) h r"
    and c: "cur r = InfStep_PROCESS_UNCOMPRESSED_BLOCK" and n: "length data < 65536"
    and al: "length pad < 8" "8 dvd length rest" and room: "room_for k (h @ data)"
  shows "\<exists>r'. inf_switch (c_mem k) (c_to k) r = Inr r' \<and> decoding k rest (h @ data) r' \<and>
     cur r' = InfStep_PROCESS_NEXT_BLOCK \<and> run_frame r r'"
proof -
  let ?v = "pad @ stored_header (length data) @ bytes_bits data @ rest"
  have sh: "length (stored_header (length data)) = 32" by (simp add: stored_header_def)
  have bs: "bs_ok (c_mem k) (c_end k) (bitstream (st r))" "bs_bits (c_mem k) (bitstream (st r)) = ?v"
    using d by (auto simp: decoding_def)
  obtain q where q: "length rest = 8 * q" using al(2) by (auto simp: dvd_def)
  have p: "length pad = length (bs_bits (c_mem k) (bitstream (st r))) mod 8" using al(1) q sh bs(2) by simp presburger
  obtain v b1 where b1: "Inf_BS_ReadDWord (c_mem k) (bitstream (st r)) = Inr (Some v, b1)" "bs_ok (c_mem k) (c_end k) b1"
      "bits_of 32 v = stored_header (length data)" "bsize b1 = 0" "bs_bits (c_mem k) b1 = bytes_bits data @ rest"
    using ReadDWord_ok [OF bs(1) p] sh unfolding bs(2) by auto
  note len = stored_header_word [OF n b1(3)] and al = aligned_bytes [OF b1(2,4,5)]
  let ?b2 = "b1\<lparr>inputPtr := inputPtr b1 + length data\<rparr>"
  have w: "length data \<le> c_to k - writePtr r" "writePtr r + length data \<le> c_to k"
    using d room by (auto simp: decoding_def room_for_def)
  have rb: "Inf_BS_ReadBytes (c_mem k) b1 (min (length data) (c_to k - writePtr r)) = Inr (data, True, ?b2)"
    using ReadBytes_ok [OF b1(2,4), of "length data"] al(1,2) w(1) by (simp add: min_absorb1)
  obtain ob where ob: "Inf_Outbuf_write (outputBuf (st r)) (Outside data) (length data) = Inr ob" "win_rep ob (h @ data)"
    using hist.put_all_rep [of "outputBuf (st r)" h data] d by (auto simp: decoding_def)
  obtain o' where o': "mem_write (writePtr r) data (out r) = Inr o'" "mem_write (c_from k) (drop (c_past k) (h @ data)) (c_out k) = Inr o'"
    using decoding_write [OF d, of data] room by (auto simp: room_for_def)
  let ?r = "inf_goto InfStep_PROCESS_NEXT_BLOCK
      (r\<lparr>out := o', writePtr := writePtr r + length data, st := (st r)\<lparr>bitstream := ?b2, outputBuf := ob, sequence_len := 0\<rparr>\<rparr>)"
  have "inf_switch (c_mem k) (c_to k) r = Inr ?r"
    using b1(1) len rb ob(1) o'(1) c
    by (simp add: inf_switch_def step_PROCESS_UNCOMPRESSED_BLOCK_def step_OUTPUT_UNCOMPRESSED_BLOCK_def run_simps Let_def)
  moreover have "bs_ok (c_mem k) (c_end k) ?b2" using b1(2,4) al(2) by (auto simp: bs_ok_def bs_inv_def)
  then have "decoding k rest (h @ data) ?r"
    using d al(3) ob(2) o'(2) w b1(4) by (auto simp: decoding_def inf_goto_def bs_tight_def)
  ultimately show ?thesis by (auto simp: run_frame_def inf_goto_def)
qed

end
