(* ===== verification/Inf_Dynamic.thy ===== *)
theory Inf_Dynamic
  imports Inf_Decode
begin

text \<open>
  The header of a block with codes of its own: what the steps \<^verbatim>\<open>LOAD_DYNAMIC_HUFFMAN_DECODERS\<close> to
  \<^verbatim>\<open>LOAD_DISTANCE_DECODER\<close> of \<^verbatim>\<open>inflate\<close> (\<^verbatim>\<open>inflater.c\<close>, lines 853-914) do with the bits of a well-formed header.
  They leave decoders for the codes that the header describes, or wait for more input at the point that
  they have reached.
\<close>

section \<open>The counts\<close>

lemma bits_number:
  assumes "bits_of n w = bits_of n (of_nat x)" and "x < 2 ^ n" and "n \<le> 24"
  shows "unat (take_bit n w) = x"
proof -
  have x: "take_bit n (of_nat x :: u32) = of_nat x" using assms(2,3) by (simp add: take_bit_of_nat_small)
  have "take_bit n w = of_nat x"
    by (rule bits_of_inject [of n]) (use assms(1) x in simp_all)
  moreover have "x < 2 ^ 32" using assms(2,3) power_increasing [of n 32 "2 :: nat"] by linarith
  ultimately show ?thesis by (simp add: unat_of_nat take_bit_eq_mod)
qed

lemma header_counts:
  assumes "bits_of 14 v = bits_of 5 (of_nat a) @ bits_of 5 (of_nat b) @ bits_of 4 (of_nat c)" and "a < 32" "b < 32" "c < 16"
  shows "unat (v AND 0x1F) = a" "unat (drop_bit 5 v AND 0x1F) = b" "unat (drop_bit 10 v AND 0x0F) = c"
proof -
  have m: "w AND 0x1F = take_bit 5 w" "w AND 0x0F = take_bit 4 w" for w :: u32
    by (simp_all add: take_bit_eq_mask mask_eq_exp_minus_1)
  have "bits_of 5 v = bits_of 5 (of_nat a)" using arg_cong [OF assms(1), of "take 5"] by (simp add: take_bits_of)
  then show "unat (v AND 0x1F) = a" unfolding m using bits_number assms(2) by simp
  have "bits_of 5 (drop_bit 5 v) = bits_of 5 (of_nat b)"
    using arg_cong [OF assms(1), of "\<lambda>l. take 5 (drop 5 l)"] by (simp add: take_bits_of drop_bits_of)
  then show "unat (drop_bit 5 v AND 0x1F) = b" unfolding m using bits_number assms(3) by simp
  have "bits_of 4 (drop_bit 10 v) = bits_of 4 (of_nat c)"
    using arg_cong [OF assms(1), of "drop 10"] by (simp add: drop_bits_of)
  then show "unat (drop_bit 10 v AND 0x0F) = c" unfolding m using bits_number assms(4) by simp
qed

section \<open>The decoder of a list of lengths\<close>

lemma make_code:
  assumes rep: "sl_rep list (code_pairs ls)" and ok: "code_ok (code_of ls)"
  shows "\<exists>t' list'. make_sorted_decoder t list reset = Inr (t', list') \<and> table_for t' (code_of ls) \<and>
     sl_rep list' [] \<and> symbol list' = 0 \<and>
     (if reset then sl_idle list'
      else command list' = command list \<and> huffmanLength list' = huffmanLength list \<and> repetitions list' = repetitions list)"
proof -
  have len: "\<forall>(s, l) \<in> set (code_pairs ls). l < Inf_LastValidLength" and ne: "code_pairs ls \<noteq> []"
    using ok by (force simp: code_ok_def code_of_def Inf_LastValidLength_def)+
  then have "by_length (code_pairs ls) = code_of ls" unfolding code_of_def by (intro by_length_sort) auto
  then show ?thesis
    using GetSorted_ok [OF rep ne len, of reset] MakeDecoder_ok [OF ok, of t]
    by (cases reset) (auto simp: make_sorted_decoder_def sl_idle_def)
qed

lemma no_commands: "cmds_lens prev cs = [] \<Longrightarrow> \<forall>c \<in> set cs. cmd_ok c \<Longrightarrow> cs = []"
  by (cases cs) (auto dest: cmd_times_pos)

section \<open>Positions in the header\<close>

definition dyn_counts :: "dyn_header \<Rightarrow> u32 \<Rightarrow> bool" where
  "dyn_counts d v \<longleftrightarrow> unat (v AND 0x1F) + 257 = dy_lits d \<and> unat (drop_bit 5 v AND 0x1F) + 1 = length (dist_lens d) \<and>
     unat (drop_bit 10 v AND 0x0F) + 4 = length (dy_cls d)"

definition front_code :: "dyn_header \<Rightarrow> nat \<Rightarrow> bool list" where
  "front_code d = sym_code (front_lens (dy_cls d))"

definition front_symbols :: "dyn_header \<Rightarrow> nat set" where
  "front_symbols d = symbols_of (front_lens (dy_cls d))"

text \<open>On the way through the lengths \<open>all\<close>, up to the \<open>n\<close>-th of them, with the bits \<open>V\<close> to read, the next \<open>need\<close> of them at once.\<close>

definition lens_pos :: "dyn_header \<Rightarrow> nat list \<Rightarrow> nat \<Rightarrow> bool list \<Rightarrow> nat \<Rightarrow> bool list \<Rightarrow> Inf_SLList \<Rightarrow> bool" where
  "lens_pos d all n rest need V list \<longleftrightarrow> (\<exists>ls prev m p cs. sl_lens (front_symbols d) all list ls prev m p cs \<and>
     length ls \<le> n \<and> (p = None \<or> length ls < n) \<and>
     need = (if m = 0 \<and> length ls < n then pend_need (front_code d) p cs else 0) \<and> V = pend_bits (front_code d) p cs @ rest)"

text \<open>\<open>rest\<close> is what follows the header.\<close>

definition dyn_pos :: "dyn_header \<Rightarrow> bool list \<Rightarrow> nat \<Rightarrow> bool list \<Rightarrow> inf_run \<Rightarrow> bool" where
  "dyn_pos d rest need V r \<longleftrightarrow> dyn_ok d \<and>
     (case cur r of
        InfStep_LOAD_DYNAMIC_HUFFMAN_DECODERS \<Rightarrow> sl_idle (sllist (st r)) \<and> need = 14 \<and> V = dyn_bits d @ rest
      | InfStep_LOAD_FRONT_DECODER \<Rightarrow> dyn_counts d (symcount (st r)) \<and> need = 3 \<and>
          (\<exists>i. sl_front (sllist (st r)) (dy_cls d) i \<and> V = cls_bits (dy_cls d) i @ cmds_bits (front_code d) (dy_cmds d) @ rest)
      | InfStep_LOAD_LITERAL_DECODER \<Rightarrow> dyn_counts d (symcount (st r)) \<and> frontDecoder (st r) = Some TableA \<and>
          table_reads (huffmanTableA (st r)) (front_code d) (front_symbols d) \<and>
          lens_pos d (dy_lens d) (dy_lits d) rest need V (sllist (st r))
      | InfStep_LOAD_DISTANCE_DECODER \<Rightarrow> dyn_counts d (symcount (st r)) \<and> frontDecoder (st r) = Some TableA \<and>
          table_reads (huffmanTableA (st r)) (front_code d) (front_symbols d) \<and> literalDecoder (st r) = Some TableB \<and>
          table_reads (huffmanTableB (st r)) (sym_code (lit_lens d)) (symbols_of (lit_lens d)) \<and>
          lens_pos d (dist_lens d) (length (dist_lens d)) rest need V (sllist (st r))
      | _ \<Rightarrow> False)"

text \<open>What the header does not touch.\<close>

definition hdr_frame :: "inf_run \<Rightarrow> inf_run \<Rightarrow> bool" where
  "hdr_frame r r' \<longleftrightarrow> out r' = out r \<and> writePtr r' = writePtr r \<and> rmsg r' = rmsg r \<and> statics r' = statics r \<and>
     outputBuf (st r') = outputBuf (st r) \<and> isLastBlock (st r') = isLastBlock (st r) \<and> action (st r') = action (st r)"

lemma hdr_frame_trans: "hdr_frame a b \<Longrightarrow> hdr_frame b c \<Longrightarrow> hdr_frame a c"
  by (simp add: hdr_frame_def)

text \<open>A step of the header waits, or it goes on with the first token of the block.\<close>

definition dyn_result :: "u8 list \<Rightarrow> nat \<Rightarrow> bool list \<Rightarrow> nat \<Rightarrow> dyn_header \<Rightarrow> bool list \<Rightarrow> inf_run \<Rightarrow> inf_run res \<Rightarrow> bool" where
  "dyn_result mem e W we d rest r result \<longleftrightarrow> (\<exists>r'. hdr_frame r r' \<and>
     ((\<exists>n V. result = Inr (inf_FILL_INPUT_BUFFER r') \<and> dyn_pos d rest n V r' \<and> starved mem e W n V (bitstream (st r'))) \<or>
      result = step_Read_LiteralOrLength mem we r' \<and> in_block (dyn_codes d) r' \<and> bs_at mem e W 0 rest (bitstream (st r')) \<and>
        sl_idle (sllist (st r'))))"

lemma dyn_result_wait:
  "result = Inr (inf_FILL_INPUT_BUFFER r') \<Longrightarrow> hdr_frame r r' \<Longrightarrow> dyn_pos d rest n V r' \<Longrightarrow> starved mem e W n V (bitstream (st r')) \<Longrightarrow>
   dyn_result mem e W we d rest r result"
  unfolding dyn_result_def by blast

lemma dyn_result_frame: "dyn_result mem e W we d rest r' result \<Longrightarrow> hdr_frame r r' \<Longrightarrow> dyn_result mem e W we d rest r result"
  unfolding dyn_result_def using hdr_frame_trans by blast

section \<open>The steps\<close>

lemma lens_pos_read:
  assumes pos: "lens_pos d all n rest need V list" and t: "table_reads t (front_code d) (front_symbols d)"
    and n: "0 < n" "n \<le> Inf_LastValidSymbol + 1" "n \<le> length all" and bs: "bs_at mem e W need V bs"
  shows "lens_read mem e W (front_code d) (front_symbols d) all n rest (Inf_SLList_AddEncodedSymlens mem list bs n t)"
  using pos bs AddEncodedSymlens_ok [OF t n] unfolding lens_pos_def by blast

lemma lens_pos_wait:
  assumes "sl_lens (front_symbols d) all list ls prev 0 p cs" and "length ls < n"
  shows "lens_pos d all n rest (pend_need (front_code d) p cs) (pend_bits (front_code d) p cs @ rest) list"
  unfolding lens_pos_def using assms by (intro exI [of _ ls] exI [of _ prev] exI [of _ 0] exI [of _ p] exI [of _ cs]) simp

lemma lens_pos_start:
  assumes "sl_at list [] prev m" and "prev \<le> 15" and "\<forall>c \<in> set cs. cmd_ok c \<and> cmd_symbol c \<in> front_symbols d"
    and "all = replicate m prev @ cmds_lens prev cs" and "0 < n"
  shows "lens_pos d all n rest (if m = 0 then pend_need (front_code d) None cs else 0) (cmds_bits (front_code d) cs @ rest) list"
  unfolding lens_pos_def sl_lens_def using assms
  by (intro exI [of _ "[]"] exI [of _ prev] exI [of _ m] exI [of _ None] exI [of _ cs]) (simp add: sl_pend_None pend_cmds_def pend_bits_def)

lemma load_distance:
  assumes pos: "dyn_pos d rest need V r" and c: "cur r = InfStep_LOAD_DISTANCE_DECODER" and bs: "bs_at mem e W need V (bitstream (st r))"
  shows "dyn_result mem e W we d rest r (step_LOAD_DISTANCE_DECODER mem we r)"
proof -
  let ?n = "length (dist_lens d)"
  have p: "dyn_ok d" "dyn_counts d (symcount (st r))" "frontDecoder (st r) = Some TableA" "table_reads (huffmanTableA (st r)) (front_code d) (front_symbols d)"
      "literalDecoder (st r) = Some TableB" "table_reads (huffmanTableB (st r)) (sym_code (lit_lens d)) (symbols_of (lit_lens d))"
      "lens_pos d (dist_lens d) ?n rest need V (sllist (st r))"
    using pos c by (simp_all add: dyn_pos_def)
  have n: "0 < ?n" "?n \<le> Inf_LastValidSymbol + 1" and code: "code_ok (code_of (dist_lens d))"
    using p(1) by (auto simp: dyn_ok_def Inf_LastValidSymbol_def)
  obtain complete l1 b1 ls prev m q cs where r1:
      "Inf_SLList_AddEncodedSymlens mem (sllist (st r)) (bitstream (st r)) ?n (huffmanTableA (st r)) = Inr (complete, l1, b1)"
      "sl_lens (front_symbols d) (dist_lens d) l1 ls prev m q cs"
      "if complete then q = None \<and> length ls = ?n \<and> bs_at mem e W 0 (cmds_bits (front_code d) cs @ rest) b1
       else m = 0 \<and> length ls < ?n \<and> starved mem e W (pend_need (front_code d) q cs) (pend_bits (front_code d) q cs @ rest) b1"
    using lens_pos_read [OF p(7,4) n order_refl bs] unfolding lens_read_def by blast
  have count: "unat (drop_bit 5 (symcount (st r)) AND 0x1F) + 1 = ?n" using p(2) by (simp add: dyn_counts_def)
  let ?r1 = "r\<lparr>st := (st r)\<lparr>sllist := l1, bitstream := b1\<rparr>\<rparr>"
  have run: "step_LOAD_DISTANCE_DECODER mem we r = (if \<not> complete then Inr (inf_FILL_INPUT_BUFFER ?r1)
      else bindR (make_sorted_decoder (huffmanTableA (st r)) l1 True) (\<lambda>(table, list).
         step_Read_LiteralOrLength mem we (inf_goto InfStep_PROCESS_COMPRESSED_BLOCK
           (?r1\<lparr>st := (st ?r1)\<lparr>huffmanTableA := table, sllist := list, distanceDecoder := Some TableA\<rparr>\<rparr>))))"
    using r1(1) p(3) count by (simp add: step_LOAD_DISTANCE_DECODER_def decoder_table_def Let_def)
  show ?thesis
  proof (cases complete)
    case False
    then have w: "m = 0" "length ls < ?n" "starved mem e W (pend_need (front_code d) q cs) (pend_bits (front_code d) q cs @ rest) b1"
      using r1(3) by auto
    have "dyn_pos d rest (pend_need (front_code d) q cs) (pend_bits (front_code d) q cs @ rest) ?r1"
      using p c lens_pos_wait [OF r1(2) [unfolded w(1)] w(2)] by (simp add: dyn_pos_def)
    then show ?thesis using run False w(3) by (intro dyn_result_wait [of _ ?r1]) (auto simp: hdr_frame_def)
  next
    case True
    then have w: "q = None" "length ls = ?n" "bs_at mem e W 0 (cmds_bits (front_code d) cs @ rest) b1" using r1(3) by auto
    have s: "sl_at l1 ls prev m" "dist_lens d = ls @ replicate m prev @ cmds_lens prev cs" "\<forall>c \<in> set cs. cmd_ok c"
      using r1(2) w(1) by (auto simp: sl_lens_def sl_pend_None pend_cmds_def)
    have "?n = length ls + (m + length (cmds_lens prev cs))" using arg_cong [OF s(2), of length] by simp
    then have none: "m = 0" "cmds_lens prev cs = []" using w(2) by auto
    have cs: "cs = []" by (rule no_commands [OF none(2) s(3)])
    have ls: "dist_lens d = ls" using s(2) none by simp
    obtain t l2 where t: "make_sorted_decoder (huffmanTableA (st r)) l1 True = Inr (t, l2)" "table_for t (code_of (dist_lens d))" "sl_idle l2"
      using make_code [of l1 "dist_lens d" "huffmanTableA (st r)" True] s(1) ls code by (auto simp: sl_at_def)
    let ?r2 = "inf_goto InfStep_PROCESS_COMPRESSED_BLOCK
           (?r1\<lparr>st := (st ?r1)\<lparr>huffmanTableA := t, sllist := l2, distanceDecoder := Some TableA\<rparr>\<rparr>)"
    have "in_block (dyn_codes d) ?r2"
      using p(5,6) code_table_reads [OF code t(2)] by (simp add: in_block_def inf_goto_def decoder_table_def dyn_codes_def)
    moreover have "bs_at mem e W 0 rest (bitstream (st ?r2))" using w(3) cs by (simp add: inf_goto_def)
    ultimately show ?thesis unfolding dyn_result_def using run True t(1,3)
      by (intro exI [of _ ?r2] conjI disjI2) (simp_all add: hdr_frame_def inf_goto_def)
  qed
qed

lemma load_literal:
  assumes pos: "dyn_pos d rest need V r" and c: "cur r = InfStep_LOAD_LITERAL_DECODER" and bs: "bs_at mem e W need V (bitstream (st r))"
  shows "dyn_result mem e W we d rest r (step_LOAD_LITERAL_DECODER mem we r)"
proof -
  let ?n = "dy_lits d"
  have p: "dyn_ok d" "dyn_counts d (symcount (st r))" "frontDecoder (st r) = Some TableA" "table_reads (huffmanTableA (st r)) (front_code d) (front_symbols d)"
      "lens_pos d (dy_lens d) ?n rest need V (sllist (st r))"
    using pos c by (simp_all add: dyn_pos_def)
  have n: "0 < ?n" "?n \<le> Inf_LastValidSymbol + 1" "?n \<le> length (dy_lens d)" and code: "code_ok (code_of (lit_lens d))"
    and dn: "0 < length (dist_lens d)"
    using p(1) by (auto simp: dyn_ok_def Inf_LastValidSymbol_def dist_lens_def)
  obtain complete l1 b1 ls prev m q cs where r1:
      "Inf_SLList_AddEncodedSymlens mem (sllist (st r)) (bitstream (st r)) ?n (huffmanTableA (st r)) = Inr (complete, l1, b1)"
      "sl_lens (front_symbols d) (dy_lens d) l1 ls prev m q cs"
      "if complete then q = None \<and> length ls = ?n \<and> bs_at mem e W 0 (cmds_bits (front_code d) cs @ rest) b1
       else m = 0 \<and> length ls < ?n \<and> starved mem e W (pend_need (front_code d) q cs) (pend_bits (front_code d) q cs @ rest) b1"
    using lens_pos_read [OF p(5,4) n bs] unfolding lens_read_def by blast
  have count: "unat (symcount (st r) AND 0x1F) + 257 = ?n" using p(2) by (simp add: dyn_counts_def)
  let ?r1 = "r\<lparr>st := (st r)\<lparr>sllist := l1, bitstream := b1\<rparr>\<rparr>"
  have run: "step_LOAD_LITERAL_DECODER mem we r = (if \<not> complete then Inr (inf_FILL_INPUT_BUFFER ?r1)
      else bindR (make_sorted_decoder (huffmanTableB (st r)) l1 False) (\<lambda>(table, list).
         step_LOAD_DISTANCE_DECODER mem we (inf_goto InfStep_LOAD_DISTANCE_DECODER
           (?r1\<lparr>st := (st ?r1)\<lparr>huffmanTableB := table, sllist := list, literalDecoder := Some TableB\<rparr>\<rparr>))))"
    using r1(1) p(3) count by (simp add: step_LOAD_LITERAL_DECODER_def decoder_table_def Let_def)
  show ?thesis
  proof (cases complete)
    case False
    then have w: "m = 0" "length ls < ?n" "starved mem e W (pend_need (front_code d) q cs) (pend_bits (front_code d) q cs @ rest) b1"
      using r1(3) by auto
    have "dyn_pos d rest (pend_need (front_code d) q cs) (pend_bits (front_code d) q cs @ rest) ?r1"
      using p c lens_pos_wait [OF r1(2) [unfolded w(1)] w(2)] by (simp add: dyn_pos_def)
    then show ?thesis using run False w(3) by (intro dyn_result_wait [of _ ?r1]) (auto simp: hdr_frame_def)
  next
    case True
    then have w: "q = None" "length ls = ?n" "bs_at mem e W 0 (cmds_bits (front_code d) cs @ rest) b1" using r1(3) by auto
    have s: "sl_at l1 ls prev m" "prev \<le> 15" "dy_lens d = ls @ replicate m prev @ cmds_lens prev cs"
        "\<forall>c \<in> set cs. cmd_ok c \<and> cmd_symbol c \<in> front_symbols d"
      using r1(2) w(1) by (auto simp: sl_lens_def sl_pend_None pend_cmds_def)
    have split: "lit_lens d = ls" "dist_lens d = replicate m prev @ cmds_lens prev cs"
      using s(3) w(2) by (simp_all add: lit_lens_def dist_lens_def)
    obtain t l2 where t: "make_sorted_decoder (huffmanTableB (st r)) l1 False = Inr (t, l2)" "table_for t (code_of (lit_lens d))" "sl_at l2 [] prev m"
      using make_code [of l1 ls "huffmanTableB (st r)" False] s(1) code split(1) by (auto simp: sl_at_def)
    let ?r2 = "inf_goto InfStep_LOAD_DISTANCE_DECODER
           (?r1\<lparr>st := (st ?r1)\<lparr>huffmanTableB := t, sllist := l2, literalDecoder := Some TableB\<rparr>\<rparr>)"
    let ?need = "if m = 0 then pend_need (front_code d) None cs else 0"
    have "dyn_pos d rest ?need (cmds_bits (front_code d) cs @ rest) ?r2"
      using p lens_pos_start [OF t(3) s(2,4) split(2) dn] code_table_reads [OF code t(2)] by (simp add: dyn_pos_def inf_goto_def)
    moreover have "bs_at mem e W ?need (cmds_bits (front_code d) cs @ rest) (bitstream (st ?r2))"
      using bs_at_tight [OF w(3), of ?need] by (simp add: inf_goto_def)
    ultimately have "dyn_result mem e W we d rest ?r2 (step_LOAD_DISTANCE_DECODER mem we ?r2)"
      by (intro load_distance) (simp_all add: inf_goto_def)
    then have "dyn_result mem e W we d rest r (step_LOAD_DISTANCE_DECODER mem we ?r2)"
      by (rule dyn_result_frame) (simp add: hdr_frame_def inf_goto_def)
    then show ?thesis using run True t(1) by simp
  qed
qed

lemma load_front:
  assumes pos: "dyn_pos d rest need V r" and c: "cur r = InfStep_LOAD_FRONT_DECODER" and bs: "bs_at mem e W need V (bitstream (st r))"
  shows "dyn_result mem e W we d rest r (step_LOAD_FRONT_DECODER mem we r)"
proof -
  let ?front = "front_lens (dy_cls d)" and ?rest = "cmds_bits (front_code d) (dy_cmds d) @ rest"
  obtain i where p: "dyn_ok d" "dyn_counts d (symcount (st r))" "need = 3" "sl_front (sllist (st r)) (dy_cls d) i"
      "V = cls_bits (dy_cls d) i @ ?rest"
    using pos c by (auto simp: dyn_pos_def)
  have cls: "4 \<le> length (dy_cls d)" "length (dy_cls d) \<le> 19" "\<forall>l \<in> set (dy_cls d). l < 8"
    and code: "code_ok (code_of ?front)" and cmds: "\<forall>c \<in> set (dy_cmds d). cmd_ok c \<and> cmd_symbol c \<in> front_symbols d"
    and n: "0 < dy_lits d"
    using p(1) by (auto simp: dyn_ok_def front_symbols_def)
  obtain complete l1 b1 where r1: "Inf_SLList_Add3BitSymlens mem (sllist (st r)) (bitstream (st r)) (length (dy_cls d)) = Inr (complete, l1, b1)"
     "if complete then sl_rep l1 (code_pairs ?front) \<and> bs_at mem e W 0 ?rest b1
      else \<exists>j. sl_front l1 (dy_cls d) j \<and> starved mem e W 3 (cls_bits (dy_cls d) j @ ?rest) b1"
    using Add3BitSymlens_ok [OF p(4) bs [unfolded p(3,5)] cls] by blast
  let ?r1 = "r\<lparr>st := (st r)\<lparr>sllist := l1, bitstream := b1\<rparr>\<rparr>"
  have run: "step_LOAD_FRONT_DECODER mem we r = (if \<not> complete then Inr (inf_FILL_INPUT_BUFFER ?r1)
      else bindR (make_sorted_decoder (huffmanTableA (st r)) l1 True) (\<lambda>(table, list).
         step_LOAD_LITERAL_DECODER mem we (inf_goto InfStep_LOAD_LITERAL_DECODER
           (?r1\<lparr>st := (st ?r1)\<lparr>huffmanTableA := table, sllist := list, frontDecoder := Some TableA\<rparr>\<rparr>))))"
    using r1(1) p(2) by (simp add: step_LOAD_FRONT_DECODER_def dyn_counts_def Let_def)
  show ?thesis
  proof (cases complete)
    case False
    then obtain j where j: "sl_front l1 (dy_cls d) j" "starved mem e W 3 (cls_bits (dy_cls d) j @ ?rest) b1" using r1(2) by auto
    have "dyn_pos d rest 3 (cls_bits (dy_cls d) j @ ?rest) ?r1" using p(1,2) c j(1) by (auto simp: dyn_pos_def)
    then show ?thesis using run False j(2) by (intro dyn_result_wait [of _ ?r1]) (auto simp: hdr_frame_def)
  next
    case True
    then have w: "sl_rep l1 (code_pairs ?front)" "bs_at mem e W 0 ?rest b1" using r1(2) by auto
    obtain t l2 where t: "make_sorted_decoder (huffmanTableA (st r)) l1 True = Inr (t, l2)" "table_for t (code_of ?front)" "sl_idle l2"
      using make_code [OF w(1) code, of "huffmanTableA (st r)" True] by auto
    have l2: "sl_at l2 [] 0 0" using t(3) by (simp add: sl_idle_def sl_at_def)
    let ?r2 = "inf_goto InfStep_LOAD_LITERAL_DECODER
           (?r1\<lparr>st := (st ?r1)\<lparr>huffmanTableA := t, sllist := l2, frontDecoder := Some TableA\<rparr>\<rparr>)"
    let ?need = "pend_need (front_code d) None (dy_cmds d)"
    have "lens_pos d (dy_lens d) (dy_lits d) rest ?need ?rest l2"
      using lens_pos_start [OF l2 _ cmds _ n, of "dy_lens d" rest] by (simp add: dy_lens_def)
    then have "dyn_pos d rest ?need ?rest ?r2"
      using p(1,2) code_table_reads [OF code t(2)] by (simp add: dyn_pos_def inf_goto_def front_code_def front_symbols_def)
    moreover have "bs_at mem e W ?need ?rest (bitstream (st ?r2))"
      using bs_at_tight [OF w(2), of ?need] by (simp add: inf_goto_def)
    ultimately have "dyn_result mem e W we d rest ?r2 (step_LOAD_LITERAL_DECODER mem we ?r2)"
      by (intro load_literal) (simp_all add: inf_goto_def)
    then have "dyn_result mem e W we d rest r (step_LOAD_LITERAL_DECODER mem we ?r2)"
      by (rule dyn_result_frame) (simp add: hdr_frame_def inf_goto_def)
    then show ?thesis using run True t(1) by simp
  qed
qed

text \<open>The three counts, read as one field.\<close>

lemma counts_field:
  assumes "a < 32" "b < 32" "c < 16"
  obtains x where "x < 2 ^ 14" "bits_of 14 (of_nat x :: u32) = bits_of 5 (of_nat a) @ bits_of 5 (of_nat b) @ bits_of 4 (of_nat c)"
proof -
  let ?v = "of_nat a OR push_bit 5 (of_nat b OR push_bit 5 (of_nat c)) :: u32"
  have t: "take_bit 5 (of_nat a :: u32) = of_nat a" "take_bit 5 (of_nat b :: u32) = of_nat b"
    using assms by (simp_all add: take_bit_of_nat_small)
  have b: "bits_of 14 ?v = bits_of 5 (of_nat a) @ bits_of 5 (of_nat b) @ bits_of 4 (of_nat c)"
    using bits_of_or_push [OF t(1), of 9 "of_nat b OR push_bit 5 (of_nat c)"] bits_of_or_push [OF t(2), of 4 "of_nat c"] by simp
  let ?x = "unat (take_bit 14 ?v)"
  have "unat (take_bit 14 v) < 2 ^ 14" for v :: u32 unfolding unsigned_take_bit_eq by (rule take_bit_nat_less_exp)
  then have "?x < 2 ^ 14" .
  moreover have "bits_of 14 (of_nat (unat (take_bit 14 v)) :: u32) = bits_of 14 v" for v by simp
  then have "bits_of 14 (of_nat ?x :: u32) = bits_of 14 ?v" .
  ultimately show thesis using that b by metis
qed

lemma load_dynamic:
  assumes pos: "dyn_pos d rest need V r" and c: "cur r = InfStep_LOAD_DYNAMIC_HUFFMAN_DECODERS" and bs: "bs_at mem e W need V (bitstream (st r))"
  shows "dyn_result mem e W we d rest r (step_LOAD_DYNAMIC_HUFFMAN_DECODERS mem we r)"
proof -
  have p: "dyn_ok d" "sl_idle (sllist (st r))" "need = 14" "V = dyn_bits d @ rest" using pos c by (simp_all add: dyn_pos_def)
  let ?rest = "cls_bits (dy_cls d) 0 @ cmds_bits (front_code d) (dy_cmds d) @ rest"
  let ?a = "dy_lits d - 257" and ?b = "length (dist_lens d) - 1" and ?c = "length (dy_cls d) - 4"
  have range: "?a < 32" "?b < 32" "?c < 16" "?a + 257 = dy_lits d" "?b + 1 = length (dist_lens d)" "?c + 4 = length (dy_cls d)"
    using p(1) by (auto simp: dyn_ok_def)
  obtain x where x: "x < 2 ^ 14" "bits_of 14 (of_nat x :: u32) = bits_of 5 (of_nat ?a) @ bits_of 5 (of_nat ?b) @ bits_of 4 (of_nat ?c)"
    using counts_field [OF range(1-3)] by blast
  have V: "V = bits_of 14 (of_nat x) @ ?rest" unfolding x(2) p(4) by (simp add: dyn_bits_def cls_bits_def front_code_def)
  obtain v b1 where b1: "Inf_BS_ReadBits mem (bitstream (st r)) 14 = Inr (v, b1)"
     "case v of None \<Rightarrow> starved mem e W 14 V b1 | Some v \<Rightarrow> unat v = x \<and> bs_at mem e W 0 ?rest b1"
    using read_field [OF bs [unfolded p(3) V] _ x(1)] unfolding field_read_def V by auto
  show ?thesis
  proof (cases v)
    case None
    let ?r1 = "set_bs b1 r"
    have "dyn_pos d rest 14 V ?r1" using p c by (simp add: dyn_pos_def set_bs_def)
    then show ?thesis using b1 None
      by (intro dyn_result_wait [of _ ?r1]) (auto simp: step_LOAD_DYNAMIC_HUFFMAN_DECODERS_def with_bits_def hdr_frame_def set_bs_def)
  next
    case (Some w)
    let ?r2 = "inf_goto InfStep_LOAD_FRONT_DECODER (r\<lparr>st := (st r)\<lparr>bitstream := b1, symcount := w\<rparr>\<rparr>)"
    have "w = of_nat x" using b1(2) Some by auto
    then have "dyn_counts d w" using header_counts [OF x(2) range(1-3)] range(4-6) by (simp add: dyn_counts_def)
    moreover have "sl_front (sllist (st r)) (dy_cls d) 0" using p(2) by (simp add: sl_front_def sl_idle_def has_lengths_def)
    ultimately have "dyn_pos d rest 3 ?rest ?r2" using p(1) by (auto simp: dyn_pos_def inf_goto_def)
    moreover have "bs_at mem e W 3 ?rest (bitstream (st ?r2))" using b1(2) Some bs_at_tight [of mem e W 0 ?rest b1 3] by (simp add: inf_goto_def)
    ultimately have "dyn_result mem e W we d rest ?r2 (step_LOAD_FRONT_DECODER mem we ?r2)"
      by (intro load_front) (simp_all add: inf_goto_def)
    then have "dyn_result mem e W we d rest r (step_LOAD_FRONT_DECODER mem we ?r2)"
      by (rule dyn_result_frame) (simp add: hdr_frame_def inf_goto_def)
    then show ?thesis using b1(1) Some
      by (simp add: step_LOAD_DYNAMIC_HUFFMAN_DECODERS_def with_bits_def set_bs_def)
  qed
qed

lemma dyn_switch:
  assumes "dyn_pos d rest need V r" and "bs_at mem e W need V (bitstream (st r))"
  shows "dyn_result mem e W we d rest r (inf_switch mem we r)"
  using load_dynamic [OF assms(1) _ assms(2)] load_front [OF assms(1) _ assms(2)] load_literal [OF assms(1) _ assms(2)]
    load_distance [OF assms(1) _ assms(2)] assms(1)
  by (auto simp: dyn_pos_def inf_switch_def split: InfStep.splits)

section \<open>A header that is there as a whole\<close>

lemma dynamic_step:
  assumes dec: "decoding k (dyn_bits d @ view) h r" and c: "cur r = InfStep_LOAD_DYNAMIC_HUFFMAN_DECODERS" and ok: "dyn_ok d"
  shows "\<exists>r'. inf_switch (c_mem k) (c_to k) r = step_Read_LiteralOrLength (c_mem k) (c_to k) r' \<and> decoding k view h r' \<and>
     in_block (dyn_codes d) r' \<and> run_frame r r'"
proof -
  have "dyn_pos d view 14 (dyn_bits d @ view) r" using dec c ok by (simp add: dyn_pos_def decoding_def)
  moreover have "bs_at (c_mem k) (c_end k) [] 14 (dyn_bits d @ view) (bitstream (st r))"
    using dec by (auto simp: decoding_def bs_at_def bs_tight_def)
  ultimately obtain r' where "hdr_frame r r'" "inf_switch (c_mem k) (c_to k) r = step_Read_LiteralOrLength (c_mem k) (c_to k) r'"
      "in_block (dyn_codes d) r'" "bs_at (c_mem k) (c_end k) [] 0 view (bitstream (st r'))" "sl_idle (sllist (st r'))"
    using dyn_switch [of d view 14 _ r "c_mem k" "c_end k" "[]" "c_to k"] by (auto simp: dyn_result_def)
  then show ?thesis using dec by (intro exI [of _ r']) (auto simp: decoding_def hdr_frame_def run_frame_def bs_at_Nil)
qed

end
