(* ===== verification/Inf_Blocks.thy ===== *)
theory Inf_Blocks
  imports Inf_Dynamic
begin

text \<open>
  The blocks of a stream: whatever their type, the loop of \<^verbatim>\<open>inflate\<close> reads them one after the other and
  produces the text that the format specification gives them.
\<close>

section \<open>Blocks in sequence\<close>

definition block_done :: "bool \<Rightarrow> inf_run \<Rightarrow> inf_run \<Rightarrow> bool" where
  "block_done f r r' \<longleftrightarrow> cur r' = InfStep_PROCESS_NEXT_BLOCK \<and> isLastBlock (st r') = of_bool f \<and> rmsg r' = rmsg r"

lemma decoding_goto [simp]: "decoding k view h (inf_goto c r) = decoding k view h r"
  by (simp add: decoding_def inf_goto_def)

lemma cur_goto [simp]: "cur (inf_goto c r) = c"
  by (simp add: inf_goto_def)

lemma decoding_step:
  "decoding k view h r \<Longrightarrow> inf_switch (c_mem k) (c_to k) r = Inr r' \<Longrightarrow>
   inf_loop (c_mem k) (c_to k) r = inf_loop (c_mem k) (c_to k) r'"
  by (rule inf_loop_step) (simp add: decoding_def)

text \<open>A compressed block, from its first token on.\<close>

lemma compressed_loop:
  assumes d: "decoding k (codes_bits c ts @ lit_code c 256 @ rest) h r" and "in_block c r" and "tokens_ok h ts" and "codes_ok c ts"
    and "256 \<in> lit_symbols c" and "room_for k (expand h ts)"
  shows "\<exists>r'. inf_loop (c_mem k) (c_to k) r = inf_loop (c_mem k) (c_to k) r' \<and> decoding k rest (expand h ts) r' \<and>
     cur r' = InfStep_PROCESS_NEXT_BLOCK \<and> run_frame r r'"
proof -
  obtain r1 where r1: "inf_loop (c_mem k) (c_to k) r = inf_loop (c_mem k) (c_to k) r1"
      "decoding k (lit_code c 256 @ rest) (expand h ts) r1" "in_block c r1" "run_frame r r1"
    using tokens_loop [OF assms(1-4,6)] by blast
  obtain r2 where r2: "inf_switch (c_mem k) (c_to k) r1 = Inr r2" "decoding k rest (expand h ts) r2"
      "cur r2 = InfStep_PROCESS_NEXT_BLOCK" "run_frame r1 r2"
    using end_of_block_step [OF r1(2,3) assms(5)] by blast
  show ?thesis using r1(1) decoding_step [OF r1(2) r2(1)] r2(2,3) run_frame_trans [OF r1(4) r2(4)] by auto
qed

lemma fixed_block_loop:
  assumes d: "decoding k ([f, True, False] @ tokens_bits ts @ end_of_block @ rest) h r" and "at_header r"
    and "tokens_ok h ts" and "room_for k (expand h ts)"
  shows "\<exists>r'. inf_loop (c_mem k) (c_to k) r = inf_loop (c_mem k) (c_to k) r' \<and> decoding k rest (expand h ts) r' \<and> block_done f r r'"
proof -
  let ?v = "codes_bits fixed_codes ts @ lit_code fixed_codes 256 @ rest"
  have "token_bits = coded_bits fixed_lit_code fixed_dist_code" by (rule ext) (rule token_bits_coded)
  then have v: "tokens_bits ts @ end_of_block @ rest = ?v"
    by (simp add: tokens_bits_def codes_bits_def fixed_codes_def end_of_block_def)
  have ok: "codes_ok fixed_codes ts" using assms(3)
    by (induction ts arbitrary: h) (auto simp: codes_ok_def fixed_codes_def dest: token_ok_coded)
  obtain r1 where r1: "decoding k ?v h r1" "isLastBlock (st r1) = of_bool f" "rmsg r1 = rmsg r"
      "inf_switch (c_mem k) (c_to k) r = Inr (inf_goto InfStep_LOAD_FIXED_HUFFMAN_DECODERS r1)"
    using header_step [of k f True False ?v h r] d assms(2) unfolding v by auto
  let ?r1 = "inf_goto InfStep_LOAD_FIXED_HUFFMAN_DECODERS r1"
  obtain r2 where r2: "inf_switch (c_mem k) (c_to k) ?r1 = Inr r2" "decoding k ?v h r2" "in_block fixed_codes r2" "run_frame ?r1 r2"
    using fixed_step [of k _ h ?r1] r1(1) by auto
  obtain r3 where r3: "inf_loop (c_mem k) (c_to k) r2 = inf_loop (c_mem k) (c_to k) r3" "decoding k rest (expand h ts) r3"
      "cur r3 = InfStep_PROCESS_NEXT_BLOCK" "run_frame r2 r3"
    using compressed_loop [OF r2(2,3) assms(3) ok _ assms(4)] by (auto simp: fixed_codes_def)
  have "inf_loop (c_mem k) (c_to k) r = inf_loop (c_mem k) (c_to k) r3"
    using decoding_step [OF d r1(4)] decoding_step [OF _ r2(1)] r1(1) r3(1) by simp
  moreover have "block_done f r r3" using r1(2,3) r2(4) r3(3,4) by (simp add: block_done_def run_frame_def inf_goto_def)
  ultimately show ?thesis using r3(2) by blast
qed

lemma dynamic_block_loop:
  assumes dec: "decoding k ([f, False, True] @ dyn_bits d @ codes_bits (dyn_codes d) ts @ lit_code (dyn_codes d) 256 @ rest) h r"
    and "at_header r" and ok: "dyn_ok d" and ts: "tokens_ok h ts" "codes_ok (dyn_codes d) ts" and room: "room_for k (expand h ts)"
  shows "\<exists>r'. inf_loop (c_mem k) (c_to k) r = inf_loop (c_mem k) (c_to k) r' \<and> decoding k rest (expand h ts) r' \<and> block_done f r r'"
proof -
  let ?v = "codes_bits (dyn_codes d) ts @ lit_code (dyn_codes d) 256 @ rest"
  obtain r1 where r1: "decoding k (dyn_bits d @ ?v) h r1" "isLastBlock (st r1) = of_bool f" "rmsg r1 = rmsg r"
      "inf_switch (c_mem k) (c_to k) r = Inr (inf_goto InfStep_LOAD_DYNAMIC_HUFFMAN_DECODERS r1)"
    using header_step [of k f False True "dyn_bits d @ ?v" h r] dec assms(2) by auto
  let ?r1 = "inf_goto InfStep_LOAD_DYNAMIC_HUFFMAN_DECODERS r1"
  obtain r2 where r2: "inf_switch (c_mem k) (c_to k) ?r1 = step_Read_LiteralOrLength (c_mem k) (c_to k) r2" "decoding k ?v h r2"
      "in_block (dyn_codes d) r2" "run_frame ?r1 r2"
    using dynamic_step [of k d ?v h ?r1] r1(1) ok by auto
  have "inf_loop (c_mem k) (c_to k) ?r1 = inf_loop (c_mem k) (c_to k) r2"
    using r1(1) r2(2) unfolding inf_loop.simps [of _ _ ?r1] inf_loop.simps [of _ _ r2] in_block_switch [OF r2(3)] r2(1)
    by (simp add: decoding_def inf_goto_def)
  moreover have "256 \<in> lit_symbols (dyn_codes d)" using ok by (simp add: dyn_ok_def dyn_codes_def)
  from compressed_loop [OF r2(2,3) ts this room]
  obtain r3 where r3: "inf_loop (c_mem k) (c_to k) r2 = inf_loop (c_mem k) (c_to k) r3" "decoding k rest (expand h ts) r3"
      "cur r3 = InfStep_PROCESS_NEXT_BLOCK" "run_frame r2 r3" by blast
  moreover have "block_done f r r3" using r1(2,3) r2(4) r3(3,4) by (simp add: block_done_def run_frame_def inf_goto_def)
  ultimately show ?thesis using decoding_step [OF dec r1(4)] by auto
qed

lemma block_loop:
  assumes "block h f view rest h'" and "decoding k view h r" and "at_header r" and "room_for k h'"
  shows "\<exists>r'. inf_loop (c_mem k) (c_to k) r = inf_loop (c_mem k) (c_to k) r' \<and> decoding k rest h' r' \<and> block_done f r r'"
  using assms(1)
proof cases
  case (block_fixed ts)
  then show ?thesis using fixed_block_loop assms(2-4) by simp
next
  case (block_dynamic d ts)
  then show ?thesis using dynamic_block_loop [of k f d ts rest h r] assms(2-4) by (simp add: codes_bits_def codes_ok_def dyn_codes_def)
next
  case (block_stored data pad)
  obtain r1 where r1: "decoding k (pad @ stored_header (length data) @ bytes_bits data @ rest) h r1" "isLastBlock (st r1) = of_bool f"
      "rmsg r1 = rmsg r" "inf_switch (c_mem k) (c_to k) r = Inr (inf_goto InfStep_PROCESS_UNCOMPRESSED_BLOCK r1)"
    using header_step [of k f False False "pad @ stored_header (length data) @ bytes_bits data @ rest" h r] assms(2,3) block_stored(1) by auto
  let ?r1 = "inf_goto InfStep_PROCESS_UNCOMPRESSED_BLOCK r1"
  obtain r2 where r2: "inf_switch (c_mem k) (c_to k) ?r1 = Inr r2" "decoding k rest (h @ data) r2"
      "cur r2 = InfStep_PROCESS_NEXT_BLOCK" "run_frame ?r1 r2"
    using stored_step [of k pad data rest h ?r1] r1(1) block_stored assms(4) by auto
  have "inf_loop (c_mem k) (c_to k) r = inf_loop (c_mem k) (c_to k) r2"
    using decoding_step [OF assms(2) r1(4)] decoding_step [OF _ r2(1)] r1(1) by simp
  moreover have "block_done f r r2" using r1(2,3) r2(3,4) by (simp add: block_done_def run_frame_def inf_goto_def)
  ultimately show ?thesis using r2(2) block_stored(2) by blast
qed

lemma blocks_loop:
  assumes "blocks h fin view rest h'" and "decoding k view h r" and "at_header r" and "room_for k h'"
  shows "\<exists>r'. inf_loop (c_mem k) (c_to k) r = inf_loop (c_mem k) (c_to k) r' \<and> decoding k rest h' r' \<and> rmsg r' = rmsg r \<and>
     (if fin then cur r' = InfStep_PROCESS_NEXT_BLOCK \<and> isLastBlock (st r') = 1 else at_header r')"
  using assms
proof (induction arbitrary: r rule: blocks.induct)
  case (blocks_none h rest)
  then show ?case by auto
next
  case (blocks_final h view rest h')
  then show ?case using block_loop [of h True view rest h' k r] by (auto simp: block_done_def)
next
  case (blocks_more h view mid h1 fin rest h2)
  have "room_for k h1" using room_for_mono blocks_grow blocks_more by blast
  then obtain r1 where r1: "inf_loop (c_mem k) (c_to k) r = inf_loop (c_mem k) (c_to k) r1" "decoding k mid h1 r1" "block_done False r r1"
    using block_loop [of h False view mid h1 k r] blocks_more by blast
  then have "at_header r1" by (simp add: block_done_def at_header_def)
  from blocks_more.IH [OF r1(2) this blocks_more.prems(3)] r1(1,3) show ?case by (auto simp: block_done_def)
qed

end
