(* ===== verification/Inf_Session.thy ===== *)
theory Inf_Session
  imports Inf_Blocks
begin

text \<open>
  Whole calls of \<^verbatim>\<open>inflate\<close>: a stream or a part of it is given as input, the output has enough room. The
  state between two calls is described by \<open>inf_ready\<close>.
\<close>

section \<open>How the loop ends\<close>

definition same_output :: "inf_run \<Rightarrow> inf_run \<Rightarrow> bool" where
  "same_output r r' \<longleftrightarrow> out r' = out r \<and> writePtr r' = writePtr r \<and> rmsg r' = rmsg r \<and> statics r' = statics r \<and>
     outputBuf (st r') = outputBuf (st r) \<and> sllist (st r') = sllist (st r)"

text \<open>After the final block four bytes are taken as the checksum; they are not compared with anything.\<close>

lemma finish_loop:
  assumes d: "decoding k rest h r" and "cur r = InfStep_PROCESS_NEXT_BLOCK" and "isLastBlock (st r) \<noteq> 0" and "32 \<le> length rest"
  shows "\<exists>r'. inf_loop (c_mem k) (c_to k) r = Some (Inr r') \<and> res r' = Z_STREAM_END \<and> same_output r r' \<and>
     cur r' = InfStep_END \<and> action (st r') = InfAction_Init \<and> inputPtr (bitstream (st r')) = c_end k - length rest div 8 + 4"
proof -
  let ?bs = "bitstream (st r)"
  let ?r1 = "inf_goto InfStep_ADLER32_CHECKSUM (r\<lparr>st := (st r)\<lparr>isLastBlock := 4\<rparr>\<rparr>)"
  let ?r2 = "inf_goto InfStep_END (r\<lparr>st := (st r)\<lparr>bitstream := ?bs\<lparr>inputPtr := inputPtr ?bs + 4\<rparr>, isLastBlock := 0\<rparr>\<rparr>)"
  let ?r3 = "?r2\<lparr>res := Z_STREAM_END, st := (st ?r2)\<lparr>action := InfAction_Init\<rparr>\<rparr>"
  have bs: "bs_ok (c_mem k) (c_end k) ?bs" "bs_tight ?bs" "bs_bits (c_mem k) ?bs = rest" and act: "action (st r) = InfAction_ProcessNextChunk"
    using d by (auto simp: decoding_def)
  have pos: "inputPtr ?bs = c_end k - length rest div 8" "c_end k \<le> length (c_mem k)" "inputEnd ?bs = c_end k"
    using tight_position [OF bs(1,2)] bs by (auto simp: bs_ok_def)
  have "length rest = bsize ?bs + 8 * (c_end k - inputPtr ?bs)" "bsize ?bs < 8"
    using length_bs_bits [of "c_mem k" ?bs] bs pos(3) by (auto simp: bs_ok_def bs_tight_def)
  then have four: "4 \<le> c_end k - inputPtr ?bs" using assms(4) by linarith
  have sw: "inf_switch (c_mem k) (c_to k) r = Inr ?r1"
    using assms(2,3) by (simp add: inf_switch_def step_PROCESS_NEXT_BLOCK_def)
  have sw1: "inf_switch (c_mem k) (c_to k) ?r1 = Inr ?r2"
    using four pos(2,3) by (simp add: inf_switch_def step_ADLER32_CHECKSUM_def mem_read_def inf_goto_def Let_def min_absorb1)
  have sw2: "inf_switch (c_mem k) (c_to k) ?r2 = Inr ?r3" by (simp add: inf_switch_def step_END_def inf_goto_def)
  have "inf_loop (c_mem k) (c_to k) r = inf_loop (c_mem k) (c_to k) ?r3"
    using inf_loop_step [OF act sw] inf_loop_step [OF _ sw1] inf_loop_step [OF _ sw2] act by (simp add: inf_goto_def)
  also have "\<dots> = Some (Inr ?r3)" by (rule inf_loop_done) simp
  finally show ?thesis by (rule exI [of _ ?r3, OF conjI]) (simp add: same_output_def inf_goto_def pos(1))
qed

text \<open>A header that has not arrived yet suspends the run; the bits that are there are kept.\<close>

lemma wait_loop:
  assumes d: "decoding k rest h r" and "at_header r" and "length rest < 3"
  shows "\<exists>r'. inf_loop (c_mem k) (c_to k) r = Some (Inr r') \<and> res r' = Z_OK \<and> same_output r r' \<and>
     cur r' = InfStep_READ_BLOCK_HEADER \<and> action (st r') = InfAction_FillInputBuffer \<and>
     bs_ok (c_mem k) (c_end k) (bitstream (st r')) \<and> inputPtr (bitstream (st r')) = c_end k \<and>
     bs_bits (c_mem k) (bitstream (st r')) = rest"
proof -
  obtain n where sw: "inf_switch (c_mem k) (c_to k) r = step_READ_BLOCK_HEADER (c_mem k)
     (inf_goto InfStep_READ_BLOCK_HEADER (r\<lparr>st := (st r)\<lparr>isLastBlock := n\<rparr>\<rparr>))"
    using at_header_switch [OF assms(2)] by blast
  obtain bs1 where bs1: "Inf_BS_ReadBits (c_mem k) (bitstream (st r)) 3 = Inr (None, bs1)"
      "bs_ok (c_mem k) (c_end k) bs1" "bs_bits (c_mem k) bs1 = rest"
    using bsr.get_short [of "c_mem k" "c_end k" "bitstream (st r)" 3] d assms(3) by (auto simp: decoding_def)
  have ptr: "inputPtr bs1 = c_end k"
    using length_bs_bits [of "c_mem k" bs1] bs1(2,3) assms(3) by (auto simp: bs_ok_def bs_inv_def)
  let ?r = "inf_FILL_INPUT_BUFFER (inf_goto InfStep_READ_BLOCK_HEADER (r\<lparr>st := (st r)\<lparr>isLastBlock := n, bitstream := bs1\<rparr>\<rparr>))"
  have "inf_switch (c_mem k) (c_to k) r = Inr ?r"
    unfolding sw using bs1(1) by (simp add: step_READ_BLOCK_HEADER_def with_bits_def run_simps)
  then have "inf_loop (c_mem k) (c_to k) r = inf_loop (c_mem k) (c_to k) ?r" by (rule decoding_step [OF d])
  also have "\<dots> = Some (Inr ?r)" by (rule inf_loop_done) (simp add: inf_FILL_INPUT_BUFFER_def)
  finally show ?thesis
    by (rule exI [of _ ?r, OF conjI]) (simp add: same_output_def inf_goto_def inf_FILL_INPUT_BUFFER_def bs1(2,3) ptr)
qed

section \<open>The state between two calls\<close>

text \<open>
  \<open>inf_ready h left s\<close>: the state has decoded the text \<open>h\<close>, stands before a block header and has the bits
  \<open>left\<close>, fewer than three, of that header.
\<close>

definition inf_ready :: "u8 list \<Rightarrow> bool list \<Rightarrow> Inf_State \<Rightarrow> bool" where
  "inf_ready h left s \<longleftrightarrow>
     (action s = InfAction_Init \<and> step s = InfStep_START \<or>
      action s = InfAction_FillInputBuffer \<and> step s \<in> {InfStep_START, InfStep_READ_BLOCK_HEADER}) \<and>
     win_rep (outputBuf s) h \<and> sl_idle (sllist s) \<and>
     bsize (bitstream s) < 3 \<and> take_bit (bsize (bitstream s)) (bits (bitstream s)) = bits (bitstream s) \<and>
     bits_of (bsize (bitstream s)) (bits (bitstream s)) = left"

text \<open>What the input of a call means: the first call starts with the two bytes of the stream header.\<close>

definition inf_input :: "Inf_State \<Rightarrow> u8 list \<Rightarrow> u8 list \<Rightarrow> bool" where
  "inf_input s input body \<longleftrightarrow> body \<noteq> [] \<and>
     (if action s = InfAction_Init then \<exists>flg. input = 0x78 # flg # body else input = body)"

lemma inflateInit_ready:
  assumes "inflateInit (Some mem) True (Some strm) = (ret, strm')"
  shows "ret = Z_OK" and "\<exists>s. strm' = Some (strm\<lparr>msg := None, total_in := 0, total_out := 0, state := Some s\<rparr>) \<and>
     inf_ready [] [] s \<and> action s = InfAction_Init"
proof -
  let ?s = "mem\<lparr>action := InfAction_Init, step := InfStep_START, bitstream := (bitstream mem)\<lparr>bits := 0, bsize := 0\<rparr>,
      sllist := (sllist mem)\<lparr>command := 0, huffmanLength := 0, repetitions := 0, symbol := 0, elementIndex := 0,
        headPtr := (\<lambda>_. None), tailPtr := (\<lambda>_. None), lengthsBySymbol := (\<lambda>_. None), elements := (\<lambda>_. None)\<rparr>,
      huffmanTableA := (\<lambda>_. None), huffmanTableB := (\<lambda>_. None), outputBuf := snd (Inf_Outbuf_init True)\<rparr>"
  have "inflateInit (Some mem) True (Some strm) = (Z_OK, Some (strm\<lparr>msg := None, total_in := 0, total_out := 0, state := Some ?s\<rparr>))"
    by (simp add: inflateInit_def Inf_Outbuf_init_def Let_def)
  moreover have "inf_ready [] [] ?s"
    using win_rep_init by (simp add: inf_ready_def sl_idle_def sl_rep_def positions_def)
  ultimately show "ret = Z_OK" and "\<exists>s. strm' = Some (strm\<lparr>msg := None, total_in := 0, total_out := 0, state := Some s\<rparr>) \<and>
     inf_ready [] [] s \<and> action s = InfAction_Init" using assms by auto
qed

section \<open>One call\<close>

definition header_len :: "Inf_State \<Rightarrow> nat" where
  "header_len s = (if action s = InfAction_Init then 2 else 0)"

lemma inf_ready_action: "inf_ready h left s \<Longrightarrow> action s \<in> {InfAction_Init, InfAction_FillInputBuffer}"
  by (auto simp: inf_ready_def)

lemma inflate_entry_input:
  assumes act: "action s \<in> {InfAction_Init, InfAction_FillInputBuffer}"
    and input: "mem_read (next_in strm) (unat (avail_in strm)) (in_mem strm) = Inr input" and body: "inf_input s input body"
  shows "inflate_entry strm s = Inr (Inr
     (strm\<lparr>total_in := (if action s = InfAction_Init then 2 else total_in strm), avail_in := of_nat (length body)\<rparr>,
      s\<lparr>bitstream := (bitstream s)\<lparr>inputPtr := next_in strm + header_len s, inputEnd := next_in strm + length input\<rparr>\<rparr>,
      next_in strm + header_len s))"
proof -
  have len: "length input = unat (avail_in strm)" "take (unat (avail_in strm)) (drop (next_in strm) (in_mem strm)) = input"
    "next_in strm + unat (avail_in strm) \<le> length (in_mem strm)"
    using input by (auto simp: mem_read_def split: if_splits)
  have body_len: "length input = header_len s + length body" "body \<noteq> []" using body by (auto simp: inf_input_def header_len_def split: if_splits)
  then have big: "header_len s < unat (avail_in strm)" using len(1) by (cases body) auto
  then have pos: "0 < avail_in strm" by (simp add: word_less_nat_alt)
  show ?thesis
  proof (cases "action s = InfAction_Init")
    case True
    then have h2: "header_len s = 2" by (simp add: header_len_def)
    have ne: "avail_in strm \<noteq> 1" "avail_in strm \<noteq> 2" using big h2 by auto
    obtain flg where "input = 0x78 # flg # body" using body True by (auto simp: inf_input_def)
    then have first: "in_mem strm ! next_in strm = 0x78"
      using arg_cong [OF len(2), of "\<lambda>l. l ! 0"] big len(3) by simp
    have "(of_nat (unat (avail_in strm)) :: u32) = of_nat (2 + length body)" using body_len(1) h2 len(1) by metis
    then have "avail_in strm - 2 = of_nat (length body)" by (simp add: algebra_simps)
    then show ?thesis
      using True pos ne first h2 len(1,3) big by (simp add: inflate_entry_def Let_def)
  next
    case False
    then have act: "action s = InfAction_FillInputBuffer" using act by simp
    have "(of_nat (unat (avail_in strm)) :: u32) = of_nat (length body)"
      using body_len(1) False len(1) by (simp add: header_len_def)
    then have "avail_in strm = of_nat (length body)" by simp
    with act pos len(1) show ?thesis by (simp add: inflate_entry_def Let_def header_len_def)
  qed
qed

lemma entry_view:
  assumes rdy: "inf_ready h left s" and input: "mem_read (next_in strm) (unat (avail_in strm)) (in_mem strm) = Inr input"
    and body: "inf_input s input body"
    and bs: "bs = (bitstream s)\<lparr>inputPtr := next_in strm + header_len s, inputEnd := next_in strm + length input\<rparr>"
  shows "bs_ok (in_mem strm) (next_in strm + length input) bs" and "bs_tight bs"
    and "bs_bits (in_mem strm) bs = left @ bytes_bits body"
proof -
  have len: "length input = unat (avail_in strm)" "take (unat (avail_in strm)) (drop (next_in strm) (in_mem strm)) = input"
    "next_in strm + unat (avail_in strm) \<le> length (in_mem strm)"
    using input by (auto simp: mem_read_def split: if_splits)
  have b: "drop (header_len s) input = body" "header_len s \<le> length input"
    using body by (auto simp: inf_input_def header_len_def split: if_splits)
  show "bs_ok (in_mem strm) (next_in strm + length input) bs" "bs_tight bs"
    using rdy b(2) len by (auto simp: inf_ready_def bs bs_ok_def bs_inv_def bs_tight_def)
  have "take (length input - header_len s) (drop (next_in strm + header_len s) (in_mem strm)) = body"
    using arg_cong [OF len(2), of "drop (header_len s)"] b(1) len(1) by (simp add: drop_take add.commute)
  then show "bs_bits (in_mem strm) bs = left @ bytes_bits body"
    using rdy by (simp add: bs bs_bits_def inf_ready_def)
qed

text \<open>The two ways a call ends, with what it leaves of the input.\<close>

lemma call_end:
  assumes d: "decoding k rest h r" and "if fin then cur r = InfStep_PROCESS_NEXT_BLOCK \<and> isLastBlock (st r) = 1 else at_header r"
    and "if fin then 32 \<le> length rest else length rest < 3"
  shows "\<exists>r'. inf_loop (c_mem k) (c_to k) r = Some (Inr r') \<and> res r' = (if fin then Z_STREAM_END else Z_OK) \<and>
     same_output r r' \<and> action (st r') \<noteq> InfAction_UseOutputBufferContent \<and>
     inputPtr (bitstream (st r')) = c_end k - (if fin then length rest div 8 - 4 else 0) \<and>
     (fin \<or> inf_ready h rest ((st r')\<lparr>step := cur r'\<rparr>) \<and> action (st r') = InfAction_FillInputBuffer)"
proof (cases fin)
  case True
  have "length rest div 8 \<le> c_end k"
    using length_bs_bits [of "c_mem k" "bitstream (st r)"] d by (auto simp: decoding_def bs_ok_def bs_inv_def bs_tight_def)
  moreover have "4 \<le> length rest div 8" using assms(3) True by simp
  moreover obtain r' where "inf_loop (c_mem k) (c_to k) r = Some (Inr r')" "res r' = Z_STREAM_END" "same_output r r'"
     "action (st r') = InfAction_Init" "inputPtr (bitstream (st r')) = c_end k - length rest div 8 + 4"
    using finish_loop [OF d] assms(2,3) True by auto
  ultimately show ?thesis using True by auto
next
  case False
  obtain r' where r': "inf_loop (c_mem k) (c_to k) r = Some (Inr r')" "res r' = Z_OK" "same_output r r'"
     "cur r' = InfStep_READ_BLOCK_HEADER" "action (st r') = InfAction_FillInputBuffer"
     "bs_ok (c_mem k) (c_end k) (bitstream (st r'))" "inputPtr (bitstream (st r')) = c_end k"
     "bs_bits (c_mem k) (bitstream (st r')) = rest"
    using wait_loop [OF d] assms(2,3) False by auto
  have "bits_of (bsize (bitstream (st r'))) (bits (bitstream (st r'))) = rest"
    using r'(6-8) by (simp add: bs_bits_def bs_ok_def)
  moreover from arg_cong [OF this, of length] have "bsize (bitstream (st r')) < 3" using assms(3) False by simp
  ultimately have "inf_ready h rest ((st r')\<lparr>step := cur r'\<rparr>)"
    using r' d by (simp add: inf_ready_def same_output_def decoding_def bs_ok_def bs_inv_def)
  with r' False show ?thesis by auto
qed

text \<open>The result of a call that consumes \<open>used\<close> bytes after the header and produces \<open>made\<close> bytes.\<close>

definition inflated :: "Inf_State z_stream \<Rightarrow> Inf_State z_stream \<Rightarrow> nat \<Rightarrow> nat \<Rightarrow> u8 list \<Rightarrow> bool" where
  "inflated strm strm' hdr used made \<longleftrightarrow>
     in_mem strm' = in_mem strm \<and> next_in strm' = next_in strm + hdr + used \<and>
     unat (avail_in strm') = unat (avail_in strm) - hdr - used \<and>
     total_in strm' = (if hdr = 2 then 2 else total_in strm) + of_nat used \<and>
     mem_write (next_out strm) made (out_mem strm) = Inr (out_mem strm') \<and>
     next_out strm' = next_out strm + length made \<and> unat (avail_out strm') = unat (avail_out strm) - length made \<and>
     total_out strm' = total_out strm + of_nat (length made) \<and> msg strm' = msg strm"

lemma epilogue_inflated:
  assumes input: "mem_read (next_in strm) (unat (avail_in strm)) (in_mem strm) = Inr input" and body: "inf_input s input body"
    and strm1: "strm1 = strm\<lparr>total_in := (if action s = InfAction_Init then 2 else total_in strm), avail_in := of_nat (length body)\<rparr>"
    and r: "inputPtr (bitstream (st r)) = next_in strm + header_len s + used" "used \<le> length body"
      "writePtr r = next_out strm + length made" "length made \<le> unat (avail_out strm)"
      "mem_write (next_out strm) made (out_mem strm) = Inr (out r)" "rmsg r = msg strm"
      "action (st r) \<noteq> InfAction_UseOutputBufferContent"
  shows "inflated strm (snd (snd (inflate_epilogue strm1 (next_in strm + header_len s) r))) (header_len s) used made"
proof -
  have "length input = unat (avail_in strm)" using input by (auto simp: mem_read_def split: if_splits)
  then have len: "length body = unat (avail_in strm) - header_len s"
    using body by (auto simp: inf_input_def header_len_def split: if_splits)
  have lt: "unat (avail_in strm) < 2 ^ 32" "unat (avail_out strm) < 2 ^ 32"
    using unsigned_less [of "avail_in strm", where ?'a = nat] unsigned_less [of "avail_out strm", where ?'a = nat] by simp_all
  have "unat (of_nat (length body) - of_nat used :: u32) = length body - used"
    using len lt(1) r(2) by (simp add: unat_of_nat take_bit_eq_mod flip: of_nat_diff)
  moreover have "unat (avail_out strm - of_nat (length made)) = unat (avail_out strm) - length made"
    using r(4) lt(2) by (simp add: unat_sub word_le_nat_alt unat_of_nat take_bit_eq_mod)
  ultimately show ?thesis
    using r len by (simp add: inflated_def inflate_epilogue_def Let_def strm1 header_len_def)
qed

text \<open>A call with input, seen from its loop: what stays constant, the run at its start, and the stream without its header.\<close>

definition call_of :: "u8 list \<Rightarrow> Inf_State z_stream \<Rightarrow> inf_call" where
  "call_of h strm = \<lparr>c_mem = in_mem strm, c_end = next_in strm + unat (avail_in strm), c_out = out_mem strm, c_from = next_out strm,
     c_to = next_out strm + unat (avail_out strm), c_past = length h\<rparr>"

definition run_of :: "inf_statics \<Rightarrow> Inf_State \<Rightarrow> Inf_State z_stream \<Rightarrow> inf_run" where
  "run_of stat s strm = \<lparr>st = s\<lparr>bitstream := (bitstream s)\<lparr>inputPtr := next_in strm + header_len s, inputEnd := next_in strm + unat (avail_in strm)\<rparr>,
      action := InfAction_ProcessNextChunk\<rparr>, cur = step s, writePtr = next_out strm, out = out_mem strm, rmsg = msg strm, res = 0, statics = stat\<rparr>"

definition stripped :: "Inf_State \<Rightarrow> Inf_State z_stream \<Rightarrow> Inf_State z_stream" where
  "stripped s strm = strm\<lparr>total_in := (if action s = InfAction_Init then 2 else total_in strm), avail_in := avail_in strm - of_nat (header_len s)\<rparr>"

lemma stripped_body:
  assumes "mem_read (next_in strm) (unat (avail_in strm)) (in_mem strm) = Inr input" and "inf_input s input body"
  shows "length input = unat (avail_in strm)" and "length input = header_len s + length body"
    and "strm\<lparr>total_in := (if action s = InfAction_Init then 2 else total_in strm), avail_in := of_nat (length body)\<rparr> = stripped s strm"
proof -
  show len: "length input = unat (avail_in strm)" using assms(1) by (auto simp: mem_read_def split: if_splits)
  show "length input = header_len s + length body" using assms(2) by (auto simp: inf_input_def header_len_def split: if_splits)
  then have "of_nat (unat (avail_in strm)) = (of_nat (header_len s + length body) :: u32)" using len by metis
  then show "strm\<lparr>total_in := (if action s = InfAction_Init then 2 else total_in strm), avail_in := of_nat (length body)\<rparr> = stripped s strm"
    by (simp add: stripped_def)
qed

lemma inflate_run:
  assumes st: "state strm = Some s" and rdy: "inf_ready h left s" and stat: "statics_ok stat"
    and input: "mem_read (next_in strm) (unat (avail_in strm)) (in_mem strm) = Inr input" and body: "inf_input s input body"
    and space: "0 < avail_out strm" "next_out strm + unat (avail_out strm) \<le> length (out_mem strm)"
  shows "decoding (call_of h strm) (left @ bytes_bits body) h (run_of stat s strm)" and "at_header (run_of stat s strm)"
    and "inflate stat strm flush = (case inf_loop (in_mem strm) (next_out strm + unat (avail_out strm)) (run_of stat s strm) of
       None \<Rightarrow> None | Some (Inl e) \<Rightarrow> Some (Inl e)
     | Some (Inr r) \<Rightarrow> Some (Inr (inflate_epilogue (stripped s strm) (next_in strm + header_len s) r)))"
proof -
  note len = stripped_body(1) [OF input body]
  note entry = inflate_entry_input [OF inf_ready_action [OF rdy] input body, unfolded stripped_body(3) [OF input body] len]
  note view = entry_view [OF rdy input body refl]
  show "decoding (call_of h strm) (left @ bytes_bits body) h (run_of stat s strm)"
    using view rdy stat space(2) len by (simp add: decoding_def call_of_def run_of_def inf_ready_def mem_write_Nil)
  show "at_header (run_of stat s strm)" using rdy by (auto simp: at_header_def run_of_def inf_ready_def)
  have "avail_out (stripped s strm) = avail_out strm" "in_mem (stripped s strm) = in_mem strm" "next_out (stripped s strm) = next_out strm"
    "out_mem (stripped s strm) = out_mem strm" "msg (stripped s strm) = msg strm"
    by (simp_all add: stripped_def)
  then show "inflate stat strm flush = (case inf_loop (in_mem strm) (next_out strm + unat (avail_out strm)) (run_of stat s strm) of
       None \<Rightarrow> None | Some (Inl e) \<Rightarrow> Some (Inl e)
     | Some (Inr r) \<Rightarrow> Some (Inr (inflate_epilogue (stripped s strm) (next_in strm + header_len s) r)))"
    using entry st space(1) view(1) len by (simp add: inflate_def run_of_def word_less_nat_alt bs_ok_def bs_inv_def)
qed

lemma inflate_blocks:
  assumes st: "state strm = Some s" and rdy: "inf_ready h left s" and stat: "statics_ok stat"
    and input: "mem_read (next_in strm) (unat (avail_in strm)) (in_mem strm) = Inr input" and body: "inf_input s input body"
    and blks: "blocks h fin (left @ bytes_bits body) rest h'" and size: "length h' \<le> Inf_Outbuf_size"
    and space: "length h' - length h \<le> unat (avail_out strm)" "0 < avail_out strm"
      "next_out strm + unat (avail_out strm) \<le> length (out_mem strm)"
    and tail: "if fin then 32 \<le> length rest else length rest < 3"
  shows "\<exists>stat' s' strm'. inflate stat strm flush = Some (Inr (if fin then Z_STREAM_END else Z_OK, stat', strm')) \<and>
     statics_ok stat' \<and> state strm' = Some s' \<and> (fin \<or> inf_ready h' rest s' \<and> action s' = InfAction_FillInputBuffer) \<and>
     inflated strm strm' (header_len s) (length body - (if fin then length rest div 8 - 4 else 0)) (drop (length h) h')"
proof -
  let ?k = "call_of h strm" and ?r = "run_of stat s strm" and ?p = "next_in strm + header_len s"
  note run = inflate_run [OF st rdy stat input body space(2,3)] and len = stripped_body [OF input body]
  have room: "room_for ?k h'" using space(1) size by (simp add: room_for_def call_of_def)
  obtain r1 where r1: "inf_loop (c_mem ?k) (c_to ?k) ?r = inf_loop (c_mem ?k) (c_to ?k) r1" "decoding ?k rest h' r1" "rmsg r1 = rmsg ?r"
      "if fin then cur r1 = InfStep_PROCESS_NEXT_BLOCK \<and> isLastBlock (st r1) = 1 else at_header r1"
    using blocks_loop [OF blks run(1,2) room] by blast
  obtain r2 where r2: "inf_loop (c_mem ?k) (c_to ?k) r1 = Some (Inr r2)" "res r2 = (if fin then Z_STREAM_END else Z_OK)"
      "same_output r1 r2" "action (st r2) \<noteq> InfAction_UseOutputBufferContent"
      "inputPtr (bitstream (st r2)) = c_end ?k - (if fin then length rest div 8 - 4 else 0)"
      "fin \<or> inf_ready h' rest ((st r2)\<lparr>step := cur r2\<rparr>) \<and> action (st r2) = InfAction_FillInputBuffer"
    using call_end [OF r1(2,4) tail] by metis
  define used where "used = length body - (if fin then length rest div 8 - 4 else 0)"
  have "length rest \<le> length left + 8 * length body" "length left < 3"
    using blocks_shrink [OF blks] rdy by (auto simp: inf_ready_def)
  then have "length rest div 8 - 4 \<le> length body" by linarith
  then have ptr: "inputPtr (bitstream (st r2)) = ?p + used" "used \<le> length body"
    using r2(5) len(1,2) by (auto simp: used_def call_of_def add.assoc)
  have past: "length h \<le> length h'" using r1(2) by (simp add: decoding_def call_of_def)
  let ?e = "inflate_epilogue (stripped s strm) ?p r2"
  have "inflated strm (snd (snd ?e)) (header_len s) used (drop (length h) h')"
    by (rule epilogue_inflated [OF input body len(3) [symmetric]])
      (use r1(2,3) r2 ptr space(1) past in \<open>auto simp: same_output_def decoding_def call_of_def run_of_def\<close>)
  moreover have "inflate stat strm flush = Some (Inr ?e)" using run(3) r1(1) r2(1) by (simp add: call_of_def)
  ultimately show ?thesis
    using r2 r1(2) by (auto simp: inflate_epilogue_def Let_def decoding_def same_output_def used_def)
qed

end
