(* ===== verification/Round_Trip.thy ===== *)
theory Round_Trip
  imports Zlib_Comp Inf_Session
begin

text \<open>
  The two halves of the codec put together: what \<^verbatim>\<open>deflate\<close> writes is a sequence of blocks in the sense
  of the format specification, and \<^verbatim>\<open>inflate\<close> turns such a sequence back into the text.
\<close>

section \<open>The output of \<open>deflate\<close> as blocks\<close>

lemma stored_header_empty: "stored_header 0 = bytes_bits [0x00, 0x00, 0xFF, 0xFF]"
  by (simp add: stored_header_def byte_bits_def bits_of_def upt_rec bytes_bits_def bit_not_iff)

lemma finish_blocks:
  assumes "deflate_output True Z_FINISH src ck Z"
  shows "\<exists>body rest. Z = zlib_header @ body \<and> body \<noteq> [] \<and> blocks h True (bytes_bits body) rest (h @ src) \<and> 32 \<le> length rest \<and>
     length rest div 8 = 4"
proof -
  obtain ts body k where o: "tokens_ok [] ts" "expand [] ts = src" "Z = zlib_header @ body @ adler_bytes ck" "k < 8"
      "bytes_bits body = ([True, True, False] @ tokens_bits ts @ end_of_block) @ replicate k False"
    using assms by (auto simp: deflate_output_def trailer_def block_tail_def padded_def)
  let ?rest = "replicate k False @ bytes_bits (adler_bytes ck)"
  have "blocks h True ([True, True, False] @ tokens_bits ts @ end_of_block @ ?rest) ?rest (expand h ts)"
    by (intro blocks_final block_fixed) (use tokens_shift [OF o(1), of h] in simp)
  moreover have "length (adler_bytes ck) = 4" by (simp add: adler_bytes_def)
  ultimately show ?thesis
    using o tokens_shift [OF o(1), of h] by (intro exI [of _ "body @ adler_bytes ck"] exI [of _ ?rest]) auto
qed

lemma flush_blocks:
  assumes "deflate_output header flush src ck Z" and "flush \<noteq> Z_FINISH"
  shows "\<exists>body. Z = (if header then zlib_header else []) @ body \<and> body \<noteq> [] \<and> blocks h False (bytes_bits body) [] (h @ src)"
proof -
  obtain ts body k where o: "tokens_ok [] ts" "expand [] ts = src" "k < 8"
      "Z = (if header then zlib_header else []) @ body @ [0x00, 0x00, 0xFF, 0xFF]"
      "bytes_bits body = ([False, True, False] @ tokens_bits ts @ end_of_block @ [False, False, False]) @ replicate k False"
    using assms by (auto simp: deflate_output_def trailer_def block_tail_def padded_def)
  have sh: "tokens_ok h ts" "expand h ts = h @ src" using tokens_shift [OF o(1), of h] o(2) by simp_all
  have "block (h @ src) False ([False, False, False] @ replicate k False @ stored_header (length ([] :: u8 list)) @ bytes_bits [] @ [])
     [] ((h @ src) @ [])"
    by (rule block_stored) (use o(3) in simp_all)
  then have "blocks (h @ src) False ([False, False, False] @ replicate k False @ bytes_bits [0x00, 0x00, 0xFF, 0xFF]) [] (h @ src)"
    using blocks_more [OF _ blocks_none] by (simp add: stored_header_empty)
  from blocks_more [OF block_fixed [OF sh(1)] this [folded sh(2)]]
  have "blocks h False (bytes_bits (body @ [0x00, 0x00, 0xFF, 0xFF])) [] (h @ src)" using o(5) sh(2) by simp
  then show ?thesis using o(4) by (intro exI [of _ "body @ [0x00, 0x00, 0xFF, 0xFF]"]) simp
qed

section \<open>A conversation\<close>

text \<open>
  A sender that flushes every message with \<^verbatim>\<open>Z_FULL_FLUSH\<close> and a receiver that inflates the chunks as
  they arrive, each call with buffers of its own, as the transport above the codec does it.
\<close>

definition offer :: "u8 list \<Rightarrow> nat \<Rightarrow> 's z_stream \<Rightarrow> 's z_stream" where
  "offer src n strm = strm\<lparr>in_mem := src, next_in := 0, avail_in := of_nat (length src),
     out_mem := replicate n 0, next_out := 0, avail_out := of_nat n\<rparr>"

definition taken :: "'s z_stream \<Rightarrow> u8 list" where
  "taken strm = take (next_out strm) (out_mem strm)"

fun send :: "uzlib_comp z_stream \<Rightarrow> u8 list list \<Rightarrow> u8 list list res" where
  "send strm [] = Inr []"
| "send strm (m # ms) =
     bindR (deflate (offer m (2 * length m + 10) strm) Z_FULL_FLUSH) (\<lambda>(ret, strm).
     bindR (send strm ms) (\<lambda>cs. Inr (taken strm # cs)))"

fun receive :: "inf_statics \<Rightarrow> Inf_State z_stream \<Rightarrow> nat \<Rightarrow> u8 list list \<Rightarrow> u8 list list res option" where
  "receive stat strm n [] = Some (Inr [])"
| "receive stat strm n (c # cs) =
     (case inflate stat (offer c n strm) Z_SYNC_FLUSH of
        None \<Rightarrow> None
      | Some (Inl e) \<Rightarrow> Some (Inl e)
      | Some (Inr (ret, stat, strm)) \<Rightarrow> map_option (\<lambda>r. bindR r (\<lambda>ms. Inr (taken strm # ms))) (receive stat strm n cs))"

lemma offer_simps [simp]:
  "state (offer src n strm) = state strm" "in_mem (offer src n strm) = src" "next_in (offer src n strm) = 0"
  "avail_in (offer src n strm) = of_nat (length src)" "out_mem (offer src n strm) = replicate n 0"
  "next_out (offer src n strm) = 0" "avail_out (offer src n strm) = of_nat n" "adler (offer src n strm) = adler strm"
  by (simp_all add: offer_def)

lemma taken_eq:
  assumes "mem_write 0 bs buf = Inr (out_mem strm)" and "next_out strm = length bs"
  shows "taken strm = bs"
proof -
  have "out_mem strm = bs @ drop (length bs) buf" using assms(1) by (auto simp: mem_write_def split: if_splits)
  with assms(2) show ?thesis by (simp add: taken_def)
qed

text \<open>The sender between two messages.\<close>

definition idle_sender :: "bool \<Rightarrow> uzlib_comp z_stream \<Rightarrow> bool" where
  "idle_sender first strm \<longleftrightarrow> (\<exists>u. state strm = Some u \<and> outbuf u = PNull \<and> dict_size u \<le> 32768 \<and> comp_disabled u = first)"

text \<open>The receiver after the text \<open>h\<close>.\<close>

definition idle_receiver :: "bool \<Rightarrow> u8 list \<Rightarrow> inf_statics \<Rightarrow> Inf_State z_stream \<Rightarrow> bool" where
  "idle_receiver first h stat strm \<longleftrightarrow> statics_ok stat \<and>
     (\<exists>s. state strm = Some s \<and> inf_ready h [] s \<and> (action s = InfAction_Init) = first)"

lemma unat_small: "n < 2 ^ 32 \<Longrightarrow> unat (of_nat n :: u32) = n"
  by (simp add: unat_of_nat take_bit_eq_mod)

lemma send_one:
  assumes "idle_sender first strm" and "m \<noteq> []" and "length m \<le> 32768"
  shows "\<exists>Z strm' ck. deflate (offer m (2 * length m + 10) strm) Z_FULL_FLUSH = Inr (Z_OK, strm') \<and> taken strm' = Z \<and>
     deflate_output first Z_FULL_FLUSH m ck Z \<and> idle_sender False strm'"
proof -
  obtain u where u: "state strm = Some u" "outbuf u = PNull" "dict_size u \<le> 32768" "comp_disabled u = first"
    using assms(1) by (auto simp: idle_sender_def)
  let ?s = "offer m (2 * length m + 10) strm"
  have n: "unat (of_nat (2 * length m + 10) :: u32) = 2 * length m + 10" "unat (of_nat (length m) :: u32) = length m"
    by (rule unat_small, use assms(3) in simp)+
  obtain Z u' strm' where z: "deflate ?s Z_FULL_FLUSH = Inr (Z_OK, strm')"
     "deflate_output first Z_FULL_FLUSH m (muzic_adler32 m (length m) (adler strm)) Z"
     "mem_write 0 Z (replicate (2 * length m + 10) 0) = Inr (out_mem strm')" "next_out strm' = length Z"
     "state strm' = Some u'" "outbuf u' = PNull" "dict_size u' \<le> 32768" "\<not> comp_disabled u'"
    using deflate_flush_whole [of ?s u m Z_FULL_FLUSH] u assms(2) n by (auto simp: mem_read_def z_codes)
  then show ?thesis using taken_eq [OF z(3,4)] by (auto simp: idle_sender_def)
qed

lemma receive_one:
  assumes "idle_receiver first h stat strm" and "deflate_output first Z_FULL_FLUSH m ck Z"
    and "length (h @ m) \<le> 32768" and "length (h @ m) \<le> n" and "n < 2 ^ 32" and "0 < n"
  shows "\<exists>stat' strm'. inflate stat (offer Z n strm) flush = Some (Inr (Z_OK, stat', strm')) \<and> taken strm' = m \<and>
     idle_receiver False (h @ m) stat' strm'"
proof -
  obtain s where s: "state strm = Some s" "inf_ready h [] s" "(action s = InfAction_Init) = first" "statics_ok stat"
    using assms(1) by (auto simp: idle_receiver_def)
  obtain body where b: "Z = (if first then zlib_header else []) @ body" "body \<noteq> []" "blocks h False (bytes_bits body) [] (h @ m)"
    using flush_blocks [OF assms(2)] by (auto simp: z_codes)
  have "inf_input s Z body" using b(1,2) s(3) by (auto simp: inf_input_def zlib_header_def)
  moreover have "length Z < 2 ^ 32" using deflate_output_length(1) [OF assms(2)] assms(3) by simp
  then have "unat (of_nat (length Z) :: u32) = length Z" by (rule unat_small)
  moreover have "unat (of_nat n :: u32) = n" using assms(5) by (rule unat_small)
  ultimately obtain stat' s' strm' where r: "inflate stat (offer Z n strm) flush = Some (Inr (Z_OK, stat', strm'))"
     "statics_ok stat'" "state strm' = Some s'" "inf_ready (h @ m) [] s'" "action s' = InfAction_FillInputBuffer"
     "mem_write 0 m (replicate n 0) = Inr (out_mem strm')" "next_out strm' = length m"
    using inflate_blocks [of "offer Z n strm" s h "[]" stat Z body False "[]" "h @ m" flush] s b(2,3) assms(3-6)
    by (auto simp: mem_read_def Inf_Outbuf_size_def inflated_def word_less_nat_alt)
  then show ?thesis using taken_eq [OF r(6,7)] by (auto simp: idle_receiver_def)
qed

lemma conversation:
  assumes "idle_sender first tx" and "idle_receiver first h stat rx" and "\<forall>m \<in> set ms. m \<noteq> []"
    and "length (h @ concat ms) \<le> 32768"
  shows "\<exists>cs. send tx ms = Inr cs \<and> receive stat rx 32768 cs = Some (Inr ms)"
  using assms
proof (induction ms arbitrary: first tx h stat rx)
  case (Cons m ms)
  obtain Z tx' ck where t: "deflate (offer m (2 * length m + 10) tx) Z_FULL_FLUSH = Inr (Z_OK, tx')" "taken tx' = Z"
     "deflate_output first Z_FULL_FLUSH m ck Z" "idle_sender False tx'"
    using send_one [OF Cons.prems(1), of m] Cons.prems(3,4) by auto
  obtain stat' rx' where r: "inflate stat (offer Z 32768 rx) Z_SYNC_FLUSH = Some (Inr (Z_OK, stat', rx'))" "taken rx' = m"
     "idle_receiver False (h @ m) stat' rx'"
    using receive_one [OF Cons.prems(2) t(3), of 32768 Z_SYNC_FLUSH] Cons.prems(4) by auto
  obtain cs where "send tx' ms = Inr cs" "receive stat' rx' 32768 cs = Some (Inr ms)"
    using Cons.IH [OF t(4) r(3)] Cons.prems(3,4) by auto
  with t(1,2) r(1,2) show ?case by (intro exI [of _ "Z # cs"]) simp
qed simp

end
