(* ===== verification/Inf_Resume.thy ===== *)
theory Inf_Resume
  imports Inf_Blocks
begin

text \<open>
  The inflater as a resumable machine. A position says, for each step of the machine, what the state holds
  and how the rest of a well-formed stream continues from there. Every step of the loop leads from a
  position to a position: it goes on, it waits for input with no bit lost, it stops because the output is
  full, or it reaches the end of the stream.
\<close>

section \<open>What is left to do\<close>

text \<open>
  The final text is \<open>H\<close>; \<open>T\<close> bytes follow the checksum. \<open>stream\<close>: the rest starts with a block header;
  \<open>after\<close>: a block has just ended; \<open>tokens_todo\<close>: tokens in the codes \<open>c\<close> come next.
\<close>

definition stream :: "nat \<Rightarrow> u8 list \<Rightarrow> bool list \<Rightarrow> u8 list \<Rightarrow> bool" where
  "stream T h V H \<longleftrightarrow> (\<exists>rest. blocks h True V rest H \<and> length rest div 8 = 4 + T)"

definition after :: "nat \<Rightarrow> bool \<Rightarrow> u8 list \<Rightarrow> bool list \<Rightarrow> u8 list \<Rightarrow> bool" where
  "after T fin h V H \<longleftrightarrow> (if fin then h = H \<and> length V div 8 = 4 + T else stream T h V H)"

definition tokens_left :: "nat \<Rightarrow> bool \<Rightarrow> codes \<Rightarrow> u8 list \<Rightarrow> token list \<Rightarrow> bool list \<Rightarrow> u8 list \<Rightarrow> bool" where
  "tokens_left T fin c h ts V H \<longleftrightarrow> (\<exists>rest. V = codes_bits c ts @ lit_code c 256 @ rest \<and> tokens_ok h ts \<and> codes_ok c ts \<and>
     256 \<in> lit_symbols c \<and> after T fin (expand h ts) rest H)"

definition tokens_todo :: "nat \<Rightarrow> bool \<Rightarrow> codes \<Rightarrow> u8 list \<Rightarrow> bool list \<Rightarrow> u8 list \<Rightarrow> bool" where
  "tokens_todo T fin c h V H \<longleftrightarrow> (\<exists>ts. tokens_left T fin c h ts V H)"

lemma stream_grows: "stream T h V H \<Longrightarrow> length h \<le> length H \<and> 32 \<le> length V"
proof -
  assume "stream T h V H"
  then obtain rest where r: "blocks h True V rest H" "length rest div 8 = 4 + T" by (auto simp: stream_def)
  then have "32 \<le> length rest" by linarith
  then show ?thesis using blocks_grow [OF r(1)] blocks_shrink [OF r(1)] by simp
qed

lemma after_grows: "after T fin h V H \<Longrightarrow> length h \<le> length H \<and> 32 \<le> length V"
  using stream_grows [of T h V H] by (auto simp: after_def split: if_splits)

lemma tokens_grow: "tokens_todo T fin c h V H \<Longrightarrow> length h \<le> length H \<and> 32 \<le> length V"
proof -
  assume "tokens_todo T fin c h V H"
  then obtain ts rest where "V = codes_bits c ts @ lit_code c 256 @ rest" "after T fin (expand h ts) rest H"
    by (auto simp: tokens_todo_def tokens_left_def)
  then show ?thesis using after_grows [of T fin "expand h ts" rest H] expand_length_mono [of h ts] by auto
qed

text \<open>The symbol of the next token.\<close>

fun next_symbol :: "token list \<Rightarrow> nat" where
  "next_symbol [] = 256"
| "next_symbol (Literal b # ts) = unat b"
| "next_symbol (Match d l # ts) = 257 + len_index l"

section \<open>Positions\<close>

definition tables_for :: "codes \<Rightarrow> inf_run \<Rightarrow> bool" where
  "tables_for c r \<longleftrightarrow>
     (\<exists>t. decoder_table (statics r) (st r) (literalDecoder (st r)) = Inr t \<and> table_reads t (lit_code c) (lit_symbols c)) \<and>
     (\<exists>t. decoder_table (statics r) (st r) (distanceDecoder (st r)) = Inr t \<and> table_reads t (dist_code c) (dist_symbols c))"

text \<open>The bits of a back reference after its length symbol, and after its distance symbol.\<close>

definition dist_bits :: "nat \<Rightarrow> bool list" where
  "dist_bits d = bits_of (dist_extra ! dist_index d) (of_nat (d - dist_base ! dist_index d))"

definition len_bits :: "nat \<Rightarrow> bool list" where
  "len_bits l = bits_of (len_extra ! len_index l) (of_nat (l - len_base ! len_index l))"

definition position :: "nat \<Rightarrow> u8 list \<Rightarrow> nat \<Rightarrow> bool list \<Rightarrow> u8 list \<Rightarrow> inf_run \<Rightarrow> bool" where
  "position T H n V h r \<longleftrightarrow>
     (case cur r of
        InfStep_START \<Rightarrow> sl_idle (sllist (st r)) \<and> n = 3 \<and> stream T h V H
      | InfStep_READ_BLOCK_HEADER \<Rightarrow> sl_idle (sllist (st r)) \<and> n = 3 \<and> stream T h V H
      | InfStep_PROCESS_NEXT_BLOCK \<Rightarrow> sl_idle (sllist (st r)) \<and> n = 0 \<and> after T (isLastBlock (st r) \<noteq> 0) h V H
      | InfStep_PROCESS_UNCOMPRESSED_BLOCK \<Rightarrow> sl_idle (sllist (st r)) \<and> n = 32 \<and>
          (\<exists>pad data rest. length pad < 8 \<and> length data < 65536 \<and> 8 dvd length rest \<and>
             V = pad @ stored_header (length data) @ bytes_bits data @ rest \<and> after T (isLastBlock (st r) \<noteq> 0) (h @ data) rest H)
      | InfStep_OUTPUT_UNCOMPRESSED_BLOCK \<Rightarrow> sl_idle (sllist (st r)) \<and> n = 0 \<and>
          (\<exists>data rest. sequence_len (st r) = length data \<and> 8 dvd length rest \<and> V = bytes_bits data @ rest \<and>
             after T (isLastBlock (st r) \<noteq> 0) (h @ data) rest H)
      | InfStep_LOAD_FIXED_HUFFMAN_DECODERS \<Rightarrow> sl_idle (sllist (st r)) \<and> n = 0 \<and>
          tokens_todo T (isLastBlock (st r) \<noteq> 0) fixed_codes h V H
      | InfStep_PROCESS_COMPRESSED_BLOCK \<Rightarrow> sl_idle (sllist (st r)) \<and>
          (\<exists>c ts. tables_for c r \<and> n = length (lit_code c (next_symbol ts)) \<and> tokens_left T (isLastBlock (st r) \<noteq> 0) c h ts V H)
      | InfStep_Read_LiteralOrLength \<Rightarrow> sl_idle (sllist (st r)) \<and>
          (\<exists>c ts. tables_for c r \<and> n = length (lit_code c (next_symbol ts)) \<and> tokens_left T (isLastBlock (st r) \<noteq> 0) c h ts V H)
      | InfStep_Read_LiteralOrLength2 \<Rightarrow> sl_idle (sllist (st r)) \<and> n = 0 \<and>
          (\<exists>c b. tables_for c r \<and> lit (st r) = unat (b :: u8) \<and> tokens_todo T (isLastBlock (st r) \<noteq> 0) c (h @ [b]) V H)
      | InfStep_Read_LengthBits \<Rightarrow> sl_idle (sllist (st r)) \<and>
          (\<exists>c d l R. tables_for c r \<and> token_ok h (Match d l) \<and> dist_index d \<in> dist_symbols c \<and> lit (st r) = len_index l \<and>
             n = length (len_bits l) \<and> V = len_bits l @ dist_code c (dist_index d) @ dist_bits d @ R \<and>
             tokens_todo T (isLastBlock (st r) \<noteq> 0) c (lz_copy h d l) R H)
      | InfStep_Read_Distance \<Rightarrow> sl_idle (sllist (st r)) \<and>
          (\<exists>c d l R. tables_for c r \<and> token_ok h (Match d l) \<and> dist_index d \<in> dist_symbols c \<and> sequence_len (st r) = l \<and>
             n = length (dist_code c (dist_index d)) \<and> V = dist_code c (dist_index d) @ dist_bits d @ R \<and>
             tokens_todo T (isLastBlock (st r) \<noteq> 0) c (lz_copy h d l) R H)
      | InfStep_Read_DistanceBits \<Rightarrow> sl_idle (sllist (st r)) \<and>
          (\<exists>c d l R. tables_for c r \<and> token_ok h (Match d l) \<and> sequence_len (st r) = l \<and> lit (st r) = dist_index d \<and>
             n = length (dist_bits d) \<and> V = dist_bits d @ R \<and> tokens_todo T (isLastBlock (st r) \<noteq> 0) c (lz_copy h d l) R H)
      | InfStep_OUTPUT_SEQUENCE \<Rightarrow> sl_idle (sllist (st r)) \<and> n = 0 \<and> 1 \<le> sequence_dist (st r) \<and> sequence_dist (st r) \<le> length h \<and>
          (\<exists>c. tables_for c r \<and> tokens_todo T (isLastBlock (st r) \<noteq> 0) c (lz_copy h (sequence_dist (st r)) (sequence_len (st r))) V H)
      | InfStep_ADLER32_CHECKSUM \<Rightarrow> n = 0 \<and> h = H \<and> 0 < isLastBlock (st r) \<and> length V div 8 = isLastBlock (st r) + T
      | InfStep_END \<Rightarrow> n = 0 \<and> h = H \<and> length V div 8 = T
      | InfStep_FATAL_ERROR \<Rightarrow> False
      | _ \<Rightarrow> (\<exists>d rest. dyn_pos d rest n V r \<and> tokens_todo T (isLastBlock (st r) \<noteq> 0) (dyn_codes d) h rest H))"

text \<open>The output side: the bytes \<open>h\<close> have been produced, the last ones of them in this call.\<close>

definition made :: "inf_call \<Rightarrow> u8 list \<Rightarrow> inf_run \<Rightarrow> bool" where
  "made k h r \<longleftrightarrow> win_rep (outputBuf (st r)) h \<and> c_past k \<le> length h \<and> writePtr r = c_from k + (length h - c_past k) \<and>
     writePtr r \<le> c_to k \<and> c_to k \<le> length (c_out k) \<and> mem_write (c_from k) (drop (c_past k) h) (c_out k) = Inr (out r) \<and>
     statics_ok (statics r)"

definition weight :: "InfStep \<Rightarrow> nat" where
  "weight s = (case s of InfStep_START \<Rightarrow> 0 | InfStep_READ_BLOCK_HEADER \<Rightarrow> 0 | InfStep_PROCESS_UNCOMPRESSED_BLOCK \<Rightarrow> 0
     | InfStep_PROCESS_COMPRESSED_BLOCK \<Rightarrow> 0 | InfStep_Read_LiteralOrLength \<Rightarrow> 0 | InfStep_ADLER32_CHECKSUM \<Rightarrow> 0 | InfStep_END \<Rightarrow> 0
     | InfStep_OUTPUT_UNCOMPRESSED_BLOCK \<Rightarrow> 2 | _ \<Rightarrow> 1)"

text \<open>The outcome of a step; \<open>M\<close> bounds what is left, \<open>W\<close> are the bits of later calls.\<close>

definition going :: "inf_call \<Rightarrow> bool list \<Rightarrow> nat \<Rightarrow> u8 list \<Rightarrow> nat \<Rightarrow> inf_run \<Rightarrow> bool" where
  "going k W T H M r \<longleftrightarrow> action (st r) = InfAction_ProcessNextChunk \<and>
     (\<exists>n V h. made k h r \<and> bs_at (c_mem k) (c_end k) W n V (bitstream (st r)) \<and> position T H n V h r \<and>
        2 * length V + weight (cur r) < M)"

definition waiting :: "inf_call \<Rightarrow> bool list \<Rightarrow> nat \<Rightarrow> u8 list \<Rightarrow> inf_run \<Rightarrow> bool" where
  "waiting k W T H r \<longleftrightarrow> action (st r) = InfAction_FillInputBuffer \<and> res r = Z_OK \<and>
     (\<exists>n V h. made k h r \<and> starved (c_mem k) (c_end k) W n V (bitstream (st r)) \<and> position T H n V h r)"

definition full :: "inf_call \<Rightarrow> bool list \<Rightarrow> nat \<Rightarrow> u8 list \<Rightarrow> inf_run \<Rightarrow> bool" where
  "full k W T H r \<longleftrightarrow> action (st r) = InfAction_UseOutputBufferContent \<and> res r = Z_OK \<and> writePtr r = c_to k \<and>
     (\<exists>V h. made k h r \<and> bs_at (c_mem k) (c_end k) W 0 V (bitstream (st r)) \<and> position T H 0 V h r \<and>
        length h < length H \<and> 32 \<le> length V)"

definition ended :: "inf_call \<Rightarrow> bool list \<Rightarrow> nat \<Rightarrow> u8 list \<Rightarrow> inf_run \<Rightarrow> bool" where
  "ended k W T H r \<longleftrightarrow> action (st r) = InfAction_Init \<and> res r = Z_STREAM_END \<and> made k H r \<and>
     (\<exists>V. bs_at (c_mem k) (c_end k) W 0 V (bitstream (st r)) \<and> length V div 8 = T)"

definition outcome :: "inf_call \<Rightarrow> bool list \<Rightarrow> nat \<Rightarrow> u8 list \<Rightarrow> nat \<Rightarrow> inf_run res \<Rightarrow> bool" where
  "outcome k W T H M x \<longleftrightarrow>
     (\<exists>r. x = Inr r \<and> (going k W T H M r \<or> waiting k W T H r \<or> full k W T H r \<or> ended k W T H r))"

lemma going_mono: "going k W T H M r \<Longrightarrow> M \<le> N \<Longrightarrow> going k W T H N r"
  unfolding going_def using less_le_trans by blast

lemma outcome_mono: "outcome k W T H M x \<Longrightarrow> M \<le> N \<Longrightarrow> outcome k W T H N x"
  unfolding outcome_def using going_mono by blast

lemma outcome_going: "going k W T H M r \<Longrightarrow> outcome k W T H M (Inr r)"
  by (simp add: outcome_def)

text \<open>What a position and the output side depend on.\<close>

lemma tables_for_cong:
  assumes "statics r' = statics r" and "literalDecoder (st r') = literalDecoder (st r)" and "distanceDecoder (st r') = distanceDecoder (st r)"
    and "huffmanTableA (st r') = huffmanTableA (st r)" and "huffmanTableB (st r') = huffmanTableB (st r)"
  shows "tables_for c r' = tables_for c r"
  using assms decoder_table_cong [of "st r'" "st r"] by (simp add: tables_for_def)

lemma position_set_bs [simp]: "position T H n V h (set_bs b r) = position T H n V h r"
  using tables_for_cong [of "set_bs b r" r]
  by (simp add: position_def set_bs_def dyn_pos_def split: InfStep.split)

lemma position_fill [simp]: "position T H n V h (inf_FILL_INPUT_BUFFER r) = position T H n V h r"
  using tables_for_cong [of "inf_FILL_INPUT_BUFFER r" r]
  by (simp add: position_def inf_FILL_INPUT_BUFFER_def dyn_pos_def split: InfStep.split)

lemma made_simps [simp]:
  "made k h (set_bs b r) = made k h r" "made k h (inf_FILL_INPUT_BUFFER r) = made k h r" "made k h (inf_goto s r) = made k h r"
  "made k h (inf_USE_OUTPUT_BUFFER_CONTENT r) = made k h r"
  by (simp_all add: made_def set_bs_def inf_FILL_INPUT_BUFFER_def inf_goto_def inf_USE_OUTPUT_BUFFER_CONTENT_def)

lemma outcome_wait:
  assumes "made k h r" and "starved (c_mem k) (c_end k) W n V b" and "position T H n V h r"
  shows "outcome k W T H M (Inr (inf_FILL_INPUT_BUFFER (set_bs b r)))"
proof -
  have "waiting k W T H (inf_FILL_INPUT_BUFFER (set_bs b r))"
    unfolding waiting_def using assms
    by (intro conjI exI [of _ n] exI [of _ V] exI [of _ h]) (simp_all, simp_all add: inf_FILL_INPUT_BUFFER_def set_bs_def)
  then show ?thesis by (simp add: outcome_def)
qed

text \<open>A step that reads a field or a symbol waits or goes on with what it has read.\<close>

lemma with_bits_outcome:
  assumes "bs_at (c_mem k) (c_end k) W n (bits_of n (of_nat x) @ R) (bitstream (st r))" and "n \<le> 24" and "x < 2 ^ n"
    and "made k h r" and "position T H n (bits_of n (of_nat x) @ R) h r"
    and "\<And>b v. unat v = x \<Longrightarrow> bs_at (c_mem k) (c_end k) W 0 R b \<Longrightarrow> outcome k W T H M (f (set_bs b r) v)"
  shows "outcome k W T H M (with_bits (c_mem k) r n f)"
proof -
  obtain v b where b: "Inf_BS_ReadBits (c_mem k) (bitstream (st r)) n = Inr (v, b)"
     "case v of None \<Rightarrow> starved (c_mem k) (c_end k) W n (bits_of n (of_nat x) @ R) b | Some v \<Rightarrow> unat v = x \<and> bs_at (c_mem k) (c_end k) W 0 R b"
    using read_field [OF assms(1-3)] unfolding field_read_def by blast
  show ?thesis
  proof (cases v)
    case None
    with b outcome_wait [OF assms(4) _ assms(5)] show ?thesis by (simp add: with_bits_def)
  next
    case (Some w)
    with b assms(6) [of w b] show ?thesis by (simp add: with_bits_def)
  qed
qed

lemma with_symbol_outcome:
  assumes "decoder_table (statics r) (st r) d = Inr t" and "table_reads t code S" and "s \<in> S"
    and "bs_at (c_mem k) (c_end k) W (length (code s)) (code s @ R) (bitstream (st r))"
    and "made k h r" and "position T H (length (code s)) (code s @ R) h r"
    and "\<And>b. bs_at (c_mem k) (c_end k) W 0 R b \<Longrightarrow> outcome k W T H M (f (set_bs b r) s)"
  shows "outcome k W T H M (with_symbol (c_mem k) r d f)"
proof -
  obtain v b where b: "Inf_BS_ReadEncodedBits (c_mem k) (bitstream (st r)) t = Inr (v, b)"
     "case v of None \<Rightarrow> starved (c_mem k) (c_end k) W (length (code s)) (code s @ R) b | Some s' \<Rightarrow> s' = s \<and> bs_at (c_mem k) (c_end k) W 0 R b"
    using read_symbol [OF assms(2-4)] unfolding symbol_or_wait_def by blast
  show ?thesis
  proof (cases v)
    case None
    with b assms(1) outcome_wait [OF assms(5) _ assms(6)] show ?thesis by (simp add: with_symbol_def)
  next
    case (Some w)
    with b assms(1) assms(7) [of b] show ?thesis by (simp add: with_symbol_def)
  qed
qed

end
