(* ===== verification/Inf_Resume_Steps.thy ===== *)
theory Inf_Resume_Steps
  imports Inf_Resume
begin

text \<open>
  The steps of the inflater lead from positions to positions, one lemma per case of the \<^verbatim>\<open>switch\<close>. A case that
  falls through is followed by the lemma of the next one.
\<close>

section \<open>Output\<close>

lemma made_bound: "made k h r \<Longrightarrow> writePtr r \<le> c_to k"
  by (auto simp: made_def)

lemma made_same:
  assumes "made k h r" and "outputBuf (st r') = outputBuf (st r)" and "out r' = out r" and "writePtr r' = writePtr r" and "statics r' = statics r"
  shows "made k h r'"
  using assms by (auto simp: made_def)

lemma made_extend:
  assumes "made k h r" and "writePtr r + length bs \<le> c_to k"
  obtains o' where "mem_write (writePtr r) bs (out r) = Inr o'"
    "\<And>r'. win_rep (outputBuf (st r')) (h @ bs) \<Longrightarrow> out r' = o' \<Longrightarrow> writePtr r' = writePtr r + length bs \<Longrightarrow>
       statics r' = statics r \<Longrightarrow> made k (h @ bs) r'"
proof -
  have w: "mem_write (c_from k) (drop (c_past k) h) (c_out k) = Inr (out r)"
    "writePtr r = c_from k + length (drop (c_past k) h)" "c_past k \<le> length h" "c_to k \<le> length (c_out k)"
    using assms(1) by (auto simp: made_def)
  have "writePtr r + length bs \<le> length (out r)" using mem_write_length [OF w(1)] w(4) assms(2) by simp
  then obtain o' where o': "mem_write (writePtr r) bs (out r) = Inr o'" using mem_write_ok by blast
  then have "mem_write (c_from k) (drop (c_past k) (h @ bs)) (c_out k) = Inr o'"
    using mem_write_append [OF w(1), of bs] w(2,3) by simp
  then have "made k (h @ bs) r'" if "win_rep (outputBuf (st r')) (h @ bs)" "out r' = o'" "writePtr r' = writePtr r + length bs"
    "statics r' = statics r" for r'
    using that assms w by (auto simp: made_def)
  with o' that show thesis by blast
qed

lemma made_copy:
  assumes m: "made k h r" and d: "1 \<le> d" "d \<le> length h" and n: "length h + n \<le> Inf_Outbuf_size" "writePtr r + n \<le> c_to k"
  obtains ob o' where "Inf_Outbuf_read (outputBuf (st r)) (out r) (writePtr r) d n = Inr (True, ob, o')"
    "\<And>r'. outputBuf (st r') = ob \<Longrightarrow> out r' = o' \<Longrightarrow> writePtr r' = writePtr r + n \<Longrightarrow> statics r' = statics r \<Longrightarrow>
       made k (lz_copy h d n) r'"
proof -
  obtain ys where ys: "lz_copy h d n = h @ ys" "length ys = n" using lz_copy_prefix by blast
  obtain o1 where o1: "mem_write (writePtr r) ys (out r) = Inr o1"
    "\<And>r'. win_rep (outputBuf (st r')) (h @ ys) \<Longrightarrow> out r' = o1 \<Longrightarrow> writePtr r' = writePtr r + length ys \<Longrightarrow>
       statics r' = statics r \<Longrightarrow> made k (h @ ys) r'"
    using made_extend [OF m, of ys] n(2) ys(2) by auto
  have "writePtr r + n \<le> length (out r)" using o1(1) ys(2) by (auto simp: mem_write_def split: if_splits)
  then obtain ob where ob: "Inf_Outbuf_read (outputBuf (st r)) (out r) (writePtr r) d n = Inr (True, ob, o1)" "win_rep ob (h @ ys)"
    using hist.copy_rep [of "outputBuf (st r)" h d n "writePtr r" "out r"] m d n(1) ys o1(1) by (auto simp: made_def)
  show thesis by (rule that [OF ob(1)]) (use o1(2) ob(2) ys in auto)
qed

lemma going_tokens:
  assumes "made k h r" and "bs_at (c_mem k) (c_end k) W 0 V (bitstream (st r))" and "tables_for c r" and "sl_idle (sllist (st r))"
    and "cur r \<in> {InfStep_PROCESS_COMPRESSED_BLOCK, InfStep_Read_LiteralOrLength}"
    and "tokens_todo T (isLastBlock (st r) \<noteq> 0) c h V H" and "action (st r) = InfAction_ProcessNextChunk" and "2 * length V < M"
  shows "going k W T H M r"
proof -
  obtain ts where ts: "tokens_left T (isLastBlock (st r) \<noteq> 0) c h ts V H" using assms(6) by (auto simp: tokens_todo_def)
  let ?n = "length (lit_code c (next_symbol ts))"
  have "position T H ?n V h r" using assms(3-5) ts by (auto simp: position_def intro!: exI [of _ c] exI [of _ ts])
  moreover have "bs_at (c_mem k) (c_end k) W ?n V (bitstream (st r))" using bs_at_tight [OF assms(2)] by simp
  moreover have "weight (cur r) = 0" using assms(5) by (auto simp: weight_def)
  ultimately show ?thesis unfolding going_def using assms(1,7,8)
    by (intro conjI exI [of _ ?n] exI [of _ V] exI [of _ h]) simp_all
qed

section \<open>Compressed blocks\<close>

lemma out_sequence:
  assumes m: "made k h r" and bs: "bs_at (c_mem k) (c_end k) W 0 V (bitstream (st r))" and pos: "position T H 0 V h r"
    and c: "cur r = InfStep_OUTPUT_SEQUENCE" "action (st r) = InfAction_ProcessNextChunk" and size: "length H \<le> Inf_Outbuf_size"
  shows "outcome k W T H (2 * length V + 1) (step_OUTPUT_SEQUENCE (c_to k) r)"
proof -
  let ?d = "sequence_dist (st r)" and ?l = "sequence_len (st r)" and ?rest = "c_to k - writePtr r"
  obtain c where p: "sl_idle (sllist (st r))" "1 \<le> ?d" "?d \<le> length h" "tables_for c r"
      "tokens_todo T (isLastBlock (st r) \<noteq> 0) c (lz_copy h ?d ?l) V H"
    using pos c(1) by (auto simp: position_def)
  have len: "length h + ?l \<le> length H" "32 \<le> length V" using tokens_grow [OF p(5)] by auto
  have w: "writePtr r \<le> c_to k" using made_bound [OF m] .
  show ?thesis
  proof (cases "?l \<le> ?rest")
    case True
    then have fit: "length h + ?l \<le> Inf_Outbuf_size" "writePtr r + ?l \<le> c_to k" using len size w by linarith+
    obtain ob o' where o: "Inf_Outbuf_read (outputBuf (st r)) (out r) (writePtr r) ?d ?l = Inr (True, ob, o')"
      "\<And>r'. outputBuf (st r') = ob \<Longrightarrow> out r' = o' \<Longrightarrow> writePtr r' = writePtr r + ?l \<Longrightarrow> statics r' = statics r \<Longrightarrow>
         made k (lz_copy h ?d ?l) r'"
      using made_copy [OF m p(2,3) fit] by blast
    let ?r = "inf_goto InfStep_Read_LiteralOrLength
      (r\<lparr>st := (st r)\<lparr>outputBuf := ob, sequence_len := 0\<rparr>, out := o', writePtr := writePtr r + ?l\<rparr>)"
    have "step_OUTPUT_SEQUENCE (c_to k) r = Inr ?r" using o(1) True by (simp add: step_OUTPUT_SEQUENCE_def Let_def)
    moreover have "tables_for c ?r" using p(4) tables_for_cong [of ?r r c] by (simp add: inf_goto_def)
    moreover have "made k (lz_copy h ?d ?l) ?r" by (rule o(2)) (simp_all add: inf_goto_def)
    ultimately show ?thesis using bs p(1,5) c(2) by (auto intro!: outcome_going going_tokens simp: inf_goto_def)
  next
    case False
    then have fit: "length h + ?rest \<le> Inf_Outbuf_size" "writePtr r + ?rest \<le> c_to k" using len size w by linarith+
    obtain ob o' where o: "Inf_Outbuf_read (outputBuf (st r)) (out r) (writePtr r) ?d ?rest = Inr (True, ob, o')"
      "\<And>r'. outputBuf (st r') = ob \<Longrightarrow> out r' = o' \<Longrightarrow> writePtr r' = writePtr r + ?rest \<Longrightarrow> statics r' = statics r \<Longrightarrow>
         made k (lz_copy h ?d ?rest) r'"
      using made_copy [OF m p(2,3) fit] by blast
    let ?r = "inf_USE_OUTPUT_BUFFER_CONTENT
      (r\<lparr>st := (st r)\<lparr>outputBuf := ob, sequence_len := ?l - ?rest\<rparr>, out := o', writePtr := c_to k\<rparr>)"
    have "step_OUTPUT_SEQUENCE (c_to k) r = Inr ?r" using o(1) False by (simp add: step_OUTPUT_SEQUENCE_def Let_def)
    moreover have tb: "tables_for c ?r" using p(4) tables_for_cong [of ?r r c] by (simp add: inf_USE_OUTPUT_BUFFER_CONTENT_def)
    moreover have md: "made k (lz_copy h ?d ?rest) ?r" by (rule o(2)) (use w in \<open>simp_all add: inf_USE_OUTPUT_BUFFER_CONTENT_def\<close>)
    moreover have "lz_copy (lz_copy h ?d ?rest) ?d (?l - ?rest) = lz_copy h ?d ?l"
      using lz_copy_add [of h ?d ?rest "?l - ?rest"] False by simp
    then have "position T H 0 V (lz_copy h ?d ?rest) ?r"
      using p c(1) tb by (auto simp: position_def inf_USE_OUTPUT_BUFFER_CONTENT_def)
    then have "full k W T H ?r"
      unfolding full_def using md bs len False
      by (intro conjI exI [of _ V] exI [of _ "lz_copy h ?d ?rest"]) (simp_all add: inf_USE_OUTPUT_BUFFER_CONTENT_def)
    ultimately show ?thesis by (simp add: outcome_def)
  qed
qed

lemma distance_bits:
  assumes m: "made k h r" and bs: "bs_at (c_mem k) (c_end k) W n V (bitstream (st r))" and pos: "position T H n V h r"
    and c: "cur r = InfStep_Read_DistanceBits" "action (st r) = InfAction_ProcessNextChunk" and size: "length H \<le> Inf_Outbuf_size"
  shows "outcome k W T H (2 * length V + 1) (step_Read_DistanceBits (c_mem k) (c_to k) r)"
proof -
  obtain c d l R where p: "sl_idle (sllist (st r))" "tables_for c r" "token_ok h (Match d l)" "sequence_len (st r) = l"
      "lit (st r) = dist_index d" "n = length (dist_bits d)" "V = dist_bits d @ R"
      "tokens_todo T (isLastBlock (st r) \<noteq> 0) c (lz_copy h d l) R H"
    using pos c(1) by (auto simp: position_def)
  let ?n = "dist_extra ! dist_index d" and ?x = "d - dist_base ! dist_index d"
  have d: "1 \<le> d" "d \<le> length h" "3 \<le> l" using p(3) by auto
  have len: "length h + l \<le> length H" using tokens_grow [OF p(8)] by auto
  then have dl: "d \<le> 32768" "d < 32 * 1024" using d size by (simp_all add: Inf_Outbuf_size_def)
  note idx = dist_index_ok [OF d(1) dl(1)]
  have n: "n = ?n" "V = bits_of ?n (of_nat ?x) @ R" using p(6,7) by (simp_all add: dist_bits_def)
  let ?f = "\<lambda>r temp. bindR (array_get distanceStarts (lit (st r))) (\<lambda>start.
     let r = r\<lparr>st := (st r)\<lparr>sequence_dist := unat temp + start\<rparr>\<rparr> in
     assertR (sequence_dist (st r) < 32 * 1024) (step_OUTPUT_SEQUENCE (c_to k) (inf_goto InfStep_OUTPUT_SEQUENCE r)))"
  have go: "outcome k W T H (2 * length V + 1) (?f (set_bs b r) v)"
    if v: "unat v = ?x" and b: "bs_at (c_mem k) (c_end k) W 0 R b" for b v
  proof -
    let ?r = "inf_goto InfStep_OUTPUT_SEQUENCE (r\<lparr>st := (st r)\<lparr>bitstream := b, sequence_dist := d\<rparr>\<rparr>)"
    have "tables_for c ?r" using p(2) tables_for_cong [of ?r r c] by (simp add: inf_goto_def)
    then have "position T H 0 R h ?r" using p d by (auto simp: position_def inf_goto_def)
    moreover have "made k h ?r" by (rule made_same [OF m]) (simp_all add: inf_goto_def)
    ultimately have "outcome k W T H (2 * length R + 1) (step_OUTPUT_SEQUENCE (c_to k) ?r)"
      using b c(2) size by (intro out_sequence) (simp_all add: inf_goto_def)
    then have "outcome k W T H (2 * length V + 1) (step_OUTPUT_SEQUENCE (c_to k) ?r)" by (rule outcome_mono) (simp add: n(2))
    moreover have "unat v + dist_base ! dist_index d = d" using v idx(2) by simp
    ultimately show ?thesis using array_get_tables(3) [OF idx(1)] p(5) dl(2) by (simp add: set_bs_def Let_def)
  qed
  have at: "bs_at (c_mem k) (c_end k) W ?n (bits_of ?n (of_nat ?x) @ R) (bitstream (st r))"
    "position T H ?n (bits_of ?n (of_nat ?x) @ R) h r" "?n \<le> 24"
    using bs pos n extras_le(2) [OF idx(1)] by (simp_all del: of_nat_diff)
  have "outcome k W T H (2 * length V + 1) (with_bits (c_mem k) r ?n ?f)"
    by (rule with_bits_outcome [OF at(1,3) idx(3) m at(2)]) (rule go)
  then show ?thesis unfolding step_Read_DistanceBits_def using array_get_tables(4) [OF idx(1)] p(5) by simp
qed

lemma distance_symbol:
  assumes m: "made k h r" and bs: "bs_at (c_mem k) (c_end k) W n V (bitstream (st r))" and pos: "position T H n V h r"
    and c: "cur r = InfStep_Read_Distance" "action (st r) = InfAction_ProcessNextChunk" and size: "length H \<le> Inf_Outbuf_size"
  shows "outcome k W T H (2 * length V) (step_Read_Distance (c_mem k) (c_to k) r)"
proof -
  obtain c d l R where p: "sl_idle (sllist (st r))" "tables_for c r" "token_ok h (Match d l)" "dist_index d \<in> dist_symbols c"
      "sequence_len (st r) = l" "n = length (dist_code c (dist_index d))" "V = dist_code c (dist_index d) @ dist_bits d @ R"
      "tokens_todo T (isLastBlock (st r) \<noteq> 0) c (lz_copy h d l) R H"
    using pos c(1) by (auto simp: position_def)
  obtain t where t: "decoder_table (statics r) (st r) (distanceDecoder (st r)) = Inr t" "table_reads t (dist_code c) (dist_symbols c)"
    using p(2) by (auto simp: tables_for_def)
  have "1 \<le> d" "d \<le> 32768" using p(3) tokens_grow [OF p(8)] size by (auto simp: Inf_Outbuf_size_def)
  then have idx: "dist_index d < 30" by (rule dist_index_ok(1))
  have ne: "0 < length (dist_code c (dist_index d))" using table_reads_pos [OF t(2) p(4)] .
  let ?f = "\<lambda>r s. let r = r\<lparr>st := (st r)\<lparr>lit := s\<rparr>\<rparr> in
     if lit (st r) > 29 then Inr (inf_fatal (Some ''too many length or distance symbols'') r)
     else step_Read_DistanceBits (c_mem k) (c_to k) (inf_goto InfStep_Read_DistanceBits r)"
  have go: "outcome k W T H (2 * length V) (?f (set_bs b r) (dist_index d))" if b: "bs_at (c_mem k) (c_end k) W 0 (dist_bits d @ R) b" for b
  proof -
    let ?r = "inf_goto InfStep_Read_DistanceBits (r\<lparr>st := (st r)\<lparr>bitstream := b, lit := dist_index d\<rparr>\<rparr>)"
    let ?n = "length (dist_bits d)"
    have "tables_for c ?r" using p(2) tables_for_cong [of ?r r c] by (simp add: inf_goto_def)
    then have "position T H ?n (dist_bits d @ R) h ?r" using p by (auto simp: position_def inf_goto_def)
    moreover have "made k h ?r" by (rule made_same [OF m]) (simp_all add: inf_goto_def)
    moreover have "bs_at (c_mem k) (c_end k) W ?n (dist_bits d @ R) (bitstream (st ?r))" using bs_at_tight [OF b] by (simp add: inf_goto_def)
    ultimately have "outcome k W T H (2 * length (dist_bits d @ R) + 1) (step_Read_DistanceBits (c_mem k) (c_to k) ?r)"
      using c(2) size by (intro distance_bits) (simp_all add: inf_goto_def)
    then have "outcome k W T H (2 * length V) (step_Read_DistanceBits (c_mem k) (c_to k) ?r)"
      by (rule outcome_mono) (use ne in \<open>simp add: p(7) del: length_greater_0_conv\<close>)
    then show ?thesis using idx by (simp add: set_bs_def Let_def)
  qed
  have "outcome k W T H (2 * length V) (with_symbol (c_mem k) r (distanceDecoder (st r)) ?f)"
    by (rule with_symbol_outcome [OF t p(4) _ m, where R = "dist_bits d @ R"]) (use bs pos p(6,7) go in simp_all)
  then show ?thesis by (simp add: step_Read_Distance_def)
qed

lemma length_bits:
  assumes m: "made k h r" and bs: "bs_at (c_mem k) (c_end k) W n V (bitstream (st r))" and pos: "position T H n V h r"
    and c: "cur r = InfStep_Read_LengthBits" "action (st r) = InfAction_ProcessNextChunk" and size: "length H \<le> Inf_Outbuf_size"
  shows "outcome k W T H (2 * length V) (step_Read_LengthBits (c_mem k) (c_to k) r)"
proof -
  obtain c d l R where p: "sl_idle (sllist (st r))" "tables_for c r" "token_ok h (Match d l)" "dist_index d \<in> dist_symbols c"
      "lit (st r) = len_index l" "n = length (len_bits l)" "V = len_bits l @ dist_code c (dist_index d) @ dist_bits d @ R"
      "tokens_todo T (isLastBlock (st r) \<noteq> 0) c (lz_copy h d l) R H"
    using pos c(1) by (auto simp: position_def)
  let ?n = "len_extra ! len_index l" and ?x = "l - len_base ! len_index l" and ?R = "dist_code c (dist_index d) @ dist_bits d @ R"
  have l: "3 \<le> l" "l \<le> 258" using p(3) by auto
  note idx = len_index_ok [OF l]
  have n: "n = ?n" "V = bits_of ?n (of_nat ?x) @ ?R" using p(6,7) by (simp_all add: len_bits_def)
  let ?f = "\<lambda>r temp. bindR (array_get lengthStarts (lit (st r))) (\<lambda>start.
     let r = r\<lparr>st := (st r)\<lparr>sequence_len := unat temp + start\<rparr>\<rparr> in
     assertR (sequence_len (st r) < 32 * 1024) (step_Read_Distance (c_mem k) (c_to k) (inf_goto InfStep_Read_Distance r)))"
  have go: "outcome k W T H (2 * length V) (?f (set_bs b r) v)"
    if v: "unat v = ?x" and b: "bs_at (c_mem k) (c_end k) W 0 ?R b" for b v
  proof -
    let ?r = "inf_goto InfStep_Read_Distance (r\<lparr>st := (st r)\<lparr>bitstream := b, sequence_len := l\<rparr>\<rparr>)"
    let ?k = "length (dist_code c (dist_index d))"
    have "tables_for c ?r" using p(2) tables_for_cong [of ?r r c] by (simp add: inf_goto_def)
    then have "position T H ?k ?R h ?r" using p by (auto simp: position_def inf_goto_def)
    moreover have "made k h ?r" by (rule made_same [OF m]) (simp_all add: inf_goto_def)
    moreover have "bs_at (c_mem k) (c_end k) W ?k ?R (bitstream (st ?r))" using bs_at_tight [OF b] by (simp add: inf_goto_def)
    ultimately have "outcome k W T H (2 * length ?R) (step_Read_Distance (c_mem k) (c_to k) ?r)"
      using c(2) size by (intro distance_symbol) (simp_all add: inf_goto_def)
    then have "outcome k W T H (2 * length V) (step_Read_Distance (c_mem k) (c_to k) ?r)" by (rule outcome_mono) (simp add: n(2))
    moreover have "unat v + len_base ! len_index l = l" using v idx(2) by simp
    ultimately show ?thesis using array_get_tables(1) [OF idx(1)] p(5) l(2) by (simp add: set_bs_def Let_def)
  qed
  have at: "bs_at (c_mem k) (c_end k) W ?n (bits_of ?n (of_nat ?x) @ ?R) (bitstream (st r))"
    "position T H ?n (bits_of ?n (of_nat ?x) @ ?R) h r" "?n \<le> 24"
    using bs pos n extras_le(1) [OF idx(1)] by (simp_all del: of_nat_diff)
  have "outcome k W T H (2 * length V) (with_bits (c_mem k) r ?n ?f)"
    by (rule with_bits_outcome [OF at(1,3) idx(3) m at(2)]) (rule go)
  then show ?thesis unfolding step_Read_LengthBits_def using array_get_tables(2) [OF idx(1)] p(5) by simp
qed

lemma literal_out:
  assumes m: "made k h r" and bs: "bs_at (c_mem k) (c_end k) W 0 V (bitstream (st r))" and pos: "position T H 0 V h r"
    and c: "cur r = InfStep_Read_LiteralOrLength2" "action (st r) = InfAction_ProcessNextChunk"
  shows "outcome k W T H (2 * length V + 1) (step_Read_LiteralOrLength2 (c_mem k) (c_to k) r)"
proof -
  obtain c b where p: "sl_idle (sllist (st r))" "tables_for c r" "lit (st r) = unat (b :: u8)"
      "tokens_todo T (isLastBlock (st r) \<noteq> 0) c (h @ [b]) V H"
    using pos c(1) by (auto simp: position_def)
  have len: "length h < length H" "32 \<le> length V" using tokens_grow [OF p(4)] by auto
  have b: "unat b < 256" using unsigned_less [of b, where ?'a = nat] by simp
  show ?thesis
  proof (cases "writePtr r = c_to k")
    case True
    let ?r = "inf_USE_OUTPUT_BUFFER_CONTENT r"
    have "tables_for c ?r" using p(2) tables_for_cong [of ?r r c] by (simp add: inf_USE_OUTPUT_BUFFER_CONTENT_def)
    then have "position T H 0 V h ?r" using p c(1) by (auto simp: position_def inf_USE_OUTPUT_BUFFER_CONTENT_def)
    then have "full k W T H ?r"
      unfolding full_def using m bs len True
      by (intro conjI exI [of _ V] exI [of _ h]) (simp_all, simp_all add: inf_USE_OUTPUT_BUFFER_CONTENT_def)
    then show ?thesis using True p(3) b by (simp add: step_Read_LiteralOrLength2_def outcome_def)
  next
    case False
    then have fit: "writePtr r + length [b] \<le> c_to k" using made_bound [OF m] by simp
    obtain o' where o': "mem_write (writePtr r) [b] (out r) = Inr o'"
      "\<And>r'. win_rep (outputBuf (st r')) (h @ [b]) \<Longrightarrow> out r' = o' \<Longrightarrow> writePtr r' = writePtr r + length [b] \<Longrightarrow>
         statics r' = statics r \<Longrightarrow> made k (h @ [b]) r'"
      using made_extend [OF m fit] by blast
    obtain ob where ob: "Inf_Outbuf_putc (outputBuf (st r)) b = Inr ob" "win_rep ob (h @ [b])"
      using hist.put_rep [of "outputBuf (st r)" h b] m by (auto simp: made_def)
    let ?r = "inf_goto InfStep_Read_LiteralOrLength (r\<lparr>out := o', writePtr := writePtr r + 1, st := (st r)\<lparr>outputBuf := ob\<rparr>\<rparr>)"
    have "(of_nat (unat b) :: u8) = b" by simp
    then have "step_Read_LiteralOrLength2 (c_mem k) (c_to k) r = Inr ?r"
      using False p(3) b o'(1) ob(1) by (simp add: step_Read_LiteralOrLength2_def)
    moreover have "tables_for c ?r" using p(2) tables_for_cong [of ?r r c] by (simp add: inf_goto_def)
    moreover have "made k (h @ [b]) ?r" by (rule o'(2)) (use ob(2) in \<open>simp_all add: inf_goto_def\<close>)
    ultimately show ?thesis using bs p(1,4) c(2) by (auto intro!: outcome_going going_tokens simp: inf_goto_def)
  qed
qed

text \<open>The symbol that starts a token, or the end of the block.\<close>

lemma tokens_left_cases:
  assumes "tokens_left T fin c h ts V H"
  obtains (endblock) R where "next_symbol ts \<in> lit_symbols c" "next_symbol ts = 256" "V = lit_code c (next_symbol ts) @ R" "after T fin h R H"
  | (literal) b R where "next_symbol ts \<in> lit_symbols c" "next_symbol ts = unat (b :: u8)" "V = lit_code c (next_symbol ts) @ R"
      "tokens_todo T fin c (h @ [b]) R H"
  | (pair) d l R where "next_symbol ts \<in> lit_symbols c" "next_symbol ts = 257 + len_index l"
      "V = lit_code c (next_symbol ts) @ len_bits l @ dist_code c (dist_index d) @ dist_bits d @ R" "token_ok h (Match d l)"
      "dist_index d \<in> dist_symbols c" "tokens_todo T fin c (lz_copy h d l) R H"
proof -
  obtain rest where t: "V = codes_bits c ts @ lit_code c 256 @ rest" "tokens_ok h ts" "codes_ok c ts" "256 \<in> lit_symbols c"
      "after T fin (expand h ts) rest H"
    using assms by (auto simp: tokens_left_def)
  show thesis
  proof (cases ts)
    case Nil
    then show thesis using endblock t by (simp add: codes_bits_def)
  next
    case (Cons t0 us)
    have todo: "tokens_todo T fin c (expand1 h t0) (codes_bits c us @ lit_code c 256 @ rest) H"
      unfolding tokens_todo_def tokens_left_def using t Cons by (intro exI [of _ us] exI [of _ rest]) (simp add: codes_ok_def)
    show thesis
    proof (cases t0)
      case (Literal b)
      then show thesis using literal [of b] t Cons todo by (simp add: codes_bits_def codes_ok_def)
    next
      case (Match d l)
      then show thesis using pair [of l d] t Cons todo by (simp add: codes_bits_def codes_ok_def len_bits_def dist_bits_def del: of_nat_diff)
    qed
  qed
qed

lemma token_symbol:
  assumes m: "made k h r" and bs: "bs_at (c_mem k) (c_end k) W n V (bitstream (st r))" and pos: "position T H n V h r"
    and c: "cur r \<in> {InfStep_PROCESS_COMPRESSED_BLOCK, InfStep_Read_LiteralOrLength}" "action (st r) = InfAction_ProcessNextChunk"
    and size: "length H \<le> Inf_Outbuf_size"
  shows "outcome k W T H (2 * length V) (step_Read_LiteralOrLength (c_mem k) (c_to k) r)"
proof -
  obtain c ts where p: "sl_idle (sllist (st r))" "tables_for c r" "n = length (lit_code c (next_symbol ts))"
      "tokens_left T (isLastBlock (st r) \<noteq> 0) c h ts V H"
    using pos c(1) by (auto simp: position_def)
  obtain t where t: "decoder_table (statics r) (st r) (literalDecoder (st r)) = Inr t" "table_reads t (lit_code c) (lit_symbols c)"
    using p(2) by (auto simp: tables_for_def)
  let ?s = "next_symbol ts"
  let ?r = "\<lambda>b. inf_goto InfStep_Read_LiteralOrLength2 (r\<lparr>st := (st r)\<lparr>bitstream := b, lit := ?s\<rparr>\<rparr>)"
  have md: "made k h (?r b)" for b by (rule made_same [OF m]) (simp_all add: inf_goto_def)
  have tb: "tables_for c (?r b)" for b using p(2) tables_for_cong [of "?r b" r c] by (simp add: inf_goto_def)
  have read: "outcome k W T H (2 * length V) (step_Read_LiteralOrLength (c_mem k) (c_to k) r)"
    if sym: "?s \<in> lit_symbols c" and V: "V = lit_code c ?s @ R"
      and go: "\<And>b M. bs_at (c_mem k) (c_end k) W 0 R b \<Longrightarrow> 2 * length R + 2 \<le> M \<Longrightarrow>
         outcome k W T H M (step_Read_LiteralOrLength2 (c_mem k) (c_to k) (?r b))" for R
  proof -
    have "Suc 0 \<le> length (lit_code c ?s)" using table_reads_pos [OF t(2) sym] by (rule Suc_leI)
    then have "2 * length R + 2 \<le> 2 * length V" unfolding V by simp
    then have "outcome k W T H (2 * length V) (with_symbol (c_mem k) r (literalDecoder (st r)) (\<lambda>r s.
       step_Read_LiteralOrLength2 (c_mem k) (c_to k) (inf_goto InfStep_Read_LiteralOrLength2 (r\<lparr>st := (st r)\<lparr>lit := s\<rparr>\<rparr>))))"
      by (intro with_symbol_outcome [OF t sym _ m, where R = R]) (use bs pos p(3) V go in \<open>simp_all add: set_bs_def\<close>)
    then show ?thesis by (simp add: step_Read_LiteralOrLength_def)
  qed
  from p(4) show ?thesis
  proof (cases rule: tokens_left_cases)
    case (endblock R)
    show ?thesis
    proof (rule read [OF endblock(1,3)])
      fix b M assume b: "bs_at (c_mem k) (c_end k) W 0 R b" and M: "2 * length R + 2 \<le> M"
      let ?r1 = "inf_goto InfStep_PROCESS_NEXT_BLOCK (?r b)"
      have "position T H 0 R h ?r1" using p(1) endblock(4) by (simp add: position_def inf_goto_def)
      then have "going k W T H M ?r1" unfolding going_def using md [of b] b M c(2)
        by (intro conjI exI [of _ 0] exI [of _ R] exI [of _ h]) (simp_all, simp_all add: inf_goto_def weight_def)
      then show "outcome k W T H M (step_Read_LiteralOrLength2 (c_mem k) (c_to k) (?r b))"
        using endblock(2) by (simp add: step_Read_LiteralOrLength2_def outcome_def inf_goto_def)
    qed
  next
    case (literal x R)
    show ?thesis
    proof (rule read [OF literal(1,3)])
      fix b M assume b: "bs_at (c_mem k) (c_end k) W 0 R b" and M: "2 * length R + 2 \<le> M"
      have "position T H 0 R h (?r b)" using p(1) tb literal(2,4) by (auto simp: position_def inf_goto_def)
      then have "outcome k W T H (2 * length R + 1) (step_Read_LiteralOrLength2 (c_mem k) (c_to k) (?r b))"
        using md b c(2) by (intro literal_out) (simp_all add: inf_goto_def)
      then show "outcome k W T H M (step_Read_LiteralOrLength2 (c_mem k) (c_to k) (?r b))" by (rule outcome_mono) (use M in simp)
    qed
  next
    case (pair d l R)
    let ?R = "len_bits l @ dist_code c (dist_index d) @ dist_bits d @ R"
    have l: "3 \<le> l" "l \<le> 258" using pair(4) by auto
    show ?thesis
    proof (rule read [OF pair(1,3)])
      fix b M assume b: "bs_at (c_mem k) (c_end k) W 0 ?R b" and M: "2 * length ?R + 2 \<le> M"
      let ?r1 = "inf_goto InfStep_Read_LengthBits (r\<lparr>st := (st r)\<lparr>bitstream := b, lit := len_index l\<rparr>\<rparr>)"
      have "made k h ?r1" by (rule made_same [OF m]) (simp_all add: inf_goto_def)
      moreover have "tables_for c ?r1" using p(2) tables_for_cong [of ?r1 r c] by (simp add: inf_goto_def)
      then have "position T H (length (len_bits l)) ?R h ?r1" using p(1) pair(4-6) by (auto simp: position_def inf_goto_def)
      moreover have "bs_at (c_mem k) (c_end k) W (length (len_bits l)) ?R (bitstream (st ?r1))"
        using bs_at_tight [OF b] by (simp add: inf_goto_def)
      ultimately have "outcome k W T H (2 * length ?R) (step_Read_LengthBits (c_mem k) (c_to k) ?r1)"
        using c(2) size by (intro length_bits) (simp_all add: inf_goto_def)
      then have "outcome k W T H M (step_Read_LengthBits (c_mem k) (c_to k) ?r1)" by (rule outcome_mono) (use M in simp)
      then show "outcome k W T H M (step_Read_LiteralOrLength2 (c_mem k) (c_to k) (?r b))"
        using pair(2) len_index_ok(1) [OF l] by (simp add: step_Read_LiteralOrLength2_def inf_goto_def)
    qed
  qed
qed

end
