(* ===== verification/Inf_Resume_Blocks.thy ===== *)
theory Inf_Resume_Blocks
  imports Inf_Resume_Steps
begin

text \<open>
  Positions between blocks, in stored blocks, in the header of a dynamic block and at the end of the
  stream.
\<close>

lemma outcome_goto:
  assumes "made k h r" and "action (st r) = InfAction_ProcessNextChunk" and "bs_at (c_mem k) (c_end k) W n V (bitstream (st r))"
    and "position T H n V h (inf_goto s r)" and "2 * length V + weight s < M"
  shows "outcome k W T H M (Inr (inf_goto s r))"
proof -
  have "going k W T H M (inf_goto s r)" unfolding going_def using assms
    by (intro conjI exI [of _ n] exI [of _ V] exI [of _ h]) (simp_all, simp_all add: inf_goto_def)
  then show ?thesis by (simp add: outcome_def)
qed

section \<open>Decoders\<close>

lemma load_fixed:
  assumes m: "made k h r" and bs: "bs_at (c_mem k) (c_end k) W n V (bitstream (st r))" and pos: "position T H n V h r"
    and c: "cur r = InfStep_LOAD_FIXED_HUFFMAN_DECODERS" "action (st r) = InfAction_ProcessNextChunk"
  shows "outcome k W T H (2 * length V + 1) (step_LOAD_FIXED_HUFFMAN_DECODERS r)"
proof -
  have p: "sl_idle (sllist (st r))" "n = 0" "tokens_todo T (isLastBlock (st r) \<noteq> 0) fixed_codes h V H"
    using pos c(1) by (auto simp: position_def)
  have s: "statics_ok (statics r)" using m by (simp add: made_def)
  obtain s1 l1 where 1: "Inf_Huff_MakeFixedLiteralDecoder (statics r) (sllist (st r)) = Inr (s1, l1)"
      "cachedLiteral s1 = Some fixed_lit_table" "cachedDistance s1 = cachedDistance (statics r)" "sl_idle l1"
    using MakeFixedLiteralDecoder_ok [OF s p(1)] by blast
  have "statics_ok s1" using s 1(2,3) by (simp add: statics_ok_def)
  then obtain s2 l2 where 2: "Inf_Huff_MakeFixedDistanceDecoder s1 l1 = Inr (s2, l2)"
      "cachedDistance s2 = Some fixed_dist_table" "cachedLiteral s2 = cachedLiteral s1" "sl_idle l2"
    using MakeFixedDistanceDecoder_ok [OF _ 1(4)] by blast
  let ?r = "inf_goto InfStep_PROCESS_COMPRESSED_BLOCK
         (r\<lparr>statics := s2, st := (st r)\<lparr>sllist := l2, literalDecoder := Some FixedLiteral, distanceDecoder := Some FixedDistance\<rparr>\<rparr>)"
  have "step_LOAD_FIXED_HUFFMAN_DECODERS r = Inr ?r" using 1(1) 2(1) by (simp add: step_LOAD_FIXED_HUFFMAN_DECODERS_def)
  moreover have "made k h ?r" using m 1(2) 2 by (auto simp: made_def inf_goto_def statics_ok_def)
  moreover have "tables_for fixed_codes ?r"
    using 1(2) 2(2,3) fixed_tables_read by (simp add: tables_for_def inf_goto_def decoder_table_def fixed_codes_def)
  ultimately show ?thesis using bs p c(2) 2(4) by (auto intro!: outcome_going going_tokens simp: inf_goto_def)
qed

definition dyn_step :: "InfStep \<Rightarrow> bool" where
  "dyn_step s \<longleftrightarrow> s \<in> {InfStep_LOAD_DYNAMIC_HUFFMAN_DECODERS, InfStep_LOAD_FRONT_DECODER, InfStep_LOAD_LITERAL_DECODER,
     InfStep_LOAD_DISTANCE_DECODER}"

lemma dyn_pos_step: "dyn_pos d rest n V r \<Longrightarrow> dyn_step (cur r)"
  by (auto simp: dyn_pos_def dyn_step_def split: InfStep.splits)

lemma dyn_pos_suffix: "dyn_pos d rest n V r \<Longrightarrow> length rest \<le> length V"
  by (auto simp: dyn_pos_def lens_pos_def split: InfStep.splits)

lemma position_dyn: "dyn_step (cur r) \<Longrightarrow>
  position T H n V h r \<longleftrightarrow> (\<exists>d rest. dyn_pos d rest n V r \<and> tokens_todo T (isLastBlock (st r) \<noteq> 0) (dyn_codes d) h rest H)"
  unfolding dyn_step_def by (elim insertE emptyE; simp add: position_def)

lemma dyn_pos_fill [simp]: "dyn_pos d rest n V (inf_FILL_INPUT_BUFFER r) = dyn_pos d rest n V r"
  by (cases "cur r") (simp_all add: dyn_pos_def inf_FILL_INPUT_BUFFER_def)

lemma load_dyn:
  assumes m: "made k h r" and bs: "bs_at (c_mem k) (c_end k) W n V (bitstream (st r))" and pos: "position T H n V h r"
    and c: "dyn_step (cur r)" "action (st r) = InfAction_ProcessNextChunk" and size: "length H \<le> Inf_Outbuf_size"
  shows "outcome k W T H (2 * length V + 1) (inf_switch (c_mem k) (c_to k) r)"
proof -
  obtain d rest where p: "dyn_pos d rest n V r" "tokens_todo T (isLastBlock (st r) \<noteq> 0) (dyn_codes d) h rest H"
    using pos position_dyn [OF c(1)] by blast
  obtain r' where f: "hdr_frame r r'" and
    res: "(\<exists>n V. inf_switch (c_mem k) (c_to k) r = Inr (inf_FILL_INPUT_BUFFER r') \<and> dyn_pos d rest n V r' \<and>
             starved (c_mem k) (c_end k) W n V (bitstream (st r'))) \<or>
          inf_switch (c_mem k) (c_to k) r = step_Read_LiteralOrLength (c_mem k) (c_to k) r' \<and> in_block (dyn_codes d) r' \<and>
             bs_at (c_mem k) (c_end k) W 0 rest (bitstream (st r')) \<and> sl_idle (sllist (st r'))"
    using dyn_switch [OF p(1) bs, of "c_to k"] unfolding dyn_result_def by blast
  have m': "made k h r'" using f by (intro made_same [OF m]) (simp_all add: hdr_frame_def)
  have todo: "tokens_todo T (isLastBlock (st r') \<noteq> 0) (dyn_codes d) h rest H" using p(2) f by (simp add: hdr_frame_def)
  from res show ?thesis
  proof (elim disjE exE conjE)
    fix n V' assume w: "inf_switch (c_mem k) (c_to k) r = Inr (inf_FILL_INPUT_BUFFER r')" "dyn_pos d rest n V' r'"
      "starved (c_mem k) (c_end k) W n V' (bitstream (st r'))"
    have "position T H n V' h r'" using position_dyn [OF dyn_pos_step [OF w(2)]] w(2) todo by blast
    moreover have "set_bs (bitstream (st r')) r' = r'" by (simp add: set_bs_def)
    ultimately show ?thesis using outcome_wait [OF m' w(3)] w(1) by metis
  next
    assume w: "inf_switch (c_mem k) (c_to k) r = step_Read_LiteralOrLength (c_mem k) (c_to k) r'" "in_block (dyn_codes d) r'"
      "bs_at (c_mem k) (c_end k) W 0 rest (bitstream (st r'))" "sl_idle (sllist (st r'))"
    obtain ts where ts: "tokens_left T (isLastBlock (st r') \<noteq> 0) (dyn_codes d) h ts rest H" using todo by (auto simp: tokens_todo_def)
    let ?n = "length (lit_code (dyn_codes d) (next_symbol ts))"
    have "tables_for (dyn_codes d) r'" "cur r' \<in> {InfStep_PROCESS_COMPRESSED_BLOCK, InfStep_Read_LiteralOrLength}"
      using w(2) by (simp_all add: in_block_def tables_for_def)
    moreover from this have "position T H ?n rest h r'" using w(4) ts by (auto simp: position_def intro!: exI [of _ "dyn_codes d"] exI [of _ ts])
    moreover have "bs_at (c_mem k) (c_end k) W ?n rest (bitstream (st r'))" using bs_at_tight [OF w(3)] by simp
    moreover have "action (st r') = InfAction_ProcessNextChunk" using f c(2) by (simp add: hdr_frame_def)
    ultimately have "outcome k W T H (2 * length rest) (step_Read_LiteralOrLength (c_mem k) (c_to k) r')"
      using token_symbol [OF m'] size by blast
    then have "outcome k W T H (2 * length V + 1) (step_Read_LiteralOrLength (c_mem k) (c_to k) r')"
      by (rule outcome_mono) (use dyn_pos_suffix [OF p(1)] in simp)
    then show ?thesis by (simp add: w(1))
  qed
qed

section \<open>Block headers\<close>

lemma stream_block:
  assumes "stream T h V H"
  obtains f mid h1 where "block h f V mid h1" "after T f h1 mid H"
proof -
  obtain rest where r: "blocks h True V rest H" "length rest div 8 = 4 + T" using assms by (auto simp: stream_def)
  from r(1) show thesis
  proof (cases rule: blocks.cases)
    case blocks_final
    then show thesis using that [of True rest H] r(2) by (simp add: after_def)
  next
    case (blocks_more mid h1)
    then show thesis using that [of False mid h1] r(2) by (auto simp: after_def stream_def)
  qed simp
qed

text \<open>What a block header announces.\<close>

lemma block_announces:
  assumes "block h f V mid h1" and "after T f h1 mid H" and idle: "sl_idle (sllist (st r))" and last: "(isLastBlock (st r) \<noteq> 0) = f"
  obtains a b R s n where "V = f # a # b # R" "\<not> (a \<and> b)"
    "s = (if a then InfStep_LOAD_FIXED_HUFFMAN_DECODERS else if b then InfStep_LOAD_DYNAMIC_HUFFMAN_DECODERS
          else InfStep_PROCESS_UNCOMPRESSED_BLOCK)" "position T H n R h (inf_goto s r)"
  using assms(1)
proof cases
  case (block_fixed ts)
  let ?R = "tokens_bits ts @ end_of_block @ mid"
  have "token_bits = coded_bits fixed_lit_code fixed_dist_code" by (rule ext) (rule token_bits_coded)
  then have v: "?R = codes_bits fixed_codes ts @ lit_code fixed_codes 256 @ mid"
    by (simp add: tokens_bits_def codes_bits_def fixed_codes_def end_of_block_def)
  have "codes_ok fixed_codes ts" using block_fixed(3)
    by (induction ts arbitrary: h) (auto simp: codes_ok_def fixed_codes_def dest: token_ok_coded)
  then have "tokens_todo T f fixed_codes h ?R H"
    unfolding tokens_todo_def tokens_left_def using v block_fixed assms(2)
    by (intro exI [of _ ts] exI [of _ mid]) (simp add: fixed_codes_def)
  then have "position T H 0 ?R h (inf_goto InfStep_LOAD_FIXED_HUFFMAN_DECODERS r)" using idle last by (simp add: position_def inf_goto_def)
  then show thesis using that [of True False ?R] block_fixed(1) by simp
next
  case (block_stored data pad)
  let ?R = "pad @ stored_header (length data) @ bytes_bits data @ mid"
  have "position T H 32 ?R h (inf_goto InfStep_PROCESS_UNCOMPRESSED_BLOCK r)"
    using idle last block_stored assms(2) by (auto simp: position_def inf_goto_def)
  then show thesis using that [of False False ?R] block_stored(1) by simp
next
  case (block_dynamic d ts)
  let ?v = "codes_bits (dyn_codes d) ts @ lit_code (dyn_codes d) 256 @ mid"
  have "tokens_todo T f (dyn_codes d) h ?v H"
    unfolding tokens_todo_def tokens_left_def using block_dynamic assms(2)
    by (intro exI [of _ ts] exI [of _ mid]) (auto simp: codes_ok_def dyn_codes_def dyn_ok_def)
  then have "position T H 14 (dyn_bits d @ ?v) h (inf_goto InfStep_LOAD_DYNAMIC_HUFFMAN_DECODERS r)"
    using idle last block_dynamic(3) by (auto simp: position_def inf_goto_def dyn_pos_def)
  then show thesis using that [of False True "dyn_bits d @ ?v"] block_dynamic(1) by (simp add: codes_bits_def dyn_codes_def)
qed

lemma read_header:
  assumes m: "made k h r" and bs: "bs_at (c_mem k) (c_end k) W 3 V (bitstream (st r))" and str: "stream T h V H"
    and idle: "sl_idle (sllist (st r))" and c: "cur r = InfStep_READ_BLOCK_HEADER" "action (st r) = InfAction_ProcessNextChunk"
  shows "outcome k W T H (2 * length V) (step_READ_BLOCK_HEADER (c_mem k) r)"
proof -
  have pos: "position T H 3 V h r" using str idle c by (simp add: position_def)
  obtain f mid h1 where b: "block h f V mid h1" "after T f h1 mid H" using stream_block [OF str] .
  let ?r = "\<lambda>b. r\<lparr>st := (st r)\<lparr>bitstream := b, isLastBlock := of_bool f\<rparr>\<rparr>"
  have kept: "sl_idle (sllist (st (?r (bitstream (st r)))))" "(isLastBlock (st (?r (bitstream (st r)))) \<noteq> 0) = f"
    using idle by simp_all
  obtain x y R s n where p: "V = f # x # y # R" "\<not> (x \<and> y)"
    "s = (if x then InfStep_LOAD_FIXED_HUFFMAN_DECODERS else if y then InfStep_LOAD_DYNAMIC_HUFFMAN_DECODERS
          else InfStep_PROCESS_UNCOMPRESSED_BLOCK)" "position T H n R h (inf_goto s (?r (bitstream (st r))))"
    by (rule block_announces [OF b kept])
  let ?w = "header_word f x y"
  have w1: "bits_of 3 (of_nat (unat ?w) :: u32) = [f, x, y]" by (simp add: header_word(1))
  have w2: "unat ?w < 2 ^ 3" by (cases f; cases x; cases y; simp add: header_word_def)
  let ?k = "\<lambda>r (temp :: u32). let r = r\<lparr>st := (st r)\<lparr>isLastBlock := unat (temp AND 0x01)\<rparr>\<rparr> in
       if drop_bit 1 temp = 0 then Inr (inf_goto InfStep_PROCESS_UNCOMPRESSED_BLOCK r)
       else if drop_bit 1 temp = 1 then Inr (inf_goto InfStep_LOAD_FIXED_HUFFMAN_DECODERS r)
       else if drop_bit 1 temp = 2 then Inr (inf_goto InfStep_LOAD_DYNAMIC_HUFFMAN_DECODERS r)
       else Inr (inf_fatal (Some ''invalid block type'') r)"
  have go: "outcome k W T H (2 * length V) (?k (set_bs b r) v)"
    if v: "unat (v :: u32) = unat ?w" and b: "bs_at (c_mem k) (c_end k) W 0 R b" for b v
  proof -
    have "v = ?w" using v by (simp add: word_unat_eq_iff)
    then have run: "?k (set_bs b r) v = Inr (inf_goto s (?r b))"
      using p(2,3) header_word(3,4) [of f x y] by (cases x; cases y) (simp_all add: set_bs_def Let_def)
    have "position T H n R h (set_bs b (inf_goto s (?r (bitstream (st r)))))" using p(4) by simp
    moreover have "set_bs b (inf_goto s (?r (bitstream (st r)))) = inf_goto s (?r b)" by (simp add: set_bs_def inf_goto_def)
    ultimately have "position T H n R h (inf_goto s (?r b))" by (simp only:)
    moreover have "made k h (?r b)" by (rule made_same [OF m]) simp_all
    moreover have "bs_at (c_mem k) (c_end k) W n R b" using bs_at_tight [OF b] by simp
    moreover have "2 * length R + weight s < 2 * length V" using p(1,3) by (simp add: weight_def)
    ultimately show ?thesis unfolding run using c(2) by (intro outcome_goto) simp_all
  qed
  have "outcome k W T H (2 * length V) (with_bits (c_mem k) r 3 ?k)"
    by (rule with_bits_outcome [OF _ _ w2 m, where R = R]) (use bs pos w1 p(1) go in simp_all)
  then show ?thesis by (simp add: step_READ_BLOCK_HEADER_def)
qed

lemma next_block:
  assumes m: "made k h r" and bs: "bs_at (c_mem k) (c_end k) W 0 V (bitstream (st r))"
    and aft: "after T (isLastBlock (st r) \<noteq> 0) h V H" and idle: "sl_idle (sllist (st r))"
    and c: "action (st r) = InfAction_ProcessNextChunk"
  shows "outcome k W T H (2 * length V + 1) (step_PROCESS_NEXT_BLOCK (c_mem k) r)"
proof (cases "isLastBlock (st r) = 0")
  case True
  let ?r = "inf_goto InfStep_READ_BLOCK_HEADER r"
  have "outcome k W T H (2 * length V) (step_READ_BLOCK_HEADER (c_mem k) ?r)"
    using aft True m idle c bs_at_tight [OF bs] by (intro read_header) (simp_all add: after_def, simp_all add: inf_goto_def)
  then show ?thesis using True outcome_mono by (fastforce simp: step_PROCESS_NEXT_BLOCK_def)
next
  case False
  let ?r = "r\<lparr>st := (st r)\<lparr>isLastBlock := 4\<rparr>\<rparr>"
  have "made k h ?r" by (rule made_same [OF m]) simp_all
  moreover have "position T H 0 V h (inf_goto InfStep_ADLER32_CHECKSUM ?r)"
    using aft False by (simp add: position_def inf_goto_def after_def)
  ultimately show ?thesis using False bs c
    by (auto intro!: outcome_goto simp: step_PROCESS_NEXT_BLOCK_def weight_def)
qed

end
