(* ===== verification/Inf_Resume_Loop.thy ===== *)
theory Inf_Resume_Loop
  imports Inf_Resume_Blocks
begin

text \<open>
  Stored blocks and the end of the stream, and the loop as a whole: from any position it ends, and it
  ends waiting, full or at the end of the stream.
\<close>

section \<open>Stored blocks\<close>

lemma after_full:
  assumes "after T fin (h @ data) rest H" and "data \<noteq> []"
  shows "length h < length H" and "32 \<le> length rest"
  using after_grows [OF assms(1)] assms(2) by (cases data; simp)+

lemma aligned_reader:
  assumes "bs_at mem e W 0 V bs" and "8 dvd length V" and "8 dvd length W"
  shows "bsize bs = 0"
proof -
  have "length V = bsize bs + 8 * (inputEnd bs - inputPtr bs) + length W"
    using assms(1) length_bs_bits [of mem bs] by (auto simp: bs_at_def bs_ok_def)
  then have "8 dvd bsize bs" using assms(2,3) by (metis dvd_add_left_iff dvd_triv_left)
  then show ?thesis using assms(1) by (auto simp: bs_at_def dest: dvd_imp_le)
qed

lemma bytes_bits_inject:
  assumes "bytes_bits xs = bytes_bits ys"
  shows "xs = ys"
proof -
  obtain zs where "xs = ys @ zs" "bytes_bits zs = []" using bytes_bits_prefix [of xs ys "[]"] assms by auto
  then show ?thesis using length_bytes_bits [of zs] by simp
qed

text \<open>Taking \<open>n\<close> bytes of an aligned reader.\<close>

lemma take_bytes:
  assumes "bs_at mem e W 0 (bytes_bits data @ rest) bs" and "bsize bs = 0" and "n \<le> length data"
    and m: "m = min n (e - inputPtr bs)"
  shows "Inf_BS_ReadBytes mem bs n = Inr (take m data, n \<le> e - inputPtr bs, bs\<lparr>inputPtr := inputPtr bs + m\<rparr>)"
    and "bs_at mem e W 0 (bytes_bits (drop m data) @ rest) (bs\<lparr>inputPtr := inputPtr bs + m\<rparr>)"
proof -
  let ?in = "take (e - inputPtr bs) (drop (inputPtr bs) mem)"
  have ok: "bs_ok mem e bs" and bits: "bytes_bits ?in @ W = bytes_bits data @ rest"
    using assms(1,2) by (auto simp: bs_at_def bs_ok_def bs_bits_def)
  have len: "length ?in = e - inputPtr bs" using ok by (auto simp: bs_ok_def bs_inv_def)
  have ml: "m \<le> length ?in" "m \<le> length data" using m len assms(3) by simp_all
  have tk: "take (8 * m) (bytes_bits xs @ ys) = bytes_bits (take m xs)" "drop (8 * m) (bytes_bits xs @ ys) = bytes_bits (drop m xs) @ ys"
    if "m \<le> length xs" for xs ys
  proof -
    have "bytes_bits xs = bytes_bits (take m xs) @ bytes_bits (drop m xs)" by (metis append_take_drop_id bytes_bits_simps(3))
    with that show "take (8 * m) (bytes_bits xs @ ys) = bytes_bits (take m xs)"
      "drop (8 * m) (bytes_bits xs @ ys) = bytes_bits (drop m xs) @ ys" by (simp_all add: min_absorb2)
  qed
  have "bytes_bits (take m ?in) = bytes_bits (take m data)" using arg_cong [OF bits, of "take (8 * m)"] tk ml by simp
  then have same: "take m ?in = take m data" by (rule bytes_bits_inject)
  have "take n ?in = take m ?in" using m len by (simp add: min_def)
  then show "Inf_BS_ReadBytes mem bs n = Inr (take m data, n \<le> e - inputPtr bs, bs\<lparr>inputPtr := inputPtr bs + m\<rparr>)"
    using ReadBytes_ok [OF ok assms(2), of n] same m by simp
  have "bytes_bits (drop m ?in) @ W = bytes_bits (drop m data) @ rest" using arg_cong [OF bits, of "drop (8 * m)"] tk ml by simp
  moreover have "drop m ?in = take (e - (inputPtr bs + m)) (drop (inputPtr bs + m) mem)" by (simp add: drop_take add.commute)
  ultimately show "bs_at mem e W 0 (bytes_bits (drop m data) @ rest) (bs\<lparr>inputPtr := inputPtr bs + m\<rparr>)"
    using ok assms(2) m by (auto simp: bs_at_def bs_ok_def bs_inv_def bs_bits_def)
qed

lemma output_stored:
  assumes m: "made k h r" and bs: "bs_at (c_mem k) (c_end k) W 0 V (bitstream (st r))" and pos: "position T H 0 V h r"
    and c: "cur r = InfStep_OUTPUT_UNCOMPRESSED_BLOCK" "action (st r) = InfAction_ProcessNextChunk" and W: "8 dvd length W"
  shows "outcome k W T H (2 * length V + 2) (step_OUTPUT_UNCOMPRESSED_BLOCK (c_mem k) (c_to k) r)"
proof -
  obtain data rest where p: "sl_idle (sllist (st r))" "sequence_len (st r) = length data" "8 dvd length rest"
      "V = bytes_bits data @ rest" "after T (isLastBlock (st r) \<noteq> 0) (h @ data) rest H"
    using pos c(1) by (auto simp: position_def)
  let ?b = "bitstream (st r)" and ?n = "min (length data) (c_to k - writePtr r)"
  define q where "q = min ?n (c_end k - inputPtr ?b)"
  let ?b' = "?b\<lparr>inputPtr := inputPtr ?b + q\<rparr>"
  have "8 dvd length V" using p(3,4) by simp
  then have "bsize ?b = 0" using aligned_reader [OF bs _ W] by simp
  note rd = take_bytes [OF bs [unfolded p(4)] this min.cobounded1 q_def]
  have q: "q \<le> length data" "q \<le> c_to k - writePtr r" "length (take q data) = q" by (simp_all add: q_def)
  then have fit: "writePtr r + length (take q data) \<le> c_to k" using made_bound [OF m] by linarith
  obtain o' where o': "mem_write (writePtr r) (take q data) (out r) = Inr o'"
      "\<And>r'. win_rep (outputBuf (st r')) (h @ take q data) \<Longrightarrow> out r' = o' \<Longrightarrow> writePtr r' = writePtr r + length (take q data) \<Longrightarrow>
         statics r' = statics r \<Longrightarrow> made k (h @ take q data) r'"
    using made_extend [OF m fit] by blast
  obtain ob where ob: "Inf_Outbuf_write (outputBuf (st r)) (Outside (take q data)) q = Inr ob" "win_rep ob (h @ take q data)"
    using hist.put_all_rep [of "outputBuf (st r)" h "take q data"] m q(3) by (auto simp: made_def)
  let ?r = "r\<lparr>st := (st r)\<lparr>bitstream := ?b', outputBuf := ob, sequence_len := length data - q\<rparr>, out := o', writePtr := writePtr r + q\<rparr>"
  let ?V = "bytes_bits (drop q data) @ rest" and ?h = "h @ take q data"
  have run: "step_OUTPUT_UNCOMPRESSED_BLOCK (c_mem k) (c_to k) r =
     (if \<not> ?n \<le> c_end k - inputPtr ?b then Inr (inf_FILL_INPUT_BUFFER ?r)
      else if length data - q > 0 then Inr (inf_USE_OUTPUT_BUFFER_CONTENT ?r) else Inr (inf_goto InfStep_PROCESS_NEXT_BLOCK ?r))"
    unfolding step_OUTPUT_UNCOMPRESSED_BLOCK_def p(2) rd(1)
    using o'(1) ob(1) by (simp add: q(3) Let_def del: length_take take_all take_all_iff)
  have md: "made k ?h ?r" by (rule o'(2)) (use ob(2) q(3) in simp_all)
  have aft: "after T (isLastBlock (st r) \<noteq> 0) (?h @ drop q data) rest H" using p(5) by simp
  have ps: "position T H 0 ?V ?h ?r"
    using p(1,3) c(1) aft by (auto simp: position_def intro!: exI [of _ "drop q data"] exI [of _ rest])
  have tabs: "position T H 0 ?V ?h (inf_USE_OUTPUT_BUFFER_CONTENT ?r)"
    using p(1,3) c(1) aft by (auto simp: position_def inf_USE_OUTPUT_BUFFER_CONTENT_def intro!: exI [of _ "drop q data"] exI [of _ rest])
  show ?thesis
  proof (cases "?n \<le> c_end k - inputPtr ?b")
    case False
    then have qe: "q = c_end k - inputPtr ?b" "q < length data" by (simp_all add: q_def)
    have e: "inputPtr ?b \<le> c_end k" using bs by (auto simp: bs_at_def bs_ok_def bs_inv_def)
    then have "inputPtr ?b' = c_end k" using qe(1) by simp
    moreover have "W \<noteq> []"
    proof
      assume "W = []"
      with rd(2) have "length ?V = bsize ?b' + 8 * (c_end k - inputPtr ?b')"
        using length_bs_bits [of "c_mem k" ?b'] by (auto simp: bs_at_def bs_ok_def)
      then show False using \<open>inputPtr ?b' = c_end k\<close> \<open>bsize ?b = 0\<close> qe(2) by simp
    qed
    ultimately have "starved (c_mem k) (c_end k) W 0 ?V ?b'" using rd(2) by (simp add: starved_def)
    moreover have "set_bs ?b' ?r = ?r" by (simp add: set_bs_def)
    ultimately show ?thesis using outcome_wait [OF md _ ps] run False by metis
  next
    case True
    then have qn: "q = ?n" by (simp add: q_def)
    show ?thesis
    proof (cases "q < length data")
      case less: True
      then have "writePtr r + q = c_to k" using qn made_bound [OF m] by simp
      moreover have "length ?h < length H" "32 \<le> length rest" using after_full [OF aft] less by simp_all
      ultimately have "full k W T H (inf_USE_OUTPUT_BUFFER_CONTENT ?r)"
        unfolding full_def using md rd(2) tabs
        by (intro conjI exI [of _ ?V] exI [of _ ?h]) (simp_all, simp_all add: inf_USE_OUTPUT_BUFFER_CONTENT_def)
      then show ?thesis using run True less by (simp add: outcome_def)
    next
      case False
      then have all: "take q data = data" "drop q data = []" using q(1) by simp_all
      have "position T H 0 rest (h @ data) (inf_goto InfStep_PROCESS_NEXT_BLOCK ?r)"
        using p(1,5) by (simp add: position_def inf_goto_def)
      then have "outcome k W T H (2 * length V + 2) (Inr (inf_goto InfStep_PROCESS_NEXT_BLOCK ?r))"
        using md rd(2) all c(2) p(4) by (intro outcome_goto [of k "h @ data" ?r W 0 rest]) (simp_all add: weight_def)
      then show ?thesis using run True False by simp
    qed
  qed
qed

lemma position_stored:
  assumes "cur r = InfStep_PROCESS_UNCOMPRESSED_BLOCK" and "sl_idle (sllist (st r))" and "length data < 65536" and "length pad < 8"
    and "8 dvd length rest" and "after T (isLastBlock (st r) \<noteq> 0) (h @ data) rest H"
  shows "position T H 32 (pad @ stored_header (length data) @ bytes_bits data @ rest) h r"
  using assms by (auto simp: position_def)

lemma stored_length:
  assumes m: "made k h r" and bs: "bs_at (c_mem k) (c_end k) W n V (bitstream (st r))" and pos: "position T H n V h r"
    and c: "cur r = InfStep_PROCESS_UNCOMPRESSED_BLOCK" "action (st r) = InfAction_ProcessNextChunk" and W: "8 dvd length W"
  shows "outcome k W T H (2 * length V) (step_PROCESS_UNCOMPRESSED_BLOCK (c_mem k) (c_to k) r)"
proof -
  obtain pad data rest where p: "sl_idle (sllist (st r))" "n = 32" "length pad < 8" "length data < 65536" "8 dvd length rest"
      "V = pad @ stored_header (length data) @ bytes_bits data @ rest" "after T (isLastBlock (st r) \<noteq> 0) (h @ data) rest H"
    using pos c(1) by (auto simp: position_def)
  let ?b = "bitstream (st r)" and ?R = "bytes_bits data @ rest"
  let ?B = "bs_bits (c_mem k) ?b"
  have ok: "bs_ok (c_mem k) (c_end k) ?b" and V: "?B @ W = V" using bs by (auto simp: bs_at_def)
  have sh: "length (stored_header (length data)) = 32" by (simp add: stored_header_def)
  obtain x y where xy: "length W = 8 * x" "length rest = 8 * y" using W p(5) by (auto simp: dvd_def)
  then have "length ?B + 8 * x = length pad + 8 * (4 + length data + y)" using arg_cong [OF V, of length] sh p(6) by simp
  then have "(length ?B + 8 * x) mod 8 = (length pad + 8 * (4 + length data + y)) mod 8" by (rule arg_cong)
  then have pd: "length pad = length ?B mod 8" using p(3) unfolding mod_mult_self2 by simp
  then have le: "length pad \<le> length ?B" by simp
  obtain v b1 where b1: "Inf_BS_ReadDWord (c_mem k) ?b = Inr (v, b1)" "bs_ok (c_mem k) (c_end k) b1"
     "if length pad + 32 \<le> length ?B
      then (\<exists>w. v = Some w \<and> bits_of 32 w = take 32 (drop (length pad) ?B)) \<and> bsize b1 = 0 \<and>
           bs_bits (c_mem k) b1 = drop (length pad + 32) ?B
      else v = None \<and> bs_bits (c_mem k) b1 = drop (length pad) ?B \<and> inputPtr b1 = c_end k \<and> bsize b1 < 32"
    using ReadDWord_ok [OF ok pd] by blast
  have dr: "drop j (?B @ W) = drop j ?B @ W" if "j \<le> length ?B" for j using that by simp
  show ?thesis
  proof (cases "length pad + 32 \<le> length ?B")
    case False
    then have n: "v = None" "bs_bits (c_mem k) b1 = drop (length pad) ?B" "inputPtr b1 = c_end k" "bsize b1 < 32" using b1(3) by auto
    let ?V = "stored_header (length data) @ ?R"
    have "drop (length pad) ?B @ W = ?V" using dr [OF le] V p(6) by simp
    then have "bs_at (c_mem k) (c_end k) W 32 ?V b1" using b1(2) n(2,4) by (simp add: bs_at_def)
    moreover have "W \<noteq> []" using arg_cong [OF V, of length] p(6) sh False by auto
    ultimately have "starved (c_mem k) (c_end k) W 32 ?V b1" using n(3) by (simp add: starved_def)
    moreover have "position T H 32 ?V h r" using position_stored [of r data "[]"] p c(1) by simp
    ultimately show ?thesis using outcome_wait [OF m] b1(1) n(1) by (simp add: step_PROCESS_UNCOMPRESSED_BLOCK_def)
  next
    case True
    then obtain w where w: "v = Some w" "bits_of 32 w = take 32 (drop (length pad) ?B)" "bsize b1 = 0"
      "bs_bits (c_mem k) b1 = drop (length pad + 32) ?B" using b1(3) by auto
    have "take 32 (drop (length pad) ?B) = take 32 (drop (length pad) (?B @ W))" using True by simp
    also have "\<dots> = stored_header (length data)" using V p(6) sh by simp
    finally have hd: "bits_of 32 w = stored_header (length data)" using w(2) by simp
    note len = stored_header_word [OF p(4) hd]
    have "drop (length pad + 32) ?B @ W = drop (length pad + 32) V" using dr [OF True] V by simp
    also have "\<dots> = ?R" using p(6) sh by simp
    finally have at: "bs_at (c_mem k) (c_end k) W 0 ?R b1" using b1(2) w(3,4) by (simp add: bs_at_def)
    let ?r = "inf_goto InfStep_OUTPUT_UNCOMPRESSED_BLOCK (r\<lparr>st := (st r)\<lparr>bitstream := b1, sequence_len := length data\<rparr>\<rparr>)"
    have "made k h ?r" by (rule made_same [OF m]) (simp_all add: inf_goto_def)
    moreover have "position T H 0 ?R h ?r" using p by (auto simp: position_def inf_goto_def)
    ultimately have "outcome k W T H (2 * length ?R + 2) (step_OUTPUT_UNCOMPRESSED_BLOCK (c_mem k) (c_to k) ?r)"
      using at c(2) W by (intro output_stored) (simp_all add: inf_goto_def)
    then have "outcome k W T H (2 * length V) (step_OUTPUT_UNCOMPRESSED_BLOCK (c_mem k) (c_to k) ?r)"
      by (rule outcome_mono) (use sh p(6) in simp)
    then show ?thesis using b1(1) w(1) len by (simp add: step_PROCESS_UNCOMPRESSED_BLOCK_def set_bs_def Let_def)
  qed
qed

section \<open>The checksum and the end\<close>

lemma checksum:
  assumes m: "made k h r" and bs: "bs_at (c_mem k) (c_end k) W n V (bitstream (st r))" and pos: "position T H n V h r"
    and c: "cur r = InfStep_ADLER32_CHECKSUM" "action (st r) = InfAction_ProcessNextChunk"
  shows "outcome k W T H (2 * length V) (step_ADLER32_CHECKSUM (c_mem k) r)"
proof -
  have p: "n = 0" "h = H" "0 < isLastBlock (st r)" "length V div 8 = isLastBlock (st r) + T"
    using pos c(1) by (auto simp: position_def)
  let ?b = "bitstream (st r)"
  define q where "q = min (isLastBlock (st r)) (c_end k - inputPtr ?b)"
  let ?b' = "?b\<lparr>inputPtr := inputPtr ?b + q\<rparr>"
  let ?V = "bs_bits (c_mem k) ?b' @ W"
  have ok: "bs_ok (c_mem k) (c_end k) ?b" "bsize ?b < 8" "bs_bits (c_mem k) ?b @ W = V" using bs p(1) by (auto simp: bs_at_def)
  have e: "inputPtr ?b \<le> c_end k" "c_end k \<le> length (c_mem k)" "inputEnd ?b = c_end k" using ok(1) by (auto simp: bs_ok_def bs_inv_def)
  have q: "q \<le> isLastBlock (st r)" "q \<le> c_end k - inputPtr ?b" by (simp_all add: q_def)
  have ok': "bs_ok (c_mem k) (c_end k) ?b'" using ok(1) q(2) e by (auto simp: bs_ok_def bs_inv_def)
  have lenV: "length V = bsize ?b + 8 * (c_end k - inputPtr ?b) + length W"
    using arg_cong [OF ok(3), of length] length_bs_bits [of "c_mem k" ?b] ok(1) by (auto simp: bs_ok_def)
  have lenV': "length ?V = bsize ?b + 8 * (c_end k - (inputPtr ?b + q)) + length W"
    using length_bs_bits [of "c_mem k" ?b'] ok' by (auto simp: bs_ok_def)
  have rest: "length V = length ?V + 8 * q" using lenV lenV' q(2) by linarith
  then have T: "length ?V div 8 = isLastBlock (st r) - q + T" using p(4) q(1) by linarith
  let ?r = "r\<lparr>st := (st r)\<lparr>bitstream := ?b', isLastBlock := isLastBlock (st r) - q\<rparr>\<rparr>"
  have at: "bs_at (c_mem k) (c_end k) W 0 ?V (bitstream (st ?r))" using ok' ok(2) by (simp add: bs_at_def)
  have run: "step_ADLER32_CHECKSUM (c_mem k) r = Inr (if isLastBlock (st r) - q = 0 then inf_goto InfStep_END ?r else inf_FILL_INPUT_BUFFER ?r)"
    using e q(2) unfolding step_ADLER32_CHECKSUM_def Let_def e(3) q_def [symmetric] by (auto simp: mem_read_def)
  have md: "made k h ?r" by (rule made_same [OF m]) simp_all
  show ?thesis
  proof (cases "isLastBlock (st r) - q = 0")
    case True
    then have "position T H 0 ?V h (inf_goto InfStep_END ?r)" using p(2) T by (simp add: position_def inf_goto_def)
    moreover have "2 * length ?V < 2 * length V" using rest True p(3) by simp
    ultimately show ?thesis unfolding run using md at c(2) True by (auto intro!: outcome_goto simp: weight_def)
  next
    case False
    then have qe: "q = c_end k - inputPtr ?b" by (auto simp: q_def min_def split: if_splits)
    then have "inputPtr ?b' = c_end k" using e(1) by simp
    moreover have "W \<noteq> []" using T lenV' False ok(2) qe e(1) by auto
    ultimately have st: "starved (c_mem k) (c_end k) W 0 ?V (bitstream (st ?r))" using at by (simp add: starved_def)
    have ps: "position T H 0 ?V h ?r" using c(1) p(2) T False by (simp add: position_def)
    have same: "set_bs (bitstream (st ?r)) ?r = ?r" by (simp add: set_bs_def)
    show ?thesis unfolding run if_not_P [OF False] using outcome_wait [OF md st ps] unfolding same .
  qed
qed

lemma at_end:
  assumes m: "made k h r" and bs: "bs_at (c_mem k) (c_end k) W n V (bitstream (st r))" and pos: "position T H n V h r"
    and c: "cur r = InfStep_END"
  shows "outcome k W T H M (step_END r)"
proof -
  have p: "n = 0" "h = H" "length V div 8 = T" using pos c(1) by (auto simp: position_def)
  let ?r = "r\<lparr>res := Z_STREAM_END, st := (st r)\<lparr>action := InfAction_Init\<rparr>\<rparr>"
  have "made k H ?r" using p(2) by (intro made_same [OF m, unfolded p(2)]) simp_all
  then have "ended k W T H ?r" using bs p by (auto simp: ended_def)
  then show ?thesis by (simp add: step_END_def outcome_def)
qed

section \<open>The loop\<close>

lemma switch_outcome:
  assumes m: "made k h r" and bs: "bs_at (c_mem k) (c_end k) W n V (bitstream (st r))" and pos: "position T H n V h r"
    and act: "action (st r) = InfAction_ProcessNextChunk" and size: "length H \<le> Inf_Outbuf_size" and W: "8 dvd length W"
  shows "outcome k W T H (2 * length V + weight (cur r)) (inf_switch (c_mem k) (c_to k) r)"
proof (cases "dyn_step (cur r)")
  case True
  then have "weight (cur r) = 1" by (auto simp: weight_def dyn_step_def)
  then show ?thesis using load_dyn [OF m bs pos True act size] by simp
next
  case nd: False
  show ?thesis
  proof (cases "cur r")
    case InfStep_START
    let ?r = "inf_goto InfStep_READ_BLOCK_HEADER (r\<lparr>st := (st r)\<lparr>isLastBlock := 0\<rparr>\<rparr>)"
    have p: "stream T h V H" "sl_idle (sllist (st r))" "n = 3" using pos InfStep_START by (simp_all add: position_def)
    have "made k h ?r" by (rule made_same [OF m]) (simp_all add: inf_goto_def)
    then have "outcome k W T H (2 * length V) (step_READ_BLOCK_HEADER (c_mem k) ?r)"
      using p bs act by (intro read_header) (simp_all add: inf_goto_def)
    then show ?thesis using InfStep_START
      by (simp add: inf_switch_def step_START_def step_PROCESS_NEXT_BLOCK_def weight_def inf_goto_def)
  next
    case InfStep_PROCESS_NEXT_BLOCK
    then show ?thesis using next_block [OF m, of W V T H] bs pos act by (simp add: position_def inf_switch_def weight_def)
  next
    case InfStep_READ_BLOCK_HEADER
    then show ?thesis using read_header [OF m, of W V T H] bs pos act by (simp add: position_def inf_switch_def weight_def)
  next
    case InfStep_PROCESS_UNCOMPRESSED_BLOCK
    then show ?thesis using stored_length [OF m bs pos _ act W] by (simp add: inf_switch_def weight_def)
  next
    case InfStep_OUTPUT_UNCOMPRESSED_BLOCK
    then have "n = 0" using pos by (simp add: position_def)
    then show ?thesis using output_stored [OF m, of W V T H] bs pos act W InfStep_OUTPUT_UNCOMPRESSED_BLOCK
      by (simp add: inf_switch_def weight_def)
  next
    case InfStep_LOAD_FIXED_HUFFMAN_DECODERS
    then show ?thesis using load_fixed [OF m bs pos _ act] by (simp add: inf_switch_def weight_def)
  next
    case InfStep_PROCESS_COMPRESSED_BLOCK
    then show ?thesis using token_symbol [OF m bs pos _ act size] by (simp add: inf_switch_def weight_def)
  next
    case InfStep_Read_LiteralOrLength
    then show ?thesis using token_symbol [OF m bs pos _ act size] by (simp add: inf_switch_def weight_def)
  next
    case InfStep_Read_LiteralOrLength2
    then have "n = 0" using pos by (simp add: position_def)
    then show ?thesis using literal_out [OF m, of W V T H] bs pos act InfStep_Read_LiteralOrLength2
      by (simp add: inf_switch_def weight_def)
  next
    case InfStep_Read_LengthBits
    then show ?thesis using length_bits [OF m bs pos _ act size] outcome_mono by (fastforce simp: inf_switch_def weight_def)
  next
    case InfStep_Read_Distance
    then show ?thesis using distance_symbol [OF m bs pos _ act size] outcome_mono by (fastforce simp: inf_switch_def weight_def)
  next
    case InfStep_Read_DistanceBits
    then show ?thesis using distance_bits [OF m bs pos _ act size] by (simp add: inf_switch_def weight_def)
  next
    case InfStep_OUTPUT_SEQUENCE
    then have "n = 0" using pos by (simp add: position_def)
    then show ?thesis using out_sequence [OF m, of W V T H] bs pos act size InfStep_OUTPUT_SEQUENCE
      by (simp add: inf_switch_def weight_def)
  next
    case InfStep_ADLER32_CHECKSUM
    then show ?thesis using checksum [OF m bs pos _ act] by (simp add: inf_switch_def weight_def)
  next
    case InfStep_END
    then show ?thesis using at_end [OF m bs pos] by (simp add: inf_switch_def)
  qed (use pos nd in \<open>simp_all add: position_def dyn_step_def\<close>)
qed

theorem loop_outcome:
  assumes "made k h r" and "bs_at (c_mem k) (c_end k) W n V (bitstream (st r))" and "position T H n V h r"
    and "action (st r) = InfAction_ProcessNextChunk" and size: "length H \<le> Inf_Outbuf_size" and W: "8 dvd length W"
  shows "\<exists>r'. inf_loop (c_mem k) (c_to k) r = Some (Inr r') \<and> (waiting k W T H r' \<or> full k W T H r' \<or> ended k W T H r')"
  using assms(1-4)
proof (induction "2 * length V + weight (cur r)" arbitrary: n V h r rule: less_induct)
  case less
  obtain r1 where r1: "inf_switch (c_mem k) (c_to k) r = Inr r1"
      "going k W T H (2 * length V + weight (cur r)) r1 \<or> waiting k W T H r1 \<or> full k W T H r1 \<or> ended k W T H r1"
    using switch_outcome [OF less.prems size W] by (auto simp: outcome_def)
  have step: "inf_loop (c_mem k) (c_to k) r = inf_loop (c_mem k) (c_to k) r1" by (rule inf_loop_step [OF less.prems(4) r1(1)])
  show ?case
  proof (cases "going k W T H (2 * length V + weight (cur r)) r1")
    case True
    then show ?thesis unfolding step going_def using less.hyps by blast
  next
    case False
    then have "action (st r1) \<noteq> InfAction_ProcessNextChunk" using r1(2) by (auto simp: waiting_def full_def ended_def)
    then show ?thesis unfolding step using inf_loop_done r1(2) False by blast
  qed
qed

end
