(* ===== verification/Inf_Streaming.thy ===== *)
theory Inf_Streaming
  imports Round_Trip Inf_Resume_Loop
begin

text \<open>
  Sequences of calls of \<^verbatim>\<open>inflate\<close>: the compressed stream arrives in pieces of any size, or the output is
  taken in pieces of any size.
\<close>

section \<open>The text so far is a prefix of the text\<close>

lemma expand_extends: "prefix h (expand h ts)"
  using expand_prefix [of h ts] by (auto simp: prefix_def)

lemma block_prefix: "block h f V rest h' \<Longrightarrow> prefix h h'"
  by (induction rule: block.induct) (auto simp: expand_extends)

lemma blocks_prefix: "blocks h fin V rest h' \<Longrightarrow> prefix h h'"
  by (induction rule: blocks.induct) (auto dest: block_prefix intro: prefix_order.trans)

lemma after_prefix: "after T fin h V H \<Longrightarrow> prefix h H"
  by (auto simp: after_def stream_def dest: blocks_prefix split: if_splits)

lemma tokens_prefix: "tokens_todo T fin c h V H \<Longrightarrow> prefix h H"
  unfolding tokens_todo_def tokens_left_def using after_prefix prefix_order.trans [OF expand_extends] by blast

lemma left_prefix: "tokens_left T fin c h ts V H \<Longrightarrow> prefix h H"
  using tokens_prefix [unfolded tokens_todo_def] by blast

lemma lz_copy_extends: "prefix (lz_copy h d n) H \<Longrightarrow> prefix h H"
  using lz_copy_prefix [of h d n] by (metis append_prefixD)

lemma position_shortened:
  assumes "position T H n V h r"
  shows "prefix h H"
proof (cases "dyn_step (cur r)")
  case True
  then show ?thesis using assms tokens_prefix by (auto simp: position_dyn)
next
  case False
  have s: "stream T h V H \<Longrightarrow> prefix h H" by (auto simp: stream_def dest: blocks_prefix)
  from False assms show ?thesis
    by (cases "cur r") (auto simp: position_def dyn_step_def dest!: s after_prefix tokens_prefix left_prefix
        dest: append_prefixD lz_copy_extends)
qed

section \<open>The state between two calls\<close>

definition rest_run :: "inf_statics \<Rightarrow> Inf_State \<Rightarrow> inf_run" where
  "rest_run stat s = \<lparr>st = s, cur = step s, writePtr = 0, out = [], rmsg = None, res = 0, statics = stat\<rparr>"

text \<open>\<open>paused stat T H n V h s\<close>: the text \<open>h\<close> has been produced, the bits \<open>V\<close> are to be read, the next \<open>n\<close> of them at once.\<close>

definition paused :: "inf_statics \<Rightarrow> nat \<Rightarrow> u8 list \<Rightarrow> nat \<Rightarrow> bool list \<Rightarrow> u8 list \<Rightarrow> Inf_State \<Rightarrow> bool" where
  "paused stat T H n V h s \<longleftrightarrow> statics_ok stat \<and> win_rep (outputBuf s) h \<and> position T H n V h (rest_run stat s)"

lemma position_cong:
  assumes "cur r' = cur r" and "statics r' = statics r" and "sllist (st r') = sllist (st r)" and "isLastBlock (st r') = isLastBlock (st r)"
    and "symcount (st r') = symcount (st r)" and "lit (st r') = lit (st r)" and "sequence_dist (st r') = sequence_dist (st r)"
    and "sequence_len (st r') = sequence_len (st r)" and "frontDecoder (st r') = frontDecoder (st r)"
    and "literalDecoder (st r') = literalDecoder (st r)" and "distanceDecoder (st r') = distanceDecoder (st r)"
    and "huffmanTableA (st r') = huffmanTableA (st r)" and "huffmanTableB (st r') = huffmanTableB (st r)"
  shows "position T H n V h r' = position T H n V h r"
proof -
  have "tables_for c r' = tables_for c r" for c by (rule tables_for_cong) (use assms in simp_all)
  then show ?thesis using assms by (cases "cur r") (simp_all add: position_def dyn_pos_def)
qed

lemma paused_after: "made k h r \<Longrightarrow> position T H n V h r \<Longrightarrow> paused (statics r) T H n V h ((st r)\<lparr>step := cur r\<rparr>)"
  unfolding paused_def
  by (intro conjI) (simp_all add: made_def, subst position_cong [of _ r], simp_all add: rest_run_def)

text \<open>A loop that starts with the state of an earlier call.\<close>

definition start_run :: "inf_statics \<Rightarrow> Inf_State \<Rightarrow> Inf_State z_stream \<Rightarrow> inf_run" where
  "start_run stat s strm = \<lparr>st = s\<lparr>action := InfAction_ProcessNextChunk\<rparr>, cur = step s, writePtr = next_out strm,
     out = out_mem strm, rmsg = msg strm, res = 0, statics = stat\<rparr>"

definition call_of :: "Inf_State z_stream \<Rightarrow> nat \<Rightarrow> u8 list \<Rightarrow> inf_call" where
  "call_of strm e h = \<lparr>c_mem = in_mem strm, c_end = e, c_out = out_mem strm, c_from = next_out strm,
     c_to = next_out strm + unat (avail_out strm), c_past = length h\<rparr>"

lemma resume_loop:
  assumes "paused stat T H n V h s" and "bs_at (in_mem strm) e W n V (bitstream s)"
    and "next_out strm + unat (avail_out strm) \<le> length (out_mem strm)" and "length H \<le> Inf_Outbuf_size" and "8 dvd length W"
  defines "k \<equiv> call_of strm e h"
  shows "\<exists>r. inf_loop (in_mem strm) (next_out strm + unat (avail_out strm)) (start_run stat s strm) = Some (Inr r) \<and>
     (waiting k W T H r \<or> full k W T H r \<or> ended k W T H r)"
proof -
  let ?r = "start_run stat s strm"
  have "made k h ?r" using assms(1,3) by (simp add: made_def paused_def start_run_def k_def call_of_def mem_write_Nil)
  moreover have "position T H n V h ?r"
    using assms(1) position_cong [of ?r "rest_run stat s"] by (simp add: paused_def start_run_def rest_run_def)
  ultimately show ?thesis
    using loop_outcome [of k h ?r W n V T H] assms(2,4,5) by (simp add: start_run_def k_def call_of_def)
qed

lemma call_output:
  assumes "made (call_of strm e h) h' r" and "prefix h H" and "prefix h' H"
  obtains ys where "h' = h @ ys" "mem_write (next_out strm) ys (out_mem strm) = Inr (out r)" "writePtr r = next_out strm + length ys"
    "length ys \<le> unat (avail_out strm)"
proof -
  have m: "length h \<le> length h'" "mem_write (next_out strm) (drop (length h) h') (out_mem strm) = Inr (out r)"
      "writePtr r = next_out strm + (length h' - length h)" "writePtr r \<le> next_out strm + unat (avail_out strm)"
    using assms(1) by (auto simp: made_def call_of_def)
  have "prefix h h'" by (rule prefix_length_prefix [OF assms(2,3) m(1)])
  then obtain ys where "h' = h @ ys" by (auto simp: prefix_def)
  with m that show thesis by auto
qed

text \<open>A call, from a state at some position: the loop and what the epilogue returns.\<close>

definition same_buffers :: "Inf_State z_stream \<Rightarrow> Inf_State z_stream \<Rightarrow> bool" where
  "same_buffers a b \<longleftrightarrow> in_mem b = in_mem a \<and> out_mem b = out_mem a \<and> next_out b = next_out a \<and> avail_out b = avail_out a \<and> msg b = msg a"

lemma inflate_resumes:
  assumes st: "state strm = Some s" and entry: "inflate_entry strm s = Inr (Inr (strm1, s1, p))" and same: "same_buffers strm strm1"
    and at: "paused stat T H n V h s1" "bs_at (in_mem strm) e W n V (bitstream s1)"
    and space: "0 < avail_out strm" "next_out strm + unat (avail_out strm) \<le> length (out_mem strm)"
    and size: "length H \<le> Inf_Outbuf_size" and W: "8 dvd length W"
  shows "\<exists>r strm'. inflate stat strm flush = Some (Inr (res r, statics r, strm')) \<and> state strm' = Some ((st r)\<lparr>step := cur r\<rparr>) \<and>
     out_mem strm' = out r \<and> next_out strm' = writePtr r \<and> in_mem strm' = in_mem strm \<and> next_in strm' = inputPtr (bitstream (st r)) \<and>
     avail_in strm' = avail_in strm1 - (of_nat (inputPtr (bitstream (st r))) - of_nat p) \<and>
     (waiting (call_of strm e h) W T H r \<or> full (call_of strm e h) W T H r \<or> ended (call_of strm e h) W T H r)"
proof -
  have b: "in_mem strm1 = in_mem strm" "out_mem strm1 = out_mem strm" "next_out strm1 = next_out strm" "avail_out strm1 = avail_out strm"
      "msg strm1 = msg strm"
    using same by (simp_all add: same_buffers_def)
  obtain r where r: "inf_loop (in_mem strm) (next_out strm + unat (avail_out strm)) (start_run stat s1 strm) = Some (Inr r)"
     "waiting (call_of strm e h) W T H r \<or> full (call_of strm e h) W T H r \<or> ended (call_of strm e h) W T H r"
    using resume_loop [OF at space(2) size W] by blast
  have "inputPtr (bitstream s1) \<le> inputEnd (bitstream s1)" using at(2) by (auto simp: bs_at_def bs_ok_def bs_inv_def)
  then have "inflate stat strm flush = Some (Inr (inflate_epilogue strm1 p r))"
    using st entry space(1) r(1) by (simp add: inflate_def start_run_def word_less_nat_alt b)
  then show ?thesis using r(2) b(1) by (auto simp: inflate_epilogue_def Let_def)
qed

section \<open>Input in pieces\<close>

text \<open>A state that waits for input; the bits \<open>W\<close> are to come.\<close>

definition kept_bits :: "Inf_State \<Rightarrow> bool list" where
  "kept_bits s = bits_of (bsize (bitstream s)) (bits (bitstream s))"

definition hungry :: "inf_statics \<Rightarrow> nat \<Rightarrow> u8 list \<Rightarrow> bool list \<Rightarrow> u8 list \<Rightarrow> Inf_State \<Rightarrow> bool" where
  "hungry stat T H W h s \<longleftrightarrow> action s \<in> {InfAction_Init, InfAction_FillInputBuffer} \<and> bsize (bitstream s) < 32 \<and>
     take_bit (bsize (bitstream s)) (bits (bitstream s)) = bits (bitstream s) \<and>
     (\<exists>n. paused stat T H n (kept_bits s @ W) h s \<and> (bsize (bitstream s) < 8 \<or> bsize (bitstream s) < n))"

lemma paused_bitstream [simp]: "paused stat T H n V h (s\<lparr>bitstream := b\<rparr>) = paused stat T H n V h s"
  using position_cong [of "rest_run stat (s\<lparr>bitstream := b\<rparr>)" "rest_run stat s"] by (simp add: paused_def rest_run_def)

lemma hungry_fed:
  assumes "hungry stat T H (bytes_bits body @ W) h s" and input: "mem_read (next_in strm) (unat (avail_in strm)) (in_mem strm) = Inr input"
    and body: "inf_input s input body"
    and bs: "bs = (bitstream s)\<lparr>inputPtr := next_in strm + header_len s, inputEnd := next_in strm + length input\<rparr>"
  shows "\<exists>n V. paused stat T H n V h (s\<lparr>bitstream := bs\<rparr>) \<and> bs_at (in_mem strm) (next_in strm + length input) W n V bs"
proof -
  obtain n where n: "paused stat T H n (kept_bits s @ bytes_bits body @ W) h s" "bsize (bitstream s) < 8 \<or> bsize (bitstream s) < n"
    "bsize (bitstream s) < 32" "take_bit (bsize (bitstream s)) (bits (bitstream s)) = bits (bitstream s)"
    using assms(1) by (auto simp: hungry_def)
  have len: "length input = unat (avail_in strm)" "take (unat (avail_in strm)) (drop (next_in strm) (in_mem strm)) = input"
    "next_in strm + unat (avail_in strm) \<le> length (in_mem strm)"
    using input by (auto simp: mem_read_def split: if_splits)
  have b: "drop (header_len s) input = body" "header_len s \<le> length input"
    using body by (auto simp: inf_input_def header_len_def split: if_splits)
  have "take (length input - header_len s) (drop (next_in strm + header_len s) (in_mem strm)) = body"
    using arg_cong [OF len(2), of "drop (header_len s)"] b(1) len(1) by (simp add: drop_take add.commute)
  then have "bs_bits (in_mem strm) bs = kept_bits s @ bytes_bits body" by (simp add: bs bs_bits_def kept_bits_def)
  moreover have "bs_ok (in_mem strm) (next_in strm + length input) bs" using n(3,4) b(2) len by (auto simp: bs bs_ok_def bs_inv_def)
  ultimately have "bs_at (in_mem strm) (next_in strm + length input) W n (kept_bits s @ bytes_bits body @ W) bs"
    using n(2) by (simp add: bs_at_def bs)
  then show ?thesis using n(1) by auto
qed

text \<open>
  A call on a piece of the stream: the state waits for the next one or the stream has ended.
\<close>

lemma inflate_piece:
  assumes st: "state strm = Some s" and hun: "hungry stat T H (bytes_bits body @ W) h s"
    and input: "mem_read (next_in strm) (unat (avail_in strm)) (in_mem strm) = Inr input" and body: "inf_input s input body"
    and space: "0 < avail_out strm" "length H - length h \<le> unat (avail_out strm)" "next_out strm + unat (avail_out strm) \<le> length (out_mem strm)"
    and size: "length H \<le> Inf_Outbuf_size" and W: "8 dvd length W"
  shows "\<exists>ret stat' strm' s' ys. inflate stat strm flush = Some (Inr (ret, stat', strm')) \<and> state strm' = Some s' \<and>
     mem_write (next_out strm) ys (out_mem strm) = Inr (out_mem strm') \<and> next_out strm' = next_out strm + length ys \<and>
     (ret = Z_OK \<and> W \<noteq> [] \<and> action s' = InfAction_FillInputBuffer \<and> hungry stat' T H W (h @ ys) s' \<or>
      ret = Z_STREAM_END \<and> h @ ys = H \<and> length W div 8 \<le> T)"
proof -
  let ?e = "next_in strm + length input"
  let ?s = "s\<lparr>bitstream := (bitstream s)\<lparr>inputPtr := next_in strm + header_len s, inputEnd := ?e\<rparr>\<rparr>"
  define strm1 where "strm1 = strm\<lparr>total_in := (if action s = InfAction_Init then 2 else total_in strm), avail_in := of_nat (length body)\<rparr>"
  have act: "action s \<in> {InfAction_Init, InfAction_FillInputBuffer}" using hun by (simp add: hungry_def)
  obtain n V where v: "paused stat T H n V h ?s" "bs_at (in_mem strm) ?e W n V (bitstream ?s)"
    using hungry_fed [OF hun input body refl] by auto
  have same: "same_buffers strm strm1" by (simp add: same_buffers_def strm1_def)
  obtain r strm' where r: "inflate stat strm flush = Some (Inr (res r, statics r, strm'))" "state strm' = Some ((st r)\<lparr>step := cur r\<rparr>)"
      "out_mem strm' = out r" "next_out strm' = writePtr r"
      "waiting (call_of strm ?e h) W T H r \<or> full (call_of strm ?e h) W T H r \<or> ended (call_of strm ?e h) W T H r"
    using inflate_resumes [OF st inflate_entry_input [OF act input body, folded strm1_def] same v space(1,3) size W, of flush] by blast
  have hH: "prefix h H" using v(1) position_shortened by (auto simp: paused_def)
  let ?s' = "(st r)\<lparr>step := cur r\<rparr>"
  have concl: ?thesis if mk: "made (call_of strm ?e h) h' r" "prefix h' H"
      "res r = Z_OK \<and> W \<noteq> [] \<and> action ?s' = InfAction_FillInputBuffer \<and> hungry (statics r) T H W h' ?s' \<or>
       res r = Z_STREAM_END \<and> h' = H \<and> length W div 8 \<le> T" for h'
  proof -
    obtain ys where "h' = h @ ys" "mem_write (next_out strm) ys (out_mem strm) = Inr (out r)" "writePtr r = next_out strm + length ys"
      using call_output [OF mk(1) hH mk(2)] by blast
    with mk(3) r(1-4) show ?thesis
      by (intro exI [of _ "res r"] exI [of _ "statics r"] exI [of _ strm'] exI [of _ ?s'] exI [of _ ys]) simp
  qed
  from r(5) show ?thesis
  proof (elim disjE)
    assume "waiting (call_of strm ?e h) W T H r"
    then obtain n V h' where w: "action (st r) = InfAction_FillInputBuffer" "res r = Z_OK" "made (call_of strm ?e h) h' r"
        "starved (in_mem strm) ?e W n V (bitstream (st r))" "position T H n V h' r"
      by (auto simp: waiting_def call_of_def)
    have b: "bs_ok (in_mem strm) ?e (bitstream (st r))" "bs_bits (in_mem strm) (bitstream (st r)) @ W = V" "inputPtr (bitstream (st r)) = ?e"
        "W \<noteq> []" "bsize (bitstream (st r)) < 8 \<or> bsize (bitstream (st r)) < n"
      using w(4) by (auto simp: starved_def bs_at_def)
    then have "kept_bits ?s' @ W = V" by (auto simp: kept_bits_def bs_bits_def bs_ok_def)
    then have "hungry (statics r) T H W h' ?s'"
      using w(1) b paused_after [OF w(3,5)] by (auto simp: hungry_def bs_ok_def bs_inv_def)
    then show ?thesis using concl [OF w(3) position_shortened [OF w(5)]] w(1,2) b(4) by simp
  next
    assume "full (call_of strm ?e h) W T H r"
    then obtain h' where f: "made (call_of strm ?e h) h' r" "length h' < length H" "writePtr r = next_out strm + unat (avail_out strm)"
      by (auto simp: full_def call_of_def)
    then have "length h' - length h = unat (avail_out strm)" "length h \<le> length h'" by (auto simp: made_def call_of_def)
    then show ?thesis using space(2) f(2) by linarith
  next
    assume "ended (call_of strm ?e h) W T H r"
    then obtain V where e: "res r = Z_STREAM_END" "made (call_of strm ?e h) H r" "bs_at (in_mem strm) ?e W 0 V (bitstream (st r))" "length V div 8 = T"
      by (auto simp: ended_def call_of_def)
    have "length W \<le> length V" using e(3) by (auto simp: bs_at_def)
    then have "length W div 8 \<le> T" using e(4) div_le_mono by blast
    then show ?thesis using concl [OF e(2)] e(1) by simp
  qed
qed

text \<open>A receiver that hands over the pieces of a stream one by one, with an output buffer of \<open>n\<close> bytes per call.\<close>

fun feed :: "inf_statics \<Rightarrow> Inf_State z_stream \<Rightarrow> nat \<Rightarrow> int \<Rightarrow> u8 list list \<Rightarrow> (int \<times> u8 list) list res option" where
  "feed stat strm n flush [] = Some (Inr [])"
| "feed stat strm n flush (c # cs) =
     (case inflate stat (offer c n strm) flush of
        None \<Rightarrow> None
      | Some (Inl e) \<Rightarrow> Some (Inl e)
      | Some (Inr (ret, stat, strm)) \<Rightarrow>
          map_option (\<lambda>r. bindR r (\<lambda>os. Inr ((ret, taken strm) # os))) (feed stat strm n flush cs))"

definition piece_results :: "nat \<Rightarrow> int list" where
  "piece_results k = replicate (k - 1) Z_OK @ [Z_STREAM_END]"

lemma feed_step:
  assumes st: "state strm = Some s" and hun: "hungry stat 0 H (bytes_bits (body @ concat cs)) h s" and body: "inf_input s c body"
    and n: "0 < n" "length H \<le> n" "n < 2 ^ 32" "length c < 2 ^ 32" and ne: "\<forall>c \<in> set cs. c \<noteq> []" and size: "length H \<le> Inf_Outbuf_size"
  shows "\<exists>ret stat' strm' s' ys. inflate stat (offer c n strm) flush = Some (Inr (ret, stat', strm')) \<and> taken strm' = ys \<and>
     state strm' = Some s' \<and>
     (if cs = [] then ret = Z_STREAM_END \<and> h @ ys = H
      else ret = Z_OK \<and> action s' = InfAction_FillInputBuffer \<and> hungry stat' 0 H (bytes_bits (concat cs)) (h @ ys) s')"
proof -
  let ?W = "bytes_bits (concat cs)"
  have w: "?W = [] \<longleftrightarrow> cs = []" and len: "cs \<noteq> [] \<Longrightarrow> 1 \<le> length (concat cs)"
    using ne length_bytes_bits [of "concat cs"] by (cases cs; auto simp: Suc_le_eq)+
  have u: "unat (of_nat n :: u32) = n" "unat (of_nat (length c) :: u32) = length c" using n by (simp_all add: unat_small)
  have "mem_read (next_in (offer c n strm)) (unat (avail_in (offer c n strm))) (in_mem (offer c n strm)) = Inr c"
    using u by (simp add: mem_read_def)
  moreover have "state (offer c n strm) = Some s" "hungry stat 0 H (bytes_bits body @ ?W) h s" "0 < avail_out (offer c n strm)"
      "length H - length h \<le> unat (avail_out (offer c n strm))"
      "next_out (offer c n strm) + unat (avail_out (offer c n strm)) \<le> length (out_mem (offer c n strm))" "8 dvd length ?W"
    using st hun n u by (simp_all add: word_less_nat_alt)
  ultimately obtain ret stat' strm' s' ys where r: "inflate stat (offer c n strm) flush = Some (Inr (ret, stat', strm'))" "state strm' = Some s'"
     "mem_write 0 ys (replicate n 0) = Inr (out_mem strm')" "next_out strm' = length ys"
     "ret = Z_OK \<and> ?W \<noteq> [] \<and> action s' = InfAction_FillInputBuffer \<and> hungry stat' 0 H ?W (h @ ys) s' \<or>
      ret = Z_STREAM_END \<and> h @ ys = H \<and> length ?W div 8 \<le> 0"
    using inflate_piece [OF _ _ _ body, of "offer c n strm" stat 0 H ?W h flush] size unfolding offer_simps add_0 by blast
  have ys: "taken strm' = ys" using taken_eq [OF r(3,4)] .
  have "length ?W div 8 = length (concat cs)" by simp
  then have "\<not> length ?W div 8 \<le> 0" if "cs \<noteq> []" using len [OF that] by linarith
  then have "if cs = [] then ret = Z_STREAM_END \<and> h @ ys = H
      else ret = Z_OK \<and> action s' = InfAction_FillInputBuffer \<and> hungry stat' 0 H ?W (h @ ys) s'"
    using r(5) w by (cases "cs = []") (simp, metis)
  with r(1,2) ys show ?thesis by blast
qed

lemma feed_rest:
  assumes "state strm = Some s" and "hungry stat 0 H (bytes_bits (concat cs)) h s" and "action s = InfAction_FillInputBuffer"
    and "cs \<noteq> []" and "\<forall>c \<in> set cs. c \<noteq> [] \<and> length c < 2 ^ 32"
    and "0 < n" "length H \<le> n" "n < 2 ^ 32" and "length H \<le> Inf_Outbuf_size"
  shows "\<exists>os. feed stat strm n flush cs = Some (Inr os) \<and> h @ concat (map snd os) = H \<and> map fst os = piece_results (length cs)"
  using assms(1-5)
proof (induction cs arbitrary: stat strm s h)
  case (Cons c cs)
  have "inf_input s c c" using Cons.prems by (simp add: inf_input_def)
  from feed_step [OF Cons.prems(1) _ this assms(6-8) _ _ assms(9), of stat cs h flush] Cons.prems
  obtain ret stat' strm' s' where r: "inflate stat (offer c n strm) flush = Some (Inr (ret, stat', strm'))" "state strm' = Some s'"
     "if cs = [] then ret = Z_STREAM_END \<and> h @ taken strm' = H
      else ret = Z_OK \<and> action s' = InfAction_FillInputBuffer \<and> hungry stat' 0 H (bytes_bits (concat cs)) (h @ taken strm') s'"
    by auto
  show ?case
  proof (cases "cs = []")
    case True
    then show ?thesis using r by (simp add: piece_results_def)
  next
    case False
    obtain os where os: "feed stat' strm' n flush cs = Some (Inr os)" "(h @ taken strm') @ concat (map snd os) = H"
        "map fst os = piece_results (length cs)"
      using Cons.IH [of strm' s' stat' "h @ taken strm'"] r False Cons.prems(5) by auto
    moreover have "piece_results (length (c # cs)) = Z_OK # piece_results (length cs)" using False by (cases cs) (simp_all add: piece_results_def)
    ultimately show ?thesis using r False by simp
  qed
qed simp

lemma ready_hungry:
  assumes "inf_ready [] [] s" and "statics_ok stat" and "blocks [] True (bytes_bits body) rest H" and "length rest div 8 = 4 + T"
  shows "hungry stat T H (bytes_bits body) [] s"
proof -
  have s: "win_rep (outputBuf s) []" "sl_idle (sllist s)" "bsize (bitstream s) < 3" "kept_bits s = []"
     "take_bit (bsize (bitstream s)) (bits (bitstream s)) = bits (bitstream s)" "step s \<in> {InfStep_START, InfStep_READ_BLOCK_HEADER}"
    using assms(1) by (auto simp: inf_ready_def kept_bits_def)
  have "stream T [] (bytes_bits body) H" using assms(3,4) by (auto simp: stream_def)
  then have "paused stat T H 3 (bytes_bits body) [] s" using s assms(2) by (auto simp: paused_def position_def rest_run_def)
  then show ?thesis using s inf_ready_action [OF assms(1)] by (auto simp: hungry_def)
qed

text \<open>The two bytes of the stream header may be a piece of their own.\<close>

lemma header_piece:
  assumes st: "state strm = Some s" and act: "action s = InfAction_Init" and hun: "hungry stat T H W h s" and c: "c = [0x78, flg]"
  shows "\<exists>strm' s'. inflate stat (offer c n strm) flush = Some (Inr (Z_OK, stat, strm')) \<and> taken strm' = [] \<and> state strm' = Some s' \<and>
     action s' = InfAction_FillInputBuffer \<and> hungry stat T H W h s'"
proof -
  let ?s = "s\<lparr>bitstream := (bitstream s)\<lparr>inputPtr := 0, inputEnd := 2\<rparr>, action := InfAction_FillInputBuffer\<rparr>"
  have "paused stat T H m V h ?s = paused stat T H m V h s" for m V
    using position_cong [of "rest_run stat ?s" "rest_run stat s"] by (simp add: paused_def rest_run_def)
  then have "hungry stat T H W h ?s" using hun by (simp add: hungry_def kept_bits_def)
  moreover have "inflate stat (offer c n strm) flush = Some (Inr (Z_OK, stat,
     (offer c n strm)\<lparr>total_in := 2, next_in := 2, avail_in := 0, state := Some ?s\<rparr>))"
    using st act c by (simp add: inflate_def inflate_entry_def Let_def)
  ultimately show ?thesis by (auto simp: taken_def)
qed

lemma feed_stream:
  assumes init: "inflateInit (Some mem) True (Some rx) = (ret, Some rx')" and cs: "concat cs = [0x78, flg] @ body"
    and blks: "blocks [] True (bytes_bits body) rest H" and four: "length rest div 8 = 4" and first: "2 \<le> length (hd cs)"
    and ne: "\<forall>c \<in> set cs. c \<noteq> [] \<and> length c < 2 ^ 32" and n: "0 < n" "length H \<le> n" "n < 2 ^ 32"
    and size: "length H \<le> Inf_Outbuf_size" and stat: "statics_ok stat"
  shows "\<exists>os. feed stat rx' n flush cs = Some (Inr os) \<and> concat (map snd os) = H \<and> map fst os = piece_results (length cs)"
proof -
  obtain s where s: "rx' = rx\<lparr>msg := None, total_in := 0, total_out := 0, state := Some s\<rparr>" "inf_ready [] [] s" "action s = InfAction_Init"
    using inflateInit_ready(2) [OF init] by auto
  have st: "state rx' = Some s" by (simp add: s(1))
  have hun: "hungry stat 0 H (bytes_bits body) [] s" by (rule ready_hungry [OF s(2) stat blks]) (simp add: four)
  have long: "4 \<le> length body" using blocks_shrink [OF blks] four by simp
  obtain c ds where cd: "cs = c # ds" using cs by (cases cs) auto
  obtain b where c: "c = 0x78 # flg # b" "body = b @ concat ds" using cs first cd by (cases c; cases "tl c") auto
  show ?thesis
  proof (cases "b = []")
    case True
    then have ds: "ds \<noteq> []" using c(2) long by auto
    obtain strm' s' where r: "inflate stat (offer c n rx') flush = Some (Inr (Z_OK, stat, strm'))" "taken strm' = []" "state strm' = Some s'"
       "action s' = InfAction_FillInputBuffer" "hungry stat 0 H (bytes_bits body) [] s'"
      using header_piece [OF st s(3) hun, of c flg n flush] c(1) True by auto
    obtain os where "feed stat strm' n flush ds = Some (Inr os)" "[] @ concat (map snd os) = H" "map fst os = piece_results (length ds)"
      using feed_rest [OF r(3) _ r(4) ds _ n size, of stat "[]" flush] r(5) c(2) True ne cd by auto
    moreover have "piece_results (length cs) = Z_OK # piece_results (length ds)" using ds cd by (cases ds) (simp_all add: piece_results_def)
    ultimately show ?thesis using r(1,2) cd by simp
  next
    case False
    then have "inf_input s c b" using s(3) c(1) by (simp add: inf_input_def)
    moreover have "hungry stat 0 H (bytes_bits (b @ concat ds)) [] s" "length c < 2 ^ 32" "\<forall>c \<in> set ds. c \<noteq> []"
      using hun c(2) ne cd by auto
    ultimately
    obtain ret stat' strm' s' where r: "inflate stat (offer c n rx') flush = Some (Inr (ret, stat', strm'))" "state strm' = Some s'"
       "if ds = [] then ret = Z_STREAM_END \<and> taken strm' = H
        else ret = Z_OK \<and> action s' = InfAction_FillInputBuffer \<and> hungry stat' 0 H (bytes_bits (concat ds)) (taken strm') s'"
      using feed_step [OF st _ _ n _ _ size, of stat b ds "[]" c flush] unfolding append_Nil by blast
    show ?thesis
    proof (cases "ds = []")
      case True
      then show ?thesis using r cd by (simp add: piece_results_def)
    next
      case False
      obtain os where "feed stat' strm' n flush ds = Some (Inr os)" "taken strm' @ concat (map snd os) = H" "map fst os = piece_results (length ds)"
        using feed_rest [OF r(2) _ _ False _ n size, of stat' "taken strm'" flush] r(3) False ne cd by auto
      moreover have "piece_results (length cs) = Z_OK # piece_results (length ds)" using False cd by (cases ds) (simp_all add: piece_results_def)
      ultimately show ?thesis using r(1,3) cd False by simp
    qed
  qed
qed

section \<open>Output in pieces\<close>

text \<open>A state that stopped because the output was full; all the input is in memory.\<close>

definition stuffed :: "inf_statics \<Rightarrow> nat \<Rightarrow> u8 list \<Rightarrow> u8 list \<Rightarrow> Inf_State z_stream \<Rightarrow> Inf_State \<Rightarrow> bool" where
  "stuffed stat T H h strm s \<longleftrightarrow> action s = InfAction_UseOutputBufferContent \<and>
     (\<exists>V e. paused stat T H 0 V h s \<and> bs_at (in_mem strm) e [] 0 V (bitstream s) \<and> 32 \<le> length V \<and>
        next_in strm = inputPtr (bitstream s) \<and> avail_in strm = of_nat (e - next_in strm))"

text \<open>A call that finds the whole rest of the input.\<close>

lemma inflate_room:
  assumes st: "state strm = Some s" and entry: "inflate_entry strm s = Inr (Inr (strm1, s1, p))" and same: "same_buffers strm strm1"
    and at: "paused stat T H n V h s1" "bs_at (in_mem strm) e [] n V (bitstream s1)" and p: "p \<le> e" "avail_in strm1 = of_nat (e - p)"
    and space: "0 < avail_out strm" "next_out strm + unat (avail_out strm) \<le> length (out_mem strm)" and size: "length H \<le> Inf_Outbuf_size"
  shows "\<exists>ret stat' strm' s' ys. inflate stat strm flush = Some (Inr (ret, stat', strm')) \<and> state strm' = Some s' \<and>
     mem_write (next_out strm) ys (out_mem strm) = Inr (out_mem strm') \<and> next_out strm' = next_out strm + length ys \<and> in_mem strm' = in_mem strm \<and>
     (ret = Z_OK \<and> length ys = unat (avail_out strm) \<and> length (h @ ys) < length H \<and> stuffed stat' T H (h @ ys) strm' s' \<or>
      ret = Z_STREAM_END \<and> h @ ys = H)"
proof -
  obtain r strm' where r: "inflate stat strm flush = Some (Inr (res r, statics r, strm'))" "state strm' = Some ((st r)\<lparr>step := cur r\<rparr>)"
      "out_mem strm' = out r" "next_out strm' = writePtr r" "in_mem strm' = in_mem strm" "next_in strm' = inputPtr (bitstream (st r))"
      "avail_in strm' = avail_in strm1 - (of_nat (inputPtr (bitstream (st r))) - of_nat p)"
      "waiting (call_of strm e h) [] T H r \<or> full (call_of strm e h) [] T H r \<or> ended (call_of strm e h) [] T H r"
    using inflate_resumes [OF st entry same at space size, of flush] by auto
  have hH: "prefix h H" using at(1) position_shortened by (auto simp: paused_def)
  let ?s' = "(st r)\<lparr>step := cur r\<rparr>"
  have concl: ?thesis if mk: "made (call_of strm e h) h' r" "prefix h' H"
      "res r = Z_OK \<and> writePtr r = next_out strm + unat (avail_out strm) \<and> length h' < length H \<and> stuffed (statics r) T H h' strm' ?s' \<or>
       res r = Z_STREAM_END \<and> h' = H" for h'
  proof -
    obtain ys where "h' = h @ ys" "mem_write (next_out strm) ys (out_mem strm) = Inr (out r)" "writePtr r = next_out strm + length ys"
      using call_output [OF mk(1) hH mk(2)] by blast
    with mk(3) r(1-5) show ?thesis
      by (intro exI [of _ "res r"] exI [of _ "statics r"] exI [of _ strm'] exI [of _ ?s'] exI [of _ ys]) auto
  qed
  have "\<not> waiting (call_of strm e h) [] T H r" by (simp add: waiting_def)
  with r(8) show ?thesis
  proof (elim disjE)
    assume "full (call_of strm e h) [] T H r"
    then obtain V h' where f: "action (st r) = InfAction_UseOutputBufferContent" "res r = Z_OK" "writePtr r = next_out strm + unat (avail_out strm)"
        "made (call_of strm e h) h' r" "bs_at (in_mem strm) e [] 0 V (bitstream (st r))" "position T H 0 V h' r" "length h' < length H" "32 \<le> length V"
      by (auto simp: full_def call_of_def)
    let ?q = "inputPtr (bitstream (st r))"
    have "?q \<le> e" using f(5) by (auto simp: bs_at_def bs_ok_def bs_inv_def)
    then have "avail_in strm' = of_nat (e - ?q)" using p by (simp add: r(7) of_nat_diff)
    then have "stuffed (statics r) T H h' strm' ?s'"
      using f paused_after [OF f(4,6)] r(5,6) by (auto simp: stuffed_def)
    then show ?thesis using concl [OF f(4) position_shortened [OF f(6)]] f(2,3,7) by simp
  next
    assume "ended (call_of strm e h) [] T H r"
    then show ?thesis using concl [of H] by (simp add: ended_def)
  qed simp
qed

text \<open>A reader with all the input in memory, who takes the text in buffers of the sizes \<open>ns\<close>.\<close>

fun drain :: "inf_statics \<Rightarrow> Inf_State z_stream \<Rightarrow> int \<Rightarrow> nat list \<Rightarrow> (int \<times> u8 list) list res option" where
  "drain stat strm flush [] = Some (Inr [])"
| "drain stat strm flush (n # ns) =
     (case inflate stat (strm\<lparr>out_mem := replicate n 0, next_out := 0, avail_out := of_nat n\<rparr>) flush of
        None \<Rightarrow> None
      | Some (Inl e) \<Rightarrow> Some (Inl e)
      | Some (Inr (ret, stat, strm)) \<Rightarrow>
          if ret = Z_OK then map_option (\<lambda>r. bindR r (\<lambda>os. Inr ((ret, taken strm) # os))) (drain stat strm flush ns)
          else Some (Inr [(ret, taken strm)]))"

definition with_room :: "nat \<Rightarrow> Inf_State z_stream \<Rightarrow> Inf_State z_stream" where
  "with_room n strm = strm\<lparr>out_mem := replicate n 0, next_out := 0, avail_out := of_nat n\<rparr>"

text \<open>What a call leaves for the next one.\<close>

definition drained :: "inf_statics \<Rightarrow> nat \<Rightarrow> u8 list \<Rightarrow> u8 list \<Rightarrow> Inf_State z_stream \<Rightarrow> int \<Rightarrow> nat \<Rightarrow> bool" where
  "drained stat T H h strm flush n \<longleftrightarrow> (\<exists>ret stat' strm'. inflate stat (with_room n strm) flush = Some (Inr (ret, stat', strm')) \<and>
     in_mem strm' = in_mem strm \<and>
     (ret = Z_OK \<and> length (taken strm') = n \<and> length (h @ taken strm') < length H \<and>
        (\<exists>s'. state strm' = Some s' \<and> stuffed stat' T H (h @ taken strm') strm' s') \<or>
      ret = Z_STREAM_END \<and> h @ taken strm' = H))"

lemma drain_call:
  assumes st: "state strm = Some s" and entry: "inflate_entry (with_room n strm) s = Inr (Inr (strm1, s1, p))"
    and same: "same_buffers (with_room n strm) strm1"
    and at: "paused stat T H m V h s1" "bs_at (in_mem strm) e [] m V (bitstream s1)" and p: "p \<le> e" "avail_in strm1 = of_nat (e - p)"
    and n: "0 < n" "n < 2 ^ 32" and size: "length H \<le> Inf_Outbuf_size"
  shows "drained stat T H h strm flush n"
proof -
  have w: "state (with_room n strm) = Some s" "in_mem (with_room n strm) = in_mem strm" "0 < avail_out (with_room n strm)"
      "next_out (with_room n strm) + unat (avail_out (with_room n strm)) \<le> length (out_mem (with_room n strm))"
      "unat (avail_out (with_room n strm)) = n" "next_out (with_room n strm) = 0" "out_mem (with_room n strm) = replicate n 0"
    using st n by (simp_all add: with_room_def unat_small word_less_nat_alt)
  obtain ret stat' strm' s' ys where r: "inflate stat (with_room n strm) flush = Some (Inr (ret, stat', strm'))" "state strm' = Some s'"
      "mem_write 0 ys (replicate n 0) = Inr (out_mem strm')" "next_out strm' = length ys" "in_mem strm' = in_mem strm"
      "ret = Z_OK \<and> length ys = n \<and> length (h @ ys) < length H \<and> stuffed stat' T H (h @ ys) strm' s' \<or> ret = Z_STREAM_END \<and> h @ ys = H"
    using inflate_room [OF w(1) entry same at(1) _ p w(3,4) size, of flush] at(2) unfolding w(2,5-7) add_0 by blast
  have "taken strm' = ys" using taken_eq [OF r(3,4)] .
  then show ?thesis using r unfolding drained_def by blast
qed

lemma drain_stuffed:
  assumes "state strm = Some s" and "stuffed stat T H h strm s" and "length (in_mem strm) < 2 ^ 32"
    and "0 < n" "n < 2 ^ 32" and "length H \<le> Inf_Outbuf_size"
  shows "drained stat T H h strm flush n"
proof -
  obtain V e where f: "action s = InfAction_UseOutputBufferContent" "paused stat T H 0 V h s" "bs_at (in_mem strm) e [] 0 V (bitstream s)"
      "32 \<le> length V" "next_in strm = inputPtr (bitstream s)" "avail_in strm = of_nat (e - next_in strm)"
    using assms(2) by (auto simp: stuffed_def)
  have b: "next_in strm \<le> e" "e \<le> length (in_mem strm)" "length V = bsize (bitstream s) + 8 * (e - next_in strm)" "bsize (bitstream s) < 8"
    using f(3,5) length_bs_bits [of "in_mem strm" "bitstream s"] by (auto simp: bs_at_def bs_ok_def bs_inv_def)
  have "unat (avail_in strm) = e - next_in strm" unfolding f(6) by (rule unat_small) (use b(2) assms(3) in simp)
  then have "0 < avail_in strm" using b(3,4) f(4) by (simp add: word_less_nat_alt)
  then have "inflate_entry (with_room n strm) s = Inr (Inr (with_room n strm, s, next_in strm))"
    using f(1) by (simp add: inflate_entry_def with_room_def)
  then show ?thesis
    by (rule drain_call [OF assms(1) _ _ f(2,3) b(1) _ assms(4-6)]) (use f(6) in \<open>simp_all add: same_buffers_def with_room_def\<close>)
qed

lemma drain_more:
  assumes step: "drained stat T H h strm flush n" and mem: "length (in_mem strm) < 2 ^ 32"
    and ns: "length H - length h \<le> n + sum_list ns" "\<forall>n \<in> set ns. 0 < n \<and> n < 2 ^ 32" and size: "length H \<le> Inf_Outbuf_size"
  shows "\<exists>os. drain stat strm flush (n # ns) = Some (Inr os) \<and> h @ concat (map snd os) = H \<and> map fst os = piece_results (length os)"
  using step mem ns
proof (induction ns arbitrary: stat strm h n)
  case Nil
  then show ?case
    by (auto simp: drained_def with_room_def piece_results_def Z_STREAM_END_def Z_OK_def)
next
  case (Cons m ns)
  from Cons.prems(1) obtain ret stat' strm' where r: "inflate stat (with_room n strm) flush = Some (Inr (ret, stat', strm'))"
     "in_mem strm' = in_mem strm"
     "ret = Z_OK \<and> length (taken strm') = n \<and> length (h @ taken strm') < length H \<and>
        (\<exists>s'. state strm' = Some s' \<and> stuffed stat' T H (h @ taken strm') strm' s') \<or>
      ret = Z_STREAM_END \<and> h @ taken strm' = H"
    by (auto simp: drained_def)
  from r(3) show ?case
  proof (elim disjE conjE exE)
    fix s' assume c: "ret = Z_OK" "length (taken strm') = n" "length (h @ taken strm') < length H" "state strm' = Some s'"
      "stuffed stat' T H (h @ taken strm') strm' s'"
    have m: "0 < m" "m < 2 ^ 32" using Cons.prems(4) by simp_all
    have "drained stat' T H (h @ taken strm') strm' flush m"
      using drain_stuffed [OF c(4,5) _ m size] Cons.prems(2) r(2) by simp
    moreover have "length H - length (h @ taken strm') \<le> m + sum_list ns" using Cons.prems(3) c(2) by simp
    ultimately obtain os where os: "drain stat' strm' flush (m # ns) = Some (Inr os)" "(h @ taken strm') @ concat (map snd os) = H"
        "map fst os = piece_results (length os)"
      using Cons.IH [of stat' "h @ taken strm'" strm' m] Cons.prems(2,4) r(2) by auto
    then have "os \<noteq> []" by (auto simp: piece_results_def)
    then have "piece_results (Suc (length os)) = Z_OK # piece_results (length os)" by (cases os) (simp_all add: piece_results_def)
    then show ?thesis using os r(1) c(1) by (simp add: with_room_def)
  next
    assume "ret = Z_STREAM_END" "h @ taken strm' = H"
    then show ?thesis using r(1) by (auto simp: with_room_def piece_results_def Z_STREAM_END_def Z_OK_def)
  qed
qed

lemma drain_stream:
  assumes init: "inflateInit (Some mem) True (Some rx) = (ret, Some rx')"
    and strm: "strm = rx'\<lparr>in_mem := inp, next_in := i, avail_in := m\<rparr>"
    and input: "mem_read i (unat m) inp = Inr ([0x78, flg] @ body)" and inp: "length inp < 2 ^ 32"
    and blks: "blocks [] True (bytes_bits body) rest H" and rest: "32 \<le> length rest"
    and ns: "ns \<noteq> []" "length H \<le> sum_list ns" "\<forall>n \<in> set ns. 0 < n \<and> n < 2 ^ 32" and size: "length H \<le> Inf_Outbuf_size" and stat: "statics_ok stat"
  shows "\<exists>os. drain stat strm flush ns = Some (Inr os) \<and> concat (map snd os) = H \<and> map fst os = piece_results (length os)"
proof -
  obtain s where s: "rx' = rx\<lparr>msg := None, total_in := 0, total_out := 0, state := Some s\<rparr>" "inf_ready [] [] s" "action s = InfAction_Init"
    using inflateInit_ready(2) [OF init] by auto
  have "4 \<le> length rest div 8" using rest by simp
  then obtain T where T: "length rest div 8 = 4 + T" using le_Suc_ex by blast
  obtain n ns' where n: "ns = n # ns'" using ns(1) by (cases ns) auto
  have st: "state strm = Some s" by (simp add: strm s(1))
  have "4 \<le> length body" using blocks_shrink [OF blks] rest by simp
  then have body: "inf_input s ([0x78, flg] @ body) body" using s(3) by (auto simp: inf_input_def)
  let ?o = "with_room n strm"
  have rd: "mem_read (next_in ?o) (unat (avail_in ?o)) (in_mem ?o) = Inr ([0x78, flg] @ body)" using input by (simp add: with_room_def strm)
  have o: "next_in ?o = i" "in_mem ?o = in_mem strm" by (simp_all add: with_room_def strm)
  have hun: "hungry stat T H (bytes_bits body @ []) [] s" using ready_hungry [OF s(2) stat blks T] by simp
  have act: "action s \<in> {InfAction_Init, InfAction_FillInputBuffer}" using s(3) by simp
  let ?e = "next_in ?o + length ([0x78, flg] @ body)"
  let ?s = "s\<lparr>bitstream := (bitstream s)\<lparr>inputPtr := next_in ?o + header_len s, inputEnd := ?e\<rparr>\<rparr>"
  obtain k V where v: "paused stat T H k V [] ?s" "bs_at (in_mem strm) ?e [] k V (bitstream ?s)"
    using hungry_fed [OF hun rd body refl] unfolding o(2) by auto
  have "drained stat T H [] strm flush n"
    by (rule drain_call [OF st inflate_entry_input [OF act rd body] _ v _ _ _ _ size])
      (use ns(3) n s(3) in \<open>simp_all add: same_buffers_def header_len_def\<close>)
  from drain_more [OF this _ _ _ size, of ns'] show ?thesis using ns n inp by (simp add: strm)
qed

end
