(* ===== verification/Sample_Streams.thy ===== *)
theory Sample_Streams
  imports Inf_Session
begin

text \<open>
  Concrete streams and states: the program at start, a stored block, and a block with codes of its own.
\<close>

section \<open>The program at start\<close>

text \<open>The static variables of the program at start.\<close>

definition statics0 :: inf_statics where
  "statics0 = \<lparr>cachedLiteral = None, cachedDistance = None\<rparr>"

lemma statics0_ok: "statics_ok statics0"
  by (simp add: statics0_def statics_ok_def)

text \<open>A stream object whose members are all zero, as a caller declares it.\<close>

definition blank :: "'s z_stream" where
  "blank = \<lparr>in_mem = [], next_in = 0, avail_in = 0, total_in = 0, out_mem = [], next_out = 0, avail_out = 0,
     total_out = 0, msg = None, state = None, adler = 0\<rparr>"

text \<open>Some content of a block returned by \<^verbatim>\<open>malloc\<close>.\<close>

definition junk :: Inf_State where
  "junk = \<lparr>bitstream = \<lparr>bits = 7, bsize = 3, inputPtr = 0, inputEnd = 0\<rparr>,
     sllist = \<lparr>command = 2, symbol = 1, huffmanLength = 3, repetitions = 4, lengthsBySymbol = (\<lambda>_. None),
        headPtr = (\<lambda>_. None), tailPtr = (\<lambda>_. None), elements = (\<lambda>_. None), elementIndex = 5\<rparr>,
     action = InfAction_Finish, step = InfStep_END, isLastBlock = 1, symcount = 9, lit = 1, sequence_dist = 2, sequence_len = 3,
     frontDecoder = None, literalDecoder = None, distanceDecoder = None, huffmanTableA = (\<lambda>_. None), huffmanTableB = (\<lambda>_. None),
     outputBuf = \<lparr>seqence_buf = None, seqence_ptr = 0, seqence_end = 0\<rparr>\<rparr>"

section \<open>A stored block\<close>

lemma hi_blocks: "blocks [] True (bytes_bits ([0x01, 0x02, 0x00, 0xFD, 0xFF, 0x68, 0x69] @ tail)) (bytes_bits tail) [0x68, 0x69]"
proof -
  have "bytes_bits ([0x01, 0x02, 0x00, 0xFD, 0xFF, 0x68, 0x69] @ tail) =
     [True, False, False] @ [False, False, False, False, False] @ stored_header (length [0x68, 0x69 :: u8]) @ bytes_bits [0x68, 0x69] @ bytes_bits tail"
    by (simp add: bytes_bits_def byte_bits_def stored_header_def bits_of_def upt_rec)
  moreover have "block [] True ([True, False, False] @ [False, False, False, False, False] @ stored_header (length [0x68, 0x69 :: u8]) @
     bytes_bits [0x68, 0x69] @ bytes_bits tail) (bytes_bits tail) ([] @ [0x68, 0x69])"
    by (rule block_stored) simp_all
  ultimately show ?thesis using blocks_final by (metis append_Nil)
qed

section \<open>A dynamic block\<close>

lemma code_pairs_zeros [simp]: "code_pairs (ls @ replicate n 0) = code_pairs ls"
proof (induction n)
  case (Suc n)
  have "ls @ replicate (Suc n) 0 = (ls @ replicate n 0) @ [0]" by (simp add: replicate_append_same)
  then show ?case using Suc by (simp del: append_assoc)
qed simp

definition aa_header :: dyn_header where
  "aa_header = \<lparr>dy_lits = 257, dy_cls = [0, 0, 1, 0, 0, 0, 0, 0, 0, 0, 0, 0, 0, 0, 0, 0, 0, 1],
     dy_cmds = [Zeros 97, Len 1, Zeros 138, Zeros 20, Len 1, Len 1]\<rparr>"

lemma aa_lens: "lit_lens aa_header = ((replicate 97 0 @ [1]) @ replicate 158 0) @ [1]" "dist_lens aa_header = [1]"
proof -
  have "dy_lens aa_header = (((replicate 97 0 @ [1]) @ replicate 158 0) @ [1]) @ [1]"
    using replicate_add [of 138 20 "0 :: nat"] by (simp add: dy_lens_def aa_header_def)
  then show "lit_lens aa_header = ((replicate 97 0 @ [1]) @ replicate 158 0) @ [1]" "dist_lens aa_header = [1]"
    by (simp_all add: lit_lens_def dist_lens_def aa_header_def)
qed

lemma aa_codes:
  "code_of (lit_lens aa_header) = [(97, 1), (256, 1)]" "code_of (dist_lens aa_header) = [(0, 1)]"
  "code_of (front_lens (dy_cls aa_header)) = [(1, 1), (18, 1)]"
proof -
  show "code_of (lit_lens aa_header) = [(97, 1), (256, 1)]"
    unfolding code_of_def aa_lens code_pairs_snoc code_pairs_zeros using code_pairs_zeros [of "[]" 97] by simp
  have "code_pairs [1] = [(0, 1)]" using code_pairs_snoc [of "[]" 1] by simp
  then show "code_of (dist_lens aa_header) = [(0, 1)]" unfolding code_of_def aa_lens by simp
  have "front_lens (dy_cls aa_header) = [0, 1, 0, 0, 0, 0, 0, 0, 0, 0, 0, 0, 0, 0, 0, 0, 0, 0, 1]"
    by (simp add: front_lens_def aa_header_def cl_order_def upt_rec)
  then show "code_of (front_lens (dy_cls aa_header)) = [(1, 1), (18, 1)]" by (simp add: code_of_def code_pairs_def)
qed

lemma aa_header_ok: "dyn_ok aa_header"
proof -
  have c: "code_ok [(97, 1), (256, 1)]" "code_ok [(0, 1)]" "code_ok [(1, 1), (18, 1)]" by (simp_all add: code_ok_def slot_def)
  have f: "front_lens (dy_cls aa_header) = [0, 1, 0, 0, 0, 0, 0, 0, 0, 0, 0, 0, 0, 0, 0, 0, 0, 0, 1]"
    by (simp add: front_lens_def aa_header_def cl_order_def upt_rec)
  have "{1, 18} \<subseteq> symbols_of (front_lens (dy_cls aa_header))" unfolding f by (simp add: symbols_of_def)
  moreover have "256 \<in> symbols_of (lit_lens aa_header)" unfolding aa_lens by (simp add: symbols_of_def nth_append)
  ultimately show ?thesis unfolding dyn_ok_def aa_codes using c aa_lens(2) by (simp add: aa_header_def)
qed

text \<open>A block with codes of its own that stands for the text \<^verbatim>\<open>aa\<close>.\<close>

definition dynamic_aa :: "u8 list" where
  "dynamic_aa = [0x05, 0xC0, 0x81, 0x00, 0x00, 0x00, 0x00, 0x00, 0x90, 0x56, 0xFF, 0x13, 0x10]"

lemma aa_sym_codes:
  "sym_code (lit_lens aa_header) 97 = [False]" "sym_code (lit_lens aa_header) 256 = [True]"
  "sym_code (front_lens (dy_cls aa_header)) 1 = [False]" "sym_code (front_lens (dy_cls aa_header)) 18 = [True]"
  unfolding sym_code_def aa_codes by (simp_all add: sym_index_def codeword_def slot_def msb_bits_def bits_of_def upt_rec)

lemma dynamic_aa_blocks:
  "blocks [] True (bytes_bits (dynamic_aa @ tail)) ([False, False, False] @ bytes_bits tail) [97, 97]"
proof -
  let ?ts = "[Literal 97, Literal 97]" and ?rest = "[False, False, False] @ bytes_bits tail"
  have 1: "unat (97 :: u8) = 97" by simp
  have tok: "concat (map (coded_bits (sym_code (lit_lens aa_header)) (sym_code (dist_lens aa_header))) ?ts) = [False, False]"
    by (simp add: aa_sym_codes)
  have hdr: "dyn_bits aa_header = bits_of 5 0 @ bits_of 5 0 @ bits_of 4 14 @ concat (map (\<lambda>l. bits_of 3 (of_nat l)) (dy_cls aa_header)) @
     [True] @ bits_of 7 86 @ [False] @ [True] @ bits_of 7 127 @ [True] @ bits_of 7 9 @ [False] @ [False]"
    unfolding dyn_bits_def aa_lens(2) by (simp add: aa_header_def aa_sym_codes [unfolded aa_header_def, simplified])
  have "bytes_bits (dynamic_aa @ tail) = [True, False, True] @ dyn_bits aa_header @ [False, False] @ [True] @ ?rest"
    unfolding hdr by (simp add: dynamic_aa_def aa_header_def bytes_bits_def byte_bits_def bits_of_def upt_rec)
  moreover have "block [] True ([True, False, True] @ dyn_bits aa_header @
      concat (map (coded_bits (sym_code (lit_lens aa_header)) (sym_code (dist_lens aa_header))) ?ts) @
      sym_code (lit_lens aa_header) 256 @ ?rest) ?rest (expand [] ?ts)"
    by (rule block_dynamic [OF aa_header_ok]) (simp_all add: symbols_of_def aa_lens nth_append)
  ultimately show ?thesis using blocks_final unfolding tok aa_sym_codes by (metis expand_simps(1,2) expand1.simps(1) append_Nil append_Cons)
qed

end
