(* ===== verification/Inf_Malformed.thy ===== *)
theory Inf_Malformed
  imports Inf_Session
begin

text \<open>
  Streams that break the format: what the loop of \<^verbatim>\<open>inflate\<close> does when a block with a reserved type, a stored block with
  contradictory lengths, or a symbol without meaning follows blocks that are well-formed.
\<close>

section \<open>Malformed blocks\<close>

text \<open>The bits that open a compressed block, and the codes of that block.\<close>

inductive opens :: "bool list \<Rightarrow> codes \<Rightarrow> bool" where
  opens_fixed: "opens [f, True, False] fixed_codes"
| opens_dynamic: "dyn_ok d \<Longrightarrow> opens ([f, False, True] @ dyn_bits d) (dyn_codes d)"

text \<open>
  \<open>bad_block h view m h'\<close>: after the text \<open>h\<close> the bits \<open>view\<close> start a block that is cut short by the error \<open>m\<close>, when \<open>h'\<close> has been
  decoded. The symbols 286 and 287 and the distance symbols 30 and 31 have codewords but no meaning.
\<close>

inductive bad_block :: "u8 list \<Rightarrow> bool list \<Rightarrow> string \<Rightarrow> u8 list \<Rightarrow> bool" where
  bad_type: "bad_block h ([f, True, True] @ rest) ''invalid block type'' h"
| bad_stored: "length pad < 8 \<Longrightarrow> 8 dvd length rest \<Longrightarrow> unat (v AND 0xFFFF) \<noteq> unat (drop_bit 16 (NOT v)) \<Longrightarrow>
     bad_block h ([f, False, False] @ pad @ bits_of 32 v @ rest) ''invalid stored block lengths'' h"
| bad_length: "opens start c \<Longrightarrow> tokens_ok h ts \<Longrightarrow> codes_ok c ts \<Longrightarrow> s \<in> lit_symbols c \<Longrightarrow> 285 < s \<Longrightarrow>
     bad_block h (start @ codes_bits c ts @ lit_code c s @ rest) ''too many length or distance symbols'' (expand h ts)"
| bad_distance: "opens start c \<Longrightarrow> tokens_ok h ts \<Longrightarrow> codes_ok c ts \<Longrightarrow> i < 29 \<Longrightarrow> 257 + i \<in> lit_symbols c \<Longrightarrow>
     x < 2 ^ (len_extra ! i) \<Longrightarrow> s \<in> dist_symbols c \<Longrightarrow> 29 < s \<Longrightarrow>
     bad_block h (start @ codes_bits c ts @ lit_code c (257 + i) @ bits_of (len_extra ! i) (of_nat x) @ dist_code c s @ rest)
       ''too many length or distance symbols'' (expand h ts)"

text \<open>The run ends with the error \<open>m\<close> after the text \<open>h\<close>.\<close>

definition reports :: "inf_call \<Rightarrow> string \<Rightarrow> u8 list \<Rightarrow> inf_run \<Rightarrow> bool" where
  "reports k m h r \<longleftrightarrow> (\<exists>r'. inf_loop (c_mem k) (c_to k) r = Some (Inr r') \<and> res r' = Z_DATA_ERROR \<and> rmsg r' = Some m \<and>
     action (st r') = InfAction_Finish \<and> writePtr r' = c_from k + (length h - c_past k) \<and>
     mem_write (c_from k) (drop (c_past k) h) (c_out k) = Inr (out r'))"

lemma fatal_reports:
  assumes "decoding k view h r" and "inf_switch (c_mem k) (c_to k) r = Inr (inf_fatal (Some m) r1)" and "out r1 = out r" and "writePtr r1 = writePtr r"
  shows "reports k m h r"
proof -
  have "inf_loop (c_mem k) (c_to k) r = inf_loop (c_mem k) (c_to k) (inf_fatal (Some m) r1)" by (rule decoding_step [OF assms(1,2)])
  also have "\<dots> = Some (Inr (inf_fatal (Some m) r1))" by (rule inf_loop_done) (simp add: inf_fatal_def)
  finally show ?thesis using assms(1,3,4) by (auto simp: reports_def inf_fatal_def decoding_def)
qed

lemma reports_loop: "inf_loop (c_mem k) (c_to k) r = inf_loop (c_mem k) (c_to k) r' \<Longrightarrow> reports k m h r' \<Longrightarrow> reports k m h r"
  by (simp add: reports_def)

section \<open>What the loop does\<close>

lemma opens_loop:
  assumes "opens start c" and d: "decoding k (start @ view) h r" and hdr: "at_header r"
  shows "\<exists>r'. inf_loop (c_mem k) (c_to k) r = inf_loop (c_mem k) (c_to k) r' \<and> decoding k view h r' \<and> in_block c r'"
  using assms(1)
proof cases
  case (opens_fixed f)
  obtain r1 where r1: "decoding k view h r1" "inf_switch (c_mem k) (c_to k) r = Inr (inf_goto InfStep_LOAD_FIXED_HUFFMAN_DECODERS r1)"
    using header_step [of k f True False view h r] d hdr opens_fixed by auto
  let ?r1 = "inf_goto InfStep_LOAD_FIXED_HUFFMAN_DECODERS r1"
  obtain r2 where "inf_switch (c_mem k) (c_to k) ?r1 = Inr r2" "decoding k view h r2" "in_block fixed_codes r2"
    using fixed_step [of k view h ?r1] r1(1) by auto
  then show ?thesis using decoding_step [OF d r1(2)] decoding_step [of k view h ?r1 r2] r1(1) opens_fixed by auto
next
  case (opens_dynamic hd f)
  obtain r1 where r1: "decoding k (dyn_bits hd @ view) h r1"
      "inf_switch (c_mem k) (c_to k) r = Inr (inf_goto InfStep_LOAD_DYNAMIC_HUFFMAN_DECODERS r1)"
    using header_step [of k f False True "dyn_bits hd @ view" h r] d hdr opens_dynamic by auto
  let ?r1 = "inf_goto InfStep_LOAD_DYNAMIC_HUFFMAN_DECODERS r1"
  obtain r2 where r2: "inf_switch (c_mem k) (c_to k) ?r1 = step_Read_LiteralOrLength (c_mem k) (c_to k) r2" "decoding k view h r2"
      "in_block (dyn_codes hd) r2"
    using dynamic_step [of k hd view h ?r1] r1(1) opens_dynamic by auto
  have "inf_loop (c_mem k) (c_to k) ?r1 = inf_loop (c_mem k) (c_to k) r2"
    using r1(1) r2(2) unfolding inf_loop.simps [of _ _ ?r1] inf_loop.simps [of _ _ r2] in_block_switch [OF r2(3)] r2(1)
    by (simp add: decoding_def inf_goto_def)
  then show ?thesis using decoding_step [OF d r1(2)] r2(2,3) opens_dynamic by auto
qed

lemma bad_length_reports:
  assumes d: "decoding k (lit_code c s @ rest) h r" and f: "in_block c r" and sym: "s \<in> lit_symbols c" "285 < s"
  shows "reports k ''too many length or distance symbols'' h r"
proof -
  obtain tL where tL: "decoder_table (statics r) (st r) (literalDecoder (st r)) = Inr tL" "table_reads tL (lit_code c) (lit_symbols c)"
    using f by (auto simp: in_block_def)
  obtain b1 where b1: "Inf_BS_ReadEncodedBits (c_mem k) (bitstream (st r)) tL = Inr (Some s, b1)"
    using table_reads_symbol [OF tL(2) _ _ sym(1), of "c_mem k" "c_end k" "bitstream (st r)" rest] d by (auto simp: decoding_def)
  let ?r1 = "inf_goto InfStep_Read_LiteralOrLength2 (r\<lparr>st := (st r)\<lparr>bitstream := b1, lit := s\<rparr>\<rparr>)"
  have "inf_switch (c_mem k) (c_to k) r = Inr (inf_fatal (Some ''too many length or distance symbols'') ?r1)"
    using b1 sym(2) unfolding in_block_switch [OF f] step_Read_LiteralOrLength_def with_symbol_def tL(1)
    by (simp add: step_Read_LiteralOrLength2_def run_simps)
  then show ?thesis by (rule fatal_reports [OF d]) (simp_all add: inf_goto_def)
qed

lemma bad_distance_reports:
  assumes d: "decoding k (lit_code c (257 + i) @ bits_of (len_extra ! i) (of_nat x) @ dist_code c s @ rest) h r" and f: "in_block c r"
    and i: "i < 29" "257 + i \<in> lit_symbols c" "x < 2 ^ (len_extra ! i)" and s: "s \<in> dist_symbols c" "29 < s"
  shows "reports k ''too many length or distance symbols'' h r"
proof -
  obtain tL tD where tab: "decoder_table (statics r) (st r) (literalDecoder (st r)) = Inr tL" "table_reads tL (lit_code c) (lit_symbols c)"
      "decoder_table (statics r) (st r) (distanceDecoder (st r)) = Inr tD" "table_reads tD (dist_code c) (dist_symbols c)"
    using f by (auto simp: in_block_def)
  have dt: "decoder_table (statics r) s (distanceDecoder (st r)) = Inr tD"
    if "huffmanTableA s = huffmanTableA (st r)" "huffmanTableB s = huffmanTableB (st r)" for s
    using tab(3) decoder_table_cong [OF that] by simp
  have x: "len_extra ! i \<le> 5" by (rule extras_le(1) [OF i(1)])
  have small: "x < 32" using i(3) x power_increasing [of "len_extra ! i" 5 "2 :: nat"] by simp
  obtain b1 where b1: "Inf_BS_ReadEncodedBits (c_mem k) (bitstream (st r)) tL = Inr (Some (257 + i), b1)" "bs_ok (c_mem k) (c_end k) b1" "bs_tight b1"
      "bs_bits (c_mem k) b1 = bits_of (len_extra ! i) (of_nat x) @ dist_code c s @ rest"
    using table_reads_symbol [OF tab(2) _ _ i(2), of "c_mem k" "c_end k" "bitstream (st r)"] d by (auto simp: decoding_def)
  obtain b2 where b2: "Inf_BS_ReadBits (c_mem k) b1 (len_extra ! i) = Inr (Some (of_nat x), b2)" "bs_ok (c_mem k) (c_end k) b2" "bs_tight b2"
      "bs_bits (c_mem k) b2 = dist_code c s @ rest"
    using bsr.get_field [OF b1(2,3) _ _ b1(4)] x i(3) by (auto simp: take_bit_of_nat_small)
  obtain b3 where b3: "Inf_BS_ReadEncodedBits (c_mem k) b2 tD = Inr (Some s, b3)"
    using table_reads_symbol [OF tab(4) b2(2,3) s(1) b2(4)] by auto
  have "len_base ! i \<in> set len_base" using i(1) by simp
  then have "len_base ! i \<le> 258" by (auto simp: len_base_def)
  then have "unat (of_nat x :: u32) + len_base ! i < 32 * 1024" using small by (simp add: unat_of_nat take_bit_eq_mod)
  then have "\<exists>r1. inf_switch (c_mem k) (c_to k) r = Inr (inf_fatal (Some ''too many length or distance symbols'') r1) \<and>
      out r1 = out r \<and> writePtr r1 = writePtr r"
    using b1(1) b2(1) b3 i(1) s(2)
    unfolding in_block_switch [OF f] step_Read_LiteralOrLength_def with_symbol_def tab(1)
    by (simp add: step_Read_LiteralOrLength2_def step_Read_LengthBits_def step_Read_Distance_def with_bits_def with_symbol_def dt
        array_get_tables run_simps Let_def)
      (rule exI, rule conjI, rule refl, simp)
  then show ?thesis using fatal_reports [OF d] by blast
qed

lemma bad_stored_reports:
  assumes d: "decoding k (pad @ bits_of 32 v @ rest) h r" and c: "cur r = InfStep_PROCESS_UNCOMPRESSED_BLOCK"
    and al: "length pad < 8" "8 dvd length rest" and bad: "unat (v AND 0xFFFF) \<noteq> unat (drop_bit 16 (NOT v))"
  shows "reports k ''invalid stored block lengths'' h r"
proof -
  have bs: "bs_ok (c_mem k) (c_end k) (bitstream (st r))" "bs_bits (c_mem k) (bitstream (st r)) = pad @ bits_of 32 v @ rest"
    using d by (auto simp: decoding_def)
  obtain q where q: "length rest = 8 * q" using al(2) by (auto simp: dvd_def)
  have p: "length pad = length (bs_bits (c_mem k) (bitstream (st r))) mod 8" using al(1) q bs(2) by simp presburger
  obtain w b1 where b1: "Inf_BS_ReadDWord (c_mem k) (bitstream (st r)) = Inr (Some w, b1)" "bits_of 32 w = bits_of 32 v"
    using ReadDWord_ok [OF bs(1) p] unfolding bs(2) by auto
  have "w = v" using b1(2) bits_of_inject [of 32 w v] by (simp add: take_bit_word_eq_self)
  with b1(1) bad c have "\<exists>r1. inf_switch (c_mem k) (c_to k) r = Inr (inf_fatal (Some ''invalid stored block lengths'') r1) \<and>
      out r1 = out r \<and> writePtr r1 = writePtr r"
    by (simp add: inf_switch_def step_PROCESS_UNCOMPRESSED_BLOCK_def run_simps Let_def) (rule exI, rule conjI, rule refl, simp)
  then show ?thesis using fatal_reports [OF d] by blast
qed

lemma bad_block_reports:
  assumes "bad_block h view m h'" and d: "decoding k view h r" and hdr: "at_header r" and room: "room_for k h'"
  shows "reports k m h' r"
  using assms(1)
proof cases
  case (bad_type f rest)
  then obtain r1 where "decoding k rest h r1" "inf_switch (c_mem k) (c_to k) r = Inr (inf_fatal (Some m) r1)"
    using header_step [of k f True True rest h r] d hdr by auto
  then show ?thesis using fatal_reports [OF d] d bad_type by (auto simp: decoding_def)
next
  case (bad_stored pad rest v f)
  then obtain r1 where r1: "decoding k (pad @ bits_of 32 v @ rest) h r1"
      "inf_switch (c_mem k) (c_to k) r = Inr (inf_goto InfStep_PROCESS_UNCOMPRESSED_BLOCK r1)"
    using header_step [of k f False False "pad @ bits_of 32 v @ rest" h r] d hdr by auto
  have "reports k m h (inf_goto InfStep_PROCESS_UNCOMPRESSED_BLOCK r1)"
    using bad_stored_reports [of k pad v rest h] r1(1) bad_stored by simp
  then show ?thesis using reports_loop [OF decoding_step [OF d r1(2)]] bad_stored by simp
next
  case (bad_length start c ts s rest)
  obtain r1 where r1: "inf_loop (c_mem k) (c_to k) r = inf_loop (c_mem k) (c_to k) r1" "decoding k (codes_bits c ts @ lit_code c s @ rest) h r1" "in_block c r1"
    using opens_loop [OF bad_length(4) d [unfolded bad_length(1)] hdr] by blast
  obtain r2 where r2: "inf_loop (c_mem k) (c_to k) r1 = inf_loop (c_mem k) (c_to k) r2" "decoding k (lit_code c s @ rest) h' r2" "in_block c r2"
    using tokens_loop [OF r1(2,3)] bad_length room by auto
  show ?thesis
    using reports_loop [OF r1(1)] reports_loop [OF r2(1)] bad_length_reports [OF r2(2,3)] bad_length by simp
next
  case (bad_distance start c ts i x s rest)
  let ?v = "lit_code c (257 + i) @ bits_of (len_extra ! i) (of_nat x) @ dist_code c s @ rest"
  obtain r1 where r1: "inf_loop (c_mem k) (c_to k) r = inf_loop (c_mem k) (c_to k) r1" "decoding k (codes_bits c ts @ ?v) h r1" "in_block c r1"
    using opens_loop [OF bad_distance(4) d [unfolded bad_distance(1)] hdr] by blast
  obtain r2 where r2: "inf_loop (c_mem k) (c_to k) r1 = inf_loop (c_mem k) (c_to k) r2" "decoding k ?v h' r2" "in_block c r2"
    using tokens_loop [OF r1(2,3)] bad_distance room by auto
  show ?thesis
    using reports_loop [OF r1(1)] reports_loop [OF r2(1)] bad_distance_reports [OF r2(2,3)] bad_distance by simp
qed

lemma bad_block_grows: "bad_block h view m h' \<Longrightarrow> length h \<le> length h'"
  by (induction rule: bad_block.induct) (auto simp: expand_length_mono)

section \<open>Calls\<close>

lemma inflate_reports:
  assumes st: "state strm = Some s" and rdy: "inf_ready h left s" and stat: "statics_ok stat"
    and input: "mem_read (next_in strm) (unat (avail_in strm)) (in_mem strm) = Inr input" and body: "inf_input s input body"
    and blks: "blocks h False (left @ bytes_bits body) rest h1" and bad: "bad_block h1 rest m h'" and size: "length h' \<le> Inf_Outbuf_size"
    and space: "length h' - length h \<le> unat (avail_out strm)" "0 < avail_out strm"
      "next_out strm + unat (avail_out strm) \<le> length (out_mem strm)"
  shows "\<exists>stat' s' strm'. inflate stat strm flush = Some (Inr (Z_DATA_ERROR, stat', strm')) \<and> msg strm' = Some m \<and>
     mem_write (next_out strm) (drop (length h) h') (out_mem strm) = Inr (out_mem strm') \<and> next_out strm' = next_out strm + (length h' - length h) \<and>
     state strm' = Some s' \<and> action s' = InfAction_Finish"
proof -
  let ?k = "call_of h strm" and ?r = "run_of stat s strm"
  note run = inflate_run [OF st rdy stat input body space(2,3)]
  have room: "room_for ?k h'" using space(1) size by (simp add: room_for_def call_of_def)
  then have "room_for ?k h1" using room_for_mono bad_block_grows [OF bad] by blast
  then obtain r1 where r1: "inf_loop (c_mem ?k) (c_to ?k) ?r = inf_loop (c_mem ?k) (c_to ?k) r1" "decoding ?k rest h1 r1" "at_header r1"
    using blocks_loop [OF blks run(1,2)] by auto
  obtain r2 where "inf_loop (c_mem ?k) (c_to ?k) r1 = Some (Inr r2)" "res r2 = Z_DATA_ERROR" "rmsg r2 = Some m"
     "action (st r2) = InfAction_Finish" "writePtr r2 = next_out strm + (length h' - length h)"
     "mem_write (next_out strm) (drop (length h) h') (out_mem strm) = Inr (out r2)"
    using bad_block_reports [OF bad r1(2,3) room] by (auto simp: reports_def call_of_def)
  then show ?thesis using run(3) r1(1) by (auto simp: call_of_def inflate_epilogue_def Let_def)
qed

end
