(* ===== verification/Inflate_Properties.thy ===== *)
theory Inflate_Properties
  imports Round_Trip Sample_Streams Inf_Malformed
begin

text \<open>
  Properties of the inflater on its own: any stream of stored, fixed and dynamic blocks, the decoders it builds for
  any code, its symbol lists, its window, and the errors it reports.
\<close>

section \<open>Streams\<close>

text \<open>C3: for texts of at most one window (32768 bytes), \<^verbatim>\<open>inflate\<close> decodes every zlib stream made of stored, fixed-Huffman and dynamic-Huffman blocks, whoever
  produced it, not only the output of \<^verbatim>\<open>deflate\<close> (each dynamic block has at least one distance code). A freshly initialised state, given the stream header, the blocks and the
  checksum, returns \<^verbatim>\<open>Z_STREAM_END\<close>, has written exactly the text that the blocks denote, and leaves the bytes
  behind the checksum unread. The output has room for the text.\<close>

theorem inflate_decodes:
  assumes "inflateInit (Some mem) True (Some rx) = (ret, Some rx')"
    and "strm = rx'\<lparr>in_mem := inp, next_in := i, avail_in := n, out_mem := buf, next_out := p, avail_out := m\<rparr>"
    and "mem_read i (unat n) inp = Inr ([0x78, flg] @ body)" and "body \<noteq> []"
    and "blocks [] True (bytes_bits body) rest content" and "32 \<le> length rest"
    and "length content \<le> Inf_Outbuf_size" and "length content \<le> unat m" and "0 < m" and "p + unat m \<le> length buf"
    and "statics_ok stat"
  shows "\<exists>stat' strm'. inflate stat strm flush = Some (Inr (Z_STREAM_END, stat', strm')) \<and>
     mem_write p content buf = Inr (out_mem strm') \<and> next_out strm' = p + length content \<and>
     next_in strm' = i + 2 + (length body - (length rest div 8 - 4))"
proof -
  obtain s where s: "rx' = rx\<lparr>msg := None, total_in := 0, total_out := 0, state := Some s\<rparr>" "inf_ready [] [] s" "action s = InfAction_Init"
    using inflateInit_ready(2) [OF assms(1)] by auto
  have "inf_input s ([0x78, flg] @ body) body" using assms(4) s(3) by (simp add: inf_input_def)
  then obtain stat' strm' where "inflate stat strm flush = Some (Inr (Z_STREAM_END, stat', strm'))"
      "inflated strm strm' 2 (length body - (length rest div 8 - 4)) content"
    using inflate_blocks [of strm s "[]" "[]" stat "[0x78, flg] @ body" body True rest content flush] s assms
    by (auto simp: header_len_def)
  then show ?thesis using assms(2) by (auto simp: inflated_def)
qed

theorem inflate_decodes_witness:
  "\<exists>rx' stat' strm'. inflateInit (Some junk) True (Some blank) = (Z_OK, Some rx') \<and>
     inflate statics0 (rx'\<lparr>in_mem := [0x78, 0x01] @ dynamic_aa @ [1, 2, 3, 4, 0xAA], next_in := 0, avail_in := 20,
        out_mem := [9, 9, 9], next_out := 0, avail_out := 3\<rparr>) Z_FINISH = Some (Inr (Z_STREAM_END, stat', strm')) \<and>
     out_mem strm' = [97, 97, 9] \<and> next_in strm' = 19"
proof -
  obtain rx' where rx': "inflateInit (Some junk) True (Some blank) = (Z_OK, Some rx')"
    using inflateInit_ready [of junk blank] by (cases "inflateInit (Some junk) True (Some blank)") auto
  let ?body = "dynamic_aa @ [1, 2, 3, 4, 0xAA]"
  have "\<exists>stat' strm'. inflate statics0 (rx'\<lparr>in_mem := [0x78, 0x01] @ ?body, next_in := 0, avail_in := 20,
        out_mem := [9, 9, 9], next_out := 0, avail_out := 3\<rparr>) Z_FINISH = Some (Inr (Z_STREAM_END, stat', strm')) \<and>
     mem_write 0 [97, 97] [9, 9, 9] = Inr (out_mem strm') \<and> next_out strm' = 0 + length [97, 97 :: u8] \<and>
     next_in strm' = 0 + 2 + (length ?body - (length ([False, False, False] @ bytes_bits [1, 2, 3, 4, 0xAA]) div 8 - 4))"
    by (rule inflate_decodes [OF rx' refl _ _ dynamic_aa_blocks, where flg = 1])
      (simp_all add: dynamic_aa_def mem_read_def Inf_Outbuf_size_def statics0_ok)
  then show ?thesis using rx' by (fastforce simp: mem_write_def dynamic_aa_def)
qed

section \<open>Errors\<close>

text \<open>C32: malformed streams are reported, once. When any number of well-formed blocks is followed by a block of the reserved type, a stored
  block whose lengths contradict each other, or a compressed block in which, after any number of tokens, a length symbol above 285 or
  a distance symbol above 29 is encoded, \<^verbatim>\<open>inflate\<close> returns \<^verbatim>\<open>Z_DATA_ERROR\<close> with the message for that error, having written
  exactly the text in front of it. Every later call on that stream, however, returns 0, which is \<^verbatim>\<open>Z_OK\<close>, without
  consuming or producing anything, as if all were well. The text in front of the error is at most one window long and fits the output.\<close>

theorem malformed_stream_reported:
  assumes "inflateInit (Some mem) True (Some rx) = (ret, Some rx')"
    and "strm = rx'\<lparr>in_mem := inp, next_in := i, avail_in := n, out_mem := buf, next_out := p, avail_out := m\<rparr>"
    and "mem_read i (unat n) inp = Inr ([0x78, flg] @ body)" and "body \<noteq> []"
    and "blocks [] False (bytes_bits body) rest front" and "bad_block front rest err content"
    and "length content \<le> Inf_Outbuf_size" and "length content \<le> unat m" and "0 < m" and "p + unat m \<le> length buf" and "statics_ok stat"
  shows "\<exists>stat' strm'. inflate stat strm flush = Some (Inr (Z_DATA_ERROR, stat', strm')) \<and>
     msg strm' = Some err \<and> mem_write p content buf = Inr (out_mem strm') \<and> next_out strm' = p + length content \<and>
     (\<forall>stat inp i n buf p m. 0 < n \<longrightarrow>
        inflate stat (strm'\<lparr>in_mem := inp, next_in := i, avail_in := n, out_mem := buf, next_out := p, avail_out := m\<rparr>) flush =
        Some (Inr (Z_OK, stat, strm'\<lparr>in_mem := inp, next_in := i, avail_in := n, out_mem := buf, next_out := p, avail_out := m\<rparr>)))"
proof -
  obtain s where s: "rx' = rx\<lparr>msg := None, total_in := 0, total_out := 0, state := Some s\<rparr>" "inf_ready [] [] s" "action s = InfAction_Init"
    using inflateInit_ready(2) [OF assms(1)] by auto
  have "inf_input s ([0x78, flg] @ body) body" using assms(4) s(3) by (simp add: inf_input_def)
  then obtain stat' s' strm' where r: "inflate stat strm flush = Some (Inr (Z_DATA_ERROR, stat', strm'))"
      "msg strm' = Some err" "mem_write p content buf = Inr (out_mem strm')" "next_out strm' = p + length content"
      "state strm' = Some s'" "action s' = InfAction_Finish"
    using inflate_reports [of strm s "[]" "[]" stat "[0x78, flg] @ body" body rest front err content flush] s assms by auto
  then show ?thesis by (auto simp: inflate_def inflate_entry_def Let_def Z_OK_def)
qed

text \<open>One literal and then the symbol 286.\<close>

lemma bad_symbol_block: "bad_block [] (bytes_bits [0x4B, 0x1C, 0x03]) ''too many length or distance symbols'' [97]"
proof -
  have "bad_block [] ([True, True, False] @ codes_bits fixed_codes [Literal 97] @ lit_code fixed_codes 286 @ [False, False, False, False, False])
      ''too many length or distance symbols'' (expand [] [Literal 97])"
    by (rule bad_length [OF opens_fixed]) (simp_all add: codes_ok_def fixed_codes_def)
  moreover have "[True, True, False] @ codes_bits fixed_codes [Literal 97] @ lit_code fixed_codes 286 @ [False, False, False, False, False] =
      bytes_bits [0x4B, 0x1C, 0x03]"
    by (simp add: codes_bits_def fixed_codes_def fixed_lit_code_def msb_bits_def bits_of_def bytes_bits_def byte_bits_def upt_rec)
  ultimately show ?thesis by simp
qed

theorem malformed_stream_reported_witness:
  "\<exists>rx' stat' strm'. inflateInit (Some junk) True (Some blank) = (Z_OK, Some rx') \<and>
     inflate statics0 (rx'\<lparr>in_mem := [0x78, 0x01, 0x4B, 0x1C, 0x03], next_in := 0, avail_in := 5,
        out_mem := [9, 9], next_out := 0, avail_out := 2\<rparr>) Z_FINISH = Some (Inr (Z_DATA_ERROR, stat', strm')) \<and>
     msg strm' = Some ''too many length or distance symbols'' \<and> out_mem strm' = [97, 9] \<and>
     inflate statics0 (strm'\<lparr>in_mem := [0x78], next_in := 0, avail_in := 1, out_mem := [9], next_out := 0, avail_out := 1\<rparr>) Z_FINISH =
       Some (Inr (Z_OK, statics0, strm'\<lparr>in_mem := [0x78], next_in := 0, avail_in := 1, out_mem := [9], next_out := 0, avail_out := 1\<rparr>))"
proof -
  obtain rx' where rx': "inflateInit (Some junk) True (Some blank) = (Z_OK, Some rx')"
    using inflateInit_ready [of junk blank] by (cases "inflateInit (Some junk) True (Some blank)") auto
  have "mem_read 0 (unat (5 :: u32)) [0x78, 0x01, 0x4B, 0x1C, 0x03] = Inr ([0x78, 0x01] @ [0x4B, 0x1C, 0x03])" by (simp add: mem_read_def)
  moreover have "mem_write 0 [97] [9, 9] = Inr [97, 9 :: u8]" by (simp add: mem_write_def)
  ultimately show ?thesis
    using malformed_stream_reported [OF rx' refl _ _ blocks_none bad_symbol_block, of 0 5 "[0x78, 0x01, 0x4B, 0x1C, 0x03]" 1 2 0 "[9, 9]" statics0 Z_FINISH] rx'
    by (fastforce simp: statics0_ok Inf_Outbuf_size_def)
qed

section \<open>Decoders\<close>

text \<open>C10: Huffman decoders. For every canonical code (at most 291 symbols, lengths 1 to 15, not oversubscribed) the
  construction of the two-level table succeeds, whatever the memory held before, and reading with that table is
  decoding: when the next bits are a codeword, exactly these bits are consumed and its symbol is returned; when
  the input ends inside a codeword, the reader asks for more input and has lost no bit.\<close>

theorem decoder_reads_codewords:
  assumes "code_ok xs" and "i < length xs" and "bs_inv mem bs"
  shows "\<exists>table. Inf_Huff_MakeDecoder t xs = Inr table \<and>
     (\<forall>rest. bs_bits mem bs = codeword xs i @ rest \<longrightarrow>
        (\<exists>bs'. Inf_BS_ReadEncodedBits mem bs table = Inr (Some (fst (xs ! i)), bs') \<and> bs_bits mem bs' = rest)) \<and>
     (strict_prefix (bs_bits mem bs) (codeword xs i) \<longrightarrow>
        (\<exists>bs'. Inf_BS_ReadEncodedBits mem bs table = Inr (None, bs') \<and> bs_bits mem bs' = bs_bits mem bs))"
proof -
  obtain table where t: "Inf_Huff_MakeDecoder t xs = Inr table" "table_for table xs" using MakeDecoder_ok [OF assms(1)] by blast
  have read: "symbol_read mem bs (codeword xs i) (fst (xs ! i)) (Inf_BS_ReadEncodedBits mem bs table)"
    if "facing (codeword xs i) (bs_bits mem bs)"
    by (rule ReadEncodedBits_ok [OF assms(1,2) _ t(2) assms(3) that, of _ "snd (xs ! i)"]) simp
  have "\<exists>bs'. Inf_BS_ReadEncodedBits mem bs table = Inr (Some (fst (xs ! i)), bs') \<and> bs_bits mem bs' = rest"
    if "bs_bits mem bs = codeword xs i @ rest" for rest
    using read that by (auto simp: facing_def symbol_read_def)
  moreover have "\<exists>bs'. Inf_BS_ReadEncodedBits mem bs table = Inr (None, bs') \<and> bs_bits mem bs' = bs_bits mem bs"
    if "strict_prefix (bs_bits mem bs) (codeword xs i)"
  proof -
    have "\<not> prefix (codeword xs i) (bs_bits mem bs)" using that by (auto simp: strict_prefix_def prefix_order.antisym)
    then show ?thesis using read that by (auto simp: facing_def symbol_read_def)
  qed
  ultimately show ?thesis using t(1) by blast
qed

theorem decoder_reads_codewords_witness:
  "\<exists>table bs'. Inf_Huff_MakeDecoder (\<lambda>_. None) [(5, 1), (7, 2), (9, 2)] = Inr table \<and>
     Inf_BS_ReadEncodedBits [0x01] \<lparr>bits = 0, bsize = 0, inputPtr = 0, inputEnd = 1\<rparr> table = Inr (Some 7, bs')"
proof -
  let ?xs = "[(5, 1), (7, 2), (9, 2)] :: (nat \<times> nat) list"
  let ?bs = "\<lparr>bits = 0, bsize = 0, inputPtr = 0, inputEnd = 1\<rparr> :: Inf_BS"
  have "code_ok ?xs" by (simp add: code_ok_def slot_def)
  moreover have "bs_inv [0x01] ?bs" by (simp add: bs_inv_def)
  moreover have "bs_bits [0x01] ?bs = codeword ?xs 1 @ replicate 6 False"
  proof -
    have "codeword ?xs 1 = [True, False]" by (simp add: codeword_def slot_def msb_bits_def bits_of_def upt_rec)
    moreover have "replicate 6 False = [False, False, False, False, False, False]" by (simp add: eval_nat_numeral)
    ultimately show ?thesis by (simp add: bs_bits_def bytes_bits_def byte_bits_def upt_rec)
  qed
  ultimately obtain table where "Inf_Huff_MakeDecoder (\<lambda>_. None) ?xs = Inr table"
     "\<exists>bs'. Inf_BS_ReadEncodedBits [0x01] ?bs table = Inr (Some (fst (?xs ! 1)), bs')"
    using decoder_reads_codewords [of ?xs 1 "[0x01]" ?bs "\<lambda>_. None"] by auto
  then show ?thesis by auto
qed

section \<open>Symbol lists\<close>

text \<open>The calls of \<^verbatim>\<open>Inf_SLList_AddSymlen\<close> for a sequence of symbols and lengths.\<close>

fun sl_add_all :: "Inf_SLList \<Rightarrow> (nat \<times> nat) list \<Rightarrow> Inf_SLList res" where
  "sl_add_all list [] = Inr list"
| "sl_add_all list ((s, l) # ps) = bindR (Inf_SLList_AddSymlen list s l) (\<lambda>list. sl_add_all list ps)"

lemma sl_add_all_rep:
  "sl_rep list adds \<Longrightarrow> \<forall>(s, l) \<in> set ps. s \<le> Inf_LastValidSymbol \<and> l < Inf_LastValidLength \<Longrightarrow>
     length adds + length ps \<le> Inf_LastValidSymbol + 1 \<Longrightarrow>
     \<exists>list'. sl_add_all list ps = Inr list' \<and> sl_rep list' (adds @ filter (\<lambda>p. snd p \<noteq> 0) ps)"
proof (induction ps arbitrary: list adds)
  case (Cons p ps)
  obtain s l where p: "p = (s, l)" by fastforce
  show ?case
  proof (cases "l = 0")
    case True
    have "\<exists>list'. sl_add_all list ps = Inr list' \<and> sl_rep list' (adds @ filter (\<lambda>p. snd p \<noteq> 0) ps)"
      by (rule Cons.IH [OF Cons.prems(1)]) (use Cons.prems(2,3) in auto)
    moreover have "Inf_SLList_AddSymlen list s 0 = Inr list" by (rule AddSymlen_zero) (use Cons.prems(2) p in auto)
    ultimately show ?thesis using p True by auto
  next
    case False
    have "s \<le> Inf_LastValidSymbol" "1 \<le> l" "l \<le> Inf_LastValidLength" "length adds \<le> Inf_LastValidSymbol"
      using Cons.prems(2,3) p False by auto
    from AddSymlen_ok [OF Cons.prems(1) this] obtain list1 where
      1: "Inf_SLList_AddSymlen list s l = Inr list1" "sl_rep list1 (adds @ [(s, l)])" by blast
    have "\<exists>list'. sl_add_all list1 ps = Inr list' \<and> sl_rep list' ((adds @ [(s, l)]) @ filter (\<lambda>p. snd p \<noteq> 0) ps)"
      by (rule Cons.IH [OF 1(2)]) (use Cons.prems(2,3) in auto)
    then show ?thesis using p False 1(1) by auto
  qed
qed simp

text \<open>C19: the linked lists sort. Adding symbols with their code lengths to an empty list and collecting them
  with \<^verbatim>\<open>Inf_SLList_GetSorted\<close> yields the symbols of nonzero length, stably sorted by length, in a list of
  linked elements that lies within the array; afterwards the object is empty again.\<close>

theorem symbol_list_sorts:
  assumes "sl_rep list []" and "\<forall>(s, l) \<in> set ps. s \<le> Inf_LastValidSymbol \<and> l < Inf_LastValidLength"
    and "length ps \<le> Inf_LastValidSymbol + 1" and "\<exists>p \<in> set ps. snd p \<noteq> 0"
  shows "\<exists>list1 p list2. sl_add_all list ps = Inr list1 \<and> Inf_SLList_GetSorted list1 reset = Inr (p, list2) \<and>
     symlens (Inf_LastValidSymbol + 1) (elements list2) p = Inr (sort_key snd (filter (\<lambda>p. snd p \<noteq> 0) ps)) \<and>
     sl_rep list2 []"
proof -
  let ?adds = "filter (\<lambda>p. snd p \<noteq> 0) ps"
  obtain list1 where 1: "sl_add_all list ps = Inr list1" "sl_rep list1 ?adds"
    using sl_add_all_rep [OF assms(1,2)] assms(3) by auto
  have ne: "?adds \<noteq> []" using assms(4) by (auto simp: filter_empty_conv)
  have "\<forall>(s, l) \<in> set ?adds. l < Inf_LastValidLength" using assms(2) by auto
  from GetSorted_ok [OF 1(2) ne this, of reset] obtain p list2 where
    2: "Inf_SLList_GetSorted list1 reset = Inr (p, list2)" "sl_rep list2 []"
      "symlens (Inf_LastValidSymbol + 1) (elements list2) p = Inr (by_length ?adds)" by blast
  have "by_length ?adds = sort_key snd ?adds" by (rule by_length_sort) (use assms(2) in fastforce)
  then show ?thesis using 1(1) 2 by auto
qed

theorem symbol_list_sorts_witness:
  "\<exists>list1 p list2. sl_add_all (sllist junk\<lparr>elementIndex := 0\<rparr>) [(0, 3), (1, 0), (2, 1), (3, 3)] = Inr list1 \<and>
     Inf_SLList_GetSorted list1 True = Inr (p, list2) \<and> symlens (Inf_LastValidSymbol + 1) (elements list2) p = Inr [(2, 1), (0, 3), (3, 3)]"
proof -
  have "sl_rep (sllist junk\<lparr>elementIndex := 0\<rparr>) []" by (rule sl_rep_empty) (simp_all add: junk_def)
  from symbol_list_sorts [OF this, of "[(0, 3), (1, 0), (2, 1), (3, 3)]" True] show ?thesis
    by (auto simp: sl_consts)
qed

section \<open>The window\<close>

text \<open>C20: the window is the recent history. When the source of a back reference does not run over the end of the ring buffer and, in case it lies
  behind the write position, is not overwritten by the copy either, \<^verbatim>\<open>Inf_Outbuf_read\<close> copies what the reference means, byte by byte with
  repetitions, to the output and into the window. For other references this can fail.\<close>

theorem window_copy:
  assumes "win_rep ob h" and "1 \<le> d" and "d \<le> length h" and "d \<le> Inf_Outbuf_size" and "dest + n \<le> length buf"
    and "if d \<le> seqence_ptr ob then seqence_ptr ob - d + n \<le> Inf_Outbuf_size
         else n \<le> d - seqence_ptr ob \<and> n \<le> Inf_Outbuf_size - d"
  shows "\<exists>ob' buf'. Inf_Outbuf_read ob buf dest d n = Inr (True, ob', buf') \<and> win_rep ob' (lz_copy h d n) \<and>
     mem_write dest (drop (length h) (lz_copy h d n)) buf = Inr buf'"
  using read_direct [OF assms(1-3)] read_wrapped [OF assms(1-4)] assms(5,6) by (cases "d \<le> seqence_ptr ob") auto

text \<open>A window after three bytes.\<close>

definition abc_window :: Inf_Outbuf where
  "abc_window = \<lparr>seqence_buf = Some (\<lambda>i. if i = 0 then Some 97 else if i = 1 then Some 98 else if i = 2 then Some 99 else None),
     seqence_ptr = 3, seqence_end = Inf_Outbuf_size\<rparr>"

lemma abc_window: "win_rep abc_window [97, 98, 99]"
  by (auto simp: win_rep_def abc_window_def Inf_Outbuf_size_def less_Suc_eq)

theorem window_copy_witness:
  "\<exists>ob' buf'. Inf_Outbuf_read abc_window [0, 0, 0, 0, 0] 0 2 5 = Inr (True, ob', buf') \<and> buf' = [98, 99, 98, 99, 98]"
proof -
  have "\<exists>ob' buf'. Inf_Outbuf_read abc_window [0, 0, 0, 0, 0] 0 2 5 = Inr (True, ob', buf') \<and> win_rep ob' (lz_copy [97, 98, 99] 2 5) \<and>
     mem_write 0 (drop (length [97, 98, 99 :: u8]) (lz_copy [97, 98, 99] 2 5)) [0, 0, 0, 0, 0] = Inr buf'"
    by (rule window_copy [OF abc_window]) (simp_all add: Inf_Outbuf_size_def abc_window_def)
  then show ?thesis by (auto simp: mem_write_def numeral_eq_Suc)
qed

text \<open>A full window: 32768 bytes of zeros, the write position at \<open>q\<close>.\<close>

definition full_window :: "nat \<Rightarrow> Inf_Outbuf" where
  "full_window q = \<lparr>seqence_buf = Some (\<lambda>i. Some 0), seqence_ptr = q, seqence_end = Inf_Outbuf_size\<rparr>"

lemma full_window: "q \<le> Inf_Outbuf_size \<Longrightarrow> win_rep (full_window q) (replicate (Inf_Outbuf_size + q) 0)"
  by (auto simp: win_rep_def full_window_def)



text \<open>A legal reference is refused. When a back reference starts near the end of the ring buffer, wraps, and
  then repeats itself, \<^verbatim>\<open>Inf_Outbuf_read\<close> reports failure, although the window holds all the bytes it needs.\<close>

theorem window_copy_rejects:
  assumes "win_rep ob h" and "d \<le> length h" and "seqence_ptr ob < d" and "2 * d < n + seqence_ptr ob"
    and "2 * d \<le> Inf_Outbuf_size + seqence_ptr ob" and "d \<le> Inf_Outbuf_size" and "dest + n \<le> length buf"
  shows "\<exists>ob' buf'. Inf_Outbuf_read ob buf dest d n = Inr (False, ob', buf')"
  using assms by (rule read_rejects)

theorem window_copy_rejects_witness:
  "\<exists>ob' buf'. Inf_Outbuf_read (full_window 1) (replicate 10 7) 0 2 4 = Inr (False, ob', buf')"
  by (rule window_copy_rejects [OF full_window]) (simp_all add: full_window_def Inf_Outbuf_size_def)

section \<open>The bit reader\<close>

text \<open>C21: reading bits. For any state of the reader and any width up to 24, \<^verbatim>\<open>Inf_BS_ReadBits\<close> either takes exactly
  that many bits off the input, least significant first, or, when the input ends before, returns failure with every
  bit still there; it never reads outside the input and the bit buffer never holds stray bits.\<close>

theorem ReadBits_exact:
  assumes "bs_inv mem bs" and "n \<le> 24"
  shows "\<exists>r bs'. Inf_BS_ReadBits mem bs n = Inr (r, bs') \<and> bs_inv mem bs' \<and> inputEnd bs' = inputEnd bs \<and>
     bs_bits mem bs = (case r of None \<Rightarrow> [] | Some v \<Rightarrow> bits_of n v) @ bs_bits mem bs' \<and>
     (r = None \<longleftrightarrow> length (bs_bits mem bs) < n)"
proof -
  obtain r bs' where r: "Inf_BS_ReadBits mem bs n = Inr (r, bs')" "bs_inv mem bs'" "inputEnd bs' = inputEnd bs"
     "if n \<le> length (bs_bits mem bs)
      then (\<exists>v. r = Some v \<and> take_bit n v = v \<and> bits_of n v = take n (bs_bits mem bs)) \<and> bs_bits mem bs' = drop n (bs_bits mem bs)
      else r = None \<and> bs_bits mem bs' = bs_bits mem bs"
    using read_bits [OF assms] by (auto split: if_splits)
  then show ?thesis by (cases "n \<le> length (bs_bits mem bs)") auto
qed

theorem ReadBits_exact_witness:
  "\<exists>bs'. Inf_BS_ReadBits [0xA5, 0x01] \<lparr>bits = 0, bsize = 0, inputPtr = 0, inputEnd = 2\<rparr> 20 = Inr (None, bs') \<and>
     bs_bits [0xA5, 0x01] bs' = bytes_bits [0xA5, 0x01]"
proof -
  let ?bs = "\<lparr>bits = 0, bsize = 0, inputPtr = 0, inputEnd = 2\<rparr> :: Inf_BS"
  have "bs_inv [0xA5, 0x01] ?bs" by (simp add: bs_inv_def)
  moreover have "bs_bits [0xA5, 0x01] ?bs = bytes_bits [0xA5, 0x01]" by (simp add: bs_bits_def)
  ultimately show ?thesis using ReadBits_exact [of "[0xA5, 0x01]" ?bs 20] by (auto simp: bytes_bits_def)
qed

end
