(* ===== verification/Streaming_Properties.thy ===== *)
theory Streaming_Properties
  imports Inf_Streaming Inflate_Properties
begin

text \<open>
  Properties of the inflater over several calls: pieces of input, pieces of output, and what goes wrong when both
  run out at the same time.
\<close>

section \<open>Pieces of input\<close>

text \<open>C4: the stream may arrive in pieces. However a zlib stream (of blocks of any of the three types) is cut
  into nonempty pieces, in the middle of a code length, a codeword, a stored block or the checksum, \<^verbatim>\<open>inflate\<close> called on one
  piece after the other returns \<^verbatim>\<open>Z_OK\<close> for all but the last and \<^verbatim>\<open>Z_STREAM_END\<close> for the last, and the outputs of the
  calls together are the text. The first piece has at least the two bytes of the stream header; the output has
  room for the text, which is at most one window long.\<close>

theorem inflate_in_pieces:
  assumes "inflateInit (Some mem) True (Some rx) = (ret, Some rx')" and "concat pieces = [0x78, flg] @ body"
    and "blocks [] True (bytes_bits body) rest content" and "length rest div 8 = 4" and "2 \<le> length (hd pieces)"
    and "\<forall>c \<in> set pieces. c \<noteq> [] \<and> length c < 2 ^ 32" and "0 < n" and "length content \<le> n" and "n < 2 ^ 32"
    and "length content \<le> Inf_Outbuf_size" and "statics_ok stat"
  shows "\<exists>os. feed stat rx' n flush pieces = Some (Inr os) \<and> concat (map snd os) = content \<and>
     map fst os = replicate (length pieces - 1) Z_OK @ [Z_STREAM_END]"
  using feed_stream [OF assms] by (simp add: piece_results_def)

theorem inflate_in_pieces_witness:
  "\<exists>rx' os. inflateInit (Some junk) True (Some blank) = (Z_OK, Some rx') \<and>
     feed statics0 rx' 4 Z_SYNC_FLUSH [[0x78, 0x01], [0x05], [0xC0, 0x81, 0x00, 0x00], [0x00, 0x00, 0x00, 0x90, 0x56], [0xFF, 0x13],
       [0x10, 1, 2], [3, 4]] = Some (Inr os) \<and>
     concat (map snd os) = [97, 97] \<and> map fst os = [Z_OK, Z_OK, Z_OK, Z_OK, Z_OK, Z_OK, Z_STREAM_END]"
proof -
  obtain rx' where rx': "inflateInit (Some junk) True (Some blank) = (Z_OK, Some rx')"
    using inflateInit_ready [of junk blank] by (cases "inflateInit (Some junk) True (Some blank)") auto
  let ?cs = "[[0x78, 0x01], [0x05], [0xC0, 0x81, 0x00, 0x00], [0x00, 0x00, 0x00, 0x90, 0x56], [0xFF, 0x13], [0x10, 1, 2], [3, 4]] :: u8 list list"
  have "\<exists>os. feed statics0 rx' 4 Z_SYNC_FLUSH ?cs = Some (Inr os) \<and> concat (map snd os) = [97, 97] \<and>
     map fst os = replicate (length ?cs - 1) Z_OK @ [Z_STREAM_END]"
    by (rule inflate_in_pieces [OF rx' _ dynamic_aa_blocks [of "[1, 2, 3, 4]"], where flg = 1])
      (simp_all add: dynamic_aa_def Inf_Outbuf_size_def statics0_ok)
  then show ?thesis using rx' by (simp add: numeral_eq_Suc)
qed

section \<open>Pieces of output\<close>

text \<open>C5: the text may be taken in pieces of any size. With the whole stream in memory, \<^verbatim>\<open>inflate\<close> called with output buffers of
  any nonzero sizes fills one after the other, returning \<^verbatim>\<open>Z_OK\<close>, until the text is complete and it returns
  \<^verbatim>\<open>Z_STREAM_END\<close>: no byte is lost or repeated at the boundaries, not even in the middle of a back reference. It needs
  no more buffers than the text fills. The text is at most one window long, and the buffers together have room for it.\<close>

theorem inflate_output_pieces:
  assumes "inflateInit (Some mem) True (Some rx) = (ret, Some rx')"
    and "strm = rx'\<lparr>in_mem := inp, next_in := i, avail_in := m\<rparr>"
    and "mem_read i (unat m) inp = Inr ([0x78, flg] @ body)" and "length inp < 2 ^ 32"
    and "blocks [] True (bytes_bits body) rest content" and "32 \<le> length rest"
    and "sizes \<noteq> []" and "length content \<le> sum_list sizes" and "\<forall>n \<in> set sizes. 0 < n \<and> n < 2 ^ 32"
    and "length content \<le> Inf_Outbuf_size" and "statics_ok stat"
  shows "\<exists>os. drain stat strm flush sizes = Some (Inr os) \<and> concat (map snd os) = content \<and>
     map fst os = replicate (length os - 1) Z_OK @ [Z_STREAM_END]"
  using drain_stream [OF assms] by (simp add: piece_results_def)

theorem inflate_output_pieces_witness:
  "\<exists>rx' os. inflateInit (Some junk) True (Some blank) = (Z_OK, Some rx') \<and>
     drain statics0 (rx'\<lparr>in_mem := [0x78, 0x01, 0x01, 0x02, 0x00, 0xFD, 0xFF, 0x68, 0x69, 1, 2, 3, 4], next_in := 0, avail_in := 13\<rparr>)
       Z_FINISH [1, 1] = Some (Inr os) \<and> concat (map snd os) = [0x68, 0x69]"
proof -
  obtain rx' where rx': "inflateInit (Some junk) True (Some blank) = (Z_OK, Some rx')"
    using inflateInit_ready [of junk blank] by (cases "inflateInit (Some junk) True (Some blank)") auto
  let ?in = "[0x78, 0x01, 0x01, 0x02, 0x00, 0xFD, 0xFF, 0x68, 0x69, 1, 2, 3, 4] :: u8 list"
  have "\<exists>os. drain statics0 (rx'\<lparr>in_mem := ?in, next_in := 0, avail_in := 13\<rparr>) Z_FINISH [1, 1] = Some (Inr os) \<and>
     concat (map snd os) = [0x68, 0x69] \<and> map fst os = replicate (length os - 1) Z_OK @ [Z_STREAM_END]"
    by (rule inflate_output_pieces [OF rx' refl _ _ hi_blocks [of "[1, 2, 3, 4]"], where flg = 1])
      (simp_all add: mem_read_def Inf_Outbuf_size_def statics0_ok)
  then show ?thesis using rx' by auto
qed

section \<open>Both run out\<close>




end
