(* ===== verification/Inf_Typed.thy ===== *)
theory Inf_Typed
  imports Inflater Inf_Wait
begin

text \<open>
  The parts of the inflater on arbitrary input: nothing is assumed about the bits that are read. Tables keep their shape, readers never go
  back, and the window and the output are changed only where they may be.
\<close>

section \<open>Tables\<close>

text \<open>
  A valid entry has a positive length; a reference stands in the main table only and refers to a place behind it. This holds of every
  table that \<^verbatim>\<open>Inf_Huff_MakeDecoder\<close> makes, from any list of lengths whatsoever, out of a table for which it holds.
\<close>

definition entry_typed :: "nat \<Rightarrow> Inf_Huff \<Rightarrow> bool" where
  "entry_typed i d \<longleftrightarrow> (if h_isvalid d then 0 < h_length d else i < Inf_MainTableSize \<and> Inf_MainTableSize \<le> h_code d)"

definition table_typed :: "huff_table \<Rightarrow> bool" where
  "table_typed t \<longleftrightarrow> (\<forall>i d. t i = Some d \<longrightarrow> entry_typed i d)"

text \<open>No symbol that the table yields is free: reading it takes at least one bit.\<close>

definition table_moves :: "huff_table \<Rightarrow> bool" where
  "table_moves t \<longleftrightarrow> (\<forall>w d. Inf_Huff_Decode t w = Inr d \<longrightarrow> 0 < h_length d)"

lemma table_get_typed: "table_get t i = Inr d \<Longrightarrow> table_typed t \<Longrightarrow> entry_typed i d"
  by (auto simp: table_get_def table_typed_def split: if_splits option.splits)

lemma typed_moves:
  assumes "table_typed t"
  shows "table_moves t"
  unfolding table_moves_def
proof (intro allI impI)
  fix w d
  assume "Inf_Huff_Decode t w = Inr d"
  then obtain e where e: "table_get t (unat (w AND 0xFF)) = Inr e"
      "(if h_isvalid e then Inr e else table_get t (h_code e + unat (drop_bit 8 w AND of_nat (h_length e)))) = Inr d"
    by (auto simp: Inf_Huff_Decode_def bindR_eq_Inr)
  show "0 < h_length d"
  proof (cases "h_isvalid e")
    case True
    with e table_get_typed [OF e(1) assms] show ?thesis by (simp add: entry_typed_def)
  next
    case False
    with e(2) table_get_typed [OF _ assms, of _ d] table_get_typed [OF e(1) assms] show ?thesis
      by (force simp: entry_typed_def split: if_splits)
  qed
qed

lemma table_set_typed: "table_set t i d = Inr t' \<Longrightarrow> table_typed t \<Longrightarrow> entry_typed i d \<Longrightarrow> table_typed t'"
  by (auto simp: table_set_def table_typed_def split: if_splits)

lemma huff_fill_typed:
  "huff_fill t base sz n known d u = Inr t' \<Longrightarrow> table_typed t \<Longrightarrow> h_isvalid d \<Longrightarrow> 0 < h_length d \<Longrightarrow> table_typed t'"
proof (induction t base sz n known d u rule: huff_fill.induct)
  case (1 t base sz n known d u)
  show ?case
  proof (cases "u < sz")
    case True
    with "1.prems"(1) obtain t1 where t1: "table_set t (base + (u OR known)) d = Inr t1"
        "huff_fill t1 base sz n known d (u + 2 ^ n) = Inr t'"
      by (subst (asm) huff_fill.simps) (auto simp: bindR_eq_Inr)
    then show ?thesis using "1.IH" [OF True t1] "1.prems" table_set_typed [OF t1(1)] by (simp add: entry_typed_def)
  qed (use "1.prems" in \<open>subst (asm) huff_fill.simps, simp\<close>)
qed

lemma FillTable_typed:
  "Inf_Huff_FillTable t base sz h l s k = Inr t' \<Longrightarrow> table_typed t \<Longrightarrow> table_typed t'"
  by (auto simp: Inf_Huff_FillTable_def Let_def assertR_eq_Inr Inf_Huff_SetValue_def intro: huff_fill_typed split: if_splits)

lemma huff_short_typed:
  "huff_short t h l xs = Inr (t', h', l', ys) \<Longrightarrow> table_typed t \<Longrightarrow> table_typed t'"
  by (induction xs arbitrary: t h l) (auto simp: bindR_eq_Inr dest: FillTable_typed split: if_splits)

lemma huff_sub_typed:
  "huff_sub t base sz h l xs stop = Inr (t', h', l') \<Longrightarrow> table_typed t \<Longrightarrow> table_typed t'"
  by (induction xs arbitrary: t h l) (auto simp: bindR_eq_Inr dest: FillTable_typed split: if_splits)

lemma huff_long_typed:
  "huff_long t idx h l xs = Inr t' \<Longrightarrow> table_typed t \<Longrightarrow> Inf_MainTableSize \<le> idx \<Longrightarrow> table_typed t'"
proof (induction t idx h l xs rule: huff_long.induct)
  case (1 t idx h l xs)
  show ?case
  proof (cases "xs = []")
    case False
    let ?ix = "drop_bit (l - 8) h"
    obtain last ys t1 t2 h2 l2 where *: "huff_group ?ix h l xs = Inr (last, ys)"
        "idx + 2 ^ (last - 8) \<le> Inf_HuffTableSize" "?ix < 256"
        "table_set t (unat (Inf_Reverse ! ?ix)) (Inf_Huff_SetTableRef idx (2 ^ (last - 8) - 1)) = Inr t1"
        "huff_sub t1 idx (2 ^ (last - 8)) h l xs (length ys) = Inr (t2, h2, l2)"
        "huff_long t2 (idx + 2 ^ (last - 8)) h2 l2 ys = Inr t'"
      using "1.prems"(1) False
      by (subst (asm) huff_long.simps) (auto simp: bindR_eq_Inr assertR_eq_Inr Let_def split: if_splits)
    have "unat (Inf_Reverse ! ?ix) < 256" using unsigned_less [of "Inf_Reverse ! ?ix"] by simp
    moreover have "idx mod 2 ^ 15 = idx" using *(2) by (simp add: Inf_HuffTableSize_def)
    ultimately have "table_typed t1"
      using table_set_typed [OF *(4) "1.prems"(2)] "1.prems"(3) by (simp add: entry_typed_def Inf_Huff_SetTableRef_def Inf_MainTableSize_def)
    then have "table_typed t2" using huff_sub_typed [OF *(5)] by simp
    then show ?thesis using "1.IH" [OF False refl *(1)] * "1.prems"(3) by (auto simp: assertR_eq_Inr)
  qed (use "1.prems" in \<open>subst (asm) huff_long.simps, simp\<close>)
qed

lemma MakeDecoder_typed:
  assumes "Inf_Huff_MakeDecoder t xs = Inr t'" and "table_typed t"
  shows "table_typed t'"
proof -
  let ?t = "\<lambda>i. if i < Inf_MainTableSize then Some (Inf_HuffConst 0 Inf_InvalidLength) else t i"
  have "entry_typed i (Inf_HuffConst 0 Inf_InvalidLength)" for i by (simp add: entry_typed_def Inf_HuffConst_def Inf_InvalidLength_def)
  then have "table_typed ?t" using assms(2) by (simp add: table_typed_def)
  then show ?thesis
    using assms(1) by (auto simp: Inf_Huff_MakeDecoder_def assertR_eq_Inr bindR_eq_Inr Let_def intro: huff_long_typed dest: huff_short_typed)
qed

text \<open>The fixed tables lie in static memory, which is zero where it has not been written; they are complete, so no such entry is ever read.\<close>

lemma complete_moves:
  assumes "code_ok xs" and "table_for t xs" and "kraft xs = 2 ^ 16"
  shows "table_moves t"
  unfolding table_moves_def
proof (intro allI impI)
  fix w d
  assume d: "Inf_Huff_Decode t w = Inr d"
  have "revn 16 (unat w) < kraft xs" using revn_less [of 16] assms(3) by simp
  then obtain x where "code_lookup 0 xs (revn 16 (unat w)) = Some x" "x \<in> set xs"
    using code_lookup_total [of 0 "revn 16 (unat w)" xs] by auto
  then have "Inf_Huff_Decode t w = Inr (Inf_Huff_SetValue (snd x) (fst x))" "1 \<le> snd x" "snd x \<le> 15"
    using assms(1,2) by (cases x; force simp: table_for_def code_ok_def)+
  with d show "0 < h_length d" by (auto simp: Inf_Huff_SetValue_def)
qed

lemma fixed_tables_move: "table_moves fixed_lit_table" "table_moves fixed_dist_table"
proof -
  have "kraft fixed_lit_pairs = 2 ^ 16" "kraft fixed_dist_pairs = 2 ^ 16"
    by (simp_all add: fixed_lit_pairs_def fixed_dist_pairs_def kraft_run slots)
  then show "table_moves fixed_lit_table" "table_moves fixed_dist_table"
    using complete_moves fixed_pairs_ok fixed_tables by blast+
qed

section \<open>Readers\<close>

text \<open>The bits that a reader can still deliver, and readers that go forward and take at least \<open>n\<close> bits.\<close>

definition bits_left :: "Inf_BS \<Rightarrow> nat" where
  "bits_left bs = bsize bs + 8 * (inputEnd bs - inputPtr bs)"

definition reads :: "Inf_BS \<Rightarrow> Inf_BS \<Rightarrow> nat \<Rightarrow> bool" where
  "reads bs bs' n \<longleftrightarrow> inputEnd bs' = inputEnd bs \<and> inputPtr bs \<le> inputPtr bs' \<and>
     (inputPtr bs \<le> inputEnd bs \<longrightarrow> inputPtr bs' \<le> inputEnd bs \<and> bits_left bs' + n \<le> bits_left bs)"

lemma reads_refl [simp]: "reads bs bs 0"
  by (simp add: reads_def)

lemma reads_trans: "reads bs bs1 n \<Longrightarrow> reads bs1 bs2 m \<Longrightarrow> k \<le> n + m \<Longrightarrow> reads bs bs2 k"
  by (auto simp: reads_def)

lemma reads_less: "reads bs bs' n \<Longrightarrow> m \<le> n \<Longrightarrow> reads bs bs' m"
  by (auto simp: reads_def)

lemma LoadNextByte_reads: "Inf_BS_LoadNextByte mem bs = Inr (got, bs') \<Longrightarrow> reads bs bs' 0"
  by (auto simp: Inf_BS_LoadNextByte_def reads_def bits_left_def split: if_splits)

lemma LoadBits_reads: "Inf_BS_LoadBits mem bs n = Inr (enough, bs') \<Longrightarrow> reads bs bs' 0 \<and> (enough \<longrightarrow> n \<le> bsize bs')"
proof (induction mem bs n rule: Inf_BS_LoadBits.induct)
  case (1 mem bs n)
  show ?case
  proof (cases "bsize bs < n")
    case True
    with "1.prems" obtain got b1 where b1: "Inf_BS_LoadNextByte mem bs = Inr (got, b1)"
        "(if got then Inf_BS_LoadBits mem b1 n else Inr (False, b1)) = Inr (enough, bs')"
      by (subst (asm) Inf_BS_LoadBits.simps) (auto simp: bindR_eq_Inr)
    note LoadNextByte_reads [OF b1(1)]
    then show ?thesis using b1 "1.IH" [OF True b1(1) refl] reads_trans [of bs b1 0 bs' 0] by (auto split: if_splits)
  qed (use "1.prems" in \<open>subst (asm) Inf_BS_LoadBits.simps, simp\<close>)
qed

lemma ReadBits_reads:
  assumes "Inf_BS_ReadBits mem bs n = Inr (v, bs')"
  shows "reads bs bs' (if v = None then 0 else n)"
proof -
  obtain enough b1 where b1: "Inf_BS_LoadBits mem bs n = Inr (enough, b1)"
      "v = None \<and> bs' = b1 \<or> enough \<and> v \<noteq> None \<and> bs' = b1\<lparr>bits := drop_bit n (bits b1), bsize := bsize b1 - n\<rparr>"
    using assms by (auto simp: Inf_BS_ReadBits_def bindR_eq_Inr split: if_splits)
  with LoadBits_reads [OF b1(1)] show ?thesis by (auto simp: reads_def bits_left_def)
qed

lemma ReadDWord_reads:
  assumes "Inf_BS_ReadDWord mem bs = Inr (v, bs')"
  shows "reads bs bs' (if v = None then 0 else 32)"
proof -
  let ?b = "bs\<lparr>bits := drop_bit (bsize bs mod 8) (bits bs), bsize := bsize bs - bsize bs mod 8\<rparr>"
  obtain enough b1 where b1: "Inf_BS_LoadBits mem ?b 32 = Inr (enough, b1)"
      "v = None \<and> bs' = b1 \<or> v \<noteq> None \<and> bsize b1 = 32 \<and> bs' = b1\<lparr>bits := 0, bsize := 0\<rparr>"
    using assms by (auto simp: Inf_BS_ReadDWord_def bindR_eq_Inr assertR_eq_Inr Let_def split: if_splits)
  with LoadBits_reads [OF b1(1)] show ?thesis by (auto simp: reads_def bits_left_def)
qed

lemma ReadBytes_reads:
  "Inf_BS_ReadBytes mem bs n = Inr (bytes, all, bs') \<Longrightarrow> reads bs bs' 0 \<and> length bytes \<le> n"
  by (auto simp: Inf_BS_ReadBytes_def assertR_eq_Inr bindR_eq_Inr Let_def reads_def bits_left_def mem_read_def split: if_splits)

lemma EncodedLoop_reads:
  "Inf_BS_EncodedLoop mem t bs d = Inr (v, bs') \<Longrightarrow> table_moves t \<Longrightarrow> 0 < h_length d \<Longrightarrow> reads bs bs' (if v = None then 0 else 1)"
proof (induction mem t bs d rule: Inf_BS_EncodedLoop.induct)
  case (1 mem t bs d)
  show ?case
  proof (cases "bsize bs < h_length d")
    case True
    with "1.prems"(1) obtain got b1 where b1: "Inf_BS_LoadNextByte mem bs = Inr (got, b1)"
        "(if got then bindR (Inf_Huff_Decode t (bits b1)) (\<lambda>d. Inf_BS_EncodedLoop mem t b1 d) else Inr (None, b1)) = Inr (v, bs')"
      by (subst (asm) Inf_BS_EncodedLoop.simps) (auto simp: bindR_eq_Inr)
    note step = LoadNextByte_reads [OF b1(1)]
    show ?thesis
    proof (cases got)
      case got: True
      with b1(2) obtain e where e: "Inf_Huff_Decode t (bits b1) = Inr e" "Inf_BS_EncodedLoop mem t b1 e = Inr (v, bs')"
        by (auto simp: bindR_eq_Inr)
      then have "0 < h_length e" using "1.prems"(2) by (simp add: table_moves_def)
      from "1.IH" [OF True b1(1) refl got e(1,2) "1.prems"(2) this] show ?thesis using reads_trans [OF step] by simp
    qed (use b1(2) step in auto)
  next
    case False
    with "1.prems" show ?thesis
      by (subst (asm) Inf_BS_EncodedLoop.simps) (auto simp: reads_def bits_left_def split: if_splits)
  qed
qed

lemma ReadEncodedBits_reads:
  assumes "Inf_BS_ReadEncodedBits mem bs t = Inr (v, bs')" and "table_moves t"
  shows "reads bs bs' (if v = None then 0 else 1)"
proof -
  obtain got b1 where b1: "(if bsize bs = 0 then Inf_BS_LoadNextByte mem bs else Inr (True, bs)) = Inr (got, b1)"
      "(if got then bindR (Inf_Huff_Decode t (bits b1)) (\<lambda>d. Inf_BS_EncodedLoop mem t b1 d) else Inr (None, b1)) = Inr (v, bs')"
    using assms(1) by (auto simp: Inf_BS_ReadEncodedBits_def bindR_eq_Inr)
  have step: "reads bs b1 0" using b1(1) LoadNextByte_reads by (auto split: if_splits)
  show ?thesis
  proof (cases got)
    case True
    with b1(2) obtain e where e: "Inf_Huff_Decode t (bits b1) = Inr e" "Inf_BS_EncodedLoop mem t b1 e = Inr (v, bs')"
      by (auto simp: bindR_eq_Inr)
    then have "0 < h_length e" using assms(2) by (simp add: table_moves_def)
    from EncodedLoop_reads [OF e(2) assms(2) this] show ?thesis using reads_trans [OF step] by simp
  qed (use b1(2) step in auto)
qed

lemma sl_read3_reads: "sl_read3 mem list bs stop = Inr (complete, list', bs') \<Longrightarrow> reads bs bs' 0"
proof (induction mem list bs stop rule: sl_read3.induct)
  case (1 mem list bs stop)
  show ?case
  proof (cases "symbol list < stop")
    case True
    with "1.prems" obtain v b1 where b1: "Inf_BS_ReadBits mem bs 3 = Inr (v, b1)"
        "(case v of None \<Rightarrow> Inr (False, list, b1)
          | Some v \<Rightarrow> if Inf_SymlenSequenceSize \<le> symbol list then Inl OutOfBounds
              else sl_read3 mem (list\<lparr>lengthsBySymbol := (lengthsBySymbol list)(symbolOrder ! symbol list := Some (unat v mod 256)),
                  symbol := symbol list + 1\<rparr>) b1 stop) = Inr (complete, list', bs')"
      by (subst (asm) sl_read3.simps) (auto simp: bindR_eq_Inr)
    note step = reads_less [OF ReadBits_reads [OF b1(1)], of 0]
    then show ?thesis using b1(2) "1.IH" [OF True b1(1) refl] reads_trans [OF step] by (auto split: option.splits if_splits)
  qed (use "1.prems" in \<open>subst (asm) sl_read3.simps, simp\<close>)
qed

lemma sl_command_reads: "sl_command mem list bs = Inr (complete, list', bs') \<Longrightarrow> reads bs bs' 0"
  by (auto simp: sl_command_def Let_def bindR_eq_Inr split: if_splits option.splits dest!: ReadBits_reads intro: reads_less)

lemma sl_next_command_reads:
  "sl_next_command mem list bs t = Inr (complete, list', bs') \<Longrightarrow> table_moves t \<Longrightarrow> reads bs bs' 0"
  by (auto simp: sl_next_command_def bindR_eq_Inr split: if_splits option.splits
      dest!: ReadEncodedBits_reads sl_command_reads intro: reads_trans reads_less)

lemma AddEncodedSymlens_reads:
  "Inf_SLList_AddEncodedSymlens mem list bs n t = Inr (complete, list', bs') \<Longrightarrow> table_moves t \<Longrightarrow> reads bs bs' 0"
proof (induction mem list bs n t rule: Inf_SLList_AddEncodedSymlens.induct)
  case (1 mem list bs n t)
  show ?case
  proof (cases "bs' = bs")
    case False
    with "1.prems"(1) obtain l1 c l2 b2 where *: "0 < n" "symbol list < n" "sl_repeat list n = Inr l1" "symbol l1 < n" "repetitions l1 = 0"
        "sl_next_command mem l1 bs t = Inr (c, l2, b2)"
        "(if c then Inf_SLList_AddEncodedSymlens mem l2 b2 n t else Inr (False, l2, b2)) = Inr (complete, list', bs')"
      by (subst (asm) Inf_SLList_AddEncodedSymlens.simps) (auto simp: bindR_eq_Inr assertR_eq_Inr split: if_splits)
    note step = sl_next_command_reads [OF *(6) "1.prems"(2)]
    from *(7) show ?thesis using "1.IH" [OF *(1-6) refl refl] "1.prems"(2) step reads_trans [OF step] by (auto split: if_splits)
  qed simp
qed

section \<open>Output\<close>

text \<open>Two regions that differ only between the positions \<open>a\<close> and \<open>b\<close>.\<close>

definition confined :: "nat \<Rightarrow> nat \<Rightarrow> u8 list \<Rightarrow> u8 list \<Rightarrow> bool" where
  "confined a b xs ys \<longleftrightarrow> length ys = length xs \<and> take a ys = take a xs \<and> drop b ys = drop b xs"

lemma confined_refl [simp]: "confined a b xs xs"
  by (simp add: confined_def)

lemma confined_wider:
  assumes "confined a b xs ys" and "a' \<le> a" and "b \<le> b'"
  shows "confined a' b' xs ys"
proof -
  have "take a' (take a ys) = take a' (take a xs)" using assms(1) by (simp add: confined_def)
  then have "take a' ys = take a' xs" using assms(2) by (simp only: take_take min_absorb1)
  moreover have "drop (b' - b) (drop b ys) = drop (b' - b) (drop b xs)" using assms(1) by (simp add: confined_def)
  then have "drop b' ys = drop b' xs" using assms(3) by (simp only: drop_drop le_add_diff_inverse2)
  ultimately show ?thesis using assms(1) by (simp add: confined_def)
qed

lemma confined_trans: "confined a b xs ys \<Longrightarrow> confined a b ys zs \<Longrightarrow> confined a b xs zs"
  by (simp add: confined_def)

lemma mem_write_confined: "mem_write p bs xs = Inr ys \<Longrightarrow> confined p (p + length bs) xs ys"
  by (auto simp: mem_write_def confined_def split: if_splits)

text \<open>A window that is allocated and whose pointer is inside it.\<close>

definition win_typed :: "Inf_Outbuf \<Rightarrow> bool" where
  "win_typed ob \<longleftrightarrow> seqence_buf ob \<noteq> None \<and> seqence_end ob = Inf_Outbuf_size \<and> seqence_ptr ob \<le> Inf_Outbuf_size"

lemma win_stores_typed: "win_stores ob p bs = Inr ob' \<Longrightarrow> win_typed ob \<Longrightarrow> win_typed ob' \<and> seqence_ptr ob' = seqence_ptr ob"
  by (induction bs arbitrary: ob p) (auto simp: win_typed_def split: option.splits if_splits)

lemma win_loads_length: "win_loads ob p n = Inr bs \<Longrightarrow> length bs = n"
  by (induction n arbitrary: p bs) (auto simp: bindR_eq_Inr)

lemma win_memcpy_typed: "win_memcpy ob src n = Inr ob' \<Longrightarrow> win_typed ob \<Longrightarrow> win_typed ob' \<and> seqence_ptr ob' = seqence_ptr ob"
  by (cases src) (auto simp: bindR_eq_Inr dest: win_stores_typed split: if_splits)

lemma putc_typed: "Inf_Outbuf_putc ob c = Inr ob' \<Longrightarrow> win_typed ob \<Longrightarrow> win_typed ob'"
  by (auto simp: Inf_Outbuf_putc_def assertR_eq_Inr Let_def win_typed_def Suc_le_eq split: if_splits)

lemma write_loop_typed:
  "outbuf_write_loop ob src len rest = Inr ob' \<Longrightarrow> win_typed ob \<Longrightarrow> seqence_ptr ob + rest = Inf_Outbuf_size \<Longrightarrow> win_typed ob'"
proof (induction ob src len rest rule: outbuf_write_loop.induct)
  case (1 ob src len rest)
  show ?case
  proof (cases "rest < len")
    case True
    with "1.prems"(1) obtain o1 where o1: "win_memcpy ob src rest = Inr o1"
        "outbuf_write_loop (o1\<lparr>seqence_ptr := 0\<rparr>) (src_advance src rest) (len - rest) Inf_Outbuf_size = Inr ob'"
      by (subst (asm) outbuf_write_loop.simps) (auto simp: bindR_eq_Inr)
    have "win_typed (o1\<lparr>seqence_ptr := 0\<rparr>)" using win_memcpy_typed [OF o1(1) "1.prems"(2)] by (simp add: win_typed_def)
    then show ?thesis using "1.IH" [OF True o1] by simp
  next
    case False
    with "1.prems"(1) obtain o1 where o1: "win_memcpy ob src len = Inr o1" "ob' = o1\<lparr>seqence_ptr := seqence_ptr o1 + len\<rparr>"
      by (subst (asm) outbuf_write_loop.simps) (auto simp: bindR_eq_Inr)
    then show ?thesis using win_memcpy_typed [OF o1(1) "1.prems"(2)] "1.prems"(3) False by (simp add: win_typed_def)
  qed
qed

lemma Outbuf_write_typed: "Inf_Outbuf_write ob src len = Inr ob' \<Longrightarrow> win_typed ob \<Longrightarrow> win_typed ob'"
  unfolding Inf_Outbuf_write_def by (rule write_loop_typed) (auto simp: win_typed_def)

lemma outbuf_copy_confined:
  "outbuf_copy ob xs p q n = Inr (ob', ys) \<Longrightarrow> win_typed ob \<Longrightarrow> win_typed ob' \<and> confined p (p + n) xs ys"
proof (induction n arbitrary: ob xs p q)
  case (Suc n)
  then obtain c c' o1 x1 where *: "Inf_Outbuf_putc ob c = Inr o1" "mem_write p [c'] xs = Inr x1"
      "outbuf_copy o1 x1 (p + 1) (q + 1) n = Inr (ob', ys)"
    by (auto simp: bindR_eq_Inr)
  have "confined p (p + Suc n) xs x1" using confined_wider [OF mem_write_confined [OF *(2)]] by simp
  moreover have "win_typed ob' \<and> confined (p + 1) (p + 1 + n) x1 ys" by (rule Suc.IH [OF *(3) putc_typed [OF *(1) Suc.prems(2)]])
  ultimately show ?case using confined_wider [of "p + 1" "p + 1 + n" x1 ys p "p + Suc n"] confined_trans by auto
qed simp

lemma Outbuf_read_confined:
  assumes "Inf_Outbuf_read ob xs p d n = Inr (ok, ob', ys)" and "win_typed ob"
  shows "win_typed ob' \<and> confined p (p + n) xs ys"
proof (cases "seqence_ptr ob < d")
  case False
  then show ?thesis using assms outbuf_copy_confined by (auto simp: Inf_Outbuf_read_def bindR_eq_Inr)
next
  case True
  define q where "q = seqence_ptr ob + Inf_Outbuf_size - d"
  define rest where "rest = seqence_end ob - q"
  obtain bs x1 o1 where *: "win_loads ob q (min n rest) = Inr bs" "mem_write p bs xs = Inr x1" "Inf_Outbuf_write ob (Inside q) (min n rest) = Inr o1"
      "ob' = o1 \<and> ys = x1 \<or> rest < n \<and> outbuf_copy o1 x1 (p + rest) 0 (n - rest) = Inr (ob', ys)"
    using assms(1) True unfolding Inf_Outbuf_read_def
    by (auto simp: bindR_eq_Inr Let_def min_def q_def [symmetric] rest_def [symmetric] split: if_splits)
  have "win_typed o1" by (rule Outbuf_write_typed [OF *(3) assms(2)])
  moreover have "confined p (p + n) xs x1"
    using confined_wider [OF mem_write_confined [OF *(2)]] win_loads_length [OF *(1)] by simp
  ultimately show ?thesis
    using *(4) outbuf_copy_confined [of o1 x1 "p + rest" 0 "n - rest" ob' ys] confined_wider [of "p + rest" "p + n" x1 ys p "p + n"] confined_trans
    by auto
qed

end
