(* ===== verification/Inf_Any_Input.thy ===== *)
theory Inf_Any_Input
  imports Inf_Typed Inf_Session
begin

text \<open>
  \<^verbatim>\<open>inflate\<close> on arbitrary input. A type of states is established by \<^verbatim>\<open>inflateInit\<close> and preserved by every step. Each step that lets the
  loop go on takes a bit of the input or leads to a step of smaller rank, so the loop ends.
\<close>

section \<open>Runs\<close>

text \<open>The steps in which the symbol list is in use. Nothing is said about it after a fatal error.\<close>

fun loading :: "InfStep \<Rightarrow> bool" where
  "loading InfStep_LOAD_DYNAMIC_HUFFMAN_DECODERS = True"
| "loading InfStep_LOAD_FRONT_DECODER = True"
| "loading InfStep_LOAD_LITERAL_DECODER = True"
| "loading InfStep_LOAD_DISTANCE_DECODER = True"
| "loading InfStep_FATAL_ERROR = True"
| "loading _ = False"

text \<open>Steps that take no bits lead to steps of smaller rank.\<close>

fun step_rank :: "InfStep \<Rightarrow> nat" where
  "step_rank InfStep_END = 0"
| "step_rank InfStep_ADLER32_CHECKSUM = 1"
| "step_rank InfStep_PROCESS_NEXT_BLOCK = 2"
| "step_rank InfStep_READ_BLOCK_HEADER = 2"
| "step_rank InfStep_PROCESS_COMPRESSED_BLOCK = 2"
| "step_rank InfStep_Read_LiteralOrLength = 2"
| "step_rank _ = 3"

text \<open>The well-formed runs.\<close>

definition run_core :: "inf_run \<Rightarrow> bool" where
  "run_core r \<longleftrightarrow> statics_ok (statics r) \<and> table_typed (huffmanTableA (st r)) \<and> table_typed (huffmanTableB (st r)) \<and>
     win_typed (outputBuf (st r)) \<and> inputPtr (bitstream (st r)) \<le> inputEnd (bitstream (st r)) \<and>
     res r \<in> {Z_OK, Z_STREAM_END, Z_DATA_ERROR}"

definition run_typed :: "inf_run \<Rightarrow> bool" where
  "run_typed r \<longleftrightarrow> run_core r \<and> (loading (cur r) \<or> sl_idle (sllist (st r))) \<and> (cur r = InfStep_FATAL_ERROR \<longrightarrow> action (st r) = InfAction_Finish)"

text \<open>A run \<open>r\<close> later than \<open>r0\<close>: it has written between the two write pointers only.\<close>

definition run_past :: "nat \<Rightarrow> inf_run \<Rightarrow> inf_run \<Rightarrow> bool" where
  "run_past we r0 r \<longleftrightarrow> writePtr r0 \<le> writePtr r \<and> writePtr r \<le> we \<and> confined (writePtr r0) (writePtr r) (out r0) (out r) \<and>
     inputEnd (bitstream (st r)) = inputEnd (bitstream (st r0)) \<and> inputPtr (bitstream (st r0)) \<le> inputPtr (bitstream (st r))"

text \<open>The work that is left is bounded by the bits that are left.\<close>

definition run_work :: "inf_run \<Rightarrow> nat" where
  "run_work r = 4 * bits_left (bitstream (st r)) + step_rank (cur r)"

text \<open>\<open>run_fine\<close>: a result is well-formed and, if the loop goes on, has less work left than \<open>b\<close>.\<close>

definition run_ok :: "nat \<Rightarrow> inf_run \<Rightarrow> nat \<Rightarrow> inf_run \<Rightarrow> bool" where
  "run_ok we r0 n r \<longleftrightarrow> run_core r \<and> run_past we r0 r \<and> bits_left (bitstream (st r)) \<le> n"

definition run_fine :: "nat \<Rightarrow> inf_run \<Rightarrow> nat \<Rightarrow> inf_run res \<Rightarrow> bool" where
  "run_fine we r0 b x \<longleftrightarrow> (\<forall>r. x = Inr r \<longrightarrow> run_typed r \<and> run_past we r0 r \<and> (action (st r) = InfAction_ProcessNextChunk \<longrightarrow> run_work r < b))"

lemmas run_defs = run_ok_def run_core_def run_past_def

lemma fine_Inl [simp]: "run_fine we r0 b (Inl e)"
  by (simp add: run_fine_def)

lemma fine_bindR: "(\<And>x. m = Inr x \<Longrightarrow> run_fine we r0 b (f x)) \<Longrightarrow> run_fine we r0 b (bindR m f)"
  by (cases m) simp_all

lemma fine_assertR: "(P \<Longrightarrow> run_fine we r0 b x) \<Longrightarrow> run_fine we r0 b (assertR P x)"
  by (cases P) simp_all

lemma ok_fields [simp]:
  "run_ok we r0 n (r\<lparr>st := (st r)\<lparr>lit := a\<rparr>\<rparr>) = run_ok we r0 n r"
  "run_ok we r0 n (r\<lparr>st := (st r)\<lparr>sequence_dist := a\<rparr>\<rparr>) = run_ok we r0 n r"
  "run_ok we r0 n (r\<lparr>st := (st r)\<lparr>sequence_len := a\<rparr>\<rparr>) = run_ok we r0 n r"
  "run_ok we r0 n (r\<lparr>st := (st r)\<lparr>isLastBlock := a\<rparr>\<rparr>) = run_ok we r0 n r"
  "run_ok we r0 n (r\<lparr>st := (st r)\<lparr>symcount := v\<rparr>\<rparr>) = run_ok we r0 n r"
  "run_ok we r0 n (inf_goto c r) = run_ok we r0 n r"
  by (simp_all add: run_defs inf_goto_def)

lemma st_goto [simp]: "st (inf_goto c r) = st r"
  by (simp add: inf_goto_def)

lemma ok_reads:
  assumes "run_ok we r0 n r" and "reads (bitstream (st r)) bs k"
  shows "run_ok we r0 (n - k) (set_bs bs r)" and "k \<le> n"
  using assms by (auto simp: run_defs reads_def set_bs_def)

lemma fine_fill:
  assumes "run_ok we r0 n r" and "loading (cur r) \<or> sl_idle (sllist (st r))" and "cur r \<noteq> InfStep_FATAL_ERROR"
  shows "run_fine we r0 b (Inr (inf_FILL_INPUT_BUFFER r))"
  using assms by (auto simp: run_fine_def run_typed_def run_defs inf_FILL_INPUT_BUFFER_def)

lemma fine_full:
  assumes "run_ok we r0 n r" and "sl_idle (sllist (st r))" and "cur r \<noteq> InfStep_FATAL_ERROR"
  shows "run_fine we r0 b (Inr (inf_USE_OUTPUT_BUFFER_CONTENT r))"
  using assms by (auto simp: run_fine_def run_typed_def run_defs inf_USE_OUTPUT_BUFFER_CONTENT_def)

lemma fine_fatal: "run_ok we r0 n r \<Longrightarrow> run_fine we r0 b (Inr (inf_fatal m r))"
  by (auto simp: run_fine_def run_typed_def run_defs inf_fatal_def)

lemma fine_goto:
  assumes "run_ok we r0 n r" and "loading c \<or> sl_idle (sllist (st r))" and "c \<noteq> InfStep_FATAL_ERROR" and "4 * n + step_rank c < b"
  shows "run_fine we r0 b (Inr (inf_goto c r))"
  using assms by (auto simp: run_fine_def run_typed_def run_defs inf_goto_def run_work_def)

lemma with_bits_fine:
  assumes "run_ok we r0 n r" and "loading (cur r) \<or> sl_idle (sllist (st r))" and "cur r \<noteq> InfStep_FATAL_ERROR"
    and "\<And>r1 v. run_ok we r0 (n - k) r1 \<Longrightarrow> k \<le> n \<Longrightarrow> sllist (st r1) = sllist (st r) \<Longrightarrow> cur r1 = cur r \<Longrightarrow> run_fine we r0 b (f r1 v)"
  shows "run_fine we r0 b (with_bits mem r k f)"
  unfolding with_bits_def
proof (rule fine_bindR)
  fix x
  assume x: "Inf_BS_ReadBits mem (bitstream (st r)) k = Inr x"
  obtain v bs where [simp]: "x = (v, bs)" by fastforce
  note rd = ReadBits_reads [OF x [simplified]]
  show "run_fine we r0 b (case x of (v, bs) \<Rightarrow> case v of None \<Rightarrow> Inr (inf_FILL_INPUT_BUFFER (set_bs bs r)) | Some temp \<Rightarrow> f (set_bs bs r) temp)"
  proof (cases v)
    case None
    with ok_reads [OF assms(1) rd] assms(2,3) show ?thesis by (auto intro!: fine_fill simp: set_bs_def)
  next
    case (Some u)
    with ok_reads [OF assms(1) rd] assms(4) [of "set_bs bs r"] show ?thesis by (simp add: set_bs_def)
  qed
qed

lemma decoder_moves:
  assumes "run_core r" and "decoder_table (statics r) (st r) d = Inr t"
  shows "table_moves t"
  using assms typed_moves fixed_tables_move
  by (auto simp: run_core_def decoder_table_def statics_ok_def split: option.splits decoder.splits)

lemma with_symbol_fine:
  assumes "run_ok we r0 n r" and "sl_idle (sllist (st r))" and "cur r \<noteq> InfStep_FATAL_ERROR"
    and "\<And>r1 v. run_ok we r0 (n - 1) r1 \<Longrightarrow> 1 \<le> n \<Longrightarrow> sllist (st r1) = sllist (st r) \<Longrightarrow> cur r1 = cur r \<Longrightarrow> run_fine we r0 b (f r1 v)"
  shows "run_fine we r0 b (with_symbol mem r d f)"
  unfolding with_symbol_def
proof (intro fine_bindR)
  fix t x
  assume t: "decoder_table (statics r) (st r) d = Inr t" and x: "Inf_BS_ReadEncodedBits mem (bitstream (st r)) t = Inr x"
  obtain v bs where [simp]: "x = (v, bs)" by fastforce
  have "table_moves t" using decoder_moves [OF _ t] assms(1) by (simp add: run_ok_def)
  note rd = ReadEncodedBits_reads [OF x [simplified] this]
  show "run_fine we r0 b (case x of (v, bs) \<Rightarrow> case v of None \<Rightarrow> Inr (inf_FILL_INPUT_BUFFER (set_bs bs r)) | Some s \<Rightarrow> f (set_bs bs r) s)"
  proof (cases v)
    case None
    with ok_reads [OF assms(1) rd] assms(2,3) show ?thesis by (auto intro!: fine_fill simp: set_bs_def)
  next
    case (Some u)
    with ok_reads [OF assms(1) rd] assms(4) [of "set_bs bs r"] show ?thesis by (simp add: set_bs_def)
  qed
qed

section \<open>Steps\<close>

lemma ok_output:
  assumes "run_ok we r0 n r" and "confined (writePtr r) q (out r) ys" and "writePtr r \<le> p" and "p \<le> we" and "q \<le> p" and "win_typed ob"
  shows "run_ok we r0 n (r\<lparr>st := (st r)\<lparr>outputBuf := ob\<rparr>, out := ys, writePtr := p\<rparr>)"
proof -
  have "confined (writePtr r0) p (out r0) (out r)" "confined (writePtr r0) p (out r) ys"
    using confined_wider [of "writePtr r0" "writePtr r" "out r0" "out r" "writePtr r0" p] confined_wider [OF assms(2), of "writePtr r0" p] assms(1,3,5)
    by (simp_all add: run_defs)
  from confined_trans [OF this] show ?thesis using assms(1,3,4,6) by (auto simp: run_defs)
qed

lemma OUTPUT_SEQUENCE_fine:
  assumes "run_ok we r0 n r" and "sl_idle (sllist (st r))" and "cur r = InfStep_OUTPUT_SEQUENCE" and "4 * n + 2 < b"
  shows "run_fine we r0 b (step_OUTPUT_SEQUENCE we r)"
proof -
  have le: "writePtr r \<le> we" and win: "win_typed (outputBuf (st r))" using assms(1) by (auto simp: run_defs)
  have out: "run_ok we r0 n (r\<lparr>st := (st r)\<lparr>outputBuf := ob, sequence_len := k\<rparr>, out := ys, writePtr := p\<rparr>)"
    if "Inf_Outbuf_read (outputBuf (st r)) (out r) (writePtr r) d len = Inr (s, ob, ys)" "writePtr r + len = p" "p \<le> we" for d len s ob ys p k
    using ok_output [OF assms(1) _ _ that(3), of p ys ob] Outbuf_read_confined [OF that(1) win] that(2,3) by (simp add: run_defs)
  show ?thesis
  proof (cases "sequence_len (st r) \<le> we - writePtr r")
    case True
    then have p: "writePtr r + sequence_len (st r) \<le> we" using le by simp
    from True show ?thesis
      unfolding step_OUTPUT_SEQUENCE_def Let_def
      using assms(2-4) out [OF _ refl p, THEN fine_fatal] out [OF _ refl p, THEN fine_goto] by (auto intro!: fine_bindR)
  next
    case False
    have p: "writePtr r + (we - writePtr r) = we" using le by simp
    from False show ?thesis
      unfolding step_OUTPUT_SEQUENCE_def Let_def
      using assms(2-4) out [OF _ p order_refl, THEN fine_fatal] out [OF _ p order_refl, THEN fine_full] by (auto intro!: fine_bindR)
  qed
qed

lemma Read_DistanceBits_fine:
  assumes "run_ok we r0 n r" and "sl_idle (sllist (st r))" and "cur r = InfStep_Read_DistanceBits" and "4 * n + 2 < b"
  shows "run_fine we r0 b (step_Read_DistanceBits mem we r)"
  unfolding step_Read_DistanceBits_def Let_def
proof (intro fine_bindR with_bits_fine [OF assms(1)] fine_assertR)
  fix k r1 v start
  assume "run_ok we r0 (n - k) r1" "sllist (st r1) = sllist (st r)"
  then show "run_fine we r0 b (step_OUTPUT_SEQUENCE we (inf_goto InfStep_OUTPUT_SEQUENCE (r1\<lparr>st := (st r1)\<lparr>sequence_dist := unat v + start\<rparr>\<rparr>)))"
    using assms(2,4) by (intro OUTPUT_SEQUENCE_fine [where n = "n - k"]) simp_all
qed (use assms in simp_all)

lemma Read_Distance_fine:
  assumes "run_ok we r0 n r" and "sl_idle (sllist (st r))" and "cur r = InfStep_Read_Distance" and "4 * n \<le> b + 1"
  shows "run_fine we r0 b (step_Read_Distance mem we r)"
  unfolding step_Read_Distance_def Let_def
proof (rule with_symbol_fine [OF assms(1,2)])
  fix r1 v
  assume *: "run_ok we r0 (n - 1) r1" "1 \<le> n" "sllist (st r1) = sllist (st r)"
  let ?r = "r1\<lparr>st := (st r1)\<lparr>lit := v\<rparr>\<rparr>"
  have "run_fine we r0 b (step_Read_DistanceBits mem we (inf_goto InfStep_Read_DistanceBits ?r))"
    using * assms(2,4) by (intro Read_DistanceBits_fine [where n = "n - 1"]) simp_all
  moreover have "run_fine we r0 b (Inr (inf_fatal m ?r))" for m using * by (intro fine_fatal [where n = "n - 1"]) simp
  ultimately show "run_fine we r0 b (if lit (st ?r) > 29 then Inr (inf_fatal (Some ''too many length or distance symbols'') ?r)
      else step_Read_DistanceBits mem we (inf_goto InfStep_Read_DistanceBits ?r))" by simp
qed (simp add: assms(3))

lemma Read_LengthBits_fine:
  assumes "run_ok we r0 n r" and "sl_idle (sllist (st r))" and "cur r = InfStep_Read_LengthBits" and "4 * n \<le> b + 1"
  shows "run_fine we r0 b (step_Read_LengthBits mem we r)"
  unfolding step_Read_LengthBits_def Let_def
proof (intro fine_bindR with_bits_fine [OF assms(1)] fine_assertR)
  fix k r1 v start
  assume "run_ok we r0 (n - k) r1" "sllist (st r1) = sllist (st r)"
  then show "run_fine we r0 b (step_Read_Distance mem we (inf_goto InfStep_Read_Distance (r1\<lparr>st := (st r1)\<lparr>sequence_len := unat v + start\<rparr>\<rparr>)))"
    using assms(2,4) by (intro Read_Distance_fine [where n = "n - k"]) simp_all
qed (use assms in simp_all)

lemma Read_LiteralOrLength2_fine:
  assumes "run_ok we r0 n r" and "sl_idle (sllist (st r))" and "cur r = InfStep_Read_LiteralOrLength2" and "4 * n + 2 < b"
  shows "run_fine we r0 b (step_Read_LiteralOrLength2 mem we r)"
proof -
  have le: "writePtr r \<le> we" and win: "win_typed (outputBuf (st r))" using assms(1) by (auto simp: run_defs)
  consider "lit (st r) < 256" "writePtr r = we" | "lit (st r) < 256" "writePtr r < we" | "lit (st r) = 256"
    | "lit (st r) > 285" | "256 < lit (st r)" "lit (st r) \<le> 285" using le by linarith
  then show ?thesis
  proof cases
    case 1
    then show ?thesis using fine_full [OF assms(1,2)] assms(3) by (simp add: step_Read_LiteralOrLength2_def)
  next
    case 2
    let ?c = "of_nat (lit (st r)) :: u8"
    have "run_fine we r0 b (Inr (inf_goto InfStep_Read_LiteralOrLength (r\<lparr>out := ys, writePtr := writePtr r + 1, st := (st r)\<lparr>outputBuf := ob\<rparr>\<rparr>)))"
      if "mem_write (writePtr r) [?c] (out r) = Inr ys" "Inf_Outbuf_putc (outputBuf (st r)) ?c = Inr ob" for ys ob
      using ok_output [OF assms(1), of "writePtr r + 1" ys "writePtr r + 1" ob] mem_write_confined [OF that(1)] putc_typed [OF that(2) win] 2 assms(2,4)
      by (intro fine_goto [where n = n]) (simp_all add: run_defs)
    then show ?thesis unfolding step_Read_LiteralOrLength2_def using 2 by (auto intro!: fine_bindR)
  next
    case 3
    then show ?thesis using fine_goto [OF assms(1)] assms(2,4) by (simp add: step_Read_LiteralOrLength2_def)
  next
    case 4
    then show ?thesis using fine_fatal [OF assms(1)] by (simp add: step_Read_LiteralOrLength2_def)
  next
    case 5
    then show ?thesis unfolding step_Read_LiteralOrLength2_def
      using assms by (auto intro!: Read_LengthBits_fine [where n = n])
  qed
qed

lemma Read_LiteralOrLength_fine:
  assumes "run_ok we r0 n r" and "sl_idle (sllist (st r))" and "cur r \<in> {InfStep_Read_LiteralOrLength, InfStep_PROCESS_COMPRESSED_BLOCK}"
    and "4 * n \<le> b + 1"
  shows "run_fine we r0 b (step_Read_LiteralOrLength mem we r)"
  unfolding step_Read_LiteralOrLength_def
proof (rule with_symbol_fine [OF assms(1,2)])
  fix r1 v
  assume *: "run_ok we r0 (n - 1) r1" "1 \<le> n" "sllist (st r1) = sllist (st r)"
  then show "run_fine we r0 b (step_Read_LiteralOrLength2 mem we (inf_goto InfStep_Read_LiteralOrLength2 (r1\<lparr>st := (st r1)\<lparr>lit := v\<rparr>\<rparr>)))"
    using assms(2,4) by (intro Read_LiteralOrLength2_fine [where n = "n - 1"]) simp_all
qed (use assms(3) in auto)

lemma sorted_decoder_typed:
  assumes "make_sorted_decoder t list reset = Inr (t', list')"
  shows "table_typed t \<Longrightarrow> table_typed t'" and "reset \<Longrightarrow> sl_idle list'"
  using assms MakeDecoder_typed
  by (auto simp: make_sorted_decoder_def Inf_SLList_GetSorted_def bindR_eq_Inr Let_def sl_idle_def sl_rep_def positions_def)

lemma ok_list:
  assumes "run_ok we r0 n r" and "reads (bitstream (st r)) bs 0"
  shows "run_ok we r0 n (r\<lparr>st := (st r)\<lparr>sllist := list, bitstream := bs\<rparr>\<rparr>)"
  using ok_reads [OF assms] by (simp add: run_defs set_bs_def)

lemma LOAD_DISTANCE_DECODER_fine:
  assumes "run_ok we r0 n r" and "cur r = InfStep_LOAD_DISTANCE_DECODER" and "4 * n \<le> b + 1"
  shows "run_fine we r0 b (step_LOAD_DISTANCE_DECODER mem we r)"
  unfolding step_LOAD_DISTANCE_DECODER_def Let_def
proof (intro fine_bindR, unfold split_paired_all prod.case, goal_cases)
  case (1 front complete list bs)
  let ?r = "r\<lparr>st := (st r)\<lparr>sllist := list, bitstream := bs\<rparr>\<rparr>"
  have "table_moves front" using decoder_moves [OF _ 1(1)] assms(1) by (simp add: run_ok_def)
  note r = ok_list [OF assms(1) AddEncodedSymlens_reads [OF 1(2) this], of list]
  show ?case
  proof (cases complete)
    case True
    have "run_fine we r0 b (step_Read_LiteralOrLength mem we (inf_goto InfStep_PROCESS_COMPRESSED_BLOCK
        (?r\<lparr>st := (st ?r)\<lparr>huffmanTableA := table, sllist := list', distanceDecoder := Some TableA\<rparr>\<rparr>)))"
      if "make_sorted_decoder (huffmanTableA (st ?r)) (sllist (st ?r)) True = Inr (table, list')" for table list'
      using sorted_decoder_typed [OF that] r assms(3) by (intro Read_LiteralOrLength_fine [where n = n]) (simp_all add: run_defs inf_goto_def)
    with True show ?thesis by (auto intro!: fine_bindR)
  next
    case False
    then show ?thesis using fine_fill [OF r] assms(2) by simp
  qed
qed

lemma LOAD_LITERAL_DECODER_fine:
  assumes "run_ok we r0 n r" and "cur r = InfStep_LOAD_LITERAL_DECODER" and "4 * n \<le> b + 1"
  shows "run_fine we r0 b (step_LOAD_LITERAL_DECODER mem we r)"
  unfolding step_LOAD_LITERAL_DECODER_def Let_def
proof (intro fine_bindR, unfold split_paired_all prod.case, goal_cases)
  case (1 front complete list bs)
  let ?r = "r\<lparr>st := (st r)\<lparr>sllist := list, bitstream := bs\<rparr>\<rparr>"
  have "table_moves front" using decoder_moves [OF _ 1(1)] assms(1) by (simp add: run_ok_def)
  note r = ok_list [OF assms(1) AddEncodedSymlens_reads [OF 1(2) this], of list]
  show ?case
  proof (cases complete)
    case True
    have "run_fine we r0 b (step_LOAD_DISTANCE_DECODER mem we (inf_goto InfStep_LOAD_DISTANCE_DECODER
        (?r\<lparr>st := (st ?r)\<lparr>huffmanTableB := table, sllist := list', literalDecoder := Some TableB\<rparr>\<rparr>)))"
      if "make_sorted_decoder (huffmanTableB (st ?r)) (sllist (st ?r)) False = Inr (table, list')" for table list'
      using sorted_decoder_typed [OF that] r assms(3) by (intro LOAD_DISTANCE_DECODER_fine [where n = n]) (simp_all add: run_defs inf_goto_def)
    with True show ?thesis by (auto intro!: fine_bindR)
  next
    case False
    then show ?thesis using fine_fill [OF r] assms(2) by simp
  qed
qed

lemma LOAD_FRONT_DECODER_fine:
  assumes "run_ok we r0 n r" and "cur r = InfStep_LOAD_FRONT_DECODER" and "4 * n \<le> b + 1"
  shows "run_fine we r0 b (step_LOAD_FRONT_DECODER mem we r)"
  unfolding step_LOAD_FRONT_DECODER_def Let_def
proof (intro fine_bindR, unfold split_paired_all prod.case, goal_cases)
  case (1 complete list bs)
  let ?r = "r\<lparr>st := (st r)\<lparr>sllist := list, bitstream := bs\<rparr>\<rparr>"
  have "reads (bitstream (st r)) bs 0"
    using 1 by (auto simp: Inf_SLList_Add3BitSymlens_def Let_def assertR_eq_Inr bindR_eq_Inr split: if_splits dest: sl_read3_reads)
  note r = ok_list [OF assms(1) this, of list]
  show ?case
  proof (cases complete)
    case True
    have "run_fine we r0 b (step_LOAD_LITERAL_DECODER mem we (inf_goto InfStep_LOAD_LITERAL_DECODER
        (?r\<lparr>st := (st ?r)\<lparr>huffmanTableA := table, sllist := list', frontDecoder := Some TableA\<rparr>\<rparr>)))"
      if "make_sorted_decoder (huffmanTableA (st ?r)) (sllist (st ?r)) True = Inr (table, list')" for table list'
      using sorted_decoder_typed [OF that] r assms(3) by (intro LOAD_LITERAL_DECODER_fine [where n = n]) (simp_all add: run_defs inf_goto_def)
    with True show ?thesis by (auto intro!: fine_bindR)
  next
    case False
    then show ?thesis using fine_fill [OF r] assms(2) by simp
  qed
qed

lemma LOAD_DYNAMIC_fine:
  assumes "run_ok we r0 n r" and "cur r = InfStep_LOAD_DYNAMIC_HUFFMAN_DECODERS" and "4 * n \<le> b + 1"
  shows "run_fine we r0 b (step_LOAD_DYNAMIC_HUFFMAN_DECODERS mem we r)"
  unfolding step_LOAD_DYNAMIC_HUFFMAN_DECODERS_def
  using assms by (intro with_bits_fine [OF assms(1)] LOAD_FRONT_DECODER_fine [where n = "n - (5 + 5 + 4)"]) simp_all

lemma LOAD_FIXED_fine:
  assumes "run_ok we r0 n r" and "sl_idle (sllist (st r))" and "4 * n + 2 < b"
  shows "run_fine we r0 b (step_LOAD_FIXED_HUFFMAN_DECODERS r)"
proof -
  obtain s1 l1 where 1: "Inf_Huff_MakeFixedLiteralDecoder (statics r) (sllist (st r)) = Inr (s1, l1)"
      "cachedLiteral s1 = Some fixed_lit_table" "cachedDistance s1 = cachedDistance (statics r)" "sl_idle l1"
    using MakeFixedLiteralDecoder_ok [of "statics r" "sllist (st r)"] assms(1,2) by (auto simp: run_defs)
  then have "statics_ok s1" using assms(1) by (simp add: run_defs statics_ok_def)
  then obtain s2 l2 where 2: "Inf_Huff_MakeFixedDistanceDecoder s1 l1 = Inr (s2, l2)"
      "cachedDistance s2 = Some fixed_dist_table" "cachedLiteral s2 = cachedLiteral s1" "sl_idle l2"
    using MakeFixedDistanceDecoder_ok [of s1 l1] 1(4) by auto
  have "run_ok we r0 n (r\<lparr>statics := s2, st := (st r)\<lparr>sllist := l2, literalDecoder := Some FixedLiteral, distanceDecoder := Some FixedDistance\<rparr>\<rparr>)"
    using assms(1) 1(2) 2(2,3) by (simp add: run_defs statics_ok_def)
  then show ?thesis using 1(1) 2(1,4) assms(3) by (auto simp: step_LOAD_FIXED_HUFFMAN_DECODERS_def intro!: fine_goto)
qed

lemma OUTPUT_UNCOMPRESSED_fine:
  assumes "run_ok we r0 n r" and "sl_idle (sllist (st r))" and "cur r = InfStep_OUTPUT_UNCOMPRESSED_BLOCK" and "4 * n + 2 < b"
  shows "run_fine we r0 b (step_OUTPUT_UNCOMPRESSED_BLOCK mem we r)"
  unfolding step_OUTPUT_UNCOMPRESSED_BLOCK_def Let_def
proof (intro fine_bindR, unfold split_paired_all prod.case, intro fine_bindR, goal_cases)
  case (1 bytes canReadAll bs ys ob)
  let ?r = "\<lambda>k. r\<lparr>st := (st r)\<lparr>bitstream := bs, outputBuf := ob, sequence_len := k\<rparr>, out := ys, writePtr := writePtr r + length bytes\<rparr>"
  note rd = ReadBytes_reads [OF 1(1)]
  have room: "writePtr r + length bytes \<le> we" using rd assms(1) by (auto simp: run_defs)
  have "win_typed ob" using Outbuf_write_typed [OF 1(3)] assms(1) by (simp add: run_defs)
  then have "run_ok we r0 n (r\<lparr>st := (st r)\<lparr>outputBuf := ob\<rparr>, out := ys, writePtr := writePtr r + length bytes\<rparr>)"
    by (intro ok_output [OF assms(1) mem_write_confined [OF 1(2)] _ room order_refl]) simp_all
  with rd have r: "run_ok we r0 n (?r k)" for k by (auto simp: run_defs reads_def)
  show ?case
    using fine_fill [OF r] fine_full [OF r] fine_goto [OF r] assms(2-4) by simp
qed

lemma PROCESS_UNCOMPRESSED_fine:
  assumes "run_ok we r0 n r" and "sl_idle (sllist (st r))" and "cur r = InfStep_PROCESS_UNCOMPRESSED_BLOCK" and "4 * n \<le> b + 1"
  shows "run_fine we r0 b (step_PROCESS_UNCOMPRESSED_BLOCK mem we r)"
  unfolding step_PROCESS_UNCOMPRESSED_BLOCK_def Let_def
proof (intro fine_bindR, unfold split_paired_all prod.case, goal_cases)
  case (1 v bs)
  note rd = ok_reads [OF assms(1) ReadDWord_reads [OF 1]]
  show ?case
  proof (cases v)
    case None
    with fine_fill [OF rd(1)] assms(2,3) show ?thesis by (simp add: set_bs_def)
  next
    case (Some u)
    let ?r = "\<lambda>k. set_bs bs r\<lparr>st := (st (set_bs bs r))\<lparr>sequence_len := k\<rparr>\<rparr>"
    have r: "run_ok we r0 (n - 32) (?r k)" "32 \<le> n" for k using rd Some by simp_all
    have "run_fine we r0 b (step_OUTPUT_UNCOMPRESSED_BLOCK mem we (inf_goto InfStep_OUTPUT_UNCOMPRESSED_BLOCK (?r k)))" for k
      using r assms(2,4) by (intro OUTPUT_UNCOMPRESSED_fine [where n = "n - 32"]) (simp_all add: set_bs_def)
    with Some fine_fatal [OF r(1)] show ?thesis by simp
  qed
qed

lemma READ_BLOCK_HEADER_fine:
  assumes "run_ok we r0 n r" and "sl_idle (sllist (st r))" and "cur r = InfStep_READ_BLOCK_HEADER" and "4 * n \<le> b + 1"
  shows "run_fine we r0 b (step_READ_BLOCK_HEADER mem r)"
  unfolding step_READ_BLOCK_HEADER_def Let_def
proof (rule with_bits_fine [OF assms(1)])
  fix r1 v
  assume *: "run_ok we r0 (n - 3) r1" "3 \<le> n" "sllist (st r1) = sllist (st r)"
  let ?r = "r1\<lparr>st := (st r1)\<lparr>isLastBlock := unat (v AND 1)\<rparr>\<rparr>"
  have r: "run_ok we r0 (n - 3) ?r" "sl_idle (sllist (st ?r))" using * assms(2) by simp_all
  have "run_fine we r0 b (Inr (inf_goto c ?r))" if "c \<noteq> InfStep_FATAL_ERROR" "step_rank c \<le> 3" for c
    using fine_goto [OF r(1) _ that(1)] r(2) that(2) *(2) assms(4) by simp
  with fine_fatal [OF r(1)]
  show "run_fine we r0 b (if drop_bit 1 v = 0 then Inr (inf_goto InfStep_PROCESS_UNCOMPRESSED_BLOCK ?r)
       else if drop_bit 1 v = 1 then Inr (inf_goto InfStep_LOAD_FIXED_HUFFMAN_DECODERS ?r)
       else if drop_bit 1 v = 2 then Inr (inf_goto InfStep_LOAD_DYNAMIC_HUFFMAN_DECODERS ?r)
       else Inr (inf_fatal (Some ''invalid block type'') ?r))" by simp
qed (use assms in simp_all)

lemma PROCESS_NEXT_BLOCK_fine:
  assumes "run_ok we r0 n r" and "sl_idle (sllist (st r))" and "4 * n + 1 < b"
  shows "run_fine we r0 b (step_PROCESS_NEXT_BLOCK mem r)"
  using assms fine_goto [of we r0 n "r\<lparr>st := (st r)\<lparr>isLastBlock := 4\<rparr>\<rparr>"]
    READ_BLOCK_HEADER_fine [of we r0 n "inf_goto InfStep_READ_BLOCK_HEADER r"]
  by (simp add: step_PROCESS_NEXT_BLOCK_def)

lemma ADLER32_CHECKSUM_fine:
  assumes "run_ok we r0 n r" and "sl_idle (sllist (st r))" and "cur r = InfStep_ADLER32_CHECKSUM" and "4 * n < b"
  shows "run_fine we r0 b (step_ADLER32_CHECKSUM mem r)"
  unfolding step_ADLER32_CHECKSUM_def Let_def
proof (rule fine_bindR)
  let ?bs = "bitstream (st r)"
  let ?n = "min (isLastBlock (st r)) (inputEnd ?bs - inputPtr ?bs)"
  let ?r = "r\<lparr>st := (st r)\<lparr>bitstream := ?bs\<lparr>inputPtr := inputPtr ?bs + ?n\<rparr>, isLastBlock := isLastBlock (st r) - ?n\<rparr>\<rparr>"
  have r: "run_ok we r0 n ?r" using assms(1) by (auto simp: run_defs bits_left_def)
  have "run_fine we r0 b (Inr (if P then inf_goto InfStep_END ?r else inf_FILL_INPUT_BUFFER ?r))" for P
    using fine_goto [OF r] fine_fill [OF r] assms(2-4) by (cases P) simp_all
  then show "run_fine we r0 b (Inr (if isLastBlock (st ?r) = 0 then inf_goto InfStep_END ?r else inf_FILL_INPUT_BUFFER ?r))" for cs :: "u8 list"
    by blast
qed

lemma switch_fine:
  assumes "run_typed r" and "run_past we r0 r" and "action (st r) = InfAction_ProcessNextChunk"
  shows "run_fine we r0 (run_work r) (inf_switch mem we r)"
proof -
  let ?n = "bits_left (bitstream (st r))"
  have r: "run_ok we r0 ?n r" and idle: "loading (cur r) \<or> sl_idle (sllist (st r))" and nf: "cur r \<noteq> InfStep_FATAL_ERROR"
    using assms by (auto simp: run_typed_def run_ok_def)
  show ?thesis
  proof (cases "cur r")
    case InfStep_START
    then show ?thesis
      using r idle by (auto simp: inf_switch_def step_START_def run_work_def intro!: PROCESS_NEXT_BLOCK_fine [where n = ?n])
  next
    case InfStep_END
    then show ?thesis using r idle by (auto simp: inf_switch_def step_END_def run_fine_def run_typed_def run_defs)
  qed (use r idle nf in \<open>auto simp: inf_switch_def run_work_def intro: PROCESS_NEXT_BLOCK_fine READ_BLOCK_HEADER_fine PROCESS_UNCOMPRESSED_fine
      OUTPUT_UNCOMPRESSED_fine LOAD_FIXED_fine LOAD_DYNAMIC_fine LOAD_FRONT_DECODER_fine LOAD_LITERAL_DECODER_fine
      LOAD_DISTANCE_DECODER_fine Read_LiteralOrLength_fine Read_LiteralOrLength2_fine Read_LengthBits_fine Read_Distance_fine
      Read_DistanceBits_fine OUTPUT_SEQUENCE_fine ADLER32_CHECKSUM_fine\<close>)
qed

text \<open>Work decreases with every step, so the loop ends.\<close>

lemma inf_loop_ends:
  assumes "run_typed r" and "run_past we r0 r"
  shows "\<exists>x. inf_loop mem we r = Some x \<and> (\<forall>r'. x = Inr r' \<longrightarrow> run_typed r' \<and> run_past we r0 r' \<and> action (st r') \<noteq> InfAction_ProcessNextChunk)"
  using assms
proof (induction "run_work r" arbitrary: r rule: less_induct)
  case less
  show ?case
  proof (cases "action (st r) = InfAction_ProcessNextChunk")
    case True
    note f = switch_fine [OF less.prems True, of mem]
    show ?thesis
    proof (cases "inf_switch mem we r")
      case (Inl e)
      with True show ?thesis by (subst inf_loop.simps) simp
    next
      case (Inr r')
      then have r': "run_typed r'" "run_past we r0 r'" "action (st r') = InfAction_ProcessNextChunk \<Longrightarrow> run_work r' < run_work r"
        using f by (auto simp: run_fine_def)
      have "inf_loop mem we r = inf_loop mem we r'" using True Inr by (rule inf_loop_step)
      then show ?thesis using less.hyps [OF r'(3) r'(1,2)] inf_loop_done [of r'] r'
        by (cases "action (st r') = InfAction_ProcessNextChunk") auto
    qed
  next
    case False
    with less.prems show ?thesis using inf_loop_done [OF False] by auto
  qed
qed

section \<open>Calls\<close>

text \<open>The well-formed states between two calls.\<close>

definition state_typed :: "inf_statics \<Rightarrow> Inf_State \<Rightarrow> bool" where
  "state_typed stat s \<longleftrightarrow> statics_ok stat \<and> table_typed (huffmanTableA s) \<and> table_typed (huffmanTableB s) \<and> win_typed (outputBuf s) \<and>
     (loading (step s) \<or> sl_idle (sllist s)) \<and> (step s = InfStep_FATAL_ERROR \<longrightarrow> action s = InfAction_Finish)"

lemma init_typed:
  assumes "inflateInit (Some mem) True (Some rx) = (ret, Some rx')" and "statics_ok stat"
  shows "\<exists>s. state rx' = Some s \<and> state_typed stat s"
proof -
  obtain s where s: "state rx' = Some s" "inf_ready [] [] s" using inflateInit_ready(2) [OF assms(1)] by auto
  have "huffmanTableA s = (\<lambda>_. None)" "huffmanTableB s = (\<lambda>_. None)"
    using assms(1) s(1) unfolding inflateInit_def Inf_Outbuf_init_def Let_def by force+
  then have "table_typed (huffmanTableA s)" "table_typed (huffmanTableB s)" by (simp_all add: table_typed_def)
  moreover have "step s \<noteq> InfStep_FATAL_ERROR" "sl_idle (sllist s)" "win_typed (outputBuf s)"
    using s(2) by (auto simp: inf_ready_def win_rep_def win_typed_def)
  ultimately show ?thesis using s(1) assms(2) by (simp add: state_typed_def)
qed

text \<open>A call writes only where the stream says it may.\<close>

definition within_output :: "'s z_stream \<Rightarrow> 's z_stream \<Rightarrow> bool" where
  "within_output strm strm' \<longleftrightarrow> next_out strm \<le> next_out strm' \<and> next_out strm' \<le> next_out strm + unat (avail_out strm) \<and>
     confined (next_out strm) (next_out strm') (out_mem strm) (out_mem strm')"

lemma entry_returns:
  assumes "inflate_entry strm s = Inr (Inl (ret, strm'))" and "state_typed stat s" and "state strm = Some s"
  shows "ret \<in> {Z_OK, Z_STREAM_END, Z_DATA_ERROR} \<and> (\<exists>s'. state strm' = Some s' \<and> state_typed stat s') \<and> within_output strm strm'"
  using assms
  by (cases "action s")
    (auto simp: inflate_entry_def Let_def assertR_eq_Inr state_typed_def within_output_def Z_OK_def split: if_splits)

lemma entry_goes_on:
  assumes "inflate_entry strm s = Inr (Inr (strm', s', ib))" and "state_typed stat s"
  shows "next_out strm' = next_out strm \<and> avail_out strm' = avail_out strm \<and> out_mem strm' = out_mem strm \<and>
     action s \<noteq> InfAction_Finish \<and> (\<exists>bs. s' = s\<lparr>bitstream := bs\<rparr>)"
  using assms
  by (cases "action s")
    (auto simp: inflate_entry_def Let_def assertR_eq_Inr split: if_splits intro: exI [of _ "bitstream s"])

lemma inflate_typed:
  assumes "state strm = Some s" and "state_typed stat s"
  shows "\<exists>x. inflate stat strm flush = Some x \<and>
     (\<forall>ret stat' strm'. x = Inr (ret, stat', strm') \<longrightarrow> ret \<in> {Z_OK, Z_STREAM_END, Z_DATA_ERROR} \<and>
        (\<exists>s'. state strm' = Some s' \<and> state_typed stat' s') \<and> within_output strm strm')"
proof (cases "inflate_entry strm s")
  case (Inl e)
  then show ?thesis using assms(1) by (simp add: inflate_def)
next
  case (Inr x)
  show ?thesis
  proof (cases x)
    case (Inl y)
    then show ?thesis using Inr assms entry_returns [of strm s _ _ stat] by (cases y) (auto simp: inflate_def)
  next
    case inner: (Inr y)
    obtain strm1 s1 ib where y: "y = (strm1, s1, ib)" by (cases y)
    note e = entry_goes_on [OF Inr [unfolded inner y] assms(2)]
    let ?we = "next_out strm1 + unat (avail_out strm1)"
    let ?r = "\<lparr>st = s1\<lparr>action := InfAction_ProcessNextChunk\<rparr>, cur = step s1, writePtr = next_out strm1, out = out_mem strm1,
       rmsg = msg strm1, res = 0, statics = stat\<rparr>"
    show ?thesis
    proof (cases "0 < avail_out strm1 \<and> inputPtr (bitstream s1) \<le> inputEnd (bitstream s1)")
      case True
      then have "run_typed ?r" using e assms(2) by (auto simp: run_typed_def run_core_def state_typed_def Z_OK_def)
      moreover have "run_past ?we ?r ?r" by (simp add: run_past_def)
      ultimately obtain x where x: "inf_loop (in_mem strm1) ?we ?r = Some x"
          "\<And>r'. x = Inr r' \<Longrightarrow> run_typed r' \<and> run_past ?we ?r r' \<and> action (st r') \<noteq> InfAction_ProcessNextChunk"
        using inf_loop_ends by blast
      then show ?thesis
        using True assms(1) Inr inner y e
        by (cases x) (auto simp: inflate_def inflate_epilogue_def Let_def run_typed_def run_core_def run_past_def state_typed_def within_output_def)
    next
      case False
      then show ?thesis using assms(1) Inr inner y by (auto simp: inflate_def)
    qed
  qed
qed

end
