(* ===== verification/Any_Input_Properties.thy ===== *)
theory Any_Input_Properties
  imports Inf_Any_Input Inflate_Properties
begin

text \<open>
  Properties of the inflater on input that nobody has checked: it always ends, it keeps to its buffers, and the two
  ways in which input that is merely unusual or malformed makes it go wrong.
\<close>

section \<open>Any calls\<close>

text \<open>What a caller sets before a call, and a sequence of calls that stops at the first abort.\<close>

record inf_args =
  a_in :: "u8 list"
  a_next_in :: nat
  a_avail_in :: u32
  a_out :: "u8 list"
  a_next_out :: nat
  a_avail_out :: u32
  a_flush :: int

definition with_args :: "inf_args \<Rightarrow> Inf_State z_stream \<Rightarrow> Inf_State z_stream" where
  "with_args c strm = strm\<lparr>in_mem := a_in c, next_in := a_next_in c, avail_in := a_avail_in c,
     out_mem := a_out c, next_out := a_next_out c, avail_out := a_avail_out c\<rparr>"

fun inflate_calls :: "inf_statics \<Rightarrow> Inf_State z_stream \<Rightarrow> inf_args list \<Rightarrow> (int \<times> Inf_State z_stream) list res option" where
  "inflate_calls stat strm [] = Some (Inr [])"
| "inflate_calls stat strm (c # cs) =
     (case inflate stat (with_args c strm) (a_flush c) of
        None \<Rightarrow> None
      | Some (Inl e) \<Rightarrow> Some (Inl e)
      | Some (Inr (ret, stat', strm')) \<Rightarrow>
          (case inflate_calls stat' strm' cs of
             None \<Rightarrow> None
           | Some (Inl e) \<Rightarrow> Some (Inl e)
           | Some (Inr rs) \<Rightarrow> Some (Inr ((ret, strm') # rs))))"

definition call_confined :: "inf_args \<Rightarrow> int \<times> Inf_State z_stream \<Rightarrow> bool" where
  "call_confined c x \<longleftrightarrow> (case x of (ret, strm') \<Rightarrow> ret \<in> {Z_OK, Z_STREAM_END, Z_DATA_ERROR} \<and>
     a_next_out c \<le> next_out strm' \<and> next_out strm' \<le> a_next_out c + unat (a_avail_out c) \<and>
     confined (a_next_out c) (next_out strm') (a_out c) (out_mem strm'))"

lemma calls_typed:
  assumes "state strm = Some s" and "state_typed stat s"
  shows "\<exists>x. inflate_calls stat strm cs = Some x \<and> (\<forall>rs. x = Inr rs \<longrightarrow> list_all2 call_confined cs rs)"
  using assms
proof (induction cs arbitrary: stat strm s)
  case (Cons c cs)
  have "state (with_args c strm) = Some s" using Cons.prems(1) by (simp add: with_args_def)
  then obtain x where x: "inflate stat (with_args c strm) (a_flush c) = Some x"
     "\<And>ret stat' strm'. x = Inr (ret, stat', strm') \<Longrightarrow> ret \<in> {Z_OK, Z_STREAM_END, Z_DATA_ERROR} \<and>
        (\<exists>s'. state strm' = Some s' \<and> state_typed stat' s') \<and> within_output (with_args c strm) strm'"
    using inflate_typed [of "with_args c strm" s stat "a_flush c"] Cons.prems(2) by blast
  show ?case
  proof (cases x)
    case (Inl e)
    with x(1) show ?thesis by simp
  next
    case (Inr y)
    obtain ret stat' strm' where y: "y = (ret, stat', strm')" by (cases y)
    obtain s' where s': "state strm' = Some s'" "state_typed stat' s'" and c: "call_confined c (ret, strm')"
      using x(2) Inr y by (auto simp: call_confined_def within_output_def with_args_def)
    obtain z where z: "inflate_calls stat' strm' cs = Some z" "\<forall>rs. z = Inr rs \<longrightarrow> list_all2 call_confined cs rs"
      using Cons.IH [OF s'] by blast
    with x(1) Inr y c show ?thesis by (cases z) auto
  qed
qed simp

text \<open>C6: \<^verbatim>\<open>inflate\<close> always ends. Whatever a freshly initialised inflater is given in however many calls, any bytes at any place in buffers
  of any size, no call runs for ever: each returns or aborts. This is not obvious: codes that are incomplete or oversubscribed are not
  rejected, and the loop ends only since every entry that a decoding table can yield has a positive length, whatever lengths it was made from.\<close>

theorem inflate_always_ends:
  assumes "inflateInit (Some mem) True (Some rx) = (ret, Some rx')" and "statics_ok stat"
  shows "\<exists>x. inflate_calls stat rx' cs = Some x"
  using init_typed [OF assms] calls_typed by blast

theorem inflate_always_ends_witness:
  "\<exists>rx' x. inflateInit (Some junk) True (Some blank) = (Z_OK, Some rx') \<and>
     inflate_calls statics0 rx' [\<lparr>a_in = [0x78, 0xDA, 0xED, 0xFF, 0xFF], a_next_in = 0, a_avail_in = 5, a_out = [0], a_next_out = 0, a_avail_out = 1, a_flush = 4\<rparr>,
       \<lparr>a_in = [0xFF], a_next_in = 0, a_avail_in = 1, a_out = [0], a_next_out = 0, a_avail_out = 1, a_flush = 4\<rparr>] = Some x"
proof -
  obtain rx' where rx': "inflateInit (Some junk) True (Some blank) = (Z_OK, Some rx')"
    using inflateInit_ready [of junk blank] by (cases "inflateInit (Some junk) True (Some blank)") auto
  show ?thesis using inflate_always_ends [OF rx' statics0_ok] rx' by blast
qed

text \<open>C7: \<^verbatim>\<open>inflate\<close> is well-typed. \<^verbatim>\<open>inflateInit\<close> makes a well-formed state, and every call that returns, on any input whatsoever,
  leaves a well-formed state again, returns one of three codes, and has written only between the old and the new \<^verbatim>\<open>next_out\<close>,
  inside of the part of the output buffer that it was given. In a well-formed state the window is allocated and its pointer inside, the
  entries of the decoding tables are symbols of positive length or refer to a subtable, and the symbol list is empty unless a
  dynamic block header is being read.\<close>

theorem inflate_keeps_type:
  assumes "inflateInit (Some mem) True (Some rx) = (ret0, Some rx') \<and> statics_ok stat \<and> state strm = state rx' \<or>
      (\<exists>s. state strm = Some s \<and> state_typed stat s)"
    and "inflate stat strm flush = Some (Inr (ret, stat', strm'))"
  shows "ret \<in> {Z_OK, Z_STREAM_END, Z_DATA_ERROR} \<and> (\<exists>s'. state strm' = Some s' \<and> state_typed stat' s') \<and>
     next_out strm \<le> next_out strm' \<and> next_out strm' \<le> next_out strm + unat (avail_out strm) \<and>
     length (out_mem strm') = length (out_mem strm) \<and> take (next_out strm) (out_mem strm') = take (next_out strm) (out_mem strm) \<and>
     drop (next_out strm') (out_mem strm') = drop (next_out strm') (out_mem strm)"
proof -
  obtain s where "state strm = Some s" "state_typed stat s" using assms(1) init_typed by metis
  from inflate_typed [OF this, of flush] assms(2) show ?thesis by (auto simp: within_output_def confined_def)
qed

theorem inflate_keeps_type_witness:
  "\<exists>rx' strm stat' strm' s'. inflateInit (Some junk) True (Some blank) = (Z_OK, Some rx') \<and>
     strm = rx'\<lparr>in_mem := [0x78, 0x01, 0x01, 0x02, 0x00, 0xFD, 0xFF, 0x68, 0x69, 1, 2, 3, 4], next_in := 0, avail_in := 13,
       out_mem := [7, 8, 9, 9, 9, 6], next_out := 2, avail_out := 3\<rparr> \<and>
     inflate statics0 strm Z_FINISH = Some (Inr (Z_STREAM_END, stat', strm')) \<and> state strm' = Some s' \<and> state_typed stat' s' \<and>
     take 2 (out_mem strm') = [7, 8] \<and> drop 4 (out_mem strm') = [9, 6]"
proof -
  obtain rx' where rx': "inflateInit (Some junk) True (Some blank) = (Z_OK, Some rx')"
    using inflateInit_ready [of junk blank] by (cases "inflateInit (Some junk) True (Some blank)") auto
  obtain s where s: "state rx' = Some s" "inf_ready [] [] s" "action s = InfAction_Init"
    using inflateInit_ready(2) [OF rx'] by auto
  let ?body = "[0x01, 0x02, 0x00, 0xFD, 0xFF, 0x68, 0x69] @ [1, 2, 3, 4] :: u8 list"
  let ?strm = "rx'\<lparr>in_mem := [0x78, 0x01] @ ?body, next_in := 0, avail_in := 13, out_mem := [7, 8, 9, 9, 9, 6], next_out := 2, avail_out := 3\<rparr>"
  have "inf_input s ([0x78, 0x01] @ ?body) ?body" using s(3) by (simp add: inf_input_def)
  moreover have "mem_read 0 13 ([0x78, 0x01] @ ?body) = Inr ([0x78, 0x01] @ ?body)" by (simp add: mem_read_def)
  ultimately obtain stat' strm' where i: "inflate statics0 ?strm Z_FINISH = Some (Inr (Z_STREAM_END, stat', strm'))" "next_out strm' = 4"
    using inflate_blocks [of ?strm s "[]" "[]" statics0 "[0x78, 0x01] @ ?body" ?body True "bytes_bits [1, 2, 3, 4]" "[0x68, 0x69]" Z_FINISH] s
      hi_blocks [of "[1, 2, 3, 4]"]
    by (auto simp: statics0_ok Inf_Outbuf_size_def inflated_def)
  have "state ?strm = state rx'" by simp
  with inflate_keeps_type [OF disjI1 i(1)] rx' statics0_ok
  obtain s' where "state strm' = Some s'" "state_typed stat' s'" "take (next_out ?strm) (out_mem strm') = take (next_out ?strm) (out_mem ?strm)"
      "drop (next_out strm') (out_mem strm') = drop (next_out strm') (out_mem ?strm)"
    by metis
  then have "state strm' = Some s'" "state_typed stat' s'" "take 2 (out_mem strm') = [7, 8]" "drop 4 (out_mem strm') = [9, 6]"
    using i(2) by simp_all
  then show ?thesis using rx' i(1) by simp
qed

section \<open>References before the text\<close>

lemma header_window:
  assumes "at_header r" and "inf_switch mem we r = Inr r'"
  shows "outputBuf (st r') = outputBuf (st r)"
proof -
  obtain n where "inf_switch mem we r = step_READ_BLOCK_HEADER mem (inf_goto InfStep_READ_BLOCK_HEADER (r\<lparr>st := (st r)\<lparr>isLastBlock := n\<rparr>\<rparr>))"
    using at_header_switch [OF assms(1)] by blast
  with assms(2) show ?thesis
    by (auto simp: step_READ_BLOCK_HEADER_def with_bits_def bindR_eq_Inr run_simps inf_fatal_def Let_def split: option.splits if_splits)
qed

lemma fixed_window:
  assumes "cur r = InfStep_LOAD_FIXED_HUFFMAN_DECODERS" and "inf_switch mem we r = Inr r'"
  shows "outputBuf (st r') = outputBuf (st r)"
  using assms by (auto simp: inf_switch_def step_LOAD_FIXED_HUFFMAN_DECODERS_def bindR_eq_Inr inf_goto_def)

text \<open>A new window has no content to refer to.\<close>

lemma read_nothing:
  assumes "ob = snd (Inf_Outbuf_init True)" and "1 \<le> d" and "d \<le> Inf_Outbuf_size" and "0 < n"
  shows "Inf_Outbuf_read ob xs p d n = Inl Uninitialised"
proof -
  obtain k where k: "min n d = Suc k" using assms(2,4) by (cases "min n d") auto
  have "win_load ob (Inf_Outbuf_size - d) = Inl Uninitialised"
    using assms(1-3) by (simp add: win_load_def Inf_Outbuf_init_def)
  then have "win_loads ob (Inf_Outbuf_size - d) (Suc k) = Inl Uninitialised" by simp
  then show ?thesis
    using assms k by (auto simp: Inf_Outbuf_read_def Inf_Outbuf_init_def Let_def min_def split: if_splits)
qed

lemma match_into_nothing:
  assumes d: "decoding k (coded_bits (lit_code c) (dist_code c) (Match d l) @ rest) [] r" and f: "in_block c r"
    and sym: "token_coded (lit_symbols c) (dist_symbols c) (Match d l)" and tok: "3 \<le> l" "l \<le> 258" "1 \<le> d" "d \<le> 32768"
    and win: "outputBuf (st r) = snd (Inf_Outbuf_init True)" and room: "writePtr r < c_to k"
  shows "inf_switch (c_mem k) (c_to k) r = Inl (if d < 32768 then Uninitialised else AssertFail)"
proof -
  obtain tL tD where tab: "decoder_table (statics r) (st r) (literalDecoder (st r)) = Inr tL" "table_reads tL (lit_code c) (lit_symbols c)"
      "decoder_table (statics r) (st r) (distanceDecoder (st r)) = Inr tD" "table_reads tD (dist_code c) (dist_symbols c)"
    using f by (auto simp: in_block_def)
  have dt: "decoder_table (statics r) s (distanceDecoder (st r)) = Inr tD"
    if "huffmanTableA s = huffmanTableA (st r)" "huffmanTableB s = huffmanTableB (st r)" for s
    using tab(3) decoder_table_cong [OF that] by simp
  obtain b1 u b2 b3 v b4 where rd: "Inf_BS_ReadEncodedBits (c_mem k) (bitstream (st r)) tL = Inr (Some (257 + len_index l), b1)"
      "Inf_BS_ReadBits (c_mem k) b1 (len_extra ! len_index l) = Inr (Some u, b2)"
      "Inf_BS_ReadEncodedBits (c_mem k) b2 tD = Inr (Some (dist_index d), b3)"
      "Inf_BS_ReadBits (c_mem k) b3 (dist_extra ! dist_index d) = Inr (Some v, b4)"
      "unat u + len_base ! len_index l = l" "unat v + dist_base ! dist_index d = d"
    using pair_read [OF _ _ tok sym tab(2,4), of "c_mem k" "c_end k" "bitstream (st r)" rest] d by (auto simp: decoding_def)
  note idx = len_index_ok(1) [OF tok(1,2)] dist_index_ok(1) [OF tok(3,4)]
  note none = read_nothing [OF win tok(3), unfolded Inf_Outbuf_size_def]
  show ?thesis
    using rd idx tok none room
    unfolding in_block_switch [OF f] step_Read_LiteralOrLength_def with_symbol_def tab(1)
    by (simp add: step_Read_LiteralOrLength2_def step_Read_LengthBits_def step_Read_Distance_def step_Read_DistanceBits_def
        step_OUTPUT_SEQUENCE_def with_bits_def with_symbol_def dt array_get_tables run_simps Let_def)
qed

text \<open>C33: distances that reach in front of the text are not detected. When the stream starts with a fixed block whose first token refers back
  by any distance, \<^verbatim>\<open>inflate\<close> does not report \<^verbatim>\<open>Z_DATA_ERROR\<close>: a distance below 32768 makes it copy from the window before anything
  was stored there, so it reads uninitialised heap memory, and a distance of 32768, the largest that the format allows, fails an assertion.\<close>

theorem distance_too_far_back:
  assumes "inflateInit (Some mem) True (Some rx) = (ret, Some rx')"
    and "strm = rx'\<lparr>in_mem := inp, next_in := i, avail_in := n, out_mem := buf, next_out := p, avail_out := m\<rparr>"
    and "mem_read i (unat n) inp = Inr ([0x78, flg] @ body)" and "bytes_bits body = [f, True, False] @ token_bits (Match d l) @ rest"
    and "3 \<le> l" and "l \<le> 258" and "1 \<le> d" and "d \<le> 32768" and "0 < m" and "p + unat m \<le> length buf" and "statics_ok stat"
  shows "inflate stat strm flush = Some (Inl (if d < 32768 then Uninitialised else AssertFail))"
proof -
  obtain s where s: "state strm = Some s" "inf_ready [] [] s" "action s = InfAction_Init"
    using inflateInit_ready(2) [OF assms(1)] assms(2) by auto
  have win: "outputBuf s = snd (Inf_Outbuf_init True)"
    using assms(1,2) s(1) by (auto simp: inflateInit_def Inf_Outbuf_init_def Let_def)
  have ne: "body \<noteq> []" using assms(4) by (cases body) (auto simp: bytes_bits_def)
  have input: "mem_read (next_in strm) (unat (avail_in strm)) (in_mem strm) = Inr ([0x78, flg] @ body)" "inf_input s ([0x78, flg] @ body) body"
    "0 < avail_out strm" "next_out strm + unat (avail_out strm) \<le> length (out_mem strm)"
    using assms ne s(3) by (auto simp: inf_input_def)
  let ?k = "call_of [] strm" and ?r = "run_of stat s strm"
  let ?v = "coded_bits (lit_code fixed_codes) (dist_code fixed_codes) (Match d l) @ rest"
  have we: "c_mem ?k = in_mem strm" "c_to ?k = next_out strm + unat (avail_out strm)" by (simp_all add: call_of_def)
  note run = inflate_run [OF s(1,2) assms(11) input, unfolded assms(4)]
  have "decoding ?k (f # True # False # ?v) [] ?r" using run(1) by (simp add: fixed_codes_def)
  from header_step [OF this run(2)] obtain r1 where r1: "decoding ?k ?v [] r1"
      "inf_switch (c_mem ?k) (c_to ?k) ?r = Inr (inf_goto InfStep_LOAD_FIXED_HUFFMAN_DECODERS r1)"
    by auto
  let ?r1 = "inf_goto InfStep_LOAD_FIXED_HUFFMAN_DECODERS r1"
  have "decoding ?k ?v [] ?r1" using r1(1) by (simp add: decoding_def inf_goto_def)
  moreover have cur1: "cur ?r1 = InfStep_LOAD_FIXED_HUFFMAN_DECODERS" by (simp add: inf_goto_def)
  ultimately obtain r2 where r2: "inf_switch (c_mem ?k) (c_to ?k) ?r1 = Inr r2" "decoding ?k ?v [] r2" "in_block fixed_codes r2"
    using fixed_step by blast
  have "outputBuf (st r2) = outputBuf s"
    using header_window [OF run(2) r1(2)] fixed_window [OF cur1 r2(1)] by (simp add: run_of_def)
  moreover have "writePtr r2 < c_to ?k" using r2(2) input(3) by (simp add: decoding_def call_of_def word_less_nat_alt)
  moreover have "token_coded (lit_symbols fixed_codes) (dist_symbols fixed_codes) (Match d l)"
    using len_index_ok(1) [OF assms(5,6)] dist_index_ok(1) [OF assms(7,8)] by (simp add: fixed_codes_def)
  ultimately have "inf_switch (c_mem ?k) (c_to ?k) r2 = Inl (if d < 32768 then Uninitialised else AssertFail)"
    using match_into_nothing [OF r2(2,3) _ assms(5-8)] win by simp
  moreover have "action (st ?r) = InfAction_ProcessNextChunk" by (simp add: run_of_def)
  moreover have "action (st ?r1) = InfAction_ProcessNextChunk" "action (st r2) = InfAction_ProcessNextChunk"
    using r1(1) r2(2) by (simp_all add: decoding_def inf_goto_def)
  ultimately have "inf_loop (c_mem ?k) (c_to ?k) ?r = Some (Inl (if d < 32768 then Uninitialised else AssertFail))"
    using r1(2) r2(1) by (simp add: inf_loop.simps)
  then show ?thesis using run(3) we by simp
qed

theorem distance_too_far_back_witness:
  "\<exists>rx'. inflateInit (Some junk) True (Some blank) = (Z_OK, Some rx') \<and>
     inflate statics0 (rx'\<lparr>in_mem := [0x78, 0x01, 0x03, 0x02], next_in := 0, avail_in := 4,
       out_mem := [9, 9, 9], next_out := 0, avail_out := 3\<rparr>) Z_FINISH = Some (Inl Uninitialised)"
proof -
  obtain rx' where rx': "inflateInit (Some junk) True (Some blank) = (Z_OK, Some rx')"
    using inflateInit_ready [of junk blank] by (cases "inflateInit (Some junk) True (Some blank)") auto
  have "len_index 3 = 0" "dist_index 1 = 0" by (simp_all add: len_index_def dist_index_def base_index_def len_base_def dist_base_def)
  then have body: "bytes_bits [0x03, 0x02] = [True, True, False] @ token_bits (Match 1 3) @ [False]"
    by (simp add: fixed_lit_code_def fixed_dist_code_def msb_bits_def bits_of_def bytes_bits_def byte_bits_def upt_rec len_extra_def dist_extra_def)
  have "inflate statics0 (rx'\<lparr>in_mem := [0x78, 0x01, 0x03, 0x02], next_in := 0, avail_in := 4,
       out_mem := [9, 9, 9], next_out := 0, avail_out := 3\<rparr>) Z_FINISH = Some (Inl (if (1 :: nat) < 32768 then Uninitialised else AssertFail))"
    by (rule distance_too_far_back [OF rx' refl _ body, where flg = 1]) (simp_all add: mem_read_def statics0_ok)
  then show ?thesis using rx' by simp
qed

section \<open>A header that arrives byte by byte\<close>

text \<open>C34: a header split between two calls. When the first call gets just the first byte of the stream, it returns \<^verbatim>\<open>Z_OK\<close> and has consumed it.
  If the caller goes on with one byte, all is well: that call returns \<^verbatim>\<open>Z_OK\<close> and the inflater waits for the blocks. If the caller goes on with two bytes or
  more, the assertion before the loop fails, since the end of the input is still that of the first call.\<close>

theorem single_first_byte:
  assumes "inflateInit (Some mem) True (Some rx) = (ret, Some rx')"
    and "strm = rx'\<lparr>in_mem := inp, next_in := i, avail_in := 1, out_mem := buf, next_out := p, avail_out := m\<rparr>"
    and "i < length inp" and "inp ! i = 0x78"
  shows "\<exists>strm'. inflate stat strm flush = Some (Inr (Z_OK, stat, strm')) \<and> next_in strm' = i + 1 \<and> avail_in strm' = 0 \<and>
     (\<exists>strm2 s2. inflate stat (strm'\<lparr>avail_in := 1\<rparr>) flush = Some (Inr (Z_OK, stat, strm2)) \<and> next_in strm2 = i + 2 \<and>
        state strm2 = Some s2 \<and> inf_ready [] [] s2 \<and> action s2 = InfAction_FillInputBuffer) \<and>
     (\<forall>n buf p m. 2 \<le> n \<longrightarrow> inflate stat (strm'\<lparr>avail_in := n, out_mem := buf, next_out := p, avail_out := m\<rparr>) flush = Some (Inl AssertFail))"
proof -
  obtain s where s: "state strm = Some s" "inf_ready [] [] s" "action s = InfAction_Init"
    using inflateInit_ready(2) [OF assms(1)] assms(2) by auto
  let ?s = "s\<lparr>bitstream := (bitstream s)\<lparr>inputPtr := i, inputEnd := i + 1\<rparr>, action := InfAction_Feed2ndZlibHeaderByte\<rparr>"
  let ?strm = "strm\<lparr>total_in := 1, next_in := i + 1, avail_in := 0, state := Some ?s\<rparr>"
  have first: "inflate stat strm flush = Some (Inr (Z_OK, stat, ?strm))"
    using s(1,3) assms by (simp add: inflate_def inflate_entry_def Let_def)
  have second: "\<exists>strm2 s2. inflate stat (?strm\<lparr>avail_in := 1\<rparr>) flush = Some (Inr (Z_OK, stat, strm2)) \<and> next_in strm2 = i + 2 \<and>
      state strm2 = Some s2 \<and> inf_ready [] [] s2 \<and> action s2 = InfAction_FillInputBuffer"
    using s(2,3) by (simp add: inflate_def inflate_entry_def Let_def inf_ready_def)
  have "inflate stat (?strm\<lparr>avail_in := n, out_mem := buf, next_out := p, avail_out := m\<rparr>) flush = Some (Inl AssertFail)"
    if "2 \<le> n" for n buf p m
  proof -
    have "n \<noteq> 1" "0 < n" using that by (auto simp: word_le_nat_alt word_less_nat_alt)
    then show ?thesis by (simp add: inflate_def inflate_entry_def Let_def)
  qed
  with first second show ?thesis by (intro exI [of _ ?strm]) simp
qed

theorem single_first_byte_witness:
  "\<exists>rx' strm'. inflateInit (Some junk) True (Some blank) = (Z_OK, Some rx') \<and>
     inflate statics0 (rx'\<lparr>in_mem := [0x78, 0x01, 0x03, 0x00], next_in := 0, avail_in := 1, out_mem := [9], next_out := 0, avail_out := 1\<rparr>) Z_NO_FLUSH =
       Some (Inr (Z_OK, statics0, strm')) \<and>
     inflate statics0 (strm'\<lparr>avail_in := 3, out_mem := [9], next_out := 0, avail_out := 1\<rparr>) Z_NO_FLUSH = Some (Inl AssertFail)"
proof -
  obtain rx' where rx': "inflateInit (Some junk) True (Some blank) = (Z_OK, Some rx')"
    using inflateInit_ready [of junk blank] by (cases "inflateInit (Some junk) True (Some blank)") auto
  show ?thesis
    using single_first_byte [OF rx' refl, where i = 0 and inp = "[0x78, 0x01, 0x03, 0x00]" and buf = "[9]" and p = 0 and m = 1 and stat = statics0
        and flush = Z_NO_FLUSH] rx' by fastforce
qed

end
