(* ===== verification/Thrift_Prelude.thy ===== *)
theory Thrift_Prelude
  imports Muzic_Prelude
begin

text \<open>
  Shared vocabulary of the C++ part: exceptions as values, computations that pass a state and may
  throw, and the assertions of the kernel. The state is whatever the component keeps together with the
  outside world; system calls are parameters of the model.
\<close>

section \<open>Exceptions\<close>

text \<open>The types of \<^verbatim>\<open>TTransportException\<close> that the sources name; \<open>UNKNOWN\<close> stands for the others.\<close>

datatype ttype = UNKNOWN | NOT_OPEN | TIMED_OUT | END_OF_FILE | INTERRUPTED | BAD_ARGS | INTERNAL_ERROR | CLIENT_DISCONNECT

datatype exn =
    TTransportException ttype string int
  | System_error int string
  | Invalid_argument string
  | Abort fault

text \<open>A computation over the state \<open>'s\<close> that returns an \<open>'a\<close> or throws; the state survives a throw.\<close>

type_synonym ('s, 'a) io = "'s \<Rightarrow> (exn + 'a) \<times> 's"

definition ret :: "'a \<Rightarrow> ('s, 'a) io" where
  "ret x s = (Inr x, s)"

definition throw :: "exn \<Rightarrow> ('s, 'a) io" where
  "throw e s = (Inl e, s)"

definition bindE :: "('s, 'a) io \<Rightarrow> ('a \<Rightarrow> ('s, 'b) io) \<Rightarrow> ('s, 'b) io" where
  "bindE m f s = (case m s of (Inl e, s') \<Rightarrow> (Inl e, s') | (Inr x, s') \<Rightarrow> f x s')"

definition catchE :: "('s, 'a) io \<Rightarrow> (exn \<Rightarrow> ('s, 'a) io) \<Rightarrow> ('s, 'a) io" where
  "catchE m h s = (case m s of (Inl e, s') \<Rightarrow> h e s' | (Inr x, s') \<Rightarrow> (Inr x, s'))"

text \<open>A call that cannot throw.\<close>

definition sys :: "('s \<Rightarrow> 'a \<times> 's) \<Rightarrow> ('s, 'a) io" where
  "sys f s = (case f s of (x, s') \<Rightarrow> (Inr x, s'))"

definition get_state :: "('s, 's) io" where
  "get_state s = (Inr s, s)"

definition modify :: "('s \<Rightarrow> 's) \<Rightarrow> ('s, unit) io" where
  "modify f s = (Inr (), f s)"

text \<open>\<^verbatim>\<open>__ASSERT\<close>: checked only in a build with assertions.\<close>

definition zassert :: "bool \<Rightarrow> bool \<Rightarrow> ('s, unit) io" where
  "zassert enabled c = (if enabled \<and> \<not> c then throw (Abort AssertFail) else ret ())"

lemma io_simps [simp]:
  "ret x s = (Inr x, s)"
  "throw e s = (Inl e, s)"
  "get_state s = (Inr s, s)"
  "modify f s = (Inr (), f s)"
  by (simp_all add: ret_def throw_def get_state_def modify_def)

lemma bindE_simps [simp]:
  "m s = (Inl e, s') \<Longrightarrow> bindE m f s = (Inl e, s')"
  "m s = (Inr x, s') \<Longrightarrow> bindE m f s = f x s'"
  by (simp_all add: bindE_def)

lemma catchE_simps [simp]:
  "m s = (Inl e, s') \<Longrightarrow> catchE m h s = h e s'"
  "m s = (Inr x, s') \<Longrightarrow> catchE m h s = (Inr x, s')"
  by (simp_all add: catchE_def)

lemma sys_simp [simp]: "sys f s = (Inr (fst (f s)), snd (f s))"
  by (simp add: sys_def split: prod.splits)

lemma zassert_simps [simp]:
  "c \<Longrightarrow> zassert en c = ret ()" "\<not> c \<Longrightarrow> zassert True c = throw (Abort AssertFail)" "zassert False c = ret ()"
  by (simp_all add: zassert_def)

lemma bindE_Inr: "bindE m f s = (Inr y, s') \<longleftrightarrow> (\<exists>x s1. m s = (Inr x, s1) \<and> f x s1 = (Inr y, s'))"
  by (auto simp: bindE_def split: prod.splits sum.splits)

section \<open>Tame computations\<close>

text \<open>
  A computation that, started where \<open>P\<close> holds, relates the states before and after it by \<open>R\<close>, whatever
  its outcome, and throws only exceptions that satisfy \<open>E\<close>.
\<close>

definition tame :: "('s \<Rightarrow> bool) \<Rightarrow> (exn \<Rightarrow> bool) \<Rightarrow> ('s \<Rightarrow> 's \<Rightarrow> bool) \<Rightarrow> ('s, 'a) io \<Rightarrow> bool" where
  "tame P E R m \<longleftrightarrow> (\<forall>s r s'. P s \<longrightarrow> m s = (r, s') \<longrightarrow> R s s' \<and> (\<forall>e. r = Inl e \<longrightarrow> E e))"

definition frame :: "('s \<Rightarrow> bool) \<Rightarrow> ('s \<Rightarrow> 's \<Rightarrow> bool) \<Rightarrow> bool" where
  "frame P R \<longleftrightarrow> reflp R \<and> transp R \<and> (\<forall>s s'. P s \<longrightarrow> R s s' \<longrightarrow> P s')"

named_theorems tame_intros

lemma tameD: "tame P E R m \<Longrightarrow> P s \<Longrightarrow> m s = (r, s') \<Longrightarrow> R s s' \<and> (\<forall>e. r = Inl e \<longrightarrow> E e)"
  by (simp add: tame_def)

lemma frame_refl: "frame P R \<Longrightarrow> R s s"
  by (simp add: frame_def reflpD)

lemma frame_trans: "frame P R \<Longrightarrow> R s t \<Longrightarrow> R t u \<Longrightarrow> R s u"
  by (meson frame_def transpD)

lemma tame_ret [tame_intros]: "frame P R \<Longrightarrow> tame P E R (ret x)"
  by (simp add: tame_def frame_refl)

lemma tame_get [tame_intros]: "frame P R \<Longrightarrow> tame P E R get_state"
  by (simp add: tame_def frame_refl)

lemma tame_throw [tame_intros]: "frame P R \<Longrightarrow> E e \<Longrightarrow> tame P E R (throw e)"
  by (simp add: tame_def frame_refl)

lemma tame_bind [tame_intros]:
  assumes "frame P R" and "tame P E R m" and "\<And>x. tame P E R (f x)"
  shows "tame P E R (bindE m f)"
  unfolding tame_def
proof (intro allI impI)
  fix s r s'
  assume P: "P s" and run: "bindE m f s = (r, s')"
  obtain r1 s1 where 1: "m s = (r1, s1)" by fastforce
  note m = tameD [OF assms(2) P 1]
  then have P1: "P s1" using assms(1) P by (auto simp: frame_def)
  show "R s s' \<and> (\<forall>e. r = Inl e \<longrightarrow> E e)"
  proof (cases r1)
    case (Inl e)
    then show ?thesis using run 1 m by auto
  next
    case (Inr x)
    then have "f x s1 = (r, s')" using run 1 by simp
    from tameD [OF assms(3) P1 this] m frame_trans [OF assms(1)] show ?thesis by blast
  qed
qed

lemma tame_catch [tame_intros]:
  assumes "frame P R" and "tame P (\<lambda>_. True) R m" and "\<And>e. tame P E R (h e)"
  shows "tame P E R (catchE m h)"
  unfolding tame_def
proof (intro allI impI)
  fix s r s'
  assume P: "P s" and run: "catchE m h s = (r, s')"
  obtain r1 s1 where 1: "m s = (r1, s1)" by fastforce
  note m = tameD [OF assms(2) P 1]
  then have P1: "P s1" using assms(1) P by (auto simp: frame_def)
  show "R s s' \<and> (\<forall>e. r = Inl e \<longrightarrow> E e)"
  proof (cases r1)
    case (Inl e)
    then have "h e s1 = (r, s')" using run 1 by simp
    from tameD [OF assms(3) P1 this] m frame_trans [OF assms(1)] show ?thesis by blast
  next
    case (Inr x)
    then show ?thesis using run 1 m by auto
  qed
qed

lemma tame_if [tame_intros]: "(c \<Longrightarrow> tame P E R a) \<Longrightarrow> (\<not> c \<Longrightarrow> tame P E R b) \<Longrightarrow> tame P E R (if c then a else b)"
  by simp

lemma tame_prod [tame_intros]: "(\<And>a b. tame P E R (f a b)) \<Longrightarrow> tame P E R (case p of (a, b) \<Rightarrow> f a b)"
  by (cases p) simp

section \<open>Bits of C\<close>

text \<open>What \<^verbatim>\<open>printf\<close> makes of an integer with the format \<^verbatim>\<open>%d\<close>.\<close>

fun dec_digits :: "nat \<Rightarrow> string" where
  "dec_digits n = (if n < 10 then [char_of (48 + n)] else dec_digits (n div 10) @ [char_of (48 + n mod 10)])"

declare dec_digits.simps [simp del]

definition dec_string :: "int \<Rightarrow> string" where
  "dec_string i = (if i < 0 then CHR ''-'' # dec_digits (nat (- i)) else dec_digits (nat i))"

lemma dec_digits_length: "n < 10 ^ k \<Longrightarrow> 0 < k \<Longrightarrow> length (dec_digits n) \<le> k"
proof (induction k arbitrary: n)
  case (Suc k)
  show ?case
  proof (cases "n < 10")
    case True
    then show ?thesis by (simp add: dec_digits.simps [of n])
  next
    case False
    then have "0 < k" using Suc.prems by (cases k) auto
    moreover have "n div 10 < 10 ^ k" using Suc.prems by (simp add: less_mult_imp_div_less mult.commute)
    ultimately have "length (dec_digits (n div 10)) \<le> k" using Suc.IH by simp
    then show ?thesis using False by (simp add: dec_digits.simps [of n])
  qed
qed simp

text \<open>The length of a C string.\<close>

definition NUL :: char where "NUL = CHR 0x00"

definition strlen :: "string \<Rightarrow> nat" where
  "strlen s = length (takeWhile (\<lambda>c. c \<noteq> NUL) s)"

lemma strlen_full: "NUL \<notin> set s \<Longrightarrow> strlen s = length s"
  by (induction s) (auto simp: strlen_def)

lemma sint_of_nat_small: "n < 2 ^ 31 \<Longrightarrow> sint (of_nat n :: 32 word) = int n"
  by (simp add: sint_uint unsigned_of_nat take_bit_nat_eq_self signed_take_bit_int_eq_self)

definition INT64_MAX :: int where
  "INT64_MAX = 2 ^ 63 - 1"

end
