(* ===== verification/TFD_Server.thy ===== *)
theory TFD_Server
  imports Thrift_Prelude
begin

text \<open>
  \<^verbatim>\<open>TFDServer.cpp\<close>: a server transport over one file descriptor. Every accepted client is an \<^verbatim>\<open>xport\<close>, a
  transport over the same descriptor with an event descriptor of its own, through which a blocked
  reader is woken up. The POSIX calls are parameters.
\<close>

section \<open>System calls\<close>

datatype pollev = POLLIN | POLLNVAL | POLLOTHER

record 'w fd_calls =
  eventfd_call :: "'w \<Rightarrow> int \<times> 'w"
  poll_call :: "int \<Rightarrow> int \<Rightarrow> 'w \<Rightarrow> (int \<times> pollev list \<times> pollev list) \<times> 'w"
  read_call :: "int \<Rightarrow> u32 \<Rightarrow> 'w \<Rightarrow> (int \<times> u8 list) \<times> 'w"
  write_call :: "int \<Rightarrow> u8 list \<Rightarrow> 'w \<Rightarrow> int \<times> 'w"
  close_call :: "int \<Rightarrow> 'w \<Rightarrow> int \<times> 'w"
  errno_call :: "'w \<Rightarrow> int"

section \<open>\<open>xport\<close>\<close>

record xport =
  x_fd :: int
  x_efd :: int

definition xport_isOpen :: "xport \<Rightarrow> bool" where
  "xport_isOpen x \<longleftrightarrow> x_fd x \<ge> 0 \<and> x_efd x \<ge> 0"

definition xport_new2 :: "bool \<Rightarrow> int \<Rightarrow> int \<Rightarrow> ('w, xport) io" where
  "xport_new2 dbg fd efd =
     bindE (zassert dbg (fd \<ge> 0)) (\<lambda>_.
     bindE (zassert dbg (efd \<ge> 0)) (\<lambda>_.
       ret \<lparr>x_fd = fd, x_efd = efd\<rparr>))"

definition xport_new :: "bool \<Rightarrow> 'w fd_calls \<Rightarrow> int \<Rightarrow> ('w, xport) io" where
  "xport_new dbg os fd = bindE (sys (eventfd_call os)) (\<lambda>efd. xport_new2 dbg fd efd)"

text \<open>Lines 43-65: wait for one of the two descriptors; \<open>None\<close> when the transport is closed.\<close>

definition xport_read_poll :: "'w fd_calls \<Rightarrow> xport \<Rightarrow> ('w, (pollev list \<times> pollev list) option) io" where
  "xport_read_poll os x =
     (if \<not> xport_isOpen x then ret None
      else
        bindE (sys (poll_call os (x_fd x) (x_efd x))) (\<lambda>(r, ev0, ev1).
          if r = -1 then bindE get_state (\<lambda>w. throw (System_error (errno_call os w) ''poll''))
          else ret (Some (ev0, ev1))))"

text \<open>
  Lines 67-88: act on the events. On a failed \<^verbatim>\<open>read\<close> an exception object is constructed but not thrown
  (line 78). The result is the return value and the bytes stored in the caller's buffer.
\<close>

definition xport_read_take :: "bool \<Rightarrow> 'w fd_calls \<Rightarrow> xport \<Rightarrow> u32 \<Rightarrow> pollev list \<Rightarrow> pollev list \<Rightarrow> ('w, u32 \<times> u8 list) io" where
  "xport_read_take dbg os x len ev0 ev1 =
     (if POLLNVAL \<in> set ev0 \<or> POLLNVAL \<in> set ev1 then ret (0, [])
      else if POLLIN \<in> set ev0 then
        bindE (sys (read_call os (x_fd x) len)) (\<lambda>(r, bytes).
        bindE (zassert dbg (r > 0)) (\<lambda>_.
          ret (of_int r, bytes)))
      else
        bindE (zassert dbg (POLLIN \<in> set ev1)) (\<lambda>_. ret (0, [])))"

definition xport_read_virt :: "bool \<Rightarrow> 'w fd_calls \<Rightarrow> xport \<Rightarrow> u32 \<Rightarrow> ('w, u32 \<times> u8 list) io" where
  "xport_read_virt dbg os x len =
     bindE (xport_read_poll os x) (\<lambda>ev.
       case ev of None \<Rightarrow> ret (0, []) | Some (ev0, ev1) \<Rightarrow> xport_read_take dbg os x len ev0 ev1)"

text \<open>
  Lines 97-105. The loop need not end: without assertions a \<^verbatim>\<open>write\<close> that returns 0 is repeated. A result
  beyond the length would move the pointer out of the buffer.
\<close>

partial_function (option) xport_write_loop ::
  "bool \<Rightarrow> 'w fd_calls \<Rightarrow> int \<Rightarrow> u8 list \<Rightarrow> 'w \<Rightarrow> ((exn + unit) \<times> 'w) option" where
  "xport_write_loop dbg os fd buf w =
     (if buf = [] then Some (Inr (), w)
      else
        case write_call os fd buf w of (r, w') \<Rightarrow>
          if r = -1 then Some (Inl (System_error (errno_call os w') ''write''), w')
          else if dbg \<and> \<not> r > 0 then Some (Inl (Abort AssertFail), w')
          else if r < 0 \<or> r > int (length buf) then Some (Inl (Abort OutOfBounds), w')
          else xport_write_loop dbg os fd (drop (nat r) buf) w')"

definition xport_write_virt :: "bool \<Rightarrow> 'w fd_calls \<Rightarrow> xport \<Rightarrow> u8 list \<Rightarrow> 'w \<Rightarrow> ((exn + unit) \<times> 'w) option" where
  "xport_write_virt dbg os x buf w =
     (if \<not> xport_isOpen x then Some (Inl (TTransportException END_OF_FILE [] 0), w)
      else xport_write_loop dbg os (x_fd x) buf w)"

definition xport_close :: "'w fd_calls \<Rightarrow> xport \<Rightarrow> ('w, xport) io" where
  "xport_close os x =
     (if xport_isOpen x then bindE (sys (close_call os (x_efd x))) (\<lambda>_. ret (x\<lparr>x_efd := -1, x_fd := -1\<rparr>))
      else ret x)"

text \<open>The eight bytes of the constant \<^verbatim>\<open>0xb7e\<close>, least significant first.\<close>

definition interrupt_token :: "u8 list" where
  "interrupt_token = [0x7E, 0x0B, 0, 0, 0, 0, 0, 0]"

definition xport_interrupt :: "bool \<Rightarrow> 'w fd_calls \<Rightarrow> xport \<Rightarrow> ('w, xport) io" where
  "xport_interrupt dbg os x =
     (if \<not> xport_isOpen x then ret x
      else
        bindE (sys (write_call os (x_efd x) interrupt_token)) (\<lambda>r.
          if r = -1 then bindE get_state (\<lambda>w. throw (System_error (errno_call os w) ''write''))
          else bindE (zassert dbg (r > 0)) (\<lambda>_. xport_close os x)))"

section \<open>\<open>TFDServer\<close>\<close>

text \<open>
  The accepted transports are objects shared with their users: \<open>xports\<close> is the store of objects,
  \<^verbatim>\<open>children\<close> holds their names in the order of acceptance.
\<close>

record fd_server =
  srv_fd :: int
  children :: "nat list"
  xports :: "xport list"

type_synonym 'w srv = "fd_server \<times> 'w"

definition fds_new :: "int \<Rightarrow> fd_server" where
  "fds_new fd = \<lparr>srv_fd = fd, children = [], xports = []\<rparr>"

definition fds_isOpen :: "fd_server \<Rightarrow> bool" where
  "fds_isOpen s \<longleftrightarrow> srv_fd s \<ge> 0"

text \<open>A computation on the world, run next to the server object.\<close>

definition on_world :: "('w, 'a) io \<Rightarrow> ('w srv, 'a) io" where
  "on_world m = (\<lambda>(s, w). case m w of (r, w') \<Rightarrow> (r, (s, w')))"

definition fds_acceptImpl :: "bool \<Rightarrow> 'w fd_calls \<Rightarrow> ('w srv, nat) io" where
  "fds_acceptImpl dbg os =
     bindE get_state (\<lambda>(s, _).
       if \<not> fds_isOpen s then throw (TTransportException INTERRUPTED [] 0)
       else
         bindE (on_world (xport_new dbg os (srv_fd s))) (\<lambda>x.
         bindE (modify (\<lambda>(s, w). (s\<lparr>xports := xports s @ [x], children := children s @ [length (xports s)]\<rparr>, w))) (\<lambda>_.
           ret (length (xports s)))))"

definition fds_getSocketFD :: "fd_server \<Rightarrow> int" where
  "fds_getSocketFD s = srv_fd s"

definition fds_close :: "('w srv, unit) io" where
  "fds_close = modify (\<lambda>(s, w). (s\<lparr>srv_fd := -1\<rparr>, w))"

definition fds_interrupt :: "('w srv, unit) io" where
  "fds_interrupt = fds_close"

text \<open>The loop of lines 182-185; an exception leaves it.\<close>

fun fds_interrupt_each :: "bool \<Rightarrow> 'w fd_calls \<Rightarrow> nat list \<Rightarrow> ('w srv, unit) io" where
  "fds_interrupt_each dbg os [] = ret ()"
| "fds_interrupt_each dbg os (c # cs) =
     bindE get_state (\<lambda>(s, _).
       if c \<ge> length (xports s) then throw (Abort UseAfterFree)
       else
         bindE (on_world (xport_interrupt dbg os (xports s ! c))) (\<lambda>x.
         bindE (modify (\<lambda>(s, w). (s\<lparr>xports := (xports s)[c := x]\<rparr>, w))) (\<lambda>_.
           fds_interrupt_each dbg os cs)))"

definition fds_interruptChildren :: "bool \<Rightarrow> 'w fd_calls \<Rightarrow> ('w srv, unit) io" where
  "fds_interruptChildren dbg os =
     bindE get_state (\<lambda>(s, _).
     bindE (fds_interrupt_each dbg os (children s)) (\<lambda>_.
       modify (\<lambda>(s, w). (s\<lparr>children := []\<rparr>, w))))"

definition fds_destroy :: "bool \<Rightarrow> 'w fd_calls \<Rightarrow> ('w srv, unit) io" where
  "fds_destroy dbg os = bindE (fds_interruptChildren dbg os) (\<lambda>_. fds_interrupt)"

section \<open>Closing and interrupting a transport\<close>

lemma closed_noop:
  assumes "\<not> xport_isOpen x"
  shows "xport_close os x w = (Inr x, w)" and "xport_interrupt dbg os x w = (Inr x, w)"
    and "xport_read_virt dbg os x len w = (Inr (0, []), w)"
    and "xport_write_virt dbg os x buf w = Some (Inl (TTransportException END_OF_FILE [] 0), w)"
  using assms
  by (simp_all add: xport_close_def xport_interrupt_def xport_read_virt_def xport_read_poll_def xport_write_virt_def)

lemma close_closes: "xport_close os x w = (Inr x', w') \<Longrightarrow> \<not> xport_isOpen x'"
  by (auto simp: xport_close_def xport_isOpen_def bindE_def split: if_splits prod.splits)

lemma close_total: "\<exists>x' w'. xport_close os x w = (Inr x', w') \<and> \<not> xport_isOpen x'"
  by (auto simp: xport_close_def xport_isOpen_def bindE_def)

lemma interrupt_closes: "xport_interrupt dbg os x w = (Inr x', w') \<Longrightarrow> \<not> xport_isOpen x'"
  using close_closes [of os x]
  by (auto simp: xport_interrupt_def bindE_def zassert_def split: if_splits sum.splits prod.splits)

section \<open>The server object\<close>

text \<open>
  Every transport that is still open is registered, so that \<^verbatim>\<open>interruptChildren\<close> reaches it, and is
  registered once.
\<close>

definition fds_wf :: "fd_server \<Rightarrow> bool" where
  "fds_wf s \<longleftrightarrow> distinct (children s) \<and> set (children s) \<subseteq> {..<length (xports s)} \<and>
     (\<forall>i < length (xports s). xport_isOpen (xports s ! i) \<longrightarrow> i \<in> set (children s))"

text \<open>
  What can happen to a server object: its own operations, with whatever outcome, and the operations of
  the users of its transports. Reads and writes do not change the objects.
\<close>

inductive fds_step :: "bool \<Rightarrow> 'w fd_calls \<Rightarrow> 'w srv \<Rightarrow> 'w srv \<Rightarrow> bool" for dbg os where
  accept: "fds_acceptImpl dbg os c = (r, c') \<Longrightarrow> fds_step dbg os c c'"
| close: "fds_close c = (r, c') \<Longrightarrow> fds_step dbg os c c'"
| interrupt: "fds_interrupt c = (r, c') \<Longrightarrow> fds_step dbg os c c'"
| interrupt_children: "fds_interruptChildren dbg os c = (r, c') \<Longrightarrow> fds_step dbg os c c'"
| destroy: "fds_destroy dbg os c = (r, c') \<Longrightarrow> fds_step dbg os c c'"
| user_close: "i < length (xports s) \<Longrightarrow> xport_close os (xports s ! i) w = (Inr x, w') \<Longrightarrow>
     fds_step dbg os (s, w) (s\<lparr>xports := (xports s)[i := x]\<rparr>, w')"
| user_interrupt: "i < length (xports s) \<Longrightarrow> xport_interrupt dbg os (xports s ! i) w = (Inr x, w') \<Longrightarrow>
     fds_step dbg os (s, w) (s\<lparr>xports := (xports s)[i := x]\<rparr>, w')"
| user_io: "fds_step dbg os (s, w) (s, w')"

lemma wf_closed_update:
  assumes "fds_wf s" and "\<not> xport_isOpen x"
  shows "fds_wf (s\<lparr>xports := (xports s)[i := x]\<rparr>)"
  using assms by (cases "i < length (xports s)") (auto simp: fds_wf_def nth_list_update split: if_splits)

lemma accept_cases:
  assumes "fds_acceptImpl dbg os (s, w) = (r, s', w')"
  shows "s' = s \<and> (\<exists>e. r = Inl e) \<or>
     (\<exists>x. s' = s\<lparr>xports := xports s @ [x], children := children s @ [length (xports s)]\<rparr> \<and> r = Inr (length (xports s)))"
  using assms
  by (auto simp: fds_acceptImpl_def on_world_def bindE_def split: if_splits sum.splits prod.splits)

lemma accept_wf:
  assumes "fds_wf s" and "fds_acceptImpl dbg os (s, w) = (r, s', w')"
  shows "fds_wf s'"
  using accept_cases [OF assms(2)] assms(1) by (auto simp: fds_wf_def nth_append less_Suc_eq)

lemma interrupt_each_wf:
  "fds_wf s \<Longrightarrow> fds_interrupt_each dbg os cs (s, w) = (r, s', w') \<Longrightarrow>
     fds_wf s' \<and> children s' = children s \<and> srv_fd s' = srv_fd s \<and> length (xports s') = length (xports s) \<and>
     (\<forall>i. i < length (xports s) \<longrightarrow> \<not> xport_isOpen (xports s ! i) \<longrightarrow> \<not> xport_isOpen (xports s' ! i)) \<and>
     (r = Inr () \<longrightarrow> (\<forall>c \<in> set cs. c < length (xports s) \<and> \<not> xport_isOpen (xports s' ! c)))"
proof (induction cs arbitrary: s w)
  case (Cons c cs)
  show ?case
  proof (cases "c < length (xports s)")
    case True
    obtain r1 w1 where x: "xport_interrupt dbg os (xports s ! c) w = (r1, w1)" by fastforce
    show ?thesis
    proof (cases r1)
      case (Inl e)
      with Cons.prems True x show ?thesis by (auto simp: bindE_def on_world_def)
    next
      case (Inr x')
      let ?s = "s\<lparr>xports := (xports s)[c := x']\<rparr>"
      have no: "\<not> xport_isOpen x'" using interrupt_closes [of dbg os "xports s ! c" w] x Inr by simp
      have "fds_interrupt_each dbg os cs (?s, w1) = (r, s', w')"
        using Cons.prems(2) True x Inr by (simp add: bindE_def on_world_def)
      from Cons.IH [OF wf_closed_update [OF Cons.prems(1) no] this] True no show ?thesis
        by (auto simp: nth_list_update split: if_splits)
    qed
  qed (use Cons.prems in \<open>auto simp: bindE_def\<close>)
qed auto

lemma interruptChildren_wf:
  assumes "fds_wf s" and "fds_interruptChildren dbg os (s, w) = (r, s', w')"
  shows "fds_wf s'" and "srv_fd s' = srv_fd s" and "length (xports s') = length (xports s)"
    and "r = Inr () \<Longrightarrow> children s' = [] \<and> (\<forall>i < length (xports s'). \<not> xport_isOpen (xports s' ! i))"
proof -
  obtain r1 s1 w1 where 1: "fds_interrupt_each dbg os (children s) (s, w) = (r1, s1, w1)" by (metis prod_cases3)
  note e = interrupt_each_wf [OF assms(1) 1]
  have eq: "(r, s', w') = (case r1 of Inl e \<Rightarrow> (Inl e, s1, w1) | Inr _ \<Rightarrow> (Inr (), s1\<lparr>children := []\<rparr>, w1))"
    using assms(2) 1 by (auto simp: fds_interruptChildren_def bindE_def split: sum.splits)
  have closed: "\<forall>i < length (xports s1). \<not> xport_isOpen (xports s1 ! i)" if "r1 = Inr ()"
  proof -
    have "fds_wf s1" "children s1 = children s" "\<forall>c \<in> set (children s). \<not> xport_isOpen (xports s1 ! c)" using e that by blast+
    then show ?thesis unfolding fds_wf_def by metis
  qed
  have "fds_wf s1" using e by blast
  then show "fds_wf s'" using eq closed by (cases r1) (auto simp: fds_wf_def)
  show "srv_fd s' = srv_fd s" "length (xports s') = length (xports s)" using eq e by (cases r1; simp)+
  show "r = Inr () \<Longrightarrow> children s' = [] \<and> (\<forall>i < length (xports s'). \<not> xport_isOpen (xports s' ! i))"
    using eq closed by (cases r1) auto
qed

lemma wf_srv_fd [simp]: "fds_wf (s\<lparr>srv_fd := n\<rparr>) = fds_wf s"
  by (simp add: fds_wf_def)

lemma fds_step_wf:
  assumes "fds_step dbg os c c'" and "fds_wf (fst c)"
  shows "fds_wf (fst c')"
  using assms
proof (induction rule: fds_step.induct)
  case (accept c r c')
  then show ?case using accept_wf by (cases c; cases c') fastforce
next
  case (interrupt_children c r c')
  then show ?case using interruptChildren_wf(1) by (cases c; cases c') fastforce
next
  case (destroy c r c')
  obtain s w where c: "c = (s, w)" by fastforce
  obtain r1 s1 w1 where 1: "fds_interruptChildren dbg os (s, w) = (r1, s1, w1)" by (metis prod_cases3)
  then have "fds_wf s1" using interruptChildren_wf(1) destroy c by fastforce
  moreover have "fst c' = s1 \<or> fst c' = s1\<lparr>srv_fd := -1\<rparr>"
    using destroy(1) 1 by (auto simp: c fds_destroy_def bindE_def fds_interrupt_def fds_close_def split: sum.splits)
  ultimately show ?case by auto
next
  case (user_close i s w x w')
  then show ?case using wf_closed_update close_closes by fastforce
next
  case (user_interrupt i s w x w')
  then show ?case using wf_closed_update interrupt_closes by fastforce
qed (auto simp: fds_close_def fds_interrupt_def)

lemma fds_steps_wf: "(fds_step dbg os)\<^sup>*\<^sup>* c c' \<Longrightarrow> fds_wf (fst c) \<Longrightarrow> fds_wf (fst c')"
  by (induction rule: rtranclp_induct) (auto dest: fds_step_wf)

lemma fds_new_wf: "fds_wf (fds_new fd)"
  by (simp add: fds_wf_def fds_new_def)

text \<open>No operation reopens the server.\<close>

lemma fds_step_stays_shut:
  assumes "fds_step dbg os c c'" and "\<not> fds_isOpen (fst c)" and "fds_wf (fst c)"
  shows "\<not> fds_isOpen (fst c')"
  using assms
proof (induction rule: fds_step.induct)
  case (accept c r c')
  obtain s w s' w' where c: "c = (s, w)" "c' = (s', w')" by fastforce
  then show ?case using accept by (simp add: fds_acceptImpl_def bindE_def)
next
  case (interrupt_children c r c')
  then show ?case using interruptChildren_wf(2) by (cases c; cases c') (fastforce simp: fds_isOpen_def)
next
  case (destroy c r c')
  obtain s w where c: "c = (s, w)" by fastforce
  obtain r1 s1 w1 where 1: "fds_interruptChildren dbg os (s, w) = (r1, s1, w1)" by (metis prod_cases3)
  then have "srv_fd s1 = srv_fd s" using interruptChildren_wf(2) destroy(3) c by fastforce
  moreover have "fst c' = s1 \<or> fst c' = s1\<lparr>srv_fd := -1\<rparr>"
    using destroy(1) 1 by (auto simp: c fds_destroy_def bindE_def fds_interrupt_def fds_close_def split: sum.splits)
  ultimately show ?case using destroy(2) c by (auto simp: fds_isOpen_def)
qed (auto simp: fds_close_def fds_interrupt_def fds_isOpen_def)

lemma fds_steps_stay_shut:
  assumes "(fds_step dbg os)\<^sup>*\<^sup>* c c'" and "\<not> fds_isOpen (fst c)" and "fds_wf (fst c)"
  shows "\<not> fds_isOpen (fst c')"
  using assms by (induction rule: rtranclp_induct) (auto dest: fds_step_stays_shut fds_steps_wf)

section \<open>Interrupting all clients\<close>

text \<open>What an event descriptor does: a write to it succeeds.\<close>

definition event_writes :: "'w fd_calls \<Rightarrow> bool" where
  "event_writes os \<longleftrightarrow> (\<forall>fd w. fst (write_call os fd interrupt_token w) > 0)"

text \<open>An observation of the world that records the descriptors closed so far.\<close>

definition logs_closes :: "'w fd_calls \<Rightarrow> ('w \<Rightarrow> int list) \<Rightarrow> bool" where
  "logs_closes os closed \<longleftrightarrow>
     (\<forall>fd w. closed (snd (close_call os fd w)) = closed w @ [fd]) \<and> (\<forall>fd b w. closed (snd (write_call os fd b w)) = closed w)"

lemma interrupt_logged:
  assumes "event_writes os" and "logs_closes os closed"
  shows "\<exists>x' w'. xport_interrupt dbg os x w = (Inr x', w') \<and>
     closed w' = closed w @ (if xport_isOpen x then [x_efd x] else [])"
proof -
  obtain r1 w1 where r1: "write_call os (x_efd x) interrupt_token w = (r1, w1)" by fastforce
  have "r1 > 0" "closed w1 = closed w" using assms r1 by (auto simp: event_writes_def logs_closes_def dest: spec) (metis fst_conv snd_conv)+
  then show ?thesis
    using r1 assms(2) by (auto simp: xport_interrupt_def xport_close_def bindE_def logs_closes_def)
qed

lemma interrupt_each_logged:
  assumes "event_writes os" and "logs_closes os closed" and "distinct cs" and "set cs \<subseteq> {..<length (xports s)}"
  shows "\<exists>s' w'. fds_interrupt_each dbg os cs (s, w) = (Inr (), s', w') \<and>
     closed w' = closed w @ map x_efd (filter xport_isOpen (map (\<lambda>c. xports s ! c) cs))"
  using assms(3,4)
proof (induction cs arbitrary: s w)
  case (Cons c cs)
  obtain x' w1 where 1: "xport_interrupt dbg os (xports s ! c) w = (Inr x', w1)"
     "closed w1 = closed w @ (if xport_isOpen (xports s ! c) then [x_efd (xports s ! c)] else [])"
    using interrupt_logged [OF assms(1,2)] by blast
  let ?s = "s\<lparr>xports := (xports s)[c := x']\<rparr>"
  obtain s' w' where 2: "fds_interrupt_each dbg os cs (?s, w1) = (Inr (), s', w')"
     "closed w' = closed w1 @ map x_efd (filter xport_isOpen (map (\<lambda>c. xports ?s ! c) cs))"
    using Cons.IH [of ?s w1] Cons.prems by auto
  have same: "map (\<lambda>c. xports ?s ! c) cs = map (\<lambda>c. xports s ! c) cs" using Cons.prems(1) by (auto intro!: nth_list_update_neq)
  show ?case using 1 2(1) 2(2) [unfolded same] Cons.prems(2) by (auto simp: bindE_def on_world_def)
qed simp

section \<open>Properties\<close>

text \<open>A small world for the examples: descriptor 7 takes three bytes at a time, descriptor -1 is invalid.\<close>

record small_world =
  sw_sent :: "u8 list"
  sw_closed :: "int list"
  sw_next :: int

definition small_os :: "small_world fd_calls" where
  "small_os = \<lparr>eventfd_call = (\<lambda>w. (sw_next w, w\<lparr>sw_next := sw_next w + 1\<rparr>)),
     poll_call = (\<lambda>a b w. ((1, [POLLIN], []), w)),
     read_call = (\<lambda>fd n w. if fd < 0 then ((-1, []), w) else ((2, [1, 2]), w)),
     write_call = (\<lambda>fd bs w. if fd = 7 then (min 3 (int (length bs)), w\<lparr>sw_sent := sw_sent w @ take 3 bs\<rparr>) else (8, w)),
     close_call = (\<lambda>fd w. (0, w\<lparr>sw_closed := sw_closed w @ [fd]\<rparr>)),
     errno_call = (\<lambda>w. 5)\<rparr>"

definition small_start :: small_world where
  "small_start = \<lparr>sw_sent = [], sw_closed = [], sw_next = 10\<rparr>"

text \<open>
  What \<^verbatim>\<open>write\<close> does on the descriptor: it fails, or takes a nonempty prefix of the bytes offered and
  appends it to what the peer sees.
\<close>

definition writes_prefix :: "'w fd_calls \<Rightarrow> int \<Rightarrow> ('w \<Rightarrow> u8 list) \<Rightarrow> bool" where
  "writes_prefix os fd sent \<longleftrightarrow>
     (\<forall>bs w r w'. bs \<noteq> [] \<longrightarrow> write_call os fd bs w = (r, w') \<longrightarrow>
        r = -1 \<and> sent w' = sent w \<or> 1 \<le> r \<and> r \<le> int (length bs) \<and> sent w' = sent w @ take (nat r) bs)"

lemma write_loop_all:
  assumes "writes_prefix os fd sent"
  shows "\<exists>r w'. xport_write_loop dbg os fd buf w = Some (r, w') \<and>
     (r = Inr () \<and> sent w' = sent w @ buf \<or> (\<exists>n w1. n < length buf \<and> r = Inl (System_error (errno_call os w1) ''write'') \<and> sent w' = sent w @ take n buf))"
proof (induction "length buf" arbitrary: buf w rule: less_induct)
  case less
  show ?case
  proof (cases "buf = []")
    case False
    obtain r w1 where 1: "write_call os fd buf w = (r, w1)" by fastforce
    from assms False 1 consider "r = -1" "sent w1 = sent w" | "1 \<le> r" "r \<le> int (length buf)" "sent w1 = sent w @ take (nat r) buf"
      unfolding writes_prefix_def by blast
    then show ?thesis
    proof cases
      case 1
      then show ?thesis
        using False \<open>write_call os fd buf w = (r, w1)\<close>
        by (subst xport_write_loop.simps) (auto intro!: exI [of _ 0])
    next
      case 2
      have "length (drop (nat r) buf) < length buf" using 2 False by simp
      from less [OF this, of w1] obtain r' w' where
        IH: "xport_write_loop dbg os fd (drop (nat r) buf) w1 = Some (r', w')"
          "r' = Inr () \<and> sent w' = sent w1 @ drop (nat r) buf \<or>
           (\<exists>n w1'. n < length (drop (nat r) buf) \<and> r' = Inl (System_error (errno_call os w1') ''write'') \<and> sent w' = sent w1 @ take n (drop (nat r) buf))"
        by blast
      have "xport_write_loop dbg os fd buf w = Some (r', w')"
        using False 1 2 IH(1) by (subst xport_write_loop.simps) simp
      moreover have "r' = Inr () \<and> sent w' = sent w @ buf \<or>
          (\<exists>n w1. n < length buf \<and> r' = Inl (System_error (errno_call os w1) ''write'') \<and> sent w' = sent w @ take n buf)"
        using IH(2)
      proof
        assume "\<exists>n w1'. n < length (drop (nat r) buf) \<and> r' = Inl (System_error (errno_call os w1') ''write'') \<and>
          sent w' = sent w1 @ take n (drop (nat r) buf)"
        then obtain n w1' where n: "n < length (drop (nat r) buf)" "r' = Inl (System_error (errno_call os w1') ''write'')"
          "sent w' = sent w1 @ take n (drop (nat r) buf)" by blast
        have "sent w' = sent w @ take (nat r + n) buf" using n(3) 2(3) by (simp add: take_add)
        then show ?thesis using n(1,2) 2(2) by (intro disjI2 exI [of _ "nat r + n"] exI [of _ w1']) auto
      qed (use 2(3) in simp)
      ultimately show ?thesis by blast
    qed
  qed (simp add: xport_write_loop.simps)
qed

text \<open>C22: writing. Whatever pieces the kernel accepts, \<^verbatim>\<open>write_virt\<close> on an open transport comes back, and
  either every byte of the buffer has been delivered, in order and once, or a \<^verbatim>\<open>write\<close> failed, the
  exception reports it, and a proper prefix of the buffer has been delivered.\<close>

theorem xport_write_delivers:
  assumes "xport_isOpen x" and "writes_prefix os (x_fd x) sent"
  shows "\<exists>r w'. xport_write_virt dbg os x buf w = Some (r, w') \<and>
     (r = Inr () \<and> sent w' = sent w @ buf \<or>
      (\<exists>n w1. n < length buf \<and> r = Inl (System_error (errno_call os w1) ''write'') \<and> sent w' = sent w @ take n buf))"
  using write_loop_all [OF assms(2)] assms(1) by (simp add: xport_write_virt_def)

lemma xport_write_delivers_witness:
  "\<exists>w'. xport_write_virt True small_os \<lparr>x_fd = 7, x_efd = 9\<rparr> [1, 2, 3, 4, 5, 6, 7] small_start = Some (Inr (), w') \<and>
     sw_sent w' = [1, 2, 3, 4, 5, 6, 7]"
proof -
  have "writes_prefix small_os 7 sw_sent"
    unfolding writes_prefix_def by (auto simp: small_os_def min_def Suc_le_eq)
  then have "\<exists>r w'. xport_write_virt True small_os \<lparr>x_fd = 7, x_efd = 9\<rparr> [1, 2, 3, 4, 5, 6, 7] small_start = Some (r, w') \<and>
     (r = Inr () \<and> sw_sent w' = sw_sent small_start @ [1, 2, 3, 4, 5, 6, 7] \<or>
      (\<exists>n w1. n < length [1, 2, 3, 4, 5, 6, 7 :: u8] \<and> r = Inl (System_error (errno_call small_os w1) ''write'') \<and>
        sw_sent w' = sw_sent small_start @ take n [1, 2, 3, 4, 5, 6, 7]))"
    by (intro xport_write_delivers) (simp_all add: xport_isOpen_def)
  moreover have "\<exists>w'. xport_write_virt True small_os \<lparr>x_fd = 7, x_efd = 9\<rparr> [1, 2, 3, 4, 5, 6, 7] small_start = Some (Inr (), w')"
    by (simp add: xport_write_virt_def xport_isOpen_def small_os_def xport_write_loop.simps)
  ultimately show ?thesis by (auto simp: small_start_def)
qed

text \<open>C23: stopping. In every state a server object can get into, whatever its users have done with their
  transports, a call of \<^verbatim>\<open>interruptChildren\<close> on descriptors that accept the wake-up token succeeds, closes
  the event descriptor of every transport that was still open, each once and in the order of
  acceptance, and leaves no transport open: from then on a read of any of them returns 0 and a write
  throws \<^verbatim>\<open>END_OF_FILE\<close>, without a system call.\<close>

theorem interruptChildren_reaches_all:
  assumes "(fds_step dbg os)\<^sup>*\<^sup>* (fds_new fd, w0) (s, w)" and "event_writes os" and "logs_closes os closed"
  shows "\<exists>s' w'. fds_interruptChildren dbg os (s, w) = (Inr (), s', w') \<and> children s' = [] \<and> srv_fd s' = srv_fd s \<and>
     closed w' = closed w @ map x_efd (filter xport_isOpen (map (\<lambda>c. xports s ! c) (children s))) \<and>
     (\<forall>x \<in> set (xports s'). \<forall>len buf w. xport_read_virt dbg os x len w = (Inr (0, []), w) \<and>
        xport_write_virt dbg os x buf w = Some (Inl (TTransportException END_OF_FILE [] 0), w))"
proof -
  have wf: "fds_wf s" using fds_steps_wf [OF assms(1)] fds_new_wf by simp
  obtain s1 w' where 1: "fds_interrupt_each dbg os (children s) (s, w) = (Inr (), s1, w')"
     "closed w' = closed w @ map x_efd (filter xport_isOpen (map (\<lambda>c. xports s ! c) (children s)))"
    using interrupt_each_logged [OF assms(2,3), of "children s" s dbg w] wf by (auto simp: fds_wf_def)
  let ?s = "s1\<lparr>children := []\<rparr>"
  have run: "fds_interruptChildren dbg os (s, w) = (Inr (), ?s, w')"
    using 1(1) by (simp add: fds_interruptChildren_def bindE_def)
  have "\<forall>x \<in> set (xports ?s). \<not> xport_isOpen x"
    using interruptChildren_wf(4) [OF wf run] by (auto simp: in_set_conv_nth)
  with run 1(2) interruptChildren_wf(2) [OF wf run] show ?thesis
    by (intro exI [of _ ?s] exI [of _ w']) (simp add: closed_noop)
qed

lemma interruptChildren_reaches_all_witness:
  "\<exists>s w s' w'. fds_acceptImpl True small_os (fds_new 7, small_start) = (Inr 0, s, w) \<and>
     fds_interruptChildren True small_os (s, w) = (Inr (), s', w') \<and> sw_closed w' = [10] \<and> children s' = []"
proof -
  let ?s = "\<lparr>srv_fd = 7, children = [0], xports = [\<lparr>x_fd = 7, x_efd = 10\<rparr>]\<rparr>"
  let ?w = "\<lparr>sw_sent = [], sw_closed = [], sw_next = 11\<rparr>"
  have a: "fds_acceptImpl True small_os (fds_new 7, small_start) = (Inr 0, ?s, ?w)"
    by (simp add: fds_acceptImpl_def bindE_def fds_isOpen_def fds_new_def on_world_def xport_new_def xport_new2_def
        small_os_def small_start_def)
  then have "(fds_step True small_os)\<^sup>*\<^sup>* (fds_new 7, small_start) (?s, ?w)"
    by (intro r_into_rtranclp fds_step.accept)
  moreover have "event_writes small_os" by (simp add: event_writes_def small_os_def interrupt_token_def)
  moreover have "logs_closes small_os sw_closed" by (simp add: logs_closes_def small_os_def)
  ultimately obtain s' w' where "fds_interruptChildren True small_os (?s, ?w) = (Inr (), s', w')" "children s' = []"
     "sw_closed w' = sw_closed ?w @ map x_efd (filter xport_isOpen (map (\<lambda>c. xports ?s ! c) (children ?s)))"
    using interruptChildren_reaches_all [of True small_os 7 small_start ?s ?w sw_closed] by blast
  with a show ?thesis by (auto simp: xport_isOpen_def)
qed

text \<open>C24: after \<^verbatim>\<open>interrupt\<close> or \<^verbatim>\<open>close\<close> the server never accepts again: in every later state
  \<^verbatim>\<open>acceptImpl\<close> throws \<^verbatim>\<open>INTERRUPTED\<close> and changes nothing.\<close>

theorem interrupted_server_refuses:
  assumes "(fds_step dbg os)\<^sup>*\<^sup>* (fds_new fd, w0) c" and "fds_interrupt c = (Inr (), c1)" and "(fds_step dbg os)\<^sup>*\<^sup>* c1 c2"
  shows "fds_acceptImpl dbg os c2 = (Inl (TTransportException INTERRUPTED [] 0), c2)"
proof -
  have "fds_wf (fst c)" using fds_steps_wf [OF assms(1)] fds_new_wf by simp
  then have "fds_wf (fst c1)" "\<not> fds_isOpen (fst c1)"
    using assms(2) by (auto simp: fds_interrupt_def fds_close_def fds_isOpen_def split: prod.splits)
  then have "\<not> fds_isOpen (fst c2)" using fds_steps_stay_shut [OF assms(3)] by blast
  then show ?thesis by (cases c2) (simp add: fds_acceptImpl_def bindE_def)
qed

lemma interrupted_server_refuses_witness:
  "fds_acceptImpl True small_os ((fds_new 7)\<lparr>srv_fd := -1\<rparr>, small_start) =
     (Inl (TTransportException INTERRUPTED [] 0), ((fds_new 7)\<lparr>srv_fd := -1\<rparr>, small_start))"
  by (rule interrupted_server_refuses [of True small_os 7 small_start "(fds_new 7, small_start)", OF rtranclp.rtrancl_refl _
        rtranclp.rtrancl_refl]) (simp add: fds_interrupt_def fds_close_def)

text \<open>C39: a failed \<^verbatim>\<open>read\<close> is not reported. When the descriptor is readable but \<^verbatim>\<open>read\<close> returns -1, \<^verbatim>\<open>read_virt\<close>
  never throws the system error it constructs: with assertions the program aborts, without them the
  caller is told that 4294967295 bytes were read, though none were.\<close>

theorem xport_read_failure_unreported:
  assumes "xport_isOpen x" and "poll_call os (x_fd x) (x_efd x) w = ((r, ev0, ev1), w1)" and "r \<noteq> -1"
    and "POLLIN \<in> set ev0" and "POLLNVAL \<notin> set ev0" and "POLLNVAL \<notin> set ev1"
    and "read_call os (x_fd x) len w1 = ((-1, bytes), w2)"
  shows "xport_read_virt dbg os x len w =
     ((if dbg then Inl (Abort AssertFail) else Inr (0xFFFFFFFF, bytes)), w2)"
  using assms by (simp add: xport_read_virt_def xport_read_poll_def xport_read_take_def bindE_def zassert_def)

definition broken_os :: "small_world fd_calls" where
  "broken_os = small_os\<lparr>read_call := (\<lambda>fd n w. ((-1, []), w))\<rparr>"

lemma xport_read_failure_unreported_witness:
  "xport_read_virt False broken_os \<lparr>x_fd = 7, x_efd = 9\<rparr> 4 small_start = (Inr (0xFFFFFFFF, []), small_start)"
  using xport_read_failure_unreported [of "\<lparr>x_fd = 7, x_efd = 9\<rparr>" broken_os small_start 1 "[POLLIN]" "[]" small_start 4 "[]"
      small_start False]
  by (simp add: xport_isOpen_def broken_os_def small_os_def)

text \<open>A race. If another thread interrupts the transport after the reader's \<^verbatim>\<open>poll\<close> has reported data
  and before its \<^verbatim>\<open>read\<close>, the reader goes on with the descriptor -1 that the interrupt left behind. The
  read fails and, the failure being unreported, the reader aborts or returns 4294967295 instead of 0.\<close>

theorem interrupt_races_with_read:
  assumes "xport_read_poll os x w = (Inr (Some (ev0, ev1)), w1)" and "POLLIN \<in> set ev0" and "POLLNVAL \<notin> set ev0 \<union> set ev1"
    and "xport_interrupt dbg os x w1 = (Inr x', w2)" and "read_call os (-1) len w2 = ((-1, []), w3)"
  shows "xport_read_take dbg os x' len ev0 ev1 w2 =
     ((if dbg then Inl (Abort AssertFail) else Inr (0xFFFFFFFF, [])), w3)"
proof -
  have "xport_isOpen x" using assms(1) by (auto simp: xport_read_poll_def split: if_splits)
  then have "x_fd x' = -1"
    using assms(4) by (auto simp: xport_interrupt_def xport_close_def bindE_def zassert_def split: if_splits)
  then show ?thesis using assms(2,3,5) by (simp add: xport_read_take_def bindE_def zassert_def)
qed

lemma interrupt_races_with_read_witness:
  "\<exists>x' w2. xport_interrupt True small_os \<lparr>x_fd = 7, x_efd = 9\<rparr> small_start = (Inr x', w2) \<and>
     xport_read_take True small_os x' 4 [POLLIN] [] w2 = (Inl (Abort AssertFail), w2)"
proof -
  let ?x = "\<lparr>x_fd = 7, x_efd = 9\<rparr>"
  have i: "xport_interrupt True small_os ?x small_start = (Inr \<lparr>x_fd = -1, x_efd = -1\<rparr>, small_start\<lparr>sw_closed := [9]\<rparr>)"
    by (simp add: xport_interrupt_def xport_close_def bindE_def xport_isOpen_def small_os_def small_start_def)
  have "xport_read_poll small_os ?x small_start = (Inr (Some ([POLLIN], [])), small_start)"
    by (simp add: xport_read_poll_def xport_isOpen_def small_os_def bindE_def)
  from interrupt_races_with_read [OF this _ _ i, of 4 "small_start\<lparr>sw_closed := [9]\<rparr>"] i show ?thesis
    by (simp add: small_os_def)
qed

end
