(* ===== verification/Server_Framework.thy ===== *)
theory Server_Framework
  imports TFD_Server
begin

text \<open>
  \<^verbatim>\<open>TServer.h\<close> and \<^verbatim>\<open>TServerFramework.cpp\<close>: the common serve loop of the servers and the accounting of
  connected clients. The transports, factories, protocols and the processor are objects behind
  interfaces: handles (\<open>None\<close> is a null pointer) and the calls on them as parameters. The monitor of the
  original Thrift code is commented out in this port; what other threads do while the loop spins is a
  parameter, too.
\<close>

section \<open>\<open>TServer\<close>\<close>

type_synonym ptr = "nat option"

record tserver =
  processorFactory :: ptr
  serverTransport :: ptr
  inputTransportFactory :: ptr
  outputTransportFactory :: ptr
  inputProtocolFactory :: ptr
  outputProtocolFactory :: ptr
  eventHandler :: ptr

definition setInputTransportFactory :: "ptr \<Rightarrow> tserver \<Rightarrow> tserver" where
  "setInputTransportFactory f s = s\<lparr>inputTransportFactory := f\<rparr>"

definition setOutputTransportFactory :: "ptr \<Rightarrow> tserver \<Rightarrow> tserver" where
  "setOutputTransportFactory f s = s\<lparr>outputTransportFactory := f\<rparr>"

definition setInputProtocolFactory :: "ptr \<Rightarrow> tserver \<Rightarrow> tserver" where
  "setInputProtocolFactory f s = s\<lparr>inputProtocolFactory := f\<rparr>"

definition setOutputProtocolFactory :: "ptr \<Rightarrow> tserver \<Rightarrow> tserver" where
  "setOutputProtocolFactory f s = s\<lparr>outputProtocolFactory := f\<rparr>"

definition setServerEventHandler :: "ptr \<Rightarrow> tserver \<Rightarrow> tserver" where
  "setServerEventHandler h s = s\<lparr>eventHandler := h\<rparr>"

definition getProcessorFactory :: "tserver \<Rightarrow> ptr" where
  "getProcessorFactory s = processorFactory s"

definition getServerTransport :: "tserver \<Rightarrow> ptr" where
  "getServerTransport s = serverTransport s"

definition getInputTransportFactory :: "tserver \<Rightarrow> ptr" where
  "getInputTransportFactory s = inputTransportFactory s"

definition getOutputTransportFactory :: "tserver \<Rightarrow> ptr" where
  "getOutputTransportFactory s = outputTransportFactory s"

definition getInputProtocolFactory :: "tserver \<Rightarrow> ptr" where
  "getInputProtocolFactory s = inputProtocolFactory s"

definition getOutputProtocolFactory :: "tserver \<Rightarrow> ptr" where
  "getOutputProtocolFactory s = outputProtocolFactory s"

definition getEventHandler :: "tserver \<Rightarrow> ptr" where
  "getEventHandler s = eventHandler s"

text \<open>What the processor factory is told about a connection.\<close>

record TConnectionInfo =
  ci_input :: nat
  ci_output :: nat
  ci_transport :: nat

definition getProcessor :: "(TConnectionInfo \<Rightarrow> ('w, nat) io) \<Rightarrow> nat \<Rightarrow> nat \<Rightarrow> nat \<Rightarrow> ('w, nat) io" where
  "getProcessor factory inputProtocol outputProtocol transport =
     factory \<lparr>ci_input = inputProtocol, ci_output = outputProtocol, ci_transport = transport\<rparr>"

text \<open>The event handler of the base class: its methods do nothing and it has no context.\<close>

definition TServerEventHandler_preServe :: "('w, unit) io" where
  "TServerEventHandler_preServe = ret ()"

definition TServerEventHandler_createContext :: "nat \<Rightarrow> nat \<Rightarrow> ('w, ptr) io" where
  "TServerEventHandler_createContext input output = ret None"

definition TServerEventHandler_deleteContext :: "ptr \<Rightarrow> nat \<Rightarrow> nat \<Rightarrow> ('w, unit) io" where
  "TServerEventHandler_deleteContext serverContext input output = ret ()"

definition TServerEventHandler_processContext :: "ptr \<Rightarrow> nat \<Rightarrow> ('w, unit) io" where
  "TServerEventHandler_processContext serverContext transport = ret ()"

text \<open>
  The constructors with a processor factory and with or without a transport make factories of their
  own; the arguments \<open>itf\<close>, \<open>otf\<close>, \<open>ipf\<close> and \<open>opf\<close> are the new objects. The constructors that take a processor
  differ in the first argument only, a \<^verbatim>\<open>TSingletonProcessorFactory\<close> for the processor.
\<close>

definition TServer2 :: "ptr \<Rightarrow> ptr \<Rightarrow> nat \<Rightarrow> nat \<Rightarrow> nat \<Rightarrow> nat \<Rightarrow> tserver" where
  "TServer2 pf st itf otf ipf opf =
     setOutputProtocolFactory (Some opf) (setInputProtocolFactory (Some ipf)
       (setOutputTransportFactory (Some otf) (setInputTransportFactory (Some itf)
         \<lparr>processorFactory = pf, serverTransport = st, inputTransportFactory = None, outputTransportFactory = None,
          inputProtocolFactory = None, outputProtocolFactory = None, eventHandler = None\<rparr>)))"

definition TServer1 :: "ptr \<Rightarrow> nat \<Rightarrow> nat \<Rightarrow> nat \<Rightarrow> nat \<Rightarrow> tserver" where
  "TServer1 pf itf otf ipf opf = TServer2 pf None itf otf ipf opf"

text \<open>The constructor with one factory per direction, and the one with the same factory for both.\<close>

definition TServer6 :: "ptr \<Rightarrow> ptr \<Rightarrow> ptr \<Rightarrow> ptr \<Rightarrow> ptr \<Rightarrow> ptr \<Rightarrow> tserver" where
  "TServer6 pf st itf otf ipf opf =
     \<lparr>processorFactory = pf, serverTransport = st, inputTransportFactory = itf, outputTransportFactory = otf,
      inputProtocolFactory = ipf, outputProtocolFactory = opf, eventHandler = None\<rparr>"

definition TServer4 :: "ptr \<Rightarrow> ptr \<Rightarrow> ptr \<Rightarrow> ptr \<Rightarrow> tserver" where
  "TServer4 pf st tf prf =
     \<lparr>processorFactory = pf, serverTransport = st, inputTransportFactory = tf, outputTransportFactory = tf,
      inputProtocolFactory = prf, outputProtocolFactory = prf, eventHandler = None\<rparr>"

section \<open>State of \<open>TServerFramework\<close>\<close>

text \<open>
  The counters, the local pointers of \<^verbatim>\<open>serve\<close> that its exception handler looks at, and the world the
  objects live in. The counters are \<^verbatim>\<open>int64_t\<close>; they stay in range, as shown below.
\<close>

record 'w fw =
  clients :: int
  hwm :: int
  limit :: int
  l_client :: ptr
  l_in :: ptr
  l_out :: ptr
  world :: 'w

record 'w fw_env =
  srv :: tserver
  listen_call :: "('w, unit) io"
  preServe_call :: "('w, unit) io"
  accept_call :: "('w, nat) io"
  inTransport_call :: "nat \<Rightarrow> ('w, nat) io"
  outTransport_call :: "nat \<Rightarrow> ('w, nat) io"
  bothProtocol_call :: "nat \<Rightarrow> nat \<Rightarrow> ('w, nat) io"
  inProtocol_call :: "nat \<Rightarrow> ('w, nat) io"
  outProtocol_call :: "nat \<Rightarrow> ('w, nat) io"
  processor_call :: "TConnectionInfo \<Rightarrow> ('w, nat) io"
  transportClose_call :: "nat \<Rightarrow> ('w, unit) io"
  serverClose_call :: "('w, unit) io"
  interruptChildren_call :: "('w, unit) io"
  interrupt_call :: "('w, unit) io"
  onClientConnected :: "nat \<Rightarrow> ('w fw, bool) io"
  onClientDisconnected :: "nat \<Rightarrow> ('w fw, unit) io"
  other_threads :: "'w fw \<Rightarrow> 'w fw"

definition in_world :: "('w, 'a) io \<Rightarrow> ('w fw, 'a) io" where
  "in_world m s = (case m (world s) of (r, w) \<Rightarrow> (r, s\<lparr>world := w\<rparr>))"

definition fw_new :: "'w \<Rightarrow> 'w fw" where
  "fw_new w = \<lparr>clients = 0, hwm = 0, limit = INT64_MAX, l_client = None, l_in = None, l_out = None, world = w\<rparr>"

text \<open>The constructors of \<^verbatim>\<open>TServerFramework\<close>: the base object and the counters.\<close>

definition TServerFramework4 :: "ptr \<Rightarrow> ptr \<Rightarrow> ptr \<Rightarrow> ptr \<Rightarrow> 'w \<Rightarrow> tserver \<times> 'w fw" where
  "TServerFramework4 pf st tf prf w = (TServer4 pf st tf prf, fw_new w)"

definition TServerFramework6 :: "ptr \<Rightarrow> ptr \<Rightarrow> ptr \<Rightarrow> ptr \<Rightarrow> ptr \<Rightarrow> ptr \<Rightarrow> 'w \<Rightarrow> tserver \<times> 'w fw" where
  "TServerFramework6 pf st itf otf ipf opf w = (TServer6 pf st itf otf ipf opf, fw_new w)"

section \<open>Accounting\<close>

definition getConcurrentClientLimit :: "'w fw \<Rightarrow> int" where
  "getConcurrentClientLimit s = limit s"

definition getConcurrentClientCount :: "'w fw \<Rightarrow> int" where
  "getConcurrentClientCount s = clients s"

definition getConcurrentClientCountHWM :: "'w fw \<Rightarrow> int" where
  "getConcurrentClientCountHWM s = hwm s"

definition setConcurrentClientLimit :: "int \<Rightarrow> ('w fw, unit) io" where
  "setConcurrentClientLimit newLimit =
     (if newLimit < 1 then throw (Invalid_argument ''newLimit must be greater than zero'')
      else modify (\<lambda>s. s\<lparr>limit := newLimit\<rparr>))"

text \<open>Lines 225-226 and 239.\<close>

definition count_connected :: "'w fw \<Rightarrow> 'w fw" where
  "count_connected s = (let n = clients s + 1 in s\<lparr>clients := n, hwm := max (hwm s) n\<rparr>)"

definition count_disconnected :: "'w fw \<Rightarrow> 'w fw" where
  "count_disconnected s = s\<lparr>clients := clients s - 1\<rparr>"

definition newlyConnectedClient :: "'w fw_env \<Rightarrow> nat \<Rightarrow> ('w fw, bool) io" where
  "newlyConnectedClient env pClient = bindE (modify count_connected) (\<lambda>_. onClientConnected env pClient)"

definition disposeConnectedClient :: "'w fw_env \<Rightarrow> nat \<Rightarrow> ('w fw, unit) io" where
  "disposeConnectedClient env pClient =
     bindE (onClientDisconnected env pClient) (\<lambda>_. modify count_disconnected)"

text \<open>
  The shared pointer to the client object is a temporary: when \<^verbatim>\<open>newlyConnectedClient\<close> is done, by return
  or by exception, and the implementation keeps no reference (the result \<open>False\<close>), the deleter runs.
\<close>

definition connect_client :: "'w fw_env \<Rightarrow> nat \<Rightarrow> ('w fw, unit) io" where
  "connect_client env pClient =
     bindE (catchE (newlyConnectedClient env pClient)
              (\<lambda>e. bindE (disposeConnectedClient env pClient) (\<lambda>_. throw e))) (\<lambda>kept.
       if kept then ret () else disposeConnectedClient env pClient)"

section \<open>\<open>serve\<close>\<close>

definition releaseOneDescriptor :: "('w fw, unit) io option \<Rightarrow> ('w fw, unit) io" where
  "releaseOneDescriptor close =
     (case close of
        None \<Rightarrow> ret ()
      | Some cl \<Rightarrow> catchE cl (\<lambda>e. case e of TTransportException _ _ _ \<Rightarrow> ret () | _ \<Rightarrow> throw e))"

definition close_of :: "'w fw_env \<Rightarrow> ptr \<Rightarrow> ('w fw, unit) io option" where
  "close_of env p = map_option (\<lambda>t. in_world (transportClose_call env t)) p"

text \<open>Lines 131-135.\<close>

definition reset_locals :: "'w fw \<Rightarrow> 'w fw" where
  "reset_locals s = s\<lparr>l_out := None, l_in := None, l_client := None\<rparr>"

text \<open>Lines 142-144: a loop without a body; \<open>None\<close> when it never ends.\<close>

partial_function (option) wait_for_slot :: "('w fw \<Rightarrow> 'w fw) \<Rightarrow> 'w fw \<Rightarrow> 'w fw option" where
  "wait_for_slot others s = (if clients s \<ge> limit s then wait_for_slot others (others s) else Some s)"

text \<open>Lines 151-162: the protocols, the processor and the client object for the transports of a new connection.\<close>

definition setup_client :: "'w fw_env \<Rightarrow> nat \<Rightarrow> nat \<Rightarrow> nat \<Rightarrow> ('w fw, unit) io" where
  "setup_client env client inputTransport outputTransport =
     bindE (if outputProtocolFactory (srv env) = None then
              bindE (in_world (bothProtocol_call env inputTransport outputTransport)) (\<lambda>p. ret (p, p))
            else
              bindE (in_world (inProtocol_call env inputTransport)) (\<lambda>p.
              bindE (in_world (outProtocol_call env outputTransport)) (\<lambda>q. ret (p, q)))) (\<lambda>(inputProtocol, outputProtocol).
     bindE (in_world (getProcessor (processor_call env) inputProtocol outputProtocol client)) (\<lambda>_.
       connect_client env client))"

text \<open>Lines 147-162.\<close>

definition accept_client :: "'w fw_env \<Rightarrow> ('w fw, unit) io" where
  "accept_client env =
     bindE (in_world (accept_call env)) (\<lambda>client.
     bindE (modify (\<lambda>s. s\<lparr>l_client := Some client\<rparr>)) (\<lambda>_.
     bindE (in_world (inTransport_call env client)) (\<lambda>inputTransport.
     bindE (modify (\<lambda>s. s\<lparr>l_in := Some inputTransport\<rparr>)) (\<lambda>_.
     bindE (in_world (outTransport_call env client)) (\<lambda>outputTransport.
     bindE (modify (\<lambda>s. s\<lparr>l_out := Some outputTransport\<rparr>)) (\<lambda>_.
       setup_client env client inputTransport outputTransport))))))"

text \<open>Lines 164-183: whether the loop goes on after an exception of the given type.\<close>

definition serve_goes_on :: "ttype \<Rightarrow> bool" where
  "serve_goes_on ty \<longleftrightarrow> ty = TIMED_OUT \<or> ty = CLIENT_DISCONNECT"

definition serve_handler :: "'w fw_env \<Rightarrow> exn \<Rightarrow> ('w fw, bool) io" where
  "serve_handler env e =
     (case e of
        TTransportException ty msg err \<Rightarrow>
          bindE get_state (\<lambda>s.
          bindE (releaseOneDescriptor (close_of env (l_in s))) (\<lambda>_.
          bindE (releaseOneDescriptor (close_of env (l_out s))) (\<lambda>_.
          bindE (releaseOneDescriptor (close_of env (l_client s))) (\<lambda>_.
            ret (serve_goes_on ty)))))
      | _ \<Rightarrow> throw e)"

definition serve_iteration :: "'w fw_env \<Rightarrow> ('w fw, bool) io" where
  "serve_iteration env = catchE (bindE (accept_client env) (\<lambda>_. ret True)) (serve_handler env)"

partial_function (option) serve_loop :: "'w fw_env \<Rightarrow> 'w fw \<Rightarrow> ((exn + unit) \<times> 'w fw) option" where
  "serve_loop env s =
     (case wait_for_slot (other_threads env) (reset_locals s) of
        None \<Rightarrow> None
      | Some s1 \<Rightarrow>
          (case serve_iteration env s1 of
             (Inl e, s2) \<Rightarrow> Some (Inl e, s2)
           | (Inr go, s2) \<Rightarrow> if go then serve_loop env s2 else Some (Inr (), s2)))"

text \<open>Lines 127-187: the loop and what follows it.\<close>

definition serve_from_loop :: "'w fw_env \<Rightarrow> 'w fw \<Rightarrow> ((exn + unit) \<times> 'w fw) option" where
  "serve_from_loop env s =
     (case serve_loop env s of
        None \<Rightarrow> None
      | Some (Inl e, s') \<Rightarrow> Some (Inl e, s')
      | Some (Inr _, s') \<Rightarrow>
          Some (releaseOneDescriptor (map_option (\<lambda>_. in_world (serverClose_call env)) (serverTransport (srv env))) s'))"

definition serve :: "'w fw_env \<Rightarrow> 'w fw \<Rightarrow> ((exn + unit) \<times> 'w fw) option" where
  "serve env s =
     (case bindE (in_world (listen_call env)) (\<lambda>_.
             if eventHandler (srv env) \<noteq> None then in_world (preServe_call env) else ret ()) s of
        (Inl e, s1) \<Rightarrow> Some (Inl e, s1)
      | (Inr _, s1) \<Rightarrow> serve_from_loop env s1)"

definition run :: "'w fw_env \<Rightarrow> 'w fw \<Rightarrow> ((exn + unit) \<times> 'w fw) option" where
  "run env s = serve env s"

definition stop :: "'w fw_env \<Rightarrow> ('w fw, unit) io" where
  "stop env = bindE (in_world (interruptChildren_call env)) (\<lambda>_. in_world (interrupt_call env))"

section \<open>Waiting for a slot\<close>

lemma wait_free: "clients s < limit s \<Longrightarrow> wait_for_slot others s = Some s"
  by (simp add: wait_for_slot.simps)

lemma wait_finds:
  assumes "\<forall>i < n. clients ((others ^^ i) s) \<ge> limit ((others ^^ i) s)" and "clients ((others ^^ n) s) < limit ((others ^^ n) s)"
  shows "wait_for_slot others s = Some ((others ^^ n) s)"
  using assms
proof (induction n arbitrary: s)
  case (Suc n)
  have "clients s \<ge> limit s" using Suc.prems(1) [rule_format, of 0] by simp
  moreover have "wait_for_slot others (others s) = Some ((others ^^ n) (others s))"
  proof (rule Suc.IH)
    show "\<forall>i < n. clients ((others ^^ i) (others s)) \<ge> limit ((others ^^ i) (others s))"
      using Suc.prems(1) by (auto simp: funpow_swap1 [symmetric] dest: spec [of _ "Suc i" for i])
  qed (use Suc.prems(2) in \<open>simp add: funpow_swap1\<close>)
  ultimately show ?case by (subst wait_for_slot.simps) (simp add: funpow_swap1)
qed (simp add: wait_free)

lemma wait_result: "wait_for_slot others s = Some s' \<Longrightarrow> clients s' < limit s' \<and> (\<exists>n. s' = (others ^^ n) s)"
proof (induction rule: wait_for_slot.raw_induct [rotated 1, consumes 1])
  case (1 w others s s')
  show ?case
  proof (cases "clients s \<ge> limit s")
    case True
    then obtain n where "clients s' < limit s'" "s' = (others ^^ n) (others s)" using 1(1) [of others "others s" s'] 1(2) True by auto
    then show ?thesis by (intro conjI exI [of _ "Suc n"]) (simp_all add: funpow_swap1)
  qed (use 1 in \<open>auto intro: exI [of _ 0]\<close>)
qed

text \<open>If no thread ever makes room the loop spins forever.\<close>

lemma wait_spins:
  assumes "\<And>n. clients ((others ^^ n) s) \<ge> limit ((others ^^ n) s)"
  shows "wait_for_slot others s = None"
proof (cases "wait_for_slot others s")
  case (Some s')
  from wait_result [OF this] assms show ?thesis by (metis linorder_not_le)
qed

lemma wait_returns:
  "(\<exists>s'. wait_for_slot others s = Some s') \<longleftrightarrow> (\<exists>n. clients ((others ^^ n) s) < limit ((others ^^ n) s))"
proof
  assume "\<exists>n. clients ((others ^^ n) s) < limit ((others ^^ n) s)"
  then obtain n where n: "clients ((others ^^ n) s) < limit ((others ^^ n) s)"
      "\<forall>i < n. \<not> clients ((others ^^ i) s) < limit ((others ^^ i) s)"
    using exists_least_iff [of "\<lambda>n. clients ((others ^^ n) s) < limit ((others ^^ n) s)"] by blast
  then show "\<exists>s'. wait_for_slot others s = Some s'" using wait_finds [of n others s] by (auto simp: not_less)
qed (use wait_result in blast)

section \<open>The loop over a server transport\<close>

lemma reset_locals_selectors [simp]:
  "l_in (reset_locals s) = None" "l_out (reset_locals s) = None" "l_client (reset_locals s) = None"
  "clients (reset_locals s) = clients s" "hwm (reset_locals s) = hwm s" "limit (reset_locals s) = limit s" "world (reset_locals s) = world s"
  by (simp_all add: reset_locals_def)

text \<open>
  What the loop relies on: a transport that has been shut refuses to accept with \<^verbatim>\<open>INTERRUPTED\<close>, and
  shutting it works.
\<close>

locale server_transport =
  fixes acc :: "('w, nat) io"
    and shut :: "('w, unit) io"
    and opened :: "'w \<Rightarrow> bool"
  assumes refuse: "\<not> opened w \<Longrightarrow> \<exists>m e. acc w = (Inl (TTransportException INTERRUPTED m e), w)"
    and shut: "\<exists>w'. shut w = (Inr (), w') \<and> \<not> opened w'"
begin

text \<open>Once the transport is shut, a round that gets a slot ends the loop without touching anything.\<close>

lemma round_ends:
  assumes "accept_call env = acc" and "\<not> opened (world s)" and "reset_locals s = s"
  shows "serve_iteration env s = (Inr False, s)"
proof -
  obtain m e where "acc (world s) = (Inl (TTransportException INTERRUPTED m e), world s)" using refuse [OF assms(2)] by blast
  moreover have "l_in s = None" "l_out s = None" "l_client s = None" using arg_cong [OF assms(3)] by (metis reset_locals_selectors)+
  ultimately show ?thesis
    using assms(1)
    by (simp add: serve_iteration_def accept_client_def in_world_def bindE_def catchE_def serve_handler_def
        releaseOneDescriptor_def close_of_def serve_goes_on_def)
qed

text \<open>The loop, entered with the transport shut, ends exactly if a slot is or becomes free, and \<^verbatim>\<open>serve\<close> then shuts the transport again.\<close>

lemma shut_serve_ends:
  assumes "accept_call env = acc" and "serverClose_call env = shut" and "Server_Framework.serverTransport (srv env) \<noteq> None"
    and others: "\<And>s. reset_locals s = s \<Longrightarrow> \<not> opened (world s) \<Longrightarrow>
        reset_locals (other_threads env s) = other_threads env s \<and> \<not> opened (world (other_threads env s))"
    and "\<not> opened (world s)"
  shows "if \<exists>n. clients ((other_threads env ^^ n) (reset_locals s)) < limit ((other_threads env ^^ n) (reset_locals s))
     then \<exists>n s'. serve_from_loop env s = Some (Inr (), s') \<and> \<not> opened (world s') \<and>
        (\<exists>w. s' = ((other_threads env ^^ n) (reset_locals s))\<lparr>world := w\<rparr>)
     else serve_from_loop env s = None"
proof (cases "wait_for_slot (other_threads env) (reset_locals s)")
  case None
  moreover have "serve_from_loop env s = None" using None by (simp add: serve_from_loop_def serve_loop.simps)
  ultimately show ?thesis using wait_returns by (metis option.distinct(1))
next
  case (Some s1)
  obtain n where n: "s1 = (other_threads env ^^ n) (reset_locals s)" "clients s1 < limit s1" using wait_result [OF Some] by blast
  have "reset_locals ((other_threads env ^^ k) (reset_locals s)) = (other_threads env ^^ k) (reset_locals s) \<and>
      \<not> opened (world ((other_threads env ^^ k) (reset_locals s)))" for k
  proof (induction k)
    case 0
    then show ?case using assms(5) by (simp add: reset_locals_def)
  qed (use others in simp)
  then have "serve_iteration env s1 = (Inr False, s1)" using round_ends [OF assms(1)] n(1) by simp
  then have "serve_loop env s = Some (Inr (), s1)" using Some by (simp add: serve_loop.simps)
  moreover obtain w where w: "shut (world s1) = (Inr (), w)" "\<not> opened w" using shut by blast
  ultimately have "serve_from_loop env s = Some (Inr (), s1\<lparr>world := w\<rparr>)"
    using assms(2,3) by (auto simp: serve_from_loop_def releaseOneDescriptor_def in_world_def)
  then show ?thesis using n w(2) by auto
qed

end

interpretation fds: server_transport "fds_acceptImpl dbg os" fds_close "\<lambda>c. fds_isOpen (fst c)" for dbg os
  by unfold_locales (auto simp: fds_acceptImpl_def fds_close_def fds_isOpen_def bindE_def split: prod.splits)

section \<open>One client\<close>

text \<open>What is expected of an implementation of the two callbacks: they leave the counters to the framework.\<close>

definition callbacks_ok :: "'w fw_env \<Rightarrow> bool" where
  "callbacks_ok env \<longleftrightarrow>
     (\<forall>c s r s'. onClientConnected env c s = (r, s') \<longrightarrow> clients s' = clients s \<and> hwm s' = hwm s) \<and>
     (\<forall>c s. \<exists>s'. onClientDisconnected env c s = (Inr (), s') \<and> clients s' = clients s \<and> hwm s' = hwm s)"

lemma dispose_counts:
  assumes "callbacks_ok env"
  shows "\<exists>s'. disposeConnectedClient env c s = (Inr (), s') \<and> clients s' = clients s - 1 \<and> hwm s' = hwm s"
proof -
  obtain s1 where "onClientDisconnected env c s = (Inr (), s1)" "clients s1 = clients s" "hwm s1 = hwm s"
    using assms unfolding callbacks_ok_def by blast
  then show ?thesis by (simp add: disposeConnectedClient_def bindE_def count_disconnected_def)
qed

lemma connect_counts:
  assumes "callbacks_ok env" and "onClientConnected env c (count_connected s) = (r, s1)"
  shows "\<exists>r' s'. connect_client env c s = (r', s') \<and> (\<forall>e. r = Inl e \<longrightarrow> r' = Inl e) \<and> (\<forall>k. r = Inr k \<longrightarrow> r' = Inr ()) \<and>
     clients s' = (if r = Inr True then clients s + 1 else clients s) \<and> hwm s' = max (hwm s) (clients s + 1)"
proof -
  have s1: "clients s1 = clients s + 1" "hwm s1 = max (hwm s) (clients s + 1)"
    using assms unfolding callbacks_ok_def by (auto simp: count_connected_def Let_def)
  obtain s2 where s2: "disposeConnectedClient env c s1 = (Inr (), s2)" "clients s2 = clients s1 - 1" "hwm s2 = hwm s1"
    using dispose_counts [OF assms(1)] by blast
  have new: "newlyConnectedClient env c s = (r, s1)" using assms(2) by (simp add: newlyConnectedClient_def bindE_def)
  show ?thesis
  proof (cases r)
    case (Inl e)
    with new s1 s2 show ?thesis by (simp add: connect_client_def bindE_def catchE_def)
  next
    case (Inr k)
    with new s1 s2 show ?thesis by (cases k) (simp_all add: connect_client_def bindE_def catchE_def)
  qed
qed

section \<open>The handler\<close>

text \<open>A close that may throw a transport exception, and a log of the handles closed.\<close>

definition closes_ok :: "'w fw_env \<Rightarrow> ('w \<Rightarrow> nat list) \<Rightarrow> bool" where
  "closes_ok env closed \<longleftrightarrow>
     (\<forall>t w r w'. transportClose_call env t w = (r, w') \<longrightarrow> closed w' = closed w @ [t] \<and>
        (r = Inr () \<or> (\<exists>ty m e. r = Inl (TTransportException ty m e))))"

lemma release_logged:
  assumes "closes_ok env closed"
  shows "\<exists>s'. releaseOneDescriptor (close_of env p) s = (Inr (), s') \<and> (\<exists>w'. s' = s\<lparr>world := w'\<rparr>) \<and>
     closed (world s') = closed (world s) @ (case p of None \<Rightarrow> [] | Some t \<Rightarrow> [t])"
proof (cases p)
  case None
  then show ?thesis by (auto simp: releaseOneDescriptor_def close_of_def intro: exI [of _ "world s"])
next
  case (Some t)
  obtain r w' where c: "transportClose_call env t (world s) = (r, w')" by fastforce
  then have "closed w' = closed (world s) @ [t]" "r = Inr () \<or> (\<exists>ty m e. r = Inl (TTransportException ty m e))"
    using assms unfolding closes_ok_def by blast+
  with c Some show ?thesis
    by (intro exI [of _ "s\<lparr>world := w'\<rparr>"]) (auto simp: releaseOneDescriptor_def close_of_def in_world_def catchE_def)
qed

lemma handler_logged:
  assumes "closes_ok env closed"
  shows "\<exists>s'. serve_handler env (TTransportException ty m e) s = (Inr (serve_goes_on ty), s') \<and> (\<exists>w'. s' = s\<lparr>world := w'\<rparr>) \<and>
     closed (world s') = closed (world s) @ List.map_filter id [l_in s, l_out s, l_client s]"
proof -
  obtain s1 where 1: "releaseOneDescriptor (close_of env (l_in s)) s = (Inr (), s1)" "\<exists>w. s1 = s\<lparr>world := w\<rparr>"
     "closed (world s1) = closed (world s) @ (case l_in s of None \<Rightarrow> [] | Some t \<Rightarrow> [t])"
    using release_logged [OF assms] by blast
  obtain s2 where 2: "releaseOneDescriptor (close_of env (l_out s)) s1 = (Inr (), s2)" "\<exists>w. s2 = s1\<lparr>world := w\<rparr>"
     "closed (world s2) = closed (world s1) @ (case l_out s of None \<Rightarrow> [] | Some t \<Rightarrow> [t])"
    using release_logged [OF assms] by blast
  obtain s3 where 3: "releaseOneDescriptor (close_of env (l_client s)) s2 = (Inr (), s3)" "\<exists>w. s3 = s2\<lparr>world := w\<rparr>"
     "closed (world s3) = closed (world s2) @ (case l_client s of None \<Rightarrow> [] | Some t \<Rightarrow> [t])"
    using release_logged [OF assms] by blast
  have "serve_handler env (TTransportException ty m e) s = (Inr (serve_goes_on ty), s3)"
    using 1(1) 2(1) 3(1) by (simp add: serve_handler_def bindE_def)
  moreover have "\<exists>w'. s3 = s\<lparr>world := w'\<rparr>" using 1(2) 2(2) 3(2) by auto
  ultimately show ?thesis
    using 1(3) 2(3) 3(3) by (intro exI [of _ s3]) (simp add: List.map_filter_def split: option.splits)
qed

section \<open>Transports of a round\<close>

text \<open>
  A log of the transports that were obtained, by accepting and from the two factories. The other calls do not write to it, and the
  callbacks touch neither the log nor the local variables of \<^verbatim>\<open>serve\<close>.
\<close>

definition obtained :: "exn + nat \<Rightarrow> nat list" where
  "obtained r = (case r of Inl _ \<Rightarrow> [] | Inr t \<Rightarrow> [t])"

definition logs :: "('w \<Rightarrow> nat list) \<Rightarrow> ('w, nat) io \<Rightarrow> bool" where
  "logs got m \<longleftrightarrow> (\<forall>w. got (snd (m w)) = got w @ obtained (fst (m w)))"

definition leaves :: "('w \<Rightarrow> 'x) \<Rightarrow> ('w, 'a) io \<Rightarrow> bool" where
  "leaves got m \<longleftrightarrow> (\<forall>w. got (snd (m w)) = got w)"

definition holding :: "('w \<Rightarrow> nat list) \<Rightarrow> 'w fw \<Rightarrow> 'w fw \<Rightarrow> bool" where
  "holding got s s' \<longleftrightarrow> l_client s' = l_client s \<and> l_in s' = l_in s \<and> l_out s' = l_out s \<and> got (world s') = got (world s)"

definition transports_logged :: "('w \<Rightarrow> nat list) \<Rightarrow> 'w fw_env \<Rightarrow> bool" where
  "transports_logged got env \<longleftrightarrow>
     logs got (accept_call env) \<and> (\<forall>c. logs got (inTransport_call env c)) \<and> (\<forall>c. logs got (outTransport_call env c)) \<and>
     (\<forall>a b. leaves got (bothProtocol_call env a b)) \<and> (\<forall>t. leaves got (inProtocol_call env t)) \<and>
     (\<forall>t. leaves got (outProtocol_call env t)) \<and> (\<forall>i. leaves got (processor_call env i)) \<and> (\<forall>t. leaves got (transportClose_call env t)) \<and>
     (\<forall>c. tame (\<lambda>_. True) (\<lambda>_. True) (holding got) (onClientConnected env c)) \<and>
     (\<forall>c. tame (\<lambda>_. True) (\<lambda>_. True) (holding got) (onClientDisconnected env c))"

lemma frame_holding [tame_intros]: "frame (\<lambda>_. True) (holding got)"
  by (auto simp: frame_def reflp_def transp_def holding_def)

lemma holding_call: "leaves got m \<Longrightarrow> tame (\<lambda>_. True) (\<lambda>_. True) (holding got) (in_world m)"
  by (auto simp: tame_def leaves_def holding_def in_world_def split: prod.splits) (metis snd_conv)

lemma holding_count:
  "tame (\<lambda>_. True) (\<lambda>_. True) (holding got) (modify count_connected)" "tame (\<lambda>_. True) (\<lambda>_. True) (holding got) (modify count_disconnected)"
  by (simp_all add: tame_def holding_def count_connected_def count_disconnected_def Let_def)

lemma setup_holding:
  assumes "transports_logged got env"
  shows "tame (\<lambda>_. True) (\<lambda>_. True) (holding got) (setup_client env c i ou)"
  unfolding setup_client_def connect_client_def newlyConnectedClient_def disposeConnectedClient_def getProcessor_def
  by (intro tame_intros holding_call holding_count) (use assms in \<open>simp_all add: transports_logged_def\<close>)

lemma in_world_run: "in_world m s = (fst (m (world s)), s\<lparr>world := snd (m (world s))\<rparr>)"
  by (simp add: in_world_def split: prod.splits)

text \<open>What the local variables hold after an attempt, failed or not, is what was obtained in it.\<close>

lemma accept_holding:
  assumes env: "transports_logged got env" and none: "reset_locals s = s" and run: "accept_client env s = (r, s1)"
  shows "\<exists>acq. got (world s1) = got (world s) @ acq \<and> List.map_filter id [l_in s1, l_out s1, l_client s1] = rotate1 acq"
proof -
  have l: "l_in s = None" "l_out s = None" "l_client s = None" by (metis none reset_locals_selectors)+
  have log: "got (snd (m w)) = got w @ obtained (fst (m w))"
    if "m \<in> {accept_call env} \<union> range (inTransport_call env) \<union> range (outTransport_call env)" for m w
    using env that by (auto simp: transports_logged_def logs_def)
  note runs = accept_client_def in_world_run bindE_def obtained_def l List.map_filter_def
  show ?thesis
  proof (cases "accept_call env (world s)")
    case a: (Pair r1 w1)
    note g1 = log [of "accept_call env" "world s", unfolded a]
    show ?thesis
    proof (cases r1)
      case (Inl e)
      then show ?thesis using run a g1 by (auto simp: runs)
    next
      case c: (Inr c)
      obtain r2 w2 where i: "inTransport_call env c w1 = (r2, w2)" by fastforce
      note g2 = log [of "inTransport_call env c" w1, unfolded i]
      show ?thesis
      proof (cases r2)
        case (Inl e)
        then show ?thesis using run a c i g1 g2 by (auto simp: runs)
      next
        case i': (Inr t)
        obtain r3 w3 where ou: "outTransport_call env c w2 = (r3, w3)" by fastforce
        note g3 = log [of "outTransport_call env c" w2, unfolded ou]
        show ?thesis
        proof (cases r3)
          case (Inl e)
          then show ?thesis using run a c i i' ou g1 g2 g3 by (auto simp: runs)
        next
          case (Inr u)
          let ?s = "s\<lparr>l_client := Some c, l_in := Some t, world := w3, l_out := Some u\<rparr>"
          have "setup_client env c t u ?s = (r, s1)" using run a c i i' ou Inr by (simp add: runs)
          then have "holding got ?s s1" using tameD [OF setup_holding [OF env]] by blast
          then show ?thesis using c i' Inr g1 g2 g3 by (auto simp: holding_def obtained_def List.map_filter_def)
        qed
      qed
    qed
  qed
qed

section \<open>Properties\<close>

text \<open>C25: a client is counted exactly while the implementation holds it. If the callback keeps a reference
  the count has grown by one; if it keeps none, or throws, the client object is disposed of before the
  next client is accepted and the count is what it was. An exception of the callback is passed on.\<close>

theorem connect_client_balanced:
  assumes "callbacks_ok env" and "onClientConnected env c (count_connected s) = (r, s1)"
  shows "\<exists>r' s'. connect_client env c s = (r', s') \<and> (\<forall>e. r = Inl e \<longrightarrow> r' = Inl e) \<and> (\<forall>k. r = Inr k \<longrightarrow> r' = Inr ()) \<and>
     getConcurrentClientCount s' = getConcurrentClientCount s + (if r = Inr True then 1 else 0) \<and>
     getConcurrentClientCountHWM s' = max (getConcurrentClientCountHWM s) (getConcurrentClientCount s + 1)"
proof -
  obtain r' s' where "connect_client env c s = (r', s')" "\<forall>e. r = Inl e \<longrightarrow> r' = Inl e" "\<forall>k. r = Inr k \<longrightarrow> r' = Inr ()"
     "clients s' = (if r = Inr True then clients s + 1 else clients s)" "hwm s' = max (hwm s) (clients s + 1)"
    using connect_counts [OF assms] by blast
  then show ?thesis
    by (intro exI [of _ r'] exI [of _ s']) (simp add: getConcurrentClientCount_def getConcurrentClientCountHWM_def)
qed

text \<open>An environment for the examples: the world is a file-descriptor server and the list of transports closed.\<close>

type_synonym demo_world = "small_world TFD_Server.srv"

definition demo_env :: "nat list \<Rightarrow> demo_world fw_env" where
  "demo_env keep = \<lparr>srv = TServer4 (Some 1) (Some 2) (Some 3) (Some 4), listen_call = ret (), preServe_call = TServerEventHandler_preServe,
     accept_call = fds_acceptImpl True small_os, inTransport_call = ret, outTransport_call = ret,
     bothProtocol_call = (\<lambda>a b. ret a), inProtocol_call = ret, outProtocol_call = ret,
     processor_call = (\<lambda>c. ret 0),
     transportClose_call = (\<lambda>t. modify (\<lambda>(s, w). (s, w\<lparr>sw_closed := sw_closed w @ [int t]\<rparr>))),
     serverClose_call = fds_close, interruptChildren_call = fds_interruptChildren True small_os, interrupt_call = fds_interrupt,
     onClientConnected = (\<lambda>c. ret (c \<in> set keep)), onClientDisconnected = (\<lambda>c. ret ()), other_threads = (\<lambda>s. s)\<rparr>"

lemma demo_callbacks: "callbacks_ok (demo_env keep)"
  by (simp add: callbacks_ok_def demo_env_def)

lemma connect_client_balanced_witness:
  "\<exists>s'. connect_client (demo_env []) 3 (fw_new (fds_new 7, small_start)) = (Inr (), s') \<and>
     getConcurrentClientCount s' = 0 \<and> getConcurrentClientCountHWM s' = 1"
proof -
  let ?s = "fw_new (fds_new 7, small_start)"
  have "onClientConnected (demo_env []) 3 (count_connected ?s) = (Inr False, count_connected ?s)" by (simp add: demo_env_def)
  from connect_client_balanced [OF demo_callbacks this] show ?thesis
    by (auto simp: getConcurrentClientCount_def getConcurrentClientCountHWM_def fw_new_def)
qed

text \<open>C26: errors in the loop. When accepting or setting up a client throws a transport exception, \<^verbatim>\<open>serve\<close> closes every transport that it has
  obtained in this round, by accepting or from the factories: the input transport, the output transport and then the client, those that
  exist, each once, even if closing throws in turn; the counters are untouched. It goes on after a time-out or a
  disconnected client and ends its loop after any other type. Any other exception leaves \<^verbatim>\<open>serve\<close> at once, and nothing is closed. \<open>got\<close> and \<open>closed\<close> are the
  logs of the transports obtained and closed.\<close>

theorem serve_releases_on_error:
  assumes "transports_logged got env" and "closes_ok env closed"
    and "reset_locals s = s" and "accept_client env s = (Inl e, s1)"
  shows "case e of
       TTransportException ty m err \<Rightarrow>
         \<exists>s2 acquired. serve_iteration env s = (Inr (ty = TIMED_OUT \<or> ty = CLIENT_DISCONNECT), s2) \<and>
           clients s2 = clients s1 \<and> hwm s2 = hwm s1 \<and> limit s2 = limit s1 \<and>
           got (world s1) = got (world s) @ acquired \<and> closed (world s2) = closed (world s1) @ rotate1 acquired
     | _ \<Rightarrow> serve_iteration env s = (Inl e, s1)"
proof (cases e)
  case e: (TTransportException ty m err)
  obtain acquired where acq: "got (world s1) = got (world s) @ acquired"
      "List.map_filter id [l_in s1, l_out s1, l_client s1] = rotate1 acquired"
    using accept_holding [OF assms(1,3,4)] by blast
  obtain s2 where "serve_handler env e s1 = (Inr (serve_goes_on ty), s2)" "\<exists>w'. s2 = s1\<lparr>world := w'\<rparr>"
     "closed (world s2) = closed (world s1) @ rotate1 acquired"
    using handler_logged [OF assms(2)] acq(2) e by metis
  then have "serve_iteration env s = (Inr (ty = TIMED_OUT \<or> ty = CLIENT_DISCONNECT), s2) \<and>
     clients s2 = clients s1 \<and> hwm s2 = hwm s1 \<and> limit s2 = limit s1 \<and> closed (world s2) = closed (world s1) @ rotate1 acquired"
    using assms(4) by (auto simp: serve_iteration_def serve_goes_on_def)
  with acq(1) e show ?thesis by auto
qed (use assms(4) in \<open>simp_all add: serve_iteration_def serve_handler_def\<close>)

text \<open>Transports for the examples: numbered by the list of those obtained, and the list of those closed.\<close>

definition failing_env :: "(nat list \<times> nat list) fw_env" where
  "failing_env = \<lparr>srv = TServer4 (Some 1) (Some 2) (Some 3) (Some 4), listen_call = ret (), preServe_call = TServerEventHandler_preServe,
     accept_call = (\<lambda>(g, c). (Inr 5, (g @ [5], c))), inTransport_call = (\<lambda>_ (g, c). (Inr 6, (g @ [6], c))),
     outTransport_call = (\<lambda>_. throw (TTransportException TIMED_OUT ''slow'' 0)),
     bothProtocol_call = (\<lambda>a b. ret a), inProtocol_call = ret, outProtocol_call = ret, processor_call = (\<lambda>c. ret 0),
     transportClose_call = (\<lambda>t (g, c). (Inl (TTransportException END_OF_FILE ''gone'' 0), (g, c @ [t]))),
     serverClose_call = ret (), interruptChildren_call = ret (), interrupt_call = ret (),
     onClientConnected = (\<lambda>c. ret True), onClientDisconnected = (\<lambda>c. ret ()), other_threads = (\<lambda>s. s)\<rparr>"

lemma serve_releases_on_error_witness:
  "\<exists>s2. serve_iteration failing_env (fw_new ([], [])) = (Inr True, s2) \<and> snd (world s2) = [6, 5]"
proof -
  let ?s = "fw_new ([], []) :: (nat list \<times> nat list) fw"
  have "transports_logged fst failing_env" "closes_ok failing_env snd" "reset_locals ?s = ?s"
    by (auto simp: transports_logged_def closes_ok_def logs_def leaves_def obtained_def failing_env_def tame_def holding_def
        reset_locals_def fw_new_def ret_def throw_def)
  moreover obtain s1 where "accept_client failing_env ?s = (Inl (TTransportException TIMED_OUT ''slow'' 0), s1)" "world s1 = ([5, 6], [])"
    by (simp add: accept_client_def failing_env_def in_world_run bindE_def fw_new_def)
  moreover have "fst (world ?s) = []" by (simp add: fw_new_def)
  ultimately show ?thesis using serve_releases_on_error [of fst failing_env snd ?s] by fastforce
qed

text \<open>C14: stopping. Let the server transport be a \<^verbatim>\<open>TFDServer\<close>. Once \<^verbatim>\<open>stop\<close> has returned the transport is closed. When \<^verbatim>\<open>serve\<close> is at, or comes back to, the head of its
  loop with the transport closed, it returns normally, with the transport closed and no further client accepted, if the number of clients is below the
  limit or other threads bring it there, and else it never returns: \<^verbatim>\<open>stop\<close> does not end the busy wait. Other threads do not touch the local
  variables of \<^verbatim>\<open>serve\<close> and do not open the transport again.\<close>

theorem stop_ends_serve:
  assumes "accept_call env = fds_acceptImpl dbg os" and "interrupt_call env = fds_interrupt" and "serverClose_call env = fds_close"
    and "serverTransport (srv env) \<noteq> None"
    and "\<And>s. reset_locals s = s \<Longrightarrow> \<not> fds_isOpen (fst (world s)) \<Longrightarrow>
        reset_locals (other_threads env s) = other_threads env s \<and> \<not> fds_isOpen (fst (world (other_threads env s)))"
  shows "(stop env s = (Inr (), s1) \<longrightarrow> \<not> fds_isOpen (fst (world s1))) \<and>
     (\<not> fds_isOpen (fst (world s2)) \<longrightarrow>
       (if \<exists>n. clients ((other_threads env ^^ n) (reset_locals s2)) < limit ((other_threads env ^^ n) (reset_locals s2))
        then \<exists>n s3. serve_from_loop env s2 = Some (Inr (), s3) \<and> \<not> fds_isOpen (fst (world s3)) \<and>
          (\<exists>w. s3 = ((other_threads env ^^ n) (reset_locals s2))\<lparr>world := w\<rparr>)
        else serve_from_loop env s2 = None))"
proof -
  have "\<not> fds_isOpen (fst (world s1))" if "stop env s = (Inr (), s1)"
    using that assms(2)
    by (auto simp: stop_def bindE_def in_world_def fds_interrupt_def fds_close_def fds_isOpen_def split: prod.splits sum.splits)
  then show ?thesis using fds.shut_serve_ends [OF assms(1,3,4,5)] by blast
qed

lemma stop_ends_serve_witness:
  "\<exists>s1 s3. stop (demo_env []) (fw_new (fds_new 7, small_start)) = (Inr (), s1) \<and>
     serve_from_loop (demo_env []) s1 = Some (Inr (), s3) \<and> \<not> fds_isOpen (fst (world s3))"
proof -
  let ?s = "fw_new (fds_new 7, small_start)"
  obtain s1 where s1: "stop (demo_env []) ?s = (Inr (), s1)" "clients s1 < limit s1"
    by (simp add: stop_def bindE_def in_world_def demo_env_def fds_interruptChildren_def fds_interrupt_def fds_close_def
        fds_new_def fw_new_def INT64_MAX_def)
  have id: "other_threads (demo_env []) s = s" for s by (simp add: demo_env_def)
  have env: "accept_call (demo_env []) = fds_acceptImpl True small_os" "interrupt_call (demo_env []) = fds_interrupt"
     "serverClose_call (demo_env []) = fds_close" "serverTransport (srv (demo_env [])) \<noteq> None"
    by (simp_all add: demo_env_def TServer4_def)
  have "\<exists>n. clients ((other_threads (demo_env []) ^^ n) (reset_locals s1)) < limit ((other_threads (demo_env []) ^^ n) (reset_locals s1))"
    using s1(2) by (intro exI [of _ 0]) simp
  with stop_ends_serve [OF env, of ?s s1 s1] id s1(1) show ?thesis by auto
qed

text \<open>The busy wait. When the client limit is reached and no other thread ever changes the counters, the
  empty loop that replaced the monitor never ends: \<^verbatim>\<open>serve\<close> does not return, whatever the transport does
  and even if \<^verbatim>\<open>stop\<close> is called.\<close>

theorem full_server_spins:
  assumes "\<forall>n. limit ((other_threads env ^^ n) (reset_locals s)) \<le> clients ((other_threads env ^^ n) (reset_locals s))"
  shows "serve_loop env s = None"
  using wait_spins [of "other_threads env" "reset_locals s"] assms by (simp add: serve_loop.simps)

lemma full_server_spins_witness:
  "serve_loop (demo_env [1, 2]) ((fw_new (fds_new 7, small_start))\<lparr>limit := 1, clients := 1\<rparr>) = None"
proof (rule full_server_spins)
  have "((\<lambda>s. s) ^^ n) x = x" for n and x :: "demo_world fw" by (induction n) simp_all
  then show "\<forall>n. limit ((other_threads (demo_env [1, 2]) ^^ n) (reset_locals ((fw_new (fds_new 7, small_start))\<lparr>limit := 1, clients := 1\<rparr>)))
      \<le> clients ((other_threads (demo_env [1, 2]) ^^ n) (reset_locals ((fw_new (fds_new 7, small_start))\<lparr>limit := 1, clients := 1\<rparr>)))"
    by (simp add: demo_env_def reset_locals_def)
qed

end
