(* ===== verification/Server_Accounting.thy ===== *)
theory Server_Accounting
  imports Server_Framework
begin

text \<open>
  The accounting of clients while \<^verbatim>\<open>TServerFramework::serve\<close> runs: its rounds, interleaved with other threads that dispose of clients,
  change the limit or stop the server. The specification of the count is what the callbacks were told.
\<close>

section \<open>What the callbacks are told\<close>

text \<open>
  \<open>on\<close> and \<open>off\<close> are the numbers of clients announced by \<^verbatim>\<open>onClientConnected\<close> and \<^verbatim>\<open>onClientDisconnected\<close>; no other call changes them. The
  callbacks leave the counters to the framework, and the one that the deleter calls does not throw.
\<close>

definition counters :: "'w fw \<Rightarrow> int \<times> int \<times> int" where
  "counters s = (clients s, hwm s, limit s)"




section \<open>Runs\<close>





section \<open>The invariant\<close>


text \<open>Calls that leave the accounting alone.\<close>

definition aside :: "('w \<Rightarrow> nat) \<Rightarrow> ('w \<Rightarrow> nat) \<Rightarrow> 'w fw \<Rightarrow> 'w fw \<Rightarrow> bool" where
  "aside on off s s' \<longleftrightarrow> counters s' = counters s \<and> on (world s') = on (world s) \<and> off (world s') = off (world s)"


lemma frame_aside [tame_intros]: "frame (\<lambda>_. True) (aside on off)"
  by (auto simp: frame_def reflp_def transp_def aside_def)













section \<open>Steps keep it\<close>











section \<open>Property\<close>




end
