(* ===== verification/TLS_Socket.thy ===== *)
theory TLS_Socket
  imports Thrift_Prelude
begin

text \<open>
  \<^verbatim>\<open>TSSLSocket.cpp\<close> (lines 45-527) and \<^verbatim>\<open>TSSLSocket.h\<close>: TLS client sockets and their factory. The methods
  inherited from \<^verbatim>\<open>TSocket\<close>, which is not part of the repository, and the calls into the kernel are
  parameters. A context is an object shared between a factory and all its sockets, so contexts live in
  a store and are named by their position there. Messages to the log are not modelled.
\<close>

section \<open>Contexts\<close>

datatype verify_mode = TLS_PEER_VERIFY_NONE | TLS_PEER_VERIFY_REQUIRED

datatype net_ip_protocol_secure = IPPROTO_TLS_1_0 | IPPROTO_TLS_1_1 | IPPROTO_TLS_1_2

record SSLContext =
  verifyMode :: verify_mode
  protocol :: net_ip_protocol_secure

definition SSLContext0 :: SSLContext where
  "SSLContext0 = \<lparr>verifyMode = TLS_PEER_VERIFY_REQUIRED, protocol = IPPROTO_TLS_1_0\<rparr>"

text \<open>The values of the enumeration, and any other integer that a cast makes of it.\<close>

datatype SSLProtocol = SSLTLS | SSLv3 | TLSv1_0 | TLSv1_1 | TLSv1_2 | SSLOther int

datatype ThriftTLScertificateType = Thrift_TLS_CA_CERT_TAG | Thrift_TLS_SERVER_CERT_TAG | Thrift_TLS_PRIVATE_KEY

definition sec_tag_list :: "ThriftTLScertificateType list" where
  "sec_tag_list = [Thrift_TLS_CA_CERT_TAG, Thrift_TLS_SERVER_CERT_TAG, Thrift_TLS_PRIVATE_KEY]"

section \<open>Sockets\<close>

text \<open>The members of the base class that the code reads or writes.\<close>

record tsocket =
  sk_socket :: int
  sk_host :: string
  sk_port :: int
  sk_sendTimeout :: int
  sk_recvTimeout :: int
  sk_connTimeout :: int
  sk_keepAlive :: bool
  sk_lingerOn :: bool
  sk_lingerVal :: int
  sk_noDelay :: bool
  sk_interruptListener :: "nat option"

datatype manager = DefaultClientAccessManager | CustomAccessManager nat

record tssl_socket = tsocket +
  sk_server :: bool
  sk_ctx :: nat
  sk_access :: "manager option"
  handshakeCompleted :: bool
  readRetryCount :: int
  eventSafe :: bool

type_synonym 'w sk = "tssl_socket \<times> 'w"

definition THRIFT_INVALID_SOCKET :: int where
  "THRIFT_INVALID_SOCKET = -1"

section \<open>System calls and inherited methods\<close>

datatype sockopt =
    TLS_SEC_TAG_LIST "ThriftTLScertificateType list"
  | TLS_PEER_VERIFY verify_mode
  | TLS_HOSTNAME string
  | IPV6_V6ONLY int

datatype aiflag = AI_PASSIVE | AI_ADDRCONFIG | AI_V4MAPPED

record addrinfo =
  ai_family :: int
  ai_socktype :: int
  ai_addr :: "u8 list"

definition SOCK_STREAM :: int where
  "SOCK_STREAM = 1"

definition PF_UNSPEC :: int where
  "PF_UNSPEC = 0"

record 'w net_calls =
  socket_call :: "int \<Rightarrow> int \<Rightarrow> net_ip_protocol_secure \<Rightarrow> 'w \<Rightarrow> int \<times> 'w"
  setsockopt_call :: "int \<Rightarrow> sockopt \<Rightarrow> 'w \<Rightarrow> int \<times> 'w"
  getfl_call :: "int \<Rightarrow> 'w \<Rightarrow> u32 \<times> 'w"
  setfl_call :: "int \<Rightarrow> u32 \<Rightarrow> 'w \<Rightarrow> int \<times> 'w"
  connect_call :: "int \<Rightarrow> u8 list \<Rightarrow> 'w \<Rightarrow> int \<times> 'w"
  pollout_call :: "int \<Rightarrow> int \<Rightarrow> 'w \<Rightarrow> int \<times> 'w"
  so_error_call :: "int \<Rightarrow> 'w \<Rightarrow> (int \<times> int) \<times> 'w"
  getaddrinfo_call :: "string \<Rightarrow> string \<Rightarrow> int \<Rightarrow> int \<Rightarrow> aiflag list \<Rightarrow> 'w \<Rightarrow> (int \<times> addrinfo list) \<times> 'w"
  freeaddrinfo_call :: "addrinfo list \<Rightarrow> 'w \<Rightarrow> unit \<times> 'w"
  sock_errno :: "'w \<Rightarrow> int"
  O_NONBLOCK :: u32
  EINPROGRESS :: int
  EWOULDBLOCK :: int
  DNS_EAI_NODATA :: int

text \<open>Methods of \<^verbatim>\<open>TSocket\<close>.\<close>

record 'w tsocket_methods =
  ts_isOpen :: "tssl_socket \<Rightarrow> bool"
  ts_close :: "('w sk, unit) io"
  ts_setSendTimeout :: "int \<Rightarrow> ('w sk, unit) io"
  ts_setRecvTimeout :: "int \<Rightarrow> ('w sk, unit) io"
  ts_setKeepAlive :: "bool \<Rightarrow> ('w sk, unit) io"
  ts_setLinger :: "bool \<Rightarrow> int \<Rightarrow> ('w sk, unit) io"
  ts_setNoDelay :: "bool \<Rightarrow> ('w sk, unit) io"
  ts_setCachedAddress :: "u8 list \<Rightarrow> ('w sk, unit) io"

text \<open>A call on the descriptor of the socket.\<close>

definition on_socket :: "(int \<Rightarrow> 'w \<Rightarrow> 'a \<times> 'w) \<Rightarrow> ('w sk, 'a) io" where
  "on_socket f = (\<lambda>(s, w). case f (sk_socket s) w of (x, w') \<Rightarrow> (Inr x, (s, w')))"

definition not_open :: "string \<Rightarrow> ('w sk, 'a) io" where
  "not_open m = throw (TTransportException NOT_OPEN m 0)"

text \<open>The exception carries the error number.\<close>

definition not_open_errno :: "'w net_calls \<Rightarrow> string \<Rightarrow> ('w sk, 'a) io" where
  "not_open_errno os m = bindE get_state (\<lambda>(s, w). throw (TTransportException NOT_OPEN m (sock_errno os w)))"

definition the_socket :: "('w sk, tssl_socket) io" where
  "the_socket = bindE get_state (\<lambda>(s, w). ret s)"

definition the_ctx :: "SSLContext list \<Rightarrow> ('w sk, SSLContext) io" where
  "the_ctx ctxs = bindE the_socket (\<lambda>s. if sk_ctx s < length ctxs then ret (ctxs ! sk_ctx s) else throw (Abort NullPointer))"

section \<open>\<open>openSecConnection\<close>\<close>

text \<open>Lines 104-110.\<close>

definition sec_socket :: "'w net_calls \<Rightarrow> SSLContext list \<Rightarrow> addrinfo \<Rightarrow> ('w sk, unit) io" where
  "sec_socket os ctxs res =
     bindE (the_ctx ctxs) (\<lambda>ctx.
     bindE get_state (\<lambda>(s, w).
       case socket_call os (ai_family res) (ai_socktype res) (protocol ctx) w of (fd, w') \<Rightarrow>
         bindE (modify (\<lambda>_. (s\<lparr>sk_socket := fd\<rparr>, w'))) (\<lambda>_.
           if fd = THRIFT_INVALID_SOCKET then not_open_errno os ''socket()'' else ret ())))"

text \<open>Lines 112-129.\<close>

definition sec_tls_options :: "'w net_calls \<Rightarrow> SSLContext list \<Rightarrow> ('w sk, unit) io" where
  "sec_tls_options os ctxs =
     bindE (on_socket (\<lambda>fd. setsockopt_call os fd (TLS_SEC_TAG_LIST sec_tag_list))) (\<lambda>r.
       if r \<noteq> 0 then not_open ''set TLS_SEC_TAG_LIST failed''
       else
         bindE (the_ctx ctxs) (\<lambda>ctx.
         bindE (on_socket (\<lambda>fd. setsockopt_call os fd (TLS_PEER_VERIFY (verifyMode ctx)))) (\<lambda>r.
           if r \<noteq> 0 then not_open ''set TLS_PEER_VERIFY failed''
           else
             bindE the_socket (\<lambda>s.
             bindE (on_socket (\<lambda>fd. setsockopt_call os fd (TLS_HOSTNAME (sk_host s)))) (\<lambda>r.
               if r \<noteq> 0 then not_open ''set TLS_HOSTNAME failed'' else ret ())))))"

text \<open>Lines 131-149; \<^verbatim>\<open>SO_NOSIGPIPE\<close> and \<^verbatim>\<open>TCP_LOW_MIN_RTO\<close> do not exist on the platform.\<close>

definition sec_socket_options :: "'w tsocket_methods \<Rightarrow> ('w sk, unit) io" where
  "sec_socket_options ts =
     bindE the_socket (\<lambda>s.
     bindE (if sk_sendTimeout s > 0 then ts_setSendTimeout ts (sk_sendTimeout s) else ret ()) (\<lambda>_.
     bindE the_socket (\<lambda>s.
     bindE (if sk_recvTimeout s > 0 then ts_setRecvTimeout ts (sk_recvTimeout s) else ret ()) (\<lambda>_.
     bindE the_socket (\<lambda>s.
     bindE (if sk_keepAlive s then ts_setKeepAlive ts (sk_keepAlive s) else ret ()) (\<lambda>_.
     bindE the_socket (\<lambda>s.
     bindE (ts_setLinger ts (sk_lingerOn s) (sk_lingerVal s)) (\<lambda>_.
     bindE the_socket (\<lambda>s.
       ts_setNoDelay ts (sk_noDelay s))))))))))"

text \<open>Lines 166-180; the result is the flags to restore.\<close>

definition sec_nonblock :: "'w net_calls \<Rightarrow> ('w sk, u32) io" where
  "sec_nonblock os =
     bindE (on_socket (\<lambda>fd. getfl_call os fd)) (\<lambda>flags.
     bindE the_socket (\<lambda>s.
     bindE (on_socket (\<lambda>fd. setfl_call os fd
              (if sk_connTimeout s > 0 then flags OR O_NONBLOCK os else flags AND NOT (O_NONBLOCK os)))) (\<lambda>r.
       if r = -1 then not_open_errno os ''THRIFT_FCNTL() failed'' else ret flags)))"

text \<open>Lines 182-232.\<close>

definition sec_await :: "'w net_calls \<Rightarrow> ('w sk, unit) io" where
  "sec_await os =
     bindE the_socket (\<lambda>s.
     bindE (on_socket (\<lambda>fd. pollout_call os fd (sk_connTimeout s))) (\<lambda>r.
       if r > 0 then
         bindE (on_socket (\<lambda>fd. so_error_call os fd)) (\<lambda>(r2, val).
           if r2 = -1 then not_open_errno os ''getsockopt()''
           else if val = 0 then ret ()
           else throw (TTransportException NOT_OPEN ''socket open() error'' val))
       else if r = 0 then not_open ''open() timed out''
       else not_open_errno os ''THRIFT_POLL() failed''))"

definition sec_connect :: "'w net_calls \<Rightarrow> addrinfo \<Rightarrow> ('w sk, unit) io" where
  "sec_connect os res =
     bindE (on_socket (\<lambda>fd. connect_call os fd (ai_addr res))) (\<lambda>r.
       if r = 0 then ret ()
       else
         bindE get_state (\<lambda>(s, w).
           if sock_errno os w \<noteq> EINPROGRESS os \<and> sock_errno os w \<noteq> EWOULDBLOCK os
           then not_open_errno os ''connect() failed'' else sec_await os))"

text \<open>Lines 234-242.\<close>

definition sec_done :: "'w net_calls \<Rightarrow> 'w tsocket_methods \<Rightarrow> addrinfo \<Rightarrow> u32 \<Rightarrow> ('w sk, unit) io" where
  "sec_done os ts res flags =
     bindE (on_socket (\<lambda>fd. setfl_call os fd flags)) (\<lambda>r.
       if r = -1 then not_open_errno os ''THRIFT_FCNTL() failed''
       else ts_setCachedAddress ts (ai_addr res))"

definition openSecConnection :: "'w net_calls \<Rightarrow> 'w tsocket_methods \<Rightarrow> SSLContext list \<Rightarrow> addrinfo \<Rightarrow> ('w sk, unit) io" where
  "openSecConnection os ts ctxs res =
     bindE (sec_socket os ctxs res) (\<lambda>_.
     bindE (sec_tls_options os ctxs) (\<lambda>_.
     bindE (sec_socket_options ts) (\<lambda>_.
     bindE (sec_nonblock os) (\<lambda>flags.
     bindE (sec_connect os res) (\<lambda>_.
       sec_done os ts res flags)))))"

section \<open>\<open>open\<close>\<close>

fun is_transport_exception :: "exn \<Rightarrow> bool" where
  "is_transport_exception (TTransportException _ _ _) = True"
| "is_transport_exception _ = False"

definition free_addresses :: "'w net_calls \<Rightarrow> addrinfo list \<Rightarrow> ('w sk, unit) io" where
  "free_addresses os all = bindE get_state (\<lambda>(s, w). modify (\<lambda>_. (s, snd (freeaddrinfo_call os all w))))"

text \<open>The buffer for the port has the size of ``65535'' with its terminator.\<close>

definition sprintf_port :: "int \<Rightarrow> ('w sk, string) io" where
  "sprintf_port p = (if length (dec_string p) + 1 \<le> 6 then ret (dec_string p) else throw (Abort OutOfBounds))"

text \<open>Lines 288-303: one address after the other.\<close>

fun open_loop :: "'w net_calls \<Rightarrow> 'w tsocket_methods \<Rightarrow> SSLContext list \<Rightarrow> addrinfo list \<Rightarrow> addrinfo list \<Rightarrow> ('w sk, unit) io" where
  "open_loop os ts ctxs all [] = ret ()"
| "open_loop os ts ctxs all (res # next) =
     bindE (catchE (bindE (openSecConnection os ts ctxs res) (\<lambda>_. ret True)) (\<lambda>e.
        if is_transport_exception e then
          if next \<noteq> [] then bindE (ts_close ts) (\<lambda>_. ret False)
          else bindE (ts_close ts) (\<lambda>_. bindE (free_addresses os all) (\<lambda>_. throw e))
        else throw e))
       (\<lambda>stop. if stop then ret () else open_loop os ts ctxs all next)"

definition open_resolve :: "'w net_calls \<Rightarrow> string \<Rightarrow> string \<Rightarrow> ('w sk, int \<times> addrinfo list) io" where
  "open_resolve os host port =
     bindE (on_socket (\<lambda>_. getaddrinfo_call os host port PF_UNSPEC SOCK_STREAM [AI_PASSIVE, AI_ADDRCONFIG])) (\<lambda>(err, res0).
       if err = DNS_EAI_NODATA os
       then on_socket (\<lambda>_. getaddrinfo_call os host port PF_UNSPEC SOCK_STREAM [AI_PASSIVE]) else ret (err, res0))"

definition ssl_open :: "'w net_calls \<Rightarrow> 'w tsocket_methods \<Rightarrow> SSLContext list \<Rightarrow> ('w sk, unit) io" where
  "ssl_open os ts ctxs =
     bindE the_socket (\<lambda>s.
       if ts_isOpen ts s \<or> sk_server s then throw (TTransportException BAD_ARGS [] 0)
       else if sk_port s < 0 \<or> sk_port s > 0xFFFF then throw (TTransportException BAD_ARGS ''Specified port is invalid'' 0)
       else
         bindE (sprintf_port (sk_port s)) (\<lambda>port.
         bindE (open_resolve os (sk_host s) port) (\<lambda>(err, res0).
           if err \<noteq> 0 then
             bindE (ts_close ts) (\<lambda>_. not_open ''Could not resolve host for client socket.'')
           else
             bindE (open_loop os ts ctxs res0 res0) (\<lambda>_. free_addresses os res0))))"

section \<open>Constructors\<close>

text \<open>
  The constructors of the base class, and what the memory of a new object holds in the members that
  \<^verbatim>\<open>init\<close> sets.
\<close>

record tsocket_ctors =
  ts_new :: tsocket
  ts_new_fd :: "int \<Rightarrow> tsocket"
  ts_new_fd_listener :: "int \<Rightarrow> nat option \<Rightarrow> tsocket"
  ts_new_host :: "string \<Rightarrow> int \<Rightarrow> tsocket"
  fresh :: "bool \<times> int \<times> bool"

definition TSSLSocket_init :: "tssl_socket \<Rightarrow> tssl_socket" where
  "TSSLSocket_init s = s\<lparr>handshakeCompleted := False, readRetryCount := 0, eventSafe := False\<rparr>"

definition TSSLSocket_of :: "tsocket_ctors \<Rightarrow> nat \<Rightarrow> tsocket \<Rightarrow> tssl_socket" where
  "TSSLSocket_of cs ctx base = TSSLSocket_init (tsocket.extend base
     \<lparr>sk_server = False, sk_ctx = ctx, sk_access = None, handshakeCompleted = fst (fresh cs),
      readRetryCount = fst (snd (fresh cs)), eventSafe = snd (snd (fresh cs))\<rparr>)"

definition TSSLSocket_new :: "tsocket_ctors \<Rightarrow> nat \<Rightarrow> tssl_socket" where
  "TSSLSocket_new cs ctx = TSSLSocket_of cs ctx (ts_new cs)"

definition TSSLSocket_listener :: "tsocket_ctors \<Rightarrow> nat \<Rightarrow> nat option \<Rightarrow> tssl_socket" where
  "TSSLSocket_listener cs ctx l = (TSSLSocket_of cs ctx (ts_new cs))\<lparr>sk_interruptListener := l\<rparr>"

definition TSSLSocket_fd :: "tsocket_ctors \<Rightarrow> nat \<Rightarrow> int \<Rightarrow> tssl_socket" where
  "TSSLSocket_fd cs ctx fd = TSSLSocket_of cs ctx (ts_new_fd cs fd)"

definition TSSLSocket_fd_listener :: "tsocket_ctors \<Rightarrow> nat \<Rightarrow> int \<Rightarrow> nat option \<Rightarrow> tssl_socket" where
  "TSSLSocket_fd_listener cs ctx fd l = TSSLSocket_of cs ctx (ts_new_fd_listener cs fd l)"

definition TSSLSocket_host :: "tsocket_ctors \<Rightarrow> nat \<Rightarrow> string \<Rightarrow> int \<Rightarrow> tssl_socket" where
  "TSSLSocket_host cs ctx host port = TSSLSocket_of cs ctx (ts_new_host cs host port)"

definition TSSLSocket_host_listener :: "tsocket_ctors \<Rightarrow> nat \<Rightarrow> string \<Rightarrow> int \<Rightarrow> nat option \<Rightarrow> tssl_socket" where
  "TSSLSocket_host_listener cs ctx host port l =
     (TSSLSocket_of cs ctx (ts_new_host cs host port))\<lparr>sk_interruptListener := l\<rparr>"

text \<open>Accessors of \<^verbatim>\<open>TSSLSocket.h\<close>, the destructor, and the empty \<^verbatim>\<open>authorize\<close>.\<close>

definition ssl_set_server :: "bool \<Rightarrow> tssl_socket \<Rightarrow> tssl_socket" where
  "ssl_set_server flag s = s\<lparr>sk_server := flag\<rparr>"

definition ssl_set_access :: "manager \<Rightarrow> tssl_socket \<Rightarrow> tssl_socket" where
  "ssl_set_access m s = s\<lparr>sk_access := Some m\<rparr>"

definition setLibeventSafe :: "tssl_socket \<Rightarrow> tssl_socket" where
  "setLibeventSafe s = s\<lparr>eventSafe := True\<rparr>"

definition isLibeventSafe :: "tssl_socket \<Rightarrow> bool" where
  "isLibeventSafe s = eventSafe s"

definition ssl_destroy :: "'w tsocket_methods \<Rightarrow> ('w sk, unit) io" where
  "ssl_destroy ts = ts_close ts"

definition ssl_authorize :: "('w sk, unit) io" where
  "ssl_authorize = ret ()"

section \<open>The factory\<close>

record factory =
  f_ctx :: nat
  f_server :: bool
  f_access :: "manager option"

text \<open>The factory and the store of contexts.\<close>

type_synonym fstate = "factory \<times> SSLContext list"

definition TSSLSocketFactory_new :: "SSLProtocol \<Rightarrow> SSLContext list \<Rightarrow> exn + fstate" where
  "TSSLSocketFactory_new p ctxs =
     (let f = \<lparr>f_ctx = length ctxs, f_server = False, f_access = None\<rparr>;
          made = (\<lambda>c. Inr (f, ctxs @ [c]))
      in case p of
           SSLTLS \<Rightarrow> made SSLContext0
         | TLSv1_0 \<Rightarrow> made SSLContext0
         | TLSv1_1 \<Rightarrow> made (SSLContext0\<lparr>protocol := IPPROTO_TLS_1_1\<rparr>)
         | TLSv1_2 \<Rightarrow> made (SSLContext0\<lparr>protocol := IPPROTO_TLS_1_2\<rparr>)
         | _ \<Rightarrow> Inl (TTransportException BAD_ARGS ''Specified protocol is invalid'' 0))"

definition factory_is_server :: "factory \<Rightarrow> bool" where
  "factory_is_server f = f_server f"

definition set_verify :: "verify_mode \<Rightarrow> fstate \<Rightarrow> fstate" where
  "set_verify m = (\<lambda>(f, ctxs). (f, ctxs[f_ctx f := (ctxs ! f_ctx f)\<lparr>verifyMode := m\<rparr>]))"

definition factory_server :: "bool \<Rightarrow> fstate \<Rightarrow> fstate" where
  "factory_server flag = (\<lambda>(f, ctxs). set_verify TLS_PEER_VERIFY_NONE (f\<lparr>f_server := flag\<rparr>, ctxs))"

definition factory_authenticate :: "bool \<Rightarrow> fstate \<Rightarrow> fstate" where
  "factory_authenticate required st =
     (if required then set_verify TLS_PEER_VERIFY_REQUIRED st else set_verify TLS_PEER_VERIFY_NONE st)"

definition factory_access :: "manager option \<Rightarrow> fstate \<Rightarrow> fstate" where
  "factory_access m = (\<lambda>(f, ctxs). (f\<lparr>f_access := m\<rparr>, ctxs))"

definition factory_setup :: "tssl_socket \<Rightarrow> factory \<Rightarrow> tssl_socket \<times> factory" where
  "factory_setup ssl f =
     (let ssl = ssl_set_server (factory_is_server f) ssl;
          f = (if f_access f = None \<and> \<not> factory_is_server f then f\<lparr>f_access := Some DefaultClientAccessManager\<rparr> else f)
      in case f_access f of None \<Rightarrow> (ssl, f) | Some m \<Rightarrow> (ssl_set_access m ssl, f))"

definition createSocket_new :: "tsocket_ctors \<Rightarrow> factory \<Rightarrow> tssl_socket \<times> factory" where
  "createSocket_new cs f = factory_setup (TSSLSocket_new cs (f_ctx f)) f"

definition createSocket_listener :: "tsocket_ctors \<Rightarrow> nat option \<Rightarrow> factory \<Rightarrow> tssl_socket \<times> factory" where
  "createSocket_listener cs l f = factory_setup (TSSLSocket_listener cs (f_ctx f) l) f"

definition createSocket_fd :: "tsocket_ctors \<Rightarrow> int \<Rightarrow> factory \<Rightarrow> tssl_socket \<times> factory" where
  "createSocket_fd cs fd f = factory_setup (TSSLSocket_fd cs (f_ctx f) fd) f"

definition createSocket_fd_listener :: "tsocket_ctors \<Rightarrow> int \<Rightarrow> nat option \<Rightarrow> factory \<Rightarrow> tssl_socket \<times> factory" where
  "createSocket_fd_listener cs fd l f = factory_setup (TSSLSocket_fd_listener cs (f_ctx f) fd l) f"

definition createSocket_host :: "tsocket_ctors \<Rightarrow> string \<Rightarrow> int \<Rightarrow> factory \<Rightarrow> tssl_socket \<times> factory" where
  "createSocket_host cs host port f = factory_setup (TSSLSocket_host cs (f_ctx f) host port) f"

definition createSocket_host_listener :: "tsocket_ctors \<Rightarrow> string \<Rightarrow> int \<Rightarrow> nat option \<Rightarrow> factory \<Rightarrow> tssl_socket \<times> factory" where
  "createSocket_host_listener cs host port l f = factory_setup (TSSLSocket_host_listener cs (f_ctx f) host port l) f"

section \<open>Credentials\<close>

datatype cred_type = TLS_CREDENTIAL_CA_CERTIFICATE | TLS_CREDENTIAL_SERVER_CERTIFICATE | TLS_CREDENTIAL_PRIVATE_KEY

text \<open>The call takes the tag, the type and the bytes of the credential.\<close>

type_synonym 'w credential_add = "ThriftTLScertificateType \<Rightarrow> cred_type \<Rightarrow> string \<Rightarrow> 'w \<Rightarrow> int \<times> 'w"

definition ENOMEM :: int where "ENOMEM = 12"
definition EACCES :: int where "EACCES = 13"
definition EEXIST :: int where "EEXIST = 17"

definition tlsCredtErrMsg :: "int \<Rightarrow> string" where
  "tlsCredtErrMsg status =
     (if status = EACCES then ''Access to the TLS credential subsystem was denied''
      else if status = ENOMEM then ''Not enough memory to add new TLS credential''
      else if status = EEXIST then ''TLS credential of specific tag and type already exists''
      else ''Unknown error'')"

text \<open>A \<^verbatim>\<open>TSSLException\<close> is a \<^verbatim>\<open>TTransportException\<close> of the type \<^verbatim>\<open>INTERNAL_ERROR\<close>.\<close>

definition TSSLException :: "string \<Rightarrow> exn" where
  "TSSLException message = TTransportException INTERNAL_ERROR message 0"

definition TSSLException_what :: "string \<Rightarrow> string" where
  "TSSLException_what message = (if message = [] then ''TSSLException'' else message)"

text \<open>The bytes of a C string with its terminator.\<close>

definition c_string :: "string \<Rightarrow> string" where
  "c_string s = take (strlen s) s @ [NUL]"

definition add_credential :: "'w credential_add \<Rightarrow> ThriftTLScertificateType \<Rightarrow> cred_type \<Rightarrow> string \<Rightarrow> string \<Rightarrow> ('w, unit) io" where
  "add_credential add tag ty what s =
     bindE (sys (add tag ty (c_string s))) (\<lambda>status.
       if status \<noteq> 0 then throw (TSSLException (what @ tlsCredtErrMsg status)) else ret ())"

definition is_PEM :: "string \<Rightarrow> bool" where
  "is_PEM format \<longleftrightarrow> take (strlen format) format = ''PEM''"

definition unsupported :: "string \<Rightarrow> ('w, unit) io" where
  "unsupported format = throw (TSSLException (''Unsupported certificate format: '' @ take (strlen format) format))"

definition loadCertificate :: "string option \<Rightarrow> string option \<Rightarrow> ('w, unit) io" where
  "loadCertificate path format =
     (case (path, format) of
        (Some p, Some fmt) \<Rightarrow> if is_PEM fmt then ret () else unsupported fmt
      | _ \<Rightarrow> throw (TTransportException BAD_ARGS ''loadCertificateChain: either <path> or <format> is nullptr'' 0))"

definition loadCertificateFromBuffer :: "'w credential_add \<Rightarrow> string option \<Rightarrow> string option \<Rightarrow> ('w, unit) io" where
  "loadCertificateFromBuffer add cert format =
     (case (cert, format) of
        (Some c, Some fmt) \<Rightarrow>
          if is_PEM fmt
          then add_credential add Thrift_TLS_SERVER_CERT_TAG TLS_CREDENTIAL_SERVER_CERTIFICATE ''tls_credential_add: '' c
          else unsupported fmt
      | _ \<Rightarrow> throw (TTransportException BAD_ARGS ''loadCertificate: either <path> or <format> is nullptr'' 0))"

definition loadPrivateKey :: "string option \<Rightarrow> string option \<Rightarrow> ('w, unit) io" where
  "loadPrivateKey path format =
     (case (path, format) of
        (Some p, Some fmt) \<Rightarrow> ret ()
      | _ \<Rightarrow> throw (TTransportException BAD_ARGS ''loadPrivateKey: either <path> or <format> is nullptr'' 0))"

definition loadPrivateKeyFromBuffer :: "'w credential_add \<Rightarrow> string option \<Rightarrow> string option \<Rightarrow> ('w, unit) io" where
  "loadPrivateKeyFromBuffer add key format =
     (case (key, format) of
        (Some k, Some fmt) \<Rightarrow>
          if is_PEM fmt
          then add_credential add Thrift_TLS_PRIVATE_KEY TLS_CREDENTIAL_PRIVATE_KEY ''SSL_CTX_use_PrivateKey: '' k
          else unsupported fmt
      | _ \<Rightarrow> throw (TTransportException BAD_ARGS ''loadPrivateKey: either <path> or <format> is nullptr'' 0))"

definition loadTrustedCertificates :: "string option \<Rightarrow> string option \<Rightarrow> ('w, unit) io" where
  "loadTrustedCertificates path capath =
     (case path of
        Some p \<Rightarrow> ret ()
      | None \<Rightarrow> throw (TTransportException BAD_ARGS ''loadTrustedCertificates: <path> is nullptr'' 0))"

definition loadTrustedCertificatesFromBuffer :: "'w credential_add \<Rightarrow> string option \<Rightarrow> string option \<Rightarrow> ('w, unit) io" where
  "loadTrustedCertificatesFromBuffer add cert chain =
     (case cert of
        Some c \<Rightarrow> add_credential add Thrift_TLS_CA_CERT_TAG TLS_CREDENTIAL_CA_CERTIFICATE ''X509_STORE_add_cert: '' c
      | None \<Rightarrow> throw (TTransportException BAD_ARGS ''loadTrustedCertificates: aCertificate is empty'' 0))"

text \<open>
  \<^verbatim>\<open>strncpy\<close>: at most \<open>n\<close> bytes, padded with zeros. A negative length becomes a huge one.
\<close>

definition strncpy :: "string \<Rightarrow> string \<Rightarrow> int \<Rightarrow> string res" where
  "strncpy dst src n =
     (if n < 0 \<or> nat n > length dst then Inl OutOfBounds
      else let c = take (nat n) (take (strlen src) src) in
        Inr (c @ replicate (nat n - length c) NUL @ drop (nat n) dst))"

text \<open>
  \<open>getPassword\<close> is a virtual method; \<open>pw\<close> is the string it leaves. The result is the buffer and the return value.
\<close>

definition passwordCallback :: "(int \<Rightarrow> string) \<Rightarrow> string \<Rightarrow> int \<Rightarrow> (string \<times> int) res" where
  "passwordCallback getPassword password n =
     (let userPassword = getPassword n;
          len = sint (of_nat (length userPassword) :: 32 word);
          len = (if len > n then n else len)
      in bindR (strncpy password userPassword len) (\<lambda>buf. Inr (buf, len)))"

section \<open>Descriptors and address lists\<close>

lemma on_socket_fst: "on_socket f (s, w) = (Inr (fst (f (sk_socket s) w)), s, snd (f (sk_socket s) w))"
  by (simp add: on_socket_def split: prod.splits)

text \<open>
  What the calls do to the set of open descriptors and to the number of address lists not yet freed:
  only \<^verbatim>\<open>socket\<close> opens a descriptor, only \<^verbatim>\<open>close\<close> closes one, only a successful \<^verbatim>\<open>getaddrinfo\<close> allocates a list,
  which is not empty, and only \<^verbatim>\<open>freeaddrinfo\<close> frees one. The setters of \<^verbatim>\<open>TSocket\<close> throw nothing but transport exceptions.
\<close>

definition same :: "('w \<Rightarrow> int set) \<Rightarrow> ('w \<Rightarrow> nat) \<Rightarrow> 'w sk \<Rightarrow> 'w sk \<Rightarrow> bool" where
  "same fds addrs = (\<lambda>(s, w) (s', w'). sk_socket s' = sk_socket s \<and> sk_ctx s' = sk_ctx s \<and> fds w' = fds w \<and> addrs w' = addrs w)"

definition quiet :: "('w \<Rightarrow> int set) \<Rightarrow> ('w \<Rightarrow> nat) \<Rightarrow> ('w \<Rightarrow> 'a \<times> 'w) \<Rightarrow> bool" where
  "quiet fds addrs f \<longleftrightarrow> (\<forall>w. fds (snd (f w)) = fds w \<and> addrs (snd (f w)) = addrs w)"

definition kernel_accounts :: "('w \<Rightarrow> int set) \<Rightarrow> ('w \<Rightarrow> nat) \<Rightarrow> 'w net_calls \<Rightarrow> bool" where
  "kernel_accounts fds addrs os \<longleftrightarrow>
     (\<forall>f t p w fd w'. socket_call os f t p w = (fd, w') \<longrightarrow> addrs w' = addrs w \<and>
        (if fd = -1 then fds w' = fds w else fd \<notin> fds w \<and> fds w' = insert fd (fds w))) \<and>
     (\<forall>h p f t fl w err l w'. getaddrinfo_call os h p f t fl w = ((err, l), w') \<longrightarrow> fds w' = fds w \<and>
        addrs w' = addrs w + (if err = 0 then 1 else 0) \<and> (err = 0 \<longrightarrow> l \<noteq> [])) \<and>
     (\<forall>l w. fds (snd (freeaddrinfo_call os l w)) = fds w \<and> addrs (snd (freeaddrinfo_call os l w)) = addrs w - 1) \<and>
     (\<forall>fd x. quiet fds addrs (setsockopt_call os fd x)) \<and> (\<forall>fd. quiet fds addrs (getfl_call os fd)) \<and>
     (\<forall>fd x. quiet fds addrs (setfl_call os fd x)) \<and> (\<forall>fd a. quiet fds addrs (connect_call os fd a)) \<and>
     (\<forall>fd t. quiet fds addrs (pollout_call os fd t)) \<and> (\<forall>fd. quiet fds addrs (so_error_call os fd)) \<and>
     DNS_EAI_NODATA os \<noteq> 0"

definition setter :: "('w \<Rightarrow> int set) \<Rightarrow> ('w \<Rightarrow> nat) \<Rightarrow> ('w sk, unit) io \<Rightarrow> bool" where
  "setter fds addrs m \<longleftrightarrow> (\<forall>c r c'. m c = (r, c') \<longrightarrow> same fds addrs c c' \<and> (\<forall>e. r = Inl e \<longrightarrow> is_transport_exception e))"

definition tsocket_accounts :: "('w \<Rightarrow> int set) \<Rightarrow> ('w \<Rightarrow> nat) \<Rightarrow> 'w tsocket_methods \<Rightarrow> bool" where
  "tsocket_accounts fds addrs ts \<longleftrightarrow>
     (\<forall>s. ts_isOpen ts s \<longleftrightarrow> sk_socket s \<noteq> -1) \<and>
     (\<forall>s w r s' w'. ts_close ts (s, w) = (r, s', w') \<longrightarrow> r = Inr () \<and> sk_socket s' = -1 \<and> sk_ctx s' = sk_ctx s \<and>
        fds w' = fds w - {sk_socket s} \<and> addrs w' = addrs w) \<and>
     (\<forall>t. setter fds addrs (ts_setSendTimeout ts t)) \<and> (\<forall>t. setter fds addrs (ts_setRecvTimeout ts t)) \<and>
     (\<forall>b. setter fds addrs (ts_setKeepAlive ts b)) \<and> (\<forall>b v. setter fds addrs (ts_setLinger ts b v)) \<and>
     (\<forall>b. setter fds addrs (ts_setNoDelay ts b)) \<and> (\<forall>a. setter fds addrs (ts_setCachedAddress ts a))"

definition ctx_valid :: "SSLContext list \<Rightarrow> 'w sk \<Rightarrow> bool" where
  "ctx_valid ctxs = (\<lambda>(s, w). sk_ctx s < length ctxs)"

abbreviation calm :: "SSLContext list \<Rightarrow> ('w \<Rightarrow> int set) \<Rightarrow> ('w \<Rightarrow> nat) \<Rightarrow> ('w sk, 'a) io \<Rightarrow> bool" where
  "calm ctxs fds addrs \<equiv> tame (ctx_valid ctxs) is_transport_exception (same fds addrs)"

lemma frame_same [tame_intros]: "frame (ctx_valid ctxs) (same fds addrs)"
  by (auto simp: frame_def reflp_def transp_def same_def ctx_valid_def)

lemma calm_on_socket [tame_intros]: "(\<And>fd. quiet fds addrs (f fd)) \<Longrightarrow> calm ctxs fds addrs (on_socket f)"
  by (auto simp: tame_def on_socket_def same_def quiet_def split: prod.splits) (metis snd_conv)+

lemma calm_not_open [tame_intros]: "calm ctxs fds addrs (not_open m)"
  by (auto simp: not_open_def intro!: tame_intros)

lemma calm_not_open_errno [tame_intros]: "calm ctxs fds addrs (not_open_errno os m)"
  by (auto simp: not_open_errno_def intro!: tame_intros)

lemma calm_the_socket [tame_intros]: "calm ctxs fds addrs the_socket"
  by (auto simp: the_socket_def intro!: tame_intros)

lemma calm_the_ctx [tame_intros]: "calm ctxs fds addrs (the_ctx ctxs)"
  by (auto simp: the_ctx_def the_socket_def tame_def ctx_valid_def same_def bindE_def)

lemma calm_setter: "setter fds addrs m \<Longrightarrow> calm ctxs fds addrs m"
  by (simp add: setter_def tame_def)

lemma sec_pieces_calm:
  assumes k: "kernel_accounts fds addrs os" and t: "tsocket_accounts fds addrs ts"
  shows "calm ctxs fds addrs (sec_tls_options os ctxs)" and "calm ctxs fds addrs (sec_socket_options ts)"
    and "calm ctxs fds addrs (sec_nonblock os)" and "calm ctxs fds addrs (sec_await os)"
    and "calm ctxs fds addrs (sec_connect os res)" and "calm ctxs fds addrs (sec_done os ts res flags)"
proof -
  note q = k [unfolded kernel_accounts_def] and m = t [unfolded tsocket_accounts_def]
  show "calm ctxs fds addrs (sec_tls_options os ctxs)"
    unfolding sec_tls_options_def by (intro tame_intros) (simp_all add: q)
  show "calm ctxs fds addrs (sec_socket_options ts)"
    unfolding sec_socket_options_def by (intro tame_intros calm_setter) (simp_all add: m)
  show "calm ctxs fds addrs (sec_nonblock os)"
    unfolding sec_nonblock_def by (intro tame_intros) (simp_all add: q)
  show a: "calm ctxs fds addrs (sec_await os)"
    unfolding sec_await_def by (intro tame_intros) (simp_all add: q)
  show "calm ctxs fds addrs (sec_connect os res)"
    unfolding sec_connect_def by (intro tame_intros a) (simp_all add: q)
  show "calm ctxs fds addrs (sec_done os ts res flags)"
    unfolding sec_done_def by (intro tame_intros calm_setter) (simp_all add: q m)
qed

text \<open>The socket owns its descriptor, beside those that were open before.\<close>

definition owns :: "('w \<Rightarrow> int set) \<Rightarrow> ('w \<Rightarrow> nat) \<Rightarrow> int set \<Rightarrow> nat \<Rightarrow> 'w sk \<Rightarrow> bool" where
  "owns fds addrs base n = (\<lambda>(s, w). addrs w = n \<and>
     (if sk_socket s = -1 then fds w = base else sk_socket s \<notin> base \<and> fds w = insert (sk_socket s) base))"

lemma owns_same: "owns fds addrs base n c \<Longrightarrow> same fds addrs c c' \<Longrightarrow> owns fds addrs base n c'"
  by (cases c; cases c') (simp add: owns_def same_def)

lemma openSecConnection_owns:
  assumes k: "kernel_accounts fds addrs os" and t: "tsocket_accounts fds addrs ts"
    and c: "ctx_valid ctxs (s, w)" "owns fds addrs base n (s, w)" "sk_socket s = -1"
    and run: "openSecConnection os ts ctxs res (s, w) = (r, s', w')"
  shows "owns fds addrs base n (s', w') \<and> ctx_valid ctxs (s', w') \<and>
     (case r of Inl e \<Rightarrow> is_transport_exception e | Inr _ \<Rightarrow> sk_socket s' \<noteq> -1)"
proof -
  let ?rest = "bindE (sec_tls_options os ctxs) (\<lambda>_. bindE (sec_socket_options ts) (\<lambda>_.
     bindE (sec_nonblock os) (\<lambda>flags. bindE (sec_connect os res) (\<lambda>_. sec_done os ts res flags))))"
  have rest: "calm ctxs fds addrs ?rest" by (intro tame_intros sec_pieces_calm [OF k t])
  obtain fd w1 where fd: "socket_call os (ai_family res) (ai_socktype res) (protocol (ctxs ! sk_ctx s)) w = (fd, w1)" by fastforce
  let ?c = "(s\<lparr>sk_socket := fd\<rparr>, w1)"
  have o: "owns fds addrs base n ?c" "ctx_valid ctxs ?c"
    using k c fd unfolding kernel_accounts_def by (auto simp: owns_def ctx_valid_def)
  have 1: "sec_socket os ctxs res (s, w) =
     (if fd = -1 then (Inl (TTransportException NOT_OPEN ''socket()'' (sock_errno os w1)), ?c) else (Inr (), ?c))"
    using c(1) fd by (simp add: sec_socket_def the_ctx_def the_socket_def ctx_valid_def not_open_errno_def THRIFT_INVALID_SOCKET_def)
  show ?thesis
  proof (cases "fd = -1")
    case True
    then show ?thesis using run 1 o by (auto simp: openSecConnection_def)
  next
    case False
    then have "?rest ?c = (r, s', w')" using run 1 by (simp add: openSecConnection_def)
    from tameD [OF rest o(2) this] have "same fds addrs ?c (s', w')" "\<And>e. r = Inl e \<Longrightarrow> is_transport_exception e" by auto
    then show ?thesis using owns_same [OF o(1)] o(2) False by (auto simp: same_def ctx_valid_def split: sum.splits)
  qed
qed

lemma close_owns:
  assumes "tsocket_accounts fds addrs ts" and "owns fds addrs base n (s, w)" and "-1 \<notin> base" and "ctx_valid ctxs (s, w)"
  obtains s' w' where "ts_close ts (s, w) = (Inr (), s', w')" "sk_socket s' = -1" "owns fds addrs base n (s', w')" "ctx_valid ctxs (s', w')"
proof -
  obtain r s' w' where "ts_close ts (s, w) = (r, s', w')" by (metis prod_cases3)
  with assms that [of s' w'] show ?thesis unfolding tsocket_accounts_def by (auto simp: owns_def ctx_valid_def split: if_splits)
qed

lemma free_addresses_run: "free_addresses os all (s, w) = (Inr (), s, snd (freeaddrinfo_call os all w))"
  by (simp add: free_addresses_def)

lemma free_owns:
  assumes "kernel_accounts fds addrs os" and "owns fds addrs base (Suc n) (s, w)"
  shows "owns fds addrs base n (s, snd (freeaddrinfo_call os all w))"
  using assms unfolding kernel_accounts_def owns_def by auto

lemma open_loop_owns:
  assumes k: "kernel_accounts fds addrs os" and t: "tsocket_accounts fds addrs ts" and base: "-1 \<notin> base"
  shows "ctx_valid ctxs (s, w) \<Longrightarrow> owns fds addrs base (Suc n) (s, w) \<Longrightarrow> sk_socket s = -1 \<Longrightarrow>
     open_loop os ts ctxs all as (s, w) = (r, s', w') \<Longrightarrow>
     (case r of Inl e \<Rightarrow> is_transport_exception e \<and> sk_socket s' = -1 \<and> owns fds addrs base n (s', w')
      | Inr _ \<Rightarrow> owns fds addrs base (Suc n) (s', w') \<and> (sk_socket s' = -1 \<longleftrightarrow> as = []))"
proof (induction as arbitrary: s w)
  case (Cons a as)
  obtain r1 s1 w1 where 1: "openSecConnection os ts ctxs a (s, w) = (r1, s1, w1)" by (metis prod_cases3)
  note o = openSecConnection_owns [OF k t Cons.prems(1-3) 1]
  show ?case
  proof (cases r1)
    case (Inr u)
    then show ?thesis using Cons.prems(4) 1 o by (auto simp: bindE_def catchE_def)
  next
    case (Inl e)
    then have e: "is_transport_exception e" "ctx_valid ctxs (s1, w1)" "owns fds addrs base (Suc n) (s1, w1)" using o by auto
    obtain s2 w2 where 2: "ts_close ts (s1, w1) = (Inr (), s2, w2)" "sk_socket s2 = -1" "owns fds addrs base (Suc n) (s2, w2)"
       "ctx_valid ctxs (s2, w2)" using close_owns [OF t e(3) base e(2)] by blast
    show ?thesis
    proof (cases "as = []")
      case True
      then have "r = Inl e \<and> (s', w') = (s2, snd (freeaddrinfo_call os all w2))"
        using Cons.prems(4) 1 Inl e(1) 2(1) by (auto simp: bindE_def catchE_def free_addresses_run)
      then show ?thesis using e(1) 2 free_owns [OF k 2(3)] by auto
    next
      case False
      then have "open_loop os ts ctxs all as (s2, w2) = (r, s', w')"
        using Cons.prems(4) 1 Inl e(1) 2(1) by (auto simp: bindE_def catchE_def)
      from Cons.IH [OF 2(4) 2(3) 2(2) this] False show ?thesis by (auto split: sum.splits)
    qed
  qed
qed auto

lemma getaddrinfo_accounts:
  assumes "kernel_accounts fds addrs os" and "getaddrinfo_call os h p f t fl w = ((err, l), w')"
  shows "fds w' = fds w \<and> addrs w' = addrs w + (if err = 0 then 1 else 0) \<and> (err = 0 \<longrightarrow> l \<noteq> [])"
proof -
  have "\<forall>h p f t fl w err l w'. getaddrinfo_call os h p f t fl w = ((err, l), w') \<longrightarrow> fds w' = fds w \<and>
     addrs w' = addrs w + (if err = 0 then 1 else 0) \<and> (err = 0 \<longrightarrow> l \<noteq> [])"
    using assms(1) unfolding kernel_accounts_def by (elim conjE)
  from this [rule_format, OF assms(2)] show ?thesis by simp
qed

lemma resolve_accounts:
  assumes k: "kernel_accounts fds addrs os" and run: "open_resolve os host port (s, w) = (r, s', w')"
  obtains err l where "r = Inr (err, l)" "s' = s" "fds w' = fds w" "err = 0 \<Longrightarrow> l \<noteq> []"
    "addrs w' = addrs w + (if err = 0 then 1 else 0)"
proof -
  obtain e1 l1 w1 where 1: "getaddrinfo_call os host port PF_UNSPEC SOCK_STREAM [AI_PASSIVE, AI_ADDRCONFIG] w = ((e1, l1), w1)" by (metis prod.exhaust)
  obtain e2 l2 w2 where 2: "getaddrinfo_call os host port PF_UNSPEC SOCK_STREAM [AI_PASSIVE] w1 = ((e2, l2), w2)" by (metis prod.exhaust)
  have r: "(r, s', w') = (if e1 = DNS_EAI_NODATA os then (Inr (e2, l2), s, w2) else (Inr (e1, l1), s, w1))"
    using run 1 2 by (auto simp: open_resolve_def on_socket_def bindE_def)
  have "DNS_EAI_NODATA os \<noteq> 0" using k by (simp add: kernel_accounts_def)
  then show thesis using r that getaddrinfo_accounts [OF k 1] getaddrinfo_accounts [OF k 2] by (cases "e1 = DNS_EAI_NODATA os") auto
qed

lemma port_fits:
  assumes "0 \<le> p" and "p \<le> 0xFFFF"
  shows "sprintf_port p = ret (dec_string p)"
proof -
  have "length (dec_digits (nat p)) \<le> 5" by (rule dec_digits_length) (use assms in auto)
  then show ?thesis using assms by (simp add: sprintf_port_def dec_string_def)
qed

text \<open>C11: \<^verbatim>\<open>TSSLSocket::open\<close> neither leaks nor crashes. Whatever the kernel answers, it fails only with a
  transport exception, and then the descriptors open afterwards are those open before and every address
  list has been freed; when it succeeds, the one new descriptor is that of the socket, and the address
  list has been freed as well. In particular the port is always valid for its six-byte buffer.\<close>

theorem open_no_leak:
  assumes "kernel_accounts fds addrs os" and "tsocket_accounts fds addrs ts"
    and "-1 \<notin> fds w" and "sk_ctx s < length ctxs"
    and "ssl_open os ts ctxs (s, w) = (r, s', w')"
  shows "(case r of
            Inl e \<Rightarrow> is_transport_exception e \<and> fds w' = fds w
          | Inr _ \<Rightarrow> sk_socket s' \<notin> fds w \<and> sk_socket s' \<noteq> -1 \<and> fds w' = insert (sk_socket s') (fds w)) \<and>
     addrs w' = addrs w"
proof (cases "ts_isOpen ts s \<or> sk_server s \<or> sk_port s < 0 \<or> sk_port s > 0xFFFF")
  case True
  then show ?thesis using assms(5) by (auto simp: ssl_open_def the_socket_def bindE_def split: if_splits)
next
  case False
  then have port: "sprintf_port (sk_port s) (s, w) = (Inr (dec_string (sk_port s)), s, w)" by (simp add: port_fits)
  have shut: "sk_socket s = -1" using False assms(2) by (auto simp: tsocket_accounts_def)
  obtain r1 s1 w1 where 1: "open_resolve os (sk_host s) (dec_string (sk_port s)) (s, w) = (r1, s1, w1)" by (metis prod_cases3)
  obtain err l where l: "r1 = Inr (err, l)" "s1 = s" "fds w1 = fds w" "err = 0 \<Longrightarrow> l \<noteq> []"
     "addrs w1 = addrs w + (if err = 0 then 1 else 0)" using resolve_accounts [OF assms(1) 1] by blast
  have rest: "(if err \<noteq> 0 then bindE (ts_close ts) (\<lambda>_. not_open ''Could not resolve host for client socket.'')
     else bindE (open_loop os ts ctxs l l) (\<lambda>_. free_addresses os l)) (s, w1) = (r, s', w')"
    using assms(5) False port 1 l(1,2) by (simp add: ssl_open_def the_socket_def)
  have o: "owns fds addrs (fds w) (addrs w1) (s, w1)" "ctx_valid ctxs (s, w1)"
    using shut l(3) assms(4) by (auto simp: owns_def ctx_valid_def)
  show ?thesis
  proof (cases "err = 0")
    case False
    obtain s2 w2 where 2: "ts_close ts (s, w1) = (Inr (), s2, w2)" "sk_socket s2 = -1" "owns fds addrs (fds w) (addrs w1) (s2, w2)"
      using close_owns [OF assms(2) o(1) assms(3) o(2)] by blast
    then show ?thesis using rest False l(5) by (auto simp: not_open_def owns_def)
  next
    case True
    obtain r2 s2 w2 where 2: "open_loop os ts ctxs l l (s, w1) = (r2, s2, w2)" by (metis prod_cases3)
    have o1: "owns fds addrs (fds w) (Suc (addrs w)) (s, w1)" using o(1) l(5) True by simp
    note loop = open_loop_owns [OF assms(1,2,3) o(2) o1 shut 2]
    show ?thesis
    proof (cases r2)
      case (Inl e)
      then show ?thesis using rest True 2 loop by (auto simp: owns_def)
    next
      case (Inr u)
      then have o2: "owns fds addrs (fds w) (Suc (addrs w)) (s2, w2)" "sk_socket s2 \<noteq> -1" using loop l(4) True by auto
      have "r = Inr () \<and> (s', w') = (s2, snd (freeaddrinfo_call os l w2))"
        using rest True 2 Inr by (simp add: free_addresses_run)
      then show ?thesis using free_owns [OF assms(1) o2(1), of l] o2(2) by (auto simp: owns_def)
    qed
  qed
qed

text \<open>A kernel that refuses the given number of connections, in the shape the theorem asks for.\<close>

record kern =
  k_fds :: "int list"
  k_next :: int
  k_lists :: nat
  k_refuse :: nat

definition kern_os :: "kern net_calls" where
  "kern_os = \<lparr>socket_call = (\<lambda>f t p k. if k_next k = -1 \<or> k_next k \<in> set (k_fds k) then (-1, k)
                else (k_next k, k\<lparr>k_fds := k_next k # k_fds k, k_next := k_next k + 1\<rparr>)),
     setsockopt_call = (\<lambda>fd x k. (0, k)), getfl_call = (\<lambda>fd k. (0, k)), setfl_call = (\<lambda>fd x k. (0, k)),
     connect_call = (\<lambda>fd a k. if k_refuse k = 0 then (0, k) else (-1, k\<lparr>k_refuse := k_refuse k - 1\<rparr>)),
     pollout_call = (\<lambda>fd t k. (1, k)), so_error_call = (\<lambda>fd k. ((0, 0), k)),
     getaddrinfo_call = (\<lambda>h p f t fl k. ((0, [\<lparr>ai_family = 1, ai_socktype = 1, ai_addr = [10, 0, 0, 1]\<rparr>,
        \<lparr>ai_family = 1, ai_socktype = 1, ai_addr = [10, 0, 0, 2]\<rparr>]), k\<lparr>k_lists := k_lists k + 1\<rparr>)),
     freeaddrinfo_call = (\<lambda>l k. ((), k\<lparr>k_lists := k_lists k - 1\<rparr>)), sock_errno = (\<lambda>k. 111),
     O_NONBLOCK = 0x4000, EINPROGRESS = 115, EWOULDBLOCK = 11, DNS_EAI_NODATA = -5\<rparr>"

definition kern_ts :: "kern tsocket_methods" where
  "kern_ts = \<lparr>ts_isOpen = (\<lambda>s. sk_socket s \<noteq> -1),
     ts_close = (\<lambda>(s, k). (Inr (), s\<lparr>sk_socket := -1\<rparr>, k\<lparr>k_fds := removeAll (sk_socket s) (k_fds k)\<rparr>)),
     ts_setSendTimeout = (\<lambda>_. ret ()), ts_setRecvTimeout = (\<lambda>_. ret ()), ts_setKeepAlive = (\<lambda>_. ret ()),
     ts_setLinger = (\<lambda>_ _. ret ()), ts_setNoDelay = (\<lambda>_. ret ()), ts_setCachedAddress = (\<lambda>_. ret ())\<rparr>"

definition client0 :: tssl_socket where
  "client0 = \<lparr>sk_socket = -1, sk_host = ''zephyr.org'', sk_port = 4242, sk_sendTimeout = 0, sk_recvTimeout = 0,
     sk_connTimeout = 0, sk_keepAlive = False, sk_lingerOn = True, sk_lingerVal = 0, sk_noDelay = True,
     sk_interruptListener = None, sk_server = False, sk_ctx = 0, sk_access = None, handshakeCompleted = False,
     readRetryCount = 0, eventSafe = False\<rparr>"

lemma kern_accounts:
  "kernel_accounts (\<lambda>k. set (k_fds k)) k_lists kern_os" "tsocket_accounts (\<lambda>k. set (k_fds k)) k_lists kern_ts"
  by (auto simp: kernel_accounts_def tsocket_accounts_def kern_os_def kern_ts_def quiet_def setter_def same_def split: if_splits)

text \<open>The first address refuses, the second accepts.\<close>

theorem open_no_leak_witness:
  "case ssl_open kern_os kern_ts [SSLContext0] (client0, \<lparr>k_fds = [3], k_next = 4, k_lists = 0, k_refuse = 1\<rparr>) of
     (r, s', k') \<Rightarrow> r = Inr () \<and> sk_socket s' = 5 \<and> set (k_fds k') = {5, 3} \<and> k_lists k' = 0"
proof -
  let ?k = "\<lparr>k_fds = [3], k_next = 4, k_lists = 0, k_refuse = 1\<rparr> :: kern"
  obtain r s' k' where run: "ssl_open kern_os kern_ts [SSLContext0] (client0, ?k) = (r, s', k')" by (metis prod_cases3)
  have "r = Inr () \<and> sk_socket s' = 5"
    using run by (simp add: ssl_open_def the_socket_def kern_os_def kern_ts_def client0_def sprintf_port_def dec_string_def
       dec_digits.simps open_resolve_def on_socket_def bindE_def catchE_def openSecConnection_def sec_socket_def the_ctx_def
       sec_tls_options_def sec_socket_options_def sec_nonblock_def sec_connect_def sec_done_def not_open_errno_def
       THRIFT_INVALID_SOCKET_def free_addresses_def) auto
  then show ?thesis using open_no_leak [OF kern_accounts _ _ run] run by (auto simp: client0_def)
qed

section \<open>Credentials and passwords\<close>

text \<open>C29: the loaders that take a buffer hand exactly the given C string with its terminator to the credential
  store, each under its own tag, and the tags are those that every connection names in
  \<^verbatim>\<open>TLS_SEC_TAG_LIST\<close>; they fail if and only if the store does.\<close>

theorem loaders_register:
  assumes "NUL \<notin> set c" and "add = (\<lambda>tag ty s w. (st w, w @ [(tag, ty, s)]))"
  shows "loadTrustedCertificatesFromBuffer add (Some c) chain w =
       (if st w = 0 then Inr () else Inl (TSSLException (''X509_STORE_add_cert: '' @ tlsCredtErrMsg (st w))),
        w @ [(sec_tag_list ! 0, TLS_CREDENTIAL_CA_CERTIFICATE, c @ [NUL])]) \<and>
     loadCertificateFromBuffer add (Some c) (Some ''PEM'') w =
       (if st w = 0 then Inr () else Inl (TSSLException (''tls_credential_add: '' @ tlsCredtErrMsg (st w))),
        w @ [(sec_tag_list ! 1, TLS_CREDENTIAL_SERVER_CERTIFICATE, c @ [NUL])]) \<and>
     loadPrivateKeyFromBuffer add (Some c) (Some ''PEM'') w =
       (if st w = 0 then Inr () else Inl (TSSLException (''SSL_CTX_use_PrivateKey: '' @ tlsCredtErrMsg (st w))),
        w @ [(sec_tag_list ! 2, TLS_CREDENTIAL_PRIVATE_KEY, c @ [NUL])])"
proof -
  have c: "c_string c = c @ [NUL]" using assms(1) by (simp add: c_string_def strlen_full)
  have pem: "is_PEM ''PEM''" by (simp add: is_PEM_def strlen_def NUL_def)
  show ?thesis
    by (simp add: loadTrustedCertificatesFromBuffer_def loadCertificateFromBuffer_def loadPrivateKeyFromBuffer_def
       add_credential_def bindE_def c pem assms(2) sec_tag_list_def)
qed

theorem loaders_register_witness:
  "loadPrivateKeyFromBuffer (\<lambda>tag ty s w. (0, w @ [(tag, ty, s)])) (Some ''key'') (Some ''PEM'') [] =
     (Inr (), [(Thrift_TLS_PRIVATE_KEY, TLS_CREDENTIAL_PRIVATE_KEY, ''key'' @ [NUL])])"
proof -
  have "NUL \<notin> set ''key''" by (simp add: NUL_def)
  from loaders_register [OF this refl, of "\<lambda>_. 0" _ "[]"] show ?thesis by (simp add: sec_tag_list_def)
qed

text \<open>The messages for the failures of the credential store are never used. \<^verbatim>\<open>tls_credential_add\<close> reports an
  error as a negative number, for which the message is always ``Unknown error'', whatever went wrong.\<close>

theorem credential_errors_unknown:
  assumes "\<And>tag ty s w. fst (add tag ty s w) \<in> {0, - EACCES, - ENOMEM, - EEXIST}"
    and "loadPrivateKeyFromBuffer add (Some k) (Some ''PEM'') w = (Inl e, w')"
  shows "e = TSSLException ''SSL_CTX_use_PrivateKey: Unknown error''"
proof -
  have pem: "is_PEM ''PEM''" by (simp add: is_PEM_def strlen_def NUL_def)
  have "tlsCredtErrMsg (fst (add tag ty s w)) = ''Unknown error''" for tag ty s w
    using assms(1) [of tag ty s w] by (auto simp: tlsCredtErrMsg_def EACCES_def ENOMEM_def EEXIST_def)
  then show ?thesis using assms(2) by (auto simp: loadPrivateKeyFromBuffer_def add_credential_def pem bindE_def split: if_splits)
qed

theorem credential_errors_unknown_witness:
  "fst (loadPrivateKeyFromBuffer (\<lambda>tag ty s w. (- ENOMEM, w)) (Some ''key'') (Some ''PEM'') ()) =
     Inl (TSSLException ''SSL_CTX_use_PrivateKey: Unknown error'')"
proof -
  have pem: "is_PEM ''PEM''" by (simp add: is_PEM_def strlen_def NUL_def)
  have run: "loadPrivateKeyFromBuffer (\<lambda>tag ty s w. (- ENOMEM, w)) (Some ''key'') (Some ''PEM'') () =
     (Inl (TSSLException (''SSL_CTX_use_PrivateKey: '' @ tlsCredtErrMsg (- ENOMEM))), ())"
    by (simp add: loadPrivateKeyFromBuffer_def add_credential_def bindE_def pem ENOMEM_def)
  from credential_errors_unknown [OF _ this] run show ?thesis by simp
qed

text \<open>C30: the password callback never writes beyond the size it is given and returns the number of bytes it
  has filled: those of the password, cut to the size, and nothing behind them changes.\<close>

theorem passwordCallback_bounded:
  assumes "0 \<le> n" and "nat n \<le> length password" and "NUL \<notin> set (getPassword n)" and "length (getPassword n) < 2 ^ 31"
  shows "passwordCallback getPassword password n =
     Inr (take (nat n) (getPassword n) @ drop (min (nat n) (length (getPassword n))) password, int (min (nat n) (length (getPassword n))))"
proof -
  let ?u = "getPassword n"
  have len: "sint (of_nat (length ?u) :: 32 word) = int (length ?u)" using assms(4)
    by (simp add: sint_of_nat_small)
  have tk: "strlen ?u = length ?u" using assms(3) by (rule strlen_full)
  let ?m = "min (nat n) (length ?u)"
  have m: "(if int (length ?u) > n then n else int (length ?u)) = int ?m" using assms(1) by (auto simp: min_def)
  have "take ?m ?u = take (nat n) ?u" by (simp add: min_def)
  then have "strncpy password ?u (int ?m) = Inr (take (nat n) ?u @ drop ?m password)"
    using assms(2) by (simp add: strncpy_def tk Let_def)
  then show ?thesis unfolding passwordCallback_def Let_def len m by simp
qed

theorem passwordCallback_bounded_witness:
  "passwordCallback (\<lambda>_. ''secret'') ''........'' 4 = Inr (''secr....'', 4)"
  using passwordCallback_bounded [of 4 "''........''" "\<lambda>_. ''secret''"] by (simp add: NUL_def)

end
