(* ===== verification/TLS_Server_Socket.thy ===== *)
theory TLS_Server_Socket
  imports TLS_Socket
begin

text \<open>
  \<^verbatim>\<open>TSSLServerSocket.cpp\<close>: the listening TLS socket. The base class \<^verbatim>\<open>TServerSocket\<close> is declared in the
  repository and implemented outside; its methods, like the kernel, are parameters. The descriptor that
  wakes up the children is a cell shared with them, so the cells live in a store.
\<close>

section \<open>State and calls\<close>

record server_socket =
  ss_interruptableChildren :: bool
  ss_childReader :: "nat option"
  ss_port :: int
  ss_address :: string
  ss_socket :: int
  ss_acceptBacklog :: int
  ss_sendTimeout :: int
  ss_recvTimeout :: int
  ss_retryLimit :: int
  ss_retryDelay :: int
  ss_listening :: bool
  ss_interruptWriter :: int
  ss_interruptReader :: int
  ss_childWriter :: int

type_synonym 'w ss = "server_socket \<times> int list \<times> 'w"

text \<open>The address that \<^verbatim>\<open>getsockname\<close> stores, with the two bytes of its port.\<close>

datatype sockname = Sockaddr_in u8 u8 | Sockaddr_in6 u8 u8

definition ntohs :: "u8 \<Rightarrow> u8 \<Rightarrow> int" where
  "ntohs hi lo = 256 * uint hi + uint lo"

record 'w server_calls = "'w net_calls" +
  socketpair_call :: "'w \<Rightarrow> (int \<times> int \<times> int) \<times> 'w"
  resolve_call :: "string \<Rightarrow> string \<Rightarrow> int \<Rightarrow> aiflag list \<Rightarrow> 'w \<Rightarrow> (int + addrinfo list) \<times> 'w"
  bind_call :: "int \<Rightarrow> u8 list \<Rightarrow> 'w \<Rightarrow> int \<times> 'w"
  sleep_call :: "int \<Rightarrow> 'w \<Rightarrow> int \<times> 'w"
  getsockname_call :: "int \<Rightarrow> 'w \<Rightarrow> (int \<times> sockname) \<times> 'w"
  listen_call :: "int \<Rightarrow> int \<Rightarrow> 'w \<Rightarrow> int \<times> 'w"
  closesocket_call :: "int \<Rightarrow> 'w \<Rightarrow> int \<times> 'w"
  AF_INET6_family :: int
  has_V6ONLY :: bool

text \<open>
  Methods of \<^verbatim>\<open>TServerSocket\<close>, the callback of the user if there is one, and what giving up the reference
  to a shared cell does (the deleter runs with the last reference).
\<close>

record 'w server_methods =
  sv_setup_sockopts :: "('w ss, unit) io"
  sv_setup_tcp_sockopts :: "('w ss, unit) io"
  sv_close :: "('w ss, unit) io"
  sv_listenCallback :: "(int \<Rightarrow> ('w ss, unit) io) option"
  sv_release :: "nat option \<Rightarrow> ('w ss, unit) io"

definition on_kernel :: "('w \<Rightarrow> 'a \<times> 'w) \<Rightarrow> ('w ss, 'a) io" where
  "on_kernel f = (\<lambda>(s, h, w). case f w of (x, w') \<Rightarrow> (Inr x, (s, h, w')))"

definition the_server :: "('w ss, server_socket) io" where
  "the_server = (\<lambda>(s, h, w). (Inr s, (s, h, w)))"

definition set_server :: "(server_socket \<Rightarrow> server_socket) \<Rightarrow> ('w ss, unit) io" where
  "set_server f = (\<lambda>(s, h, w). (Inr (), (f s, h, w)))"

definition the_errno :: "('w, 'x) server_calls_scheme \<Rightarrow> ('w ss, int) io" where
  "the_errno os = (\<lambda>(s, h, w). (Inr (sock_errno os w), (s, h, w)))"

section \<open>Constructors and children\<close>

record server_ctors =
  sv_new :: "int \<Rightarrow> server_socket"
  sv_new_address :: "string \<Rightarrow> int \<Rightarrow> server_socket"
  sv_new_timeouts :: "int \<Rightarrow> int \<Rightarrow> int \<Rightarrow> server_socket"

definition TSSLServerSocket_new :: "server_ctors \<Rightarrow> int \<Rightarrow> fstate \<Rightarrow> server_socket \<times> fstate" where
  "TSSLServerSocket_new sc port st = (sv_new sc port, factory_server True st)"

definition TSSLServerSocket_address :: "server_ctors \<Rightarrow> string \<Rightarrow> int \<Rightarrow> fstate \<Rightarrow> server_socket \<times> fstate" where
  "TSSLServerSocket_address sc address port st = (sv_new_address sc address port, factory_server True st)"

definition TSSLServerSocket_timeouts :: "server_ctors \<Rightarrow> int \<Rightarrow> int \<Rightarrow> int \<Rightarrow> fstate \<Rightarrow> server_socket \<times> fstate" where
  "TSSLServerSocket_timeouts sc port sendT recvT st = (sv_new_timeouts sc port sendT recvT, factory_server True st)"

definition createSocket :: "tsocket_ctors \<Rightarrow> server_socket \<Rightarrow> int \<Rightarrow> factory \<Rightarrow> tssl_socket \<times> factory" where
  "createSocket cs s client f =
     (if ss_interruptableChildren s then createSocket_fd_listener cs client (ss_childReader s) f
      else createSocket_fd cs client f)"

section \<open>\<open>close\<close>\<close>

definition ssl_server_close :: "('w, 'x) server_calls_scheme \<Rightarrow> 'w server_methods \<Rightarrow> ('w ss, unit) io" where
  "ssl_server_close os sv =
     bindE get_state (\<lambda>(s, h, w).
     bindE (case ss_childReader s of
              None \<Rightarrow> ret ()
            | Some c \<Rightarrow>
                if c \<ge> length h then throw (Abort UseAfterFree)
                else if h ! c \<noteq> THRIFT_INVALID_SOCKET then
                  bindE (on_kernel (closesocket_call os (h ! c))) (\<lambda>_.
                    modify (\<lambda>(s, h, w). (s, h[c := THRIFT_INVALID_SOCKET], w)))
                else ret ()) (\<lambda>_.
       sv_close sv))"

section \<open>\<open>listen\<close>\<close>

text \<open>Lines 63-84: two socket pairs; a failure is only logged.\<close>

definition listen_interrupt_pair :: "('w, 'x) server_calls_scheme \<Rightarrow> ('w ss, unit) io" where
  "listen_interrupt_pair os =
     bindE (on_kernel (socketpair_call os)) (\<lambda>(r, sv0, sv1).
       if r = -1 then set_server (\<lambda>s. s\<lparr>ss_interruptWriter := THRIFT_INVALID_SOCKET, ss_interruptReader := THRIFT_INVALID_SOCKET\<rparr>)
       else set_server (\<lambda>s. s\<lparr>ss_interruptWriter := sv1, ss_interruptReader := sv0\<rparr>))"

definition listen_child_pair :: "('w, 'x) server_calls_scheme \<Rightarrow> 'w server_methods \<Rightarrow> ('w ss, unit) io" where
  "listen_child_pair os sv =
     bindE (on_kernel (socketpair_call os)) (\<lambda>(r, sv0, sv1).
     bindE the_server (\<lambda>s.
     bindE (if r = -1 then set_server (\<lambda>s. s\<lparr>ss_childWriter := THRIFT_INVALID_SOCKET, ss_childReader := None\<rparr>)
            else modify (\<lambda>(s, h, w). (s\<lparr>ss_childWriter := sv1, ss_childReader := Some (length h)\<rparr>, h @ [sv0], w))) (\<lambda>_.
       sv_release sv (ss_childReader s))))"

text \<open>Lines 129-150: the options of a new socket.\<close>

definition bind_options :: "('w, 'x) server_calls_scheme \<Rightarrow> 'w server_methods \<Rightarrow> addrinfo \<Rightarrow> ('w ss, unit) io" where
  "bind_options os sv trybind =
     bindE (sv_setup_sockopts sv) (\<lambda>_.
     bindE (sv_setup_tcp_sockopts sv) (\<lambda>_.
     bindE the_server (\<lambda>s.
     bindE (on_kernel (setsockopt_call os (ss_socket s) (TLS_SEC_TAG_LIST sec_tag_list))) (\<lambda>r.
       if r \<noteq> 0 then throw (TTransportException NOT_OPEN ''set TLS_SEC_TAG_LIST failed'' 0)
       else if has_V6ONLY os \<and> ai_family trybind = AF_INET6_family os
       then bindE (on_kernel (setsockopt_call os (ss_socket s) (IPV6_V6ONLY 0))) (\<lambda>_. ret ())
       else ret ()))))"

text \<open>
  Lines 117-155: one round of the loop. The iterator starts again at the first address when it is
  exhausted. The result says whether the socket is bound, what is left of the addresses and the error.
\<close>

definition bind_attempt :: "('w, 'x) server_calls_scheme \<Rightarrow> 'w server_methods \<Rightarrow> addrinfo list \<Rightarrow> addrinfo list \<Rightarrow> int \<Rightarrow>
     ('w ss, bool \<times> addrinfo list \<times> int) io" where
  "bind_attempt os sv all iter err =
     (case (if iter = [] then all else iter) of
        [] \<Rightarrow> throw (Abort NullPointer)
      | trybind # rest \<Rightarrow>
          bindE (on_kernel (socket_call os (ai_family trybind) (ai_socktype trybind) IPPROTO_TLS_1_2)) (\<lambda>fd.
          bindE (set_server (\<lambda>s. s\<lparr>ss_socket := fd\<rparr>)) (\<lambda>_.
            if fd = -1 then bindE (the_errno os) (\<lambda>e. ret (False, rest, e))
            else
              bindE (bind_options os sv trybind) (\<lambda>_.
              bindE the_server (\<lambda>s.
              bindE (on_kernel (bind_call os (ss_socket s) (ai_addr trybind))) (\<lambda>b.
                if b = 0 then ret (True, rest, err)
                else bindE (the_errno os) (\<lambda>e. ret (False, rest, e))))))))"

text \<open>
  Lines 116-158; \<open>left\<close> is the number of retries that the limit still allows. The result is the value of
  \<^verbatim>\<open>retries\<close> and of \<^verbatim>\<open>errno_copy\<close> after the loop.
\<close>

primrec bind_loop :: "('w, 'x) server_calls_scheme \<Rightarrow> 'w server_methods \<Rightarrow> addrinfo list \<Rightarrow> int \<Rightarrow> nat \<Rightarrow> int \<Rightarrow> addrinfo list \<Rightarrow> int \<Rightarrow>
     ('w ss, int \<times> int) io" where
  "bind_loop os sv all delay 0 retries iter err =
     bindE (bind_attempt os sv all iter err) (\<lambda>(bound, rest, err).
       if bound then ret (retries, err) else ret (retries + 1, err))"
| "bind_loop os sv all delay (Suc left) retries iter err =
     bindE (bind_attempt os sv all iter err) (\<lambda>(bound, rest, err).
       if bound then ret (retries, err)
       else
         bindE (on_kernel (sleep_call os delay)) (\<lambda>r.
           if r = 0 then bind_loop os sv all delay left (retries + 1) rest err else ret (retries + 1, err)))"

text \<open>Lines 160-177.\<close>

definition listen_port :: "('w, 'x) server_calls_scheme \<Rightarrow> int \<Rightarrow> int \<Rightarrow> ('w ss, int) io" where
  "listen_port os retries err =
     bindE the_server (\<lambda>s.
       if ss_port s = 0 \<and> retries \<le> ss_retryLimit s then
         bindE (on_kernel (getsockname_call os (ss_socket s))) (\<lambda>(r, sa).
           if r < 0 then the_errno os
           else
             bindE (set_server (\<lambda>s. s\<lparr>ss_port := (case sa of Sockaddr_in6 hi lo \<Rightarrow> ntohs hi lo | Sockaddr_in hi lo \<Rightarrow> ntohs hi lo)\<rparr>)) (\<lambda>_.
               ret err))
       else ret err)"

text \<open>Lines 179-211.\<close>

definition close_and_throw :: "('w, 'x) server_calls_scheme \<Rightarrow> 'w server_methods \<Rightarrow> string \<Rightarrow> int \<Rightarrow> ('w ss, unit) io" where
  "close_and_throw os sv what err = bindE (ssl_server_close os sv) (\<lambda>_. throw (TTransportException NOT_OPEN what err))"

definition listen_finish :: "('w, 'x) server_calls_scheme \<Rightarrow> 'w server_methods \<Rightarrow> int \<Rightarrow> int \<Rightarrow> ('w ss, unit) io" where
  "listen_finish os sv retries err =
     bindE the_server (\<lambda>s.
       if ss_socket s = THRIFT_INVALID_SOCKET then close_and_throw os sv ''Could not create server socket.'' err
       else if retries > ss_retryLimit s then close_and_throw os sv ''Could not bind'' err
       else
         bindE (case sv_listenCallback sv of None \<Rightarrow> ret () | Some cb \<Rightarrow> cb (ss_socket s)) (\<lambda>_.
         bindE the_server (\<lambda>s.
         bindE (on_kernel (listen_call os (ss_socket s) (ss_acceptBacklog s))) (\<lambda>r.
           if r = -1 then bindE (the_errno os) (\<lambda>e. close_and_throw os sv ''Could not listen'' e)
           else set_server (\<lambda>s. s\<lparr>ss_listening := True\<rparr>)))))"

text \<open>Lines 105-211, once the addresses are known.\<close>

definition listen_resolved :: "('w, 'x) server_calls_scheme \<Rightarrow> 'w server_methods \<Rightarrow> addrinfo list \<Rightarrow> ('w ss, unit) io" where
  "listen_resolved os sv all =
     bindE the_server (\<lambda>s.
     bindE (bind_loop os sv all (ss_retryDelay s) (nat (ss_retryLimit s)) 0 [] 0) (\<lambda>(retries, err).
     bindE (listen_port os retries err) (\<lambda>err.
       listen_finish os sv retries err)))"

definition ssl_listen :: "('w, 'x) server_calls_scheme \<Rightarrow> 'w server_methods \<Rightarrow> ('w ss, unit) io" where
  "ssl_listen os sv =
     bindE (listen_interrupt_pair os) (\<lambda>_.
     bindE (listen_child_pair os sv) (\<lambda>_.
     bindE the_server (\<lambda>s.
       if ss_port s < 0 \<or> ss_port s > 0xFFFF then throw (TTransportException BAD_ARGS ''Specified port is invalid'' 0)
       else
         bindE (on_kernel (resolve_call os (ss_address s) (dec_string (ss_port s)) SOCK_STREAM [AI_PASSIVE, AI_V4MAPPED])) (\<lambda>addrs.
           case addrs of
             Inl code \<Rightarrow> close_and_throw os sv ''Could not resolve host for server socket.'' 0
           | Inr all \<Rightarrow> listen_resolved os sv all))))"

section \<open>What the kernel and the base class keep\<close>

text \<open>
  A set of descriptors that the calls only let grow: the open ones, or the bound ones. The base class
  leaves the members \<^verbatim>\<open>serverSocket_\<close> and \<^verbatim>\<open>retryLimit_\<close> alone while the options are set.
\<close>

definition keeps :: "('w \<Rightarrow> int set) \<Rightarrow> 'w ss \<Rightarrow> 'w ss \<Rightarrow> bool" where
  "keeps g = (\<lambda>(s, h, w) (s', h', w'). ss_socket s' = ss_socket s \<and> ss_retryLimit s' = ss_retryLimit s \<and> g w \<subseteq> g w')"

definition grows :: "('w \<Rightarrow> int set) \<Rightarrow> ('w \<Rightarrow> 'a \<times> 'w) \<Rightarrow> bool" where
  "grows g f \<longleftrightarrow> (\<forall>w. g w \<subseteq> g (snd (f w)))"

abbreviation gentle :: "('w \<Rightarrow> int set) \<Rightarrow> ('w ss, 'a) io \<Rightarrow> bool" where
  "gentle g \<equiv> tame (\<lambda>_. True) (\<lambda>_. True) (keeps g)"

definition server_keeps :: "('w \<Rightarrow> int set) \<Rightarrow> ('w, 'x) server_calls_scheme \<Rightarrow> 'w server_methods \<Rightarrow> bool" where
  "server_keeps g os sv \<longleftrightarrow>
     (\<forall>f t p. grows g (socket_call os f t p)) \<and> (\<forall>fd x. grows g (setsockopt_call os fd x)) \<and>
     (\<forall>fd a. grows g (bind_call os fd a)) \<and> (\<forall>d. grows g (sleep_call os d)) \<and>
     (\<forall>fd. grows g (getsockname_call os fd)) \<and> (\<forall>fd n. grows g (listen_call os fd n)) \<and>
     grows g (socketpair_call os) \<and> (\<forall>a p t fl. grows g (resolve_call os a p t fl)) \<and>
     gentle g (sv_setup_sockopts sv) \<and> gentle g (sv_setup_tcp_sockopts sv) \<and> (\<forall>c. gentle g (sv_release sv c)) \<and>
     (\<forall>cb fd. sv_listenCallback sv = Some cb \<longrightarrow> gentle g (cb fd))"

lemma frame_keeps [tame_intros]: "frame (\<lambda>_. True) (keeps g)"
  by (auto simp: frame_def reflp_def transp_def keeps_def)

lemma gentle_kernel [tame_intros]: "grows g f \<Longrightarrow> gentle g (on_kernel f)"
  by (auto simp: tame_def on_kernel_def keeps_def grows_def split: prod.splits) (metis snd_conv subsetD)+

lemma gentle_errno [tame_intros]: "gentle g (the_errno os)" and gentle_the_server [tame_intros]: "gentle g the_server"
  by (auto simp: tame_def the_errno_def the_server_def keeps_def)

lemma gentleD: "gentle g m \<Longrightarrow> m c = (r, c') \<Longrightarrow> keeps g c c'"
  unfolding tame_def by blast

lemma gentle_options: "server_keeps g os sv \<Longrightarrow> gentle g (bind_options os sv a)"
  unfolding bind_options_def by (intro tame_intros) (simp_all add: server_keeps_def)

lemma on_kernel_run: "on_kernel f (s, h, w) = (r, s', h', w') \<longleftrightarrow> (\<exists>x. r = Inr x \<and> f w = (x, w') \<and> s' = s \<and> h' = h)"
  by (auto simp: on_kernel_def split: prod.splits)

lemma on_kernel_fst: "on_kernel f (s, h, w) = (Inr (fst (f w)), s, h, snd (f w))"
  by (simp add: on_kernel_def split: prod.splits)

lemmas attempt_simps = bindE_Inr on_kernel_run set_server_def the_server_def the_errno_def

text \<open>One attempt: the descriptor it has opened stays in the set, and success means that \<^verbatim>\<open>bind\<close> succeeded.\<close>

lemma bind_attempt_keeps:
  assumes k: "server_keeps g os sv" and run: "bind_attempt os sv all iter err (s, h, w) = (Inr (b, rest, e), s', h', w')"
  obtains f t fd w1 where "socket_call os f t IPPROTO_TLS_1_2 w = (fd, w1)" "ss_socket s' = fd" "ss_retryLimit s' = ss_retryLimit s"
    "g w1 \<subseteq> g w'" "b \<Longrightarrow> fd \<noteq> -1 \<and> (\<exists>a w2. bind_call os fd a w2 = (0, w'))"
proof -
  obtain a as where a: "(if iter = [] then all else iter) = a # as" using run by (cases "if iter = [] then all else iter") (auto simp: bind_attempt_def)
  obtain fd w1 where fd: "socket_call os (ai_family a) (ai_socktype a) IPPROTO_TLS_1_2 w = (fd, w1)" by fastforce
  let ?s = "s\<lparr>ss_socket := fd\<rparr>"
  show thesis
  proof (cases "fd = -1")
    case True
    then have "b = False \<and> s' = ?s \<and> w' = w1" using run a fd by (auto simp: bind_attempt_def attempt_simps)
    then show thesis using that [OF fd] True by simp
  next
    case False
    obtain r1 s1 h1 w2 where 1: "bind_options os sv a (?s, h, w1) = (r1, s1, h1, w2)" by (metis prod_cases3 surj_pair)
    then have keep: "keeps g (?s, h, w1) (s1, h1, w2)" using gentleD [OF gentle_options [OF k]] by blast
    obtain x w3 where x: "bind_call os (ss_socket s1) (ai_addr a) w2 = (x, w3)" by fastforce
    have mono: "g w2 \<subseteq> g w3" using k x unfolding server_keeps_def grows_def by (metis snd_conv)
    have "(b \<longrightarrow> x = 0) \<and> s' = s1 \<and> w' = w3"
      using run a fd False 1 x by (auto simp: bind_attempt_def attempt_simps split: if_splits)
    then show thesis using that [OF fd] keep mono x False by (auto simp: keeps_def)
  qed
qed

lemma bind_loop_keeps:
  assumes k: "server_keeps g os sv" and bound: "\<And>fd a w w'. bind_call os fd a w = (0, w') \<Longrightarrow> fd \<in> g w'"
    and sleeps: "\<And>w. fst (sleep_call os delay w) = 0"
  shows "bind_loop os sv all delay left retries iter err (s, h, w) = (Inr (k, e), s', h', w') \<Longrightarrow>
     ss_retryLimit s' = ss_retryLimit s \<and> (ss_socket s' \<noteq> -1 \<and> ss_socket s' \<in> g w' \<or> k = retries + int left + 1)"
proof (induction left arbitrary: retries iter err s h w)
  case 0
  then obtain b rest e1 s1 h1 w1 where 1: "bind_attempt os sv all iter err (s, h, w) = (Inr (b, rest, e1), s1, h1, w1)"
     "(s', h', w') = (s1, h1, w1)" "k = (if b then retries else retries + 1)"
    by (auto simp: bindE_Inr split: if_splits)
  obtain fd where "ss_socket s1 = fd" "ss_retryLimit s1 = ss_retryLimit s" "b \<Longrightarrow> fd \<noteq> -1 \<and> (\<exists>a w2. bind_call os fd a w2 = (0, w1))"
    using bind_attempt_keeps [OF k 1(1)] by metis
  then show ?case using 1(2,3) bound by (cases b) auto
next
  case (Suc left)
  then obtain b rest e1 s1 h1 w1 where 1: "bind_attempt os sv all iter err (s, h, w) = (Inr (b, rest, e1), s1, h1, w1)"
     and 2: "(if b then ret (retries, e1) else bindE (on_kernel (sleep_call os delay)) (\<lambda>r.
        if r = 0 then bind_loop os sv all delay left (retries + 1) rest e1 else ret (retries + 1, e1))) (s1, h1, w1) = (Inr (k, e), s', h', w')"
    by (auto simp: bindE_Inr)
  obtain fd w0 where fd: "ss_socket s1 = fd" "ss_retryLimit s1 = ss_retryLimit s" "b \<Longrightarrow> fd \<noteq> -1 \<and> (\<exists>a w2. bind_call os fd a w2 = (0, w1))"
    using bind_attempt_keeps [OF k 1] by metis
  show ?case
  proof (cases b)
    case True
    then show ?thesis using 2 fd bound by auto
  next
    case False
    obtain w2 where s: "sleep_call os delay w1 = (0, w2)" using sleeps [of w1] by (metis prod.collapse)
    then have "bind_loop os sv all delay left (retries + 1) rest e1 (s1, h1, w2) = (Inr (k, e), s', h', w')"
      using 2 False by (auto simp: attempt_simps)
    from Suc.IH [OF this] fd(2) show ?thesis by auto
  qed
qed

section \<open>A listening server is bound\<close>

lemma gentle_port:
  assumes "server_keeps g os sv" and "listen_port os k e (s, h, w) = (r, s', h', w')"
  shows "ss_socket s' = ss_socket s" and "ss_retryLimit s' = ss_retryLimit s" and "g w \<subseteq> g w'"
proof -
  have grow: "g w \<subseteq> g w1" if "getsockname_call os fd w = (x, w1)" for fd x w1
    using assms(1) that unfolding server_keeps_def grows_def by (metis snd_conv)
  then show "ss_socket s' = ss_socket s" "ss_retryLimit s' = ss_retryLimit s" "g w \<subseteq> g w'"
    using assms(2)
    by (auto simp: listen_port_def bindE_def on_kernel_def set_server_def the_server_def the_errno_def split: if_splits prod.splits) blast+
qed

lemma finish_ok:
  assumes k: "server_keeps g os sv" and run: "listen_finish os sv n e (s, h, w) = (Inr (), s', h', w')"
  shows "ss_socket s \<noteq> -1 \<and> n \<le> ss_retryLimit s \<and> ss_socket s' = ss_socket s \<and> g w \<subseteq> g w' \<and> ss_listening s' \<and>
     (\<exists>backlog x w0. listen_call os (ss_socket s') backlog w0 = (x, w') \<and> x \<noteq> -1)"
proof -
  have "ss_socket s \<noteq> -1" "n \<le> ss_retryLimit s"
    using run by (auto simp: listen_finish_def the_server_def bindE_Inr close_and_throw_def THRIFT_INVALID_SOCKET_def split: if_splits)
  moreover obtain s1 h1 w1 where 1: "(case sv_listenCallback sv of None \<Rightarrow> ret () | Some cb \<Rightarrow> cb (ss_socket s)) (s, h, w) = (Inr (), s1, h1, w1)"
    and 2: "bindE (on_kernel (listen_call os (ss_socket s1) (ss_acceptBacklog s1))) (\<lambda>r.
           if r = -1 then bindE (the_errno os) (\<lambda>e. close_and_throw os sv ''Could not listen'' e)
           else set_server (\<lambda>s. s\<lparr>ss_listening := True\<rparr>)) (s1, h1, w1) = (Inr (), s', h', w')"
    using run by (auto simp: listen_finish_def the_server_def bindE_Inr close_and_throw_def THRIFT_INVALID_SOCKET_def split: if_splits)
  moreover have "keeps g (s, h, w) (s1, h1, w1)"
    using k 1 by (cases "sv_listenCallback sv") (auto simp: server_keeps_def keeps_def tame_def)
  moreover obtain x w2 where 3: "listen_call os (ss_socket s1) (ss_acceptBacklog s1) w1 = (x, w2)" by fastforce
  moreover have "g w1 \<subseteq> g w2" using k 3 unfolding server_keeps_def grows_def by (metis snd_conv)
  ultimately show ?thesis
    by (auto simp: attempt_simps keeps_def close_and_throw_def split: if_splits) blast
qed

lemma listen_resolves:
  assumes "ssl_listen os sv (s, h, w) = (Inr (), s', h', w')"
  obtains all s2 h2 w2 where "listen_resolved os sv all (s2, h2, w2) = (Inr (), s', h', w')"
proof -
  from assms obtain s2 h2 w2 where
    run: "(if ss_port s2 < 0 \<or> ss_port s2 > 0xFFFF then throw (TTransportException BAD_ARGS ''Specified port is invalid'' 0)
       else
         bindE (on_kernel (resolve_call os (ss_address s2) (dec_string (ss_port s2)) SOCK_STREAM [AI_PASSIVE, AI_V4MAPPED])) (\<lambda>addrs.
           case addrs of
             Inl code \<Rightarrow> close_and_throw os sv ''Could not resolve host for server socket.'' 0
           | Inr all \<Rightarrow> listen_resolved os sv all)) (s2, h2, w2) = (Inr (), s', h', w')"
    unfolding ssl_listen_def bindE_Inr [of "listen_interrupt_pair os"] bindE_Inr [of "listen_child_pair os sv"]
      bindE_Inr [of the_server] by (auto simp: the_server_def)
  obtain x w3 where x: "resolve_call os (ss_address s2) (dec_string (ss_port s2)) SOCK_STREAM [AI_PASSIVE, AI_V4MAPPED] w2 = (x, w3)"
    by fastforce
  show thesis
    by (cases x) (use run x that in \<open>auto simp: attempt_simps close_and_throw_def split: if_splits\<close>)
qed

text \<open>
  A kernel for the examples: it numbers its descriptors, lets the given number of calls of \<^verbatim>\<open>bind\<close> fail, and
  its \<^verbatim>\<open>sleep\<close> returns the given rest.
\<close>

record skern =
  n_fds :: nat
  n_bound :: "int list"
  n_fail :: nat
  n_listening :: "int list"

definition skern_os :: "int \<Rightarrow> skern server_calls" where
  "skern_os z = \<lparr>socket_call = (\<lambda>f t p k. (int (n_fds k), k\<lparr>n_fds := n_fds k + 1\<rparr>)),
     setsockopt_call = (\<lambda>fd x k. (0, k)), getfl_call = (\<lambda>fd k. (0, k)), setfl_call = (\<lambda>fd x k. (0, k)),
     connect_call = (\<lambda>fd a k. (0, k)), pollout_call = (\<lambda>fd t k. (1, k)), so_error_call = (\<lambda>fd k. ((0, 0), k)),
     getaddrinfo_call = (\<lambda>h p f t fl k. ((-2, []), k)), freeaddrinfo_call = (\<lambda>l k. ((), k)), sock_errno = (\<lambda>k. 98),
     O_NONBLOCK = 0x4000, EINPROGRESS = 115, EWOULDBLOCK = 11, DNS_EAI_NODATA = -5,
     socketpair_call = (\<lambda>k. ((0, 100, 101), k)),
     resolve_call = (\<lambda>a p t fl k. (Inr [\<lparr>ai_family = 1, ai_socktype = 1, ai_addr = [0, 0, 0, 0]\<rparr>], k)),
     bind_call = (\<lambda>fd a k. if n_fail k = 0 then (0, k\<lparr>n_bound := fd # n_bound k\<rparr>) else (-1, k\<lparr>n_fail := n_fail k - 1\<rparr>)),
     sleep_call = (\<lambda>d k. (z, k)), getsockname_call = (\<lambda>fd k. ((0, Sockaddr_in 0 80), k)),
     listen_call = (\<lambda>fd n k. (0, k\<lparr>n_listening := fd # n_listening k\<rparr>)), closesocket_call = (\<lambda>fd k. (0, k)), AF_INET6_family = 2, has_V6ONLY = True\<rparr>"

definition skern_sv :: "skern server_methods" where
  "skern_sv = \<lparr>sv_setup_sockopts = ret (), sv_setup_tcp_sockopts = ret (), sv_close = ret (), sv_listenCallback = None,
     sv_release = (\<lambda>_. ret ())\<rparr>"

definition server0 :: "int \<Rightarrow> server_socket" where
  "server0 port = \<lparr>ss_interruptableChildren = True, ss_childReader = None, ss_port = port, ss_address = [], ss_socket = -1,
     ss_acceptBacklog = 1024, ss_sendTimeout = 0, ss_recvTimeout = 0, ss_retryLimit = 2, ss_retryDelay = 1,
     ss_listening = False, ss_interruptWriter = -1, ss_interruptReader = -1, ss_childWriter = -1\<rparr>"

lemma skern_keeps:
  "server_keeps (\<lambda>k. set (n_bound k)) (skern_os z) skern_sv" "server_keeps (\<lambda>k. int ` {..<n_fds k}) (skern_os z) skern_sv"
  by (auto simp: server_keeps_def grows_def skern_os_def skern_sv_def tame_def keeps_def)

lemmas listen_run = ssl_listen_def listen_resolved_def listen_interrupt_pair_def listen_child_pair_def bind_attempt_def bind_options_def
  listen_port_def listen_finish_def bindE_def on_kernel_def set_server_def the_server_def the_errno_def
  skern_os_def skern_sv_def server0_def THRIFT_INVALID_SOCKET_def ntohs_def

text \<open>C12: when \<^verbatim>\<open>TSSLServerSocket::listen\<close> returns, and \<^verbatim>\<open>sleep\<close> is never cut short while it retries, its socket was bound and put into the listening
  state by calls of the kernel that succeeded, whatever else the kernel answered and however often it had to retry. \<open>g\<close> and \<open>l\<close> are the sets of the
  bound and the listening descriptors of the kernel; no call makes the bound ones fewer.\<close>

theorem listen_is_bound:
  assumes "server_keeps g os sv" and "\<And>fd a w w'. bind_call os fd a w = (0, w') \<Longrightarrow> fd \<in> g w'"
    and "\<And>fd n r w w'. listen_call os fd n w = (r, w') \<Longrightarrow> r \<noteq> -1 \<Longrightarrow> fd \<in> l w'"
    and "\<And>d w. fst (sleep_call os d w) = 0"
    and "ssl_listen os sv (s, h, w) = (Inr (), s', h', w')"
  shows "ss_listening s' \<and> ss_socket s' \<noteq> -1 \<and> ss_socket s' \<in> g w' \<and> ss_socket s' \<in> l w'"
proof -
  obtain all s2 h2 w2 where "listen_resolved os sv all (s2, h2, w2) = (Inr (), s', h', w')"
    using listen_resolves [OF assms(5)] by blast
  then obtain n e s4 h4 w4 e' s5 h5 w5 where
      loop: "bind_loop os sv all (ss_retryDelay s2) (nat (ss_retryLimit s2)) 0 [] 0 (s2, h2, w2) = (Inr (n, e), s4, h4, w4)"
    and port: "listen_port os n e (s4, h4, w4) = (Inr e', s5, h5, w5)"
    and fin: "listen_finish os sv n e' (s5, h5, w5) = (Inr (), s', h', w')"
    by (auto simp: listen_resolved_def bindE_Inr the_server_def)
  have l: "ss_retryLimit s4 = ss_retryLimit s2 \<and>
     (ss_socket s4 \<noteq> -1 \<and> ss_socket s4 \<in> g w4 \<or> n = 0 + int (nat (ss_retryLimit s2)) + 1)"
    by (rule bind_loop_keeps [OF assms(1) _ _ loop]) (use assms(2,4) in auto)
  note p = gentle_port [OF assms(1) port] and f = finish_ok [OF assms(1) fin]
  have "ss_socket s4 \<in> g w4" using l p(2) f by (auto split: if_splits)
  moreover obtain backlog x w0 where "listen_call os (ss_socket s') backlog w0 = (x, w')" "x \<noteq> -1" using f by blast
  then have "ss_socket s' \<in> l w'" by (rule assms(3))
  ultimately show ?thesis using p f by auto
qed

theorem listen_is_bound_witness:
  "case ssl_listen (skern_os 0) skern_sv (server0 0, [], \<lparr>n_fds = 3, n_bound = [], n_fail = 1, n_listening = []\<rparr>) of
     (r, s', h', k') \<Rightarrow> r = Inr () \<and> ss_listening s' \<and> ss_socket s' \<in> set (n_bound k') \<and> ss_socket s' \<in> set (n_listening k') \<and> ss_port s' = 80"
proof -
  let ?k = "\<lparr>n_fds = 3, n_bound = [], n_fail = 1, n_listening = []\<rparr> :: skern"
  obtain r s' h' k' where run: "ssl_listen (skern_os 0) skern_sv (server0 0, [], ?k) = (r, s', h', k')" by (metis prod_cases4)
  have two: "nat 2 = Suc (Suc 0)" by simp
  have ok: "r = Inr () \<and> ss_port s' = 80" using run by (auto simp: listen_run two simp del: nat_numeral)
  have "ss_listening s' \<and> ss_socket s' \<noteq> -1 \<and> ss_socket s' \<in> set (n_bound k') \<and> ss_socket s' \<in> set (n_listening k')"
    by (rule listen_is_bound [OF skern_keeps(1) [of 0]]) (use run ok in \<open>auto simp: skern_os_def split: if_splits\<close>)
  then show ?thesis using run ok by simp
qed


section \<open>Retries\<close>

text \<open>Every failed attempt to bind costs a descriptor. When the loop of \<^verbatim>\<open>listen\<close> comes to its end after
  \<open>n\<close> failed attempts, at least \<open>n\<close> descriptors are open that were not open before, although the server
  object refers to only one, so that \<^verbatim>\<open>close\<close> cannot release the others. \<open>g\<close> is the set of open descriptors;
  every call of \<^verbatim>\<open>socket\<close> opens a new one.\<close>

theorem failed_binds_leak:
  assumes "server_keeps g os sv" and "\<And>w. finite (g w)"
    and "\<And>f t p w fd w'. socket_call os f t p w = (fd, w') \<Longrightarrow> fd \<notin> g w \<and> g w' = insert fd (g w)"
    and "bind_loop os sv all delay left 0 iter err (s, h, w) = (Inr (n, e), s', h', w')"
  shows "g w \<subseteq> g w' \<and> nat n \<le> card (g w' - g w)"
proof -
  have one: "\<exists>fd. fd \<notin> g w \<and> insert fd (g w) \<subseteq> g w1"
    if "bind_attempt os sv all iter err (s, h, w) = (Inr x, s1, h1, w1)" for iter err s h w x s1 h1 w1
  proof -
    obtain b r e where x: "x = (b, r, e)" by (metis prod_cases3)
    show ?thesis using bind_attempt_keeps [OF assms(1) that [unfolded x]] assms(3) by metis
  qed
  have "bind_loop os sv all delay left retries iter err (s, h, w) = (Inr (n, e), s', h', w') \<Longrightarrow>
     g w \<subseteq> g w' \<and> retries \<le> n \<and> nat (n - retries) \<le> card (g w' - g w)" for retries
  proof (induction left arbitrary: retries iter err s h w)
    case 0
    then obtain x s1 h1 where 1: "bind_attempt os sv all iter err (s, h, w) = (Inr x, s1, h1, w')" "n \<le> retries + 1" "retries \<le> n"
      by (auto simp: bindE_Inr split: if_splits)
    obtain fd where fd: "fd \<notin> g w" "insert fd (g w) \<subseteq> g w'" using one [OF 1(1)] by blast
    then have "card {fd} \<le> card (g w' - g w)" using assms(2) by (intro card_mono) auto
    then show ?case using fd 1(2,3) by auto
  next
    case (Suc left)
    then obtain b r e1 s1 h1 w1 where 1: "bind_attempt os sv all iter err (s, h, w) = (Inr (b, r, e1), s1, h1, w1)"
      and 2: "(if b then ret (retries, e1) else bindE (on_kernel (sleep_call os delay)) (\<lambda>z.
        if z = 0 then bind_loop os sv all delay left (retries + 1) r e1 else ret (retries + 1, e1))) (s1, h1, w1) = (Inr (n, e), s', h', w')"
      by (auto simp: bindE_Inr)
    obtain fd where fd: "fd \<notin> g w" "insert fd (g w) \<subseteq> g w1" using one [OF 1] by blast
    obtain z w2 where z: "sleep_call os delay w1 = (z, w2)" by fastforce
    have mono: "g w1 \<subseteq> g w2" using assms(1) z unfolding server_keeps_def grows_def by (metis snd_conv)
    have new: "Suc (card (g w' - g w2)) \<le> card (g w' - g w)" if "g w2 \<subseteq> g w'"
    proof -
      have "insert fd (g w' - g w2) \<subseteq> g w' - g w" "fd \<notin> g w' - g w2" using fd mono that by auto
      then show ?thesis using card_mono [of "g w' - g w" "insert fd (g w' - g w2)"] assms(2) by simp
    qed
    consider "b" | "\<not> b" "z = 0" | "\<not> b" "z \<noteq> 0" by blast
    then show ?case
    proof cases
      case 1
      then show ?thesis using 2 fd by auto
    next
      case 2
      then have "bind_loop os sv all delay left (retries + 1) r e1 (s1, h1, w2) = (Inr (n, e), s', h', w')"
        using \<open>(if b then _ else _) (s1, h1, w1) = _\<close> z by (auto simp: attempt_simps)
      from Suc.IH [OF this] new fd mono show ?thesis by auto
    next
      case 3
      then have "n = retries + 1 \<and> w' = w2" using \<open>(if b then _ else _) (s1, h1, w1) = _\<close> z by (auto simp: attempt_simps)
      then show ?thesis using new fd mono by auto
    qed
  qed
  from this [OF assms(4)] show ?thesis by simp
qed

theorem failed_binds_leak_witness:
  "case bind_loop (skern_os 0) skern_sv [\<lparr>ai_family = 1, ai_socktype = 1, ai_addr = [0, 0, 0, 0]\<rparr>] 1 2 0 [] 0
      (server0 80, [], \<lparr>n_fds = 3, n_bound = [], n_fail = 2, n_listening = []\<rparr>) of
     (r, s', h', k') \<Rightarrow> r = Inr (2, 98) \<and> 2 \<le> card (int ` {..<n_fds k'} - int ` {..<3}) \<and> ss_socket s' = 5"
proof -
  let ?k = "\<lparr>n_fds = 3, n_bound = [], n_fail = 2, n_listening = []\<rparr> :: skern"
  obtain r s' h' k' where run: "bind_loop (skern_os 0) skern_sv [\<lparr>ai_family = 1, ai_socktype = 1, ai_addr = [0, 0, 0, 0]\<rparr>] 1 2 0 [] 0
      (server0 80, [], ?k) = (r, s', h', k')" by (metis prod_cases4)
  then have ok: "r = Inr (2, 98) \<and> ss_socket s' = 5" by (auto simp: listen_run numeral_2_eq_2)
  then have "bind_loop (skern_os 0) skern_sv [\<lparr>ai_family = 1, ai_socktype = 1, ai_addr = [0, 0, 0, 0]\<rparr>] 1 2 0 [] 0
      (server0 80, [], ?k) = (Inr (2, 98), s', h', k')" using run by simp
  from failed_binds_leak [OF skern_keeps(2) [of 0] _ _ this] have "nat 2 \<le> card (int ` {..<n_fds k'} - int ` {..<3})"
    by (auto simp: skern_os_def lessThan_Suc image_iff)
  then show ?thesis using run ok by simp
qed

text \<open>C38: a retry that is cut short counts as success. When the first attempt to bind fails and \<^verbatim>\<open>sleep\<close> is
  interrupted, so that it returns the seconds left, the loop ends with \<^verbatim>\<open>retries\<close> within the limit, and
  \<^verbatim>\<open>listen\<close> goes on with a socket that is not bound and reports success, for any kernel whose every \<^verbatim>\<open>bind\<close>
  fails.\<close>

theorem interrupted_retry_succeeds:
  assumes "\<And>fd a w. fst (bind_call os fd a w) \<noteq> 0" and "\<And>d w. fst (sleep_call os d w) \<noteq> 0"
    and "\<And>f t p w. fst (socket_call os f t p w) \<noteq> -1" and "\<And>fd x w. fst (setsockopt_call os fd x w) = 0"
    and "\<And>fd n w. fst (listen_call os fd n w) = 0" and "\<And>a p t fl w. \<exists>x xs. fst (resolve_call os a p t fl w) = Inr (x # xs)"
    and "sv_setup_sockopts sv = ret ()" and "sv_setup_tcp_sockopts sv = ret ()" and "sv_listenCallback sv = None"
    and "sv_release sv = (\<lambda>_. ret ())" and "0 < ss_port s" and "ss_port s \<le> 0xFFFF" and "0 < ss_retryLimit s"
  shows "\<exists>s' h' w'. ssl_listen os sv (s, h, w) = (Inr (), s', h', w') \<and> ss_listening s'"
proof -
  have at: "\<exists>r e s' w'. bind_attempt os sv (x # xs) [] err (s, h, w) = (Inr (False, r, e), s', h, w') \<and>
     ss_socket s' \<noteq> -1 \<and> ss_port s' = ss_port s \<and> ss_retryLimit s' = ss_retryLimit s" for x xs err s h w
    using assms(1,3,4)
    by (auto simp: bind_attempt_def bind_options_def the_server_def the_errno_def set_server_def assms(7,8) on_kernel_fst bindE_def)
  obtain s1 w1 where 1: "listen_interrupt_pair os (s, h, w) = (Inr (), s1, h, w1)" "ss_port s1 = ss_port s" "ss_retryLimit s1 = ss_retryLimit s"
    by (cases "fst (socketpair_call os w)"; cases "fst (fst (socketpair_call os w)) = -1") (auto simp: listen_interrupt_pair_def bindE_def on_kernel_fst set_server_def)
  obtain s2 h2 w2 where 2: "listen_child_pair os sv (s1, h, w1) = (Inr (), s2, h2, w2)" "ss_port s2 = ss_port s1" "ss_retryLimit s2 = ss_retryLimit s1"
    by (cases "fst (socketpair_call os w1)"; cases "fst (fst (socketpair_call os w1)) = -1") (auto simp: listen_child_pair_def bindE_def on_kernel_fst set_server_def the_server_def assms(10))
  obtain x xs w3 where 3: "resolve_call os (ss_address s2) (dec_string (ss_port s2)) SOCK_STREAM [AI_PASSIVE, AI_V4MAPPED] w2 = (Inr (x # xs), w3)"
    using assms(6) by (metis prod.collapse)
  obtain r e s4 w4 where 4: "bind_attempt os sv (x # xs) [] 0 (s2, h2, w3) = (Inr (False, r, e), s4, h2, w4)"
     "ss_socket s4 \<noteq> -1" "ss_port s4 = ss_port s2" "ss_retryLimit s4 = ss_retryLimit s2" using at by blast
  obtain m where m: "nat (ss_retryLimit s2) = Suc m" using 1(3) 2(3) assms(13) by (cases "nat (ss_retryLimit s2)") auto
  have loop: "bind_loop os sv (x # xs) (ss_retryDelay s2) (nat (ss_retryLimit s2)) 0 [] 0 (s2, h2, w3) =
     (Inr (1, e), s4, h2, snd (sleep_call os (ss_retryDelay s2) w4))"
    using m 4(1) assms(2) by (simp add: bindE_def on_kernel_fst)
  have "\<exists>w'. listen_resolved os sv (x # xs) (s2, h2, w3) = (Inr (), s4\<lparr>ss_listening := True\<rparr>, h2, w')"
    using loop 1 2 4 assms(5,9,11,13)
    by (simp add: listen_resolved_def the_server_def listen_port_def listen_finish_def bindE_def on_kernel_fst set_server_def THRIFT_INVALID_SOCKET_def)
  then obtain w' where "listen_resolved os sv (x # xs) (s2, h2, w3) = (Inr (), s4\<lparr>ss_listening := True\<rparr>, h2, w')" ..
  then have "ssl_listen os sv (s, h, w) = (Inr (), s4\<lparr>ss_listening := True\<rparr>, h2, w')"
    using 1 2 3 assms(11,12) by (simp add: ssl_listen_def the_server_def on_kernel_fst)
  then show ?thesis by auto
qed

theorem interrupted_retry_succeeds_witness:
  "\<exists>s' h' k'. ssl_listen ((skern_os 1)\<lparr>bind_call := \<lambda>fd a k. (-1, k), socket_call := \<lambda>f t p k. (7, k)\<rparr>) skern_sv
     (server0 80, [], \<lparr>n_fds = 0, n_bound = [], n_fail = 0, n_listening = []\<rparr>) = (Inr (), s', h', k') \<and> ss_listening s'"
  by (rule interrupted_retry_succeeds) (auto simp: skern_os_def skern_sv_def server0_def)

section \<open>The factory behind a server\<close>

text \<open>C27: handing a factory to a server socket turns off the verification of peers for every socket of that
  factory, those created before included, since they share its context: a client socket that was created
  while authentication was required asks the kernel for verification as long as the factory is left
  alone, and for none after \<^verbatim>\<open>TSSLServerSocket\<close> has been constructed with the factory.\<close>

theorem server_drops_verification:
  assumes "TSSLSocketFactory_new p ctxs = Inr st" and "factory_authenticate True st = (f2, ctxs2)"
    and "createSocket_host cs host port f2 = (ssl, f3)"
    and "TSSLServerSocket_new sc port' (f3, ctxs2) = (server, f4, ctxs3)"
    and "\<And>fd x w. fst (setsockopt_call os fd x w) = 0"
    and "run = (\<lambda>mode. snd (setsockopt_call os (sk_socket ssl) (TLS_HOSTNAME (sk_host ssl))
       (snd (setsockopt_call os (sk_socket ssl) (TLS_PEER_VERIFY mode)
       (snd (setsockopt_call os (sk_socket ssl) (TLS_SEC_TAG_LIST sec_tag_list) w))))))"
  shows "sec_tls_options os ctxs2 (ssl, w) = (Inr (), ssl, run TLS_PEER_VERIFY_REQUIRED) \<and>
     sec_tls_options os ctxs3 (ssl, w) = (Inr (), ssl, run TLS_PEER_VERIFY_NONE)"
proof -
  obtain c where st: "st = (\<lparr>f_ctx = length ctxs, f_server = False, f_access = None\<rparr>, ctxs @ [c])"
    using assms(1) by (auto simp: TSSLSocketFactory_new_def Let_def split: SSLProtocol.splits)
  then have 2: "f2 = \<lparr>f_ctx = length ctxs, f_server = False, f_access = None\<rparr>" "ctxs2 = ctxs @ [c\<lparr>verifyMode := TLS_PEER_VERIFY_REQUIRED\<rparr>]"
    using assms(2) by (auto simp: factory_authenticate_def set_verify_def)
  have 3: "sk_ctx ssl = length ctxs" "f_ctx f3 = length ctxs"
    using assms(3) 2 by (auto simp: createSocket_host_def factory_setup_def TSSLSocket_host_def TSSLSocket_of_def TSSLSocket_init_def
       ssl_set_server_def ssl_set_access_def Let_def factory_is_server_def tsocket.defs)
  have 4: "ctxs3 = ctxs @ [c\<lparr>verifyMode := TLS_PEER_VERIFY_NONE\<rparr>]"
    using assms(4) 2 3 by (auto simp: TSSLServerSocket_new_def factory_server_def set_verify_def)
  have "sec_tls_options os cx (ssl, w) = (Inr (), ssl, run (verifyMode (cx ! length ctxs)))" if "length ctxs < length cx" for cx
    using that 3 assms(5) by (simp add: sec_tls_options_def on_socket_fst the_ctx_def the_socket_def bindE_def assms(6))
  then show ?thesis using 2(2) 4 by simp
qed

text \<open>Constructors of the base classes for the examples.\<close>

definition ctors0 :: tsocket_ctors where
  "ctors0 = \<lparr>ts_new = tsocket.truncate client0, ts_new_fd = (\<lambda>fd. (tsocket.truncate client0)\<lparr>sk_socket := fd\<rparr>),
     ts_new_fd_listener = (\<lambda>fd l. (tsocket.truncate client0)\<lparr>sk_socket := fd, sk_interruptListener := l\<rparr>),
     ts_new_host = (\<lambda>h p. (tsocket.truncate client0)\<lparr>sk_host := h, sk_port := p\<rparr>), fresh = (True, 7, True)\<rparr>"

definition sctors0 :: server_ctors where
  "sctors0 = \<lparr>sv_new = server0, sv_new_address = (\<lambda>a. server0), sv_new_timeouts = (\<lambda>p a b. server0 p)\<rparr>"

theorem server_drops_verification_witness:
  "case TSSLSocketFactory_new TLSv1_2 [] of
     Inl e \<Rightarrow> False
   | Inr st \<Rightarrow>
       (case factory_authenticate True st of (f2, ctxs2) \<Rightarrow>
        case createSocket_host ctors0 ''zephyr.org'' 4242 f2 of (ssl, f3) \<Rightarrow>
        case TSSLServerSocket_new sctors0 4242 (f3, ctxs2) of (server, f4, ctxs3) \<Rightarrow>
          let os = (skern_os 0)\<lparr>setsockopt_call := \<lambda>fd x k. (0, if x = TLS_PEER_VERIFY TLS_PEER_VERIFY_NONE then k\<lparr>n_fail := 1\<rparr> else k)\<rparr>;
              k = \<lparr>n_fds = 0, n_bound = [], n_fail = 0, n_listening = []\<rparr>
          in n_fail (snd (snd (sec_tls_options (net_calls.truncate os) ctxs2 (ssl, k)))) = 0 \<and>
             n_fail (snd (snd (sec_tls_options (net_calls.truncate os) ctxs3 (ssl, k)))) = 1)"
proof -
  let ?os = "net_calls.truncate ((skern_os 0)\<lparr>setsockopt_call := \<lambda>fd x k. (0, if x = TLS_PEER_VERIFY TLS_PEER_VERIFY_NONE then k\<lparr>n_fail := 1\<rparr> else k)\<rparr>)"
  obtain st where st: "TSSLSocketFactory_new TLSv1_2 [] = Inr st" by (simp add: TSSLSocketFactory_new_def Let_def)
  obtain f2 ctxs2 where 2: "factory_authenticate True st = (f2, ctxs2)" by fastforce
  obtain ssl f3 where 3: "createSocket_host ctors0 ''zephyr.org'' 4242 f2 = (ssl, f3)" by fastforce
  obtain server f4 ctxs3 where 4: "TSSLServerSocket_new sctors0 4242 (f3, ctxs2) = (server, f4, ctxs3)" by (metis prod_cases3)
  have ok: "fst (setsockopt_call ?os fd x w) = 0" for fd x w by (simp add: net_calls.truncate_def)
  from server_drops_verification [OF st 2 3 4 ok refl, of "\<lparr>n_fds = 0, n_bound = [], n_fail = 0, n_listening = []\<rparr>"]
  show ?thesis by (simp add: st 2 3 4 Let_def net_calls.truncate_def)
qed

text \<open>C28: an accepted connection becomes a socket in server mode that shares the context of the factory and,
  when children are interruptible, the cell that wakes it up; its \<^verbatim>\<open>open\<close> always refuses, without touching
  the descriptor.\<close>

theorem accepted_child:
  assumes "createSocket cs s client f = (ssl, f')" and "f_server f"
    and "\<And>fd l. sk_interruptListener (ts_new_fd_listener cs fd l) = l" and "\<And>fd l. sk_socket (ts_new_fd_listener cs fd l) = fd"
    and "\<And>fd. sk_socket (ts_new_fd cs fd) = fd"
  shows "sk_server ssl \<and> sk_ctx ssl = f_ctx f \<and> sk_socket ssl = client \<and> f' = f \<and> sk_access ssl = f_access f \<and>
     (ss_interruptableChildren s \<longrightarrow> sk_interruptListener ssl = ss_childReader s) \<and>
     ssl_open os ts ctxs (ssl, w) = (Inl (TTransportException BAD_ARGS [] 0), ssl, w)"
proof -
  note d = createSocket_def createSocket_fd_listener_def createSocket_fd_def factory_setup_def TSSLSocket_fd_listener_def
    TSSLSocket_fd_def TSSLSocket_of_def TSSLSocket_init_def ssl_set_server_def ssl_set_access_def Let_def factory_is_server_def tsocket.defs
  have "sk_server ssl \<and> sk_ctx ssl = f_ctx f \<and> sk_socket ssl = client \<and> f' = f \<and> sk_access ssl = f_access f \<and>
     (ss_interruptableChildren s \<longrightarrow> sk_interruptListener ssl = ss_childReader s)"
    using assms by (auto simp: d split: if_splits option.splits)
  then show ?thesis by (simp add: ssl_open_def the_socket_def bindE_def)
qed

theorem accepted_child_witness:
  "case createSocket ctors0 ((server0 80)\<lparr>ss_childReader := Some 0\<rparr>) 9 \<lparr>f_ctx = 0, f_server = True, f_access = None\<rparr> of
     (ssl, f') \<Rightarrow> sk_socket ssl = 9 \<and> sk_interruptListener ssl = Some 0 \<and>
       ssl_open kern_os kern_ts [SSLContext0] (ssl, \<lparr>k_fds = [9], k_next = 10, k_lists = 0, k_refuse = 0\<rparr>) =
         (Inl (TTransportException BAD_ARGS [] 0), ssl, \<lparr>k_fds = [9], k_next = 10, k_lists = 0, k_refuse = 0\<rparr>)"
proof -
  obtain ssl f' where c: "createSocket ctors0 ((server0 80)\<lparr>ss_childReader := Some 0\<rparr>) 9 \<lparr>f_ctx = 0, f_server = True, f_access = None\<rparr> = (ssl, f')"
    by fastforce
  show ?thesis
    using accepted_child [OF c, of kern_os kern_ts "[SSLContext0]" "\<lparr>k_fds = [9], k_next = 10, k_lists = 0, k_refuse = 0\<rparr>"] c
    by (simp add: ctors0_def server0_def)
qed

section \<open>Closing twice\<close>

text \<open>\<^verbatim>\<open>close\<close> releases the descriptor that wakes up the children exactly once: it closes it and marks the
  shared cell, and a second \<^verbatim>\<open>close\<close> is the one of the base class alone, so that a descriptor the kernel has
  given to somebody else in the meantime is not closed.\<close>

theorem close_releases_once:
  assumes "ss_childReader s = Some c" and "c < length h" and "h ! c \<noteq> -1"
    and "\<And>s h w. \<exists>s' w'. sv_close sv (s, h, w) = (Inr (), s', h, w') \<and> ss_childReader s' = ss_childReader s"
  shows "\<exists>s' w'. ssl_server_close os sv (s, h, w) = sv_close sv (s, h[c := -1], snd (closesocket_call os (h ! c) w)) \<and>
     ssl_server_close os sv (s, h, w) = (Inr (), s', h[c := -1], w') \<and>
     ssl_server_close os sv (s', h[c := -1], w') = sv_close sv (s', h[c := -1], w')"
proof -
  obtain s' w' where s': "sv_close sv (s, h[c := -1], snd (closesocket_call os (h ! c) w)) = (Inr (), s', h[c := -1], w')"
     "ss_childReader s' = ss_childReader s" using assms(4) by blast
  have 1: "ssl_server_close os sv (s, h, w) = sv_close sv (s, h[c := -1], snd (closesocket_call os (h ! c) w))"
    using assms(1-3) by (simp add: ssl_server_close_def on_kernel_fst bindE_def THRIFT_INVALID_SOCKET_def)
  have "ssl_server_close os sv (s', h[c := -1], w') = sv_close sv (s', h[c := -1], w')"
    using assms(1,2) s'(2) by (simp add: ssl_server_close_def bindE_def THRIFT_INVALID_SOCKET_def)
  then show ?thesis using 1 s'(1) by auto
qed

theorem close_releases_once_witness:
  "\<exists>s' k'. ssl_server_close (skern_os 0) skern_sv ((server0 80)\<lparr>ss_childReader := Some 0\<rparr>, [100], \<lparr>n_fds = 0, n_bound = [], n_fail = 0, n_listening = []\<rparr>) =
     (Inr (), s', [-1], k')"
  using close_releases_once [of "(server0 80)\<lparr>ss_childReader := Some 0\<rparr>" 0 "[100]" skern_sv "skern_os 0"
     "\<lparr>n_fds = 0, n_bound = [], n_fail = 0, n_listening = []\<rparr>"] by (auto simp: skern_sv_def)

end
