(* ===== verification/Binary_Protocol.thy ===== *)
theory Binary_Protocol
  imports Thrift_Prelude
begin

text \<open>
  \<^verbatim>\<open>TBinaryProtocol.h\<close>: construction and settings of the binary protocol and of its factory, and the
  check that a transport can hold a container before it is read. The methods that read and write are
  only declared there; their bodies, the transport and \<^verbatim>\<open>getMinSerializedSize\<close> belong to the Thrift submodule.
\<close>

section \<open>Protocol and factory\<close>

definition VERSION_MASK :: "32 word" where
  "VERSION_MASK = 0xffff0000"

definition VERSION_1 :: "32 word" where
  "VERSION_1 = 0x80010000"

record 't binary_protocol =
  bp_trans :: 't
  bp_string_limit :: int
  bp_container_limit :: int
  bp_strict_read :: bool
  bp_strict_write :: bool

definition TBinaryProtocolT :: "'t \<Rightarrow> 't binary_protocol" where
  "TBinaryProtocolT t =
     \<lparr>bp_trans = t, bp_string_limit = 0, bp_container_limit = 0, bp_strict_read = False, bp_strict_write = True\<rparr>"

definition TBinaryProtocolT_limits :: "'t \<Rightarrow> int \<Rightarrow> int \<Rightarrow> bool \<Rightarrow> bool \<Rightarrow> 't binary_protocol" where
  "TBinaryProtocolT_limits t string_limit container_limit strict_read strict_write =
     \<lparr>bp_trans = t, bp_string_limit = string_limit, bp_container_limit = container_limit,
      bp_strict_read = strict_read, bp_strict_write = strict_write\<rparr>"

definition bp_setStringSizeLimit :: "int \<Rightarrow> 't binary_protocol \<Rightarrow> 't binary_protocol" where
  "bp_setStringSizeLimit n p = p\<lparr>bp_string_limit := n\<rparr>"

definition bp_setContainerSizeLimit :: "int \<Rightarrow> 't binary_protocol \<Rightarrow> 't binary_protocol" where
  "bp_setContainerSizeLimit n p = p\<lparr>bp_container_limit := n\<rparr>"

definition bp_setStrict :: "bool \<Rightarrow> bool \<Rightarrow> 't binary_protocol \<Rightarrow> 't binary_protocol" where
  "bp_setStrict strict_read strict_write p = p\<lparr>bp_strict_read := strict_read, bp_strict_write := strict_write\<rparr>"

record binary_factory =
  bf_string_limit :: int
  bf_container_limit :: int
  bf_strict_read :: bool
  bf_strict_write :: bool

definition TBinaryProtocolFactoryT :: binary_factory where
  "TBinaryProtocolFactoryT = \<lparr>bf_string_limit = 0, bf_container_limit = 0, bf_strict_read = False, bf_strict_write = True\<rparr>"

definition TBinaryProtocolFactoryT_limits :: "int \<Rightarrow> int \<Rightarrow> bool \<Rightarrow> bool \<Rightarrow> binary_factory" where
  "TBinaryProtocolFactoryT_limits string_limit container_limit strict_read strict_write =
     \<lparr>bf_string_limit = string_limit, bf_container_limit = container_limit,
      bf_strict_read = strict_read, bf_strict_write = strict_write\<rparr>"

definition bf_setStringSizeLimit :: "int \<Rightarrow> binary_factory \<Rightarrow> binary_factory" where
  "bf_setStringSizeLimit n f = f\<lparr>bf_string_limit := n\<rparr>"

definition bf_setContainerSizeLimit :: "int \<Rightarrow> binary_factory \<Rightarrow> binary_factory" where
  "bf_setContainerSizeLimit n f = f\<lparr>bf_container_limit := n\<rparr>"

definition bf_setStrict :: "bool \<Rightarrow> bool \<Rightarrow> binary_factory \<Rightarrow> binary_factory" where
  "bf_setStrict strict_read strict_write f = f\<lparr>bf_strict_read := strict_read, bf_strict_write := strict_write\<rparr>"

text \<open>
  \<^verbatim>\<open>getProtocol\<close>; \<open>cast\<close> is the dynamic cast of the transport to the class that the factory was
  instantiated with.
\<close>

datatype ('t, 'b) any_protocol = Specific "'t binary_protocol" | General "'b binary_protocol"

definition getProtocol :: "('b \<Rightarrow> 't option) \<Rightarrow> binary_factory \<Rightarrow> 'b \<Rightarrow> ('t, 'b) any_protocol" where
  "getProtocol cast f t =
     (case cast t of
        Some specific_trans \<Rightarrow> Specific (TBinaryProtocolT_limits specific_trans (bf_string_limit f) (bf_container_limit f)
                                           (bf_strict_read f) (bf_strict_write f))
      | None \<Rightarrow> General (TBinaryProtocolT_limits t (bf_string_limit f) (bf_container_limit f)
                           (bf_strict_read f) (bf_strict_write f)))"

section \<open>The size of containers\<close>

text \<open>The members of \<^verbatim>\<open>TSet\<close>, \<^verbatim>\<open>TList\<close> and \<^verbatim>\<open>TMap\<close> that are read; the sizes are those that \<^verbatim>\<open>readListBegin\<close> etc. yield.\<close>

record 'e tset =
  set_elemType :: 'e
  set_size :: u32

record 'e tlist =
  list_elemType :: 'e
  list_size :: u32

record 'e tmap =
  map_keyType :: 'e
  map_valueType :: 'e
  map_size :: u32

text \<open>
  An unsigned and a signed 32-bit integer are multiplied as unsigned ones. \<open>check\<close> is the method of the
  transport, \<open>to_arg\<close> the conversion of the product to the type of its parameter, and \<open>minSize\<close> is \<^verbatim>\<open>getMinSerializedSize\<close>, whose results are small, so
  that their sum in the third method is within \<^verbatim>\<open>int\<close>.
\<close>

definition checkReadBytesAvailable_set :: "(u32 \<Rightarrow> int) \<Rightarrow> (int \<Rightarrow> 'r) \<Rightarrow> ('e \<Rightarrow> int) \<Rightarrow> 'e tset \<Rightarrow> 'r" where
  "checkReadBytesAvailable_set to_arg check minSize s = check (to_arg (set_size s * of_int (minSize (set_elemType s))))"

definition checkReadBytesAvailable_list :: "(u32 \<Rightarrow> int) \<Rightarrow> (int \<Rightarrow> 'r) \<Rightarrow> ('e \<Rightarrow> int) \<Rightarrow> 'e tlist \<Rightarrow> 'r" where
  "checkReadBytesAvailable_list to_arg check minSize l = check (to_arg (list_size l * of_int (minSize (list_elemType l))))"

definition checkReadBytesAvailable_map :: "(u32 \<Rightarrow> int) \<Rightarrow> (int \<Rightarrow> 'r) \<Rightarrow> ('e \<Rightarrow> int) \<Rightarrow> 'e tmap \<Rightarrow> 'r" where
  "checkReadBytesAvailable_map to_arg check minSize m =
     (let elmSize = minSize (map_keyType m) + minSize (map_valueType m) in check (to_arg (map_size m * of_int elmSize)))"

section \<open>Settings\<close>

text \<open>What protocol and factory have in common: four settings and three ways to change them.\<close>

record settings =
  s_string :: int
  s_container :: int
  s_strict_read :: bool
  s_strict_write :: bool

datatype setting = StringSizeLimit int | ContainerSizeLimit int | Strict bool bool

fun change :: "setting \<Rightarrow> settings \<Rightarrow> settings" where
  "change (StringSizeLimit n) s = s\<lparr>s_string := n\<rparr>"
| "change (ContainerSizeLimit n) s = s\<lparr>s_container := n\<rparr>"
| "change (Strict r w) s = s\<lparr>s_strict_read := r, s_strict_write := w\<rparr>"

text \<open>The call that makes a change, for an object with these three methods.\<close>

fun call_setting :: "(int \<Rightarrow> 'a \<Rightarrow> 'a) \<Rightarrow> (int \<Rightarrow> 'a \<Rightarrow> 'a) \<Rightarrow> (bool \<Rightarrow> bool \<Rightarrow> 'a \<Rightarrow> 'a) \<Rightarrow> setting \<Rightarrow> 'a \<Rightarrow> 'a" where
  "call_setting set_string set_container set_strict (StringSizeLimit n) x = set_string n x"
| "call_setting set_string set_container set_strict (ContainerSizeLimit n) x = set_container n x"
| "call_setting set_string set_container set_strict (Strict r w) x = set_strict r w x"

locale configurable =
  fixes view :: "'a \<Rightarrow> settings"
    and set_string :: "int \<Rightarrow> 'a \<Rightarrow> 'a" and set_container :: "int \<Rightarrow> 'a \<Rightarrow> 'a" and set_strict :: "bool \<Rightarrow> bool \<Rightarrow> 'a \<Rightarrow> 'a"
  assumes view_string: "view (set_string n x) = change (StringSizeLimit n) (view x)"
    and view_container: "view (set_container n x) = change (ContainerSizeLimit n) (view x)"
    and view_strict: "view (set_strict r w x) = change (Strict r w) (view x)"
begin

lemma view_call: "view (call_setting set_string set_container set_strict c x) = change c (view x)"
  by (cases c) (simp_all add: view_string view_container view_strict)

lemma view_fold: "view (fold (call_setting set_string set_container set_strict) cs x) = fold change cs (view x)"
  by (induction cs arbitrary: x) (simp_all add: view_call)

end

definition bp_settings :: "'t binary_protocol \<Rightarrow> settings" where
  "bp_settings p = \<lparr>s_string = bp_string_limit p, s_container = bp_container_limit p,
     s_strict_read = bp_strict_read p, s_strict_write = bp_strict_write p\<rparr>"

definition bf_settings :: "binary_factory \<Rightarrow> settings" where
  "bf_settings f = \<lparr>s_string = bf_string_limit f, s_container = bf_container_limit f,
     s_strict_read = bf_strict_read f, s_strict_write = bf_strict_write f\<rparr>"

interpretation bp: configurable bp_settings bp_setStringSizeLimit bp_setContainerSizeLimit bp_setStrict
  by unfold_locales (simp_all add: bp_settings_def bp_setStringSizeLimit_def bp_setContainerSizeLimit_def bp_setStrict_def)

interpretation bf: configurable bf_settings bf_setStringSizeLimit bf_setContainerSizeLimit bf_setStrict
  by unfold_locales (simp_all add: bf_settings_def bf_setStringSizeLimit_def bf_setContainerSizeLimit_def bf_setStrict_def)

definition configure_protocol :: "setting list \<Rightarrow> 't binary_protocol \<Rightarrow> 't binary_protocol" where
  "configure_protocol = fold (call_setting bp_setStringSizeLimit bp_setContainerSizeLimit bp_setStrict)"

definition configure_factory :: "setting list \<Rightarrow> binary_factory \<Rightarrow> binary_factory" where
  "configure_factory = fold (call_setting bf_setStringSizeLimit bf_setContainerSizeLimit bf_setStrict)"

lemma configured: "bp_settings (configure_protocol cs p) = fold change cs (bp_settings p)"
  "bf_settings (configure_factory cs f) = fold change cs (bf_settings f)"
  by (simp_all add: configure_protocol_def configure_factory_def bp.view_fold bf.view_fold)

lemma configure_keeps_transport: "bp_trans (configure_protocol cs p) = bp_trans p"
proof (induction cs arbitrary: p)
  case (Cons c cs)
  have "bp_trans (call_setting bp_setStringSizeLimit bp_setContainerSizeLimit bp_setStrict c p) = bp_trans p"
    by (cases c) (simp_all add: bp_setStringSizeLimit_def bp_setContainerSizeLimit_def bp_setStrict_def)
  with Cons show ?case by (simp add: configure_protocol_def)
qed (simp add: configure_protocol_def)

lemma protocol_eqI: "bp_trans p = bp_trans q \<Longrightarrow> bp_settings p = bp_settings q \<Longrightarrow> p = q"
  by (cases p, cases q) (simp add: bp_settings_def)

lemma factory_limits:
  fixes cs f defines "f \<equiv> configure_factory cs TBinaryProtocolFactoryT"
  shows "TBinaryProtocolT_limits t (bf_string_limit f) (bf_container_limit f) (bf_strict_read f) (bf_strict_write f) =
     configure_protocol cs (TBinaryProtocolT t)" (is "?l = ?r")
proof (rule protocol_eqI)
  show "bp_trans ?l = bp_trans ?r" by (simp add: configure_keeps_transport TBinaryProtocolT_limits_def TBinaryProtocolT_def)
  have "bp_settings ?l = bf_settings f" by (simp add: bp_settings_def bf_settings_def TBinaryProtocolT_limits_def)
  moreover have "bf_settings TBinaryProtocolFactoryT = bp_settings (TBinaryProtocolT t)"
    by (simp add: bp_settings_def bf_settings_def TBinaryProtocolFactoryT_def TBinaryProtocolT_def)
  ultimately show "bp_settings ?l = bp_settings ?r" by (simp add: configured f_def)
qed

text \<open>Factories hand on their settings. A protocol obtained from a factory, after any sequence of calls of the setters of the
  factory, is the protocol that the same calls make of a default protocol on that transport, and it is a protocol on the
  specific transport class exactly when the cast of the transport succeeds.\<close>

theorem factory_hands_on_settings:
  "getProtocol cast (configure_factory cs TBinaryProtocolFactoryT) t =
     (case cast t of Some u \<Rightarrow> Specific (configure_protocol cs (TBinaryProtocolT u))
                   | None \<Rightarrow> General (configure_protocol cs (TBinaryProtocolT t)))"
  by (simp add: getProtocol_def factory_limits split: option.split)

section \<open>What the transport is asked for\<close>

lemma product_mod: "0 \<le> m \<Longrightarrow> unat (n * of_int m :: u32) = (unat n * nat m) mod 2 ^ 32"
proof -
  assume "0 \<le> m"
  then have "(of_int m :: u32) = of_nat (nat m)" by simp
  then show ?thesis by (simp add: unat_word_ariths(2) unat_of_nat take_bit_eq_mod mod_mult_right_eq)
qed

lemma sint_u32: "sint (w :: u32) = (if uint w < 2 ^ 31 then uint w else uint w - 2 ^ 32)"
proof -
  have "0 \<le> uint w" "uint w < 2 ^ 32" using unsigned_less [of w, where ?'a = int] by simp_all
  moreover have "(u + 2 ^ 31) mod 2 ^ 32 = (if u < 2 ^ 31 then u + 2 ^ 31 else u - 2 ^ 31)" if "0 \<le> u" "u < 2 ^ 32" for u :: int
    using that mod_add_self2 [of "u - 2 ^ 31" "2 ^ 32"] by (auto simp: mod_pos_pos_trivial add.commute)
  ultimately show ?thesis by (simp add: sint_uint signed_take_bit_eq_take_bit_shift take_bit_eq_mod)
qed

text \<open>
  Whether a container that needs the given number of bytes passes: the number is taken modulo \<open>2 ^ 32\<close> and, if the parameter is a 32-bit
  \<^verbatim>\<open>long\<close>, as a signed number.
\<close>

definition passes :: "bool \<Rightarrow> int \<Rightarrow> nat \<Rightarrow> bool" where
  "passes long32 remaining need \<longleftrightarrow> int (need mod 2 ^ 32) \<le> remaining \<or> long32 \<and> 2 ^ 31 \<le> need mod 2 ^ 32"

lemma passes_product:
  assumes "0 \<le> m" and "0 \<le> remaining" and "to_arg = (if long32 then sint else uint)"
  shows "to_arg (n * of_int m :: u32) \<le> remaining \<longleftrightarrow> passes long32 remaining (unat n * nat m)"
proof -
  let ?w = "n * of_int m :: u32"
  have "uint ?w = int (unat ?w)" by simp
  then have w: "uint ?w = int ((unat n * nat m) mod 2 ^ 32)" by (simp only: product_mod [OF assms(1)])
  have "uint ?w < 2 ^ 32" using unsigned_less [of ?w, where ?'a = int] by simp
  moreover have "to_arg ?w = (if long32 \<and> 2 ^ 31 \<le> uint ?w then uint ?w - 2 ^ 32 else uint ?w)"
    using assms(3) by (simp add: sint_u32 not_less)
  ultimately have "to_arg ?w \<le> remaining \<longleftrightarrow> uint ?w \<le> remaining \<or> long32 \<and> 2 ^ 31 \<le> uint ?w" using assms(2) by auto
  moreover have "2 ^ 31 \<le> uint ?w \<longleftrightarrow> 2 ^ 31 \<le> (unat n * nat m) mod 2 ^ 32" unfolding w by (metis of_nat_le_iff of_nat_numeral of_nat_power)
  ultimately show ?thesis unfolding passes_def w by blast
qed

text \<open>C31: the size check is made modulo \<open>2 ^ 32\<close>. Before a container is read, the transport is asked for its number of elements times
  their least size, as a 32-bit product; it refuses a request for more than the \<open>remaining\<close> bytes. For sets, lists and maps alike, the container passes exactly if
  what it needs, modulo \<open>2 ^ 32\<close>, remains or, where the parameter of the transport is a 32-bit \<^verbatim>\<open>long\<close>, is read as a negative number. This is the intended decision for what needs less
  than \<open>2 ^ 31\<close> bytes, and less than \<open>2 ^ 32\<close> with a 64-bit \<^verbatim>\<open>long\<close>; but a peer can announce containers of \<open>2 ^ 32\<close> bytes or more that pass although
  next to nothing remains: all those that need a multiple of \<open>2 ^ 32\<close>.\<close>

theorem container_check_wraps:
  assumes "\<forall>e. 0 \<le> minSize e \<and> minSize e < 2 ^ 30" and "0 \<le> remaining" and "\<forall>n. check n \<longleftrightarrow> n \<le> remaining"
    and "to_arg = (if long32 then sint else uint)"
  shows "checkReadBytesAvailable_list to_arg check minSize l = passes long32 remaining (unat (list_size l) * nat (minSize (list_elemType l))) \<and>
     checkReadBytesAvailable_set to_arg check minSize s = passes long32 remaining (unat (set_size s) * nat (minSize (set_elemType s))) \<and>
     checkReadBytesAvailable_map to_arg check minSize m =
       passes long32 remaining (unat (map_size m) * nat (minSize (map_keyType m) + minSize (map_valueType m))) \<and>
     (\<forall>need. need < 2 ^ 31 \<or> need < 2 ^ 32 \<and> \<not> long32 \<longrightarrow> passes long32 remaining need = (int need \<le> remaining)) \<and>
     (\<forall>need. need mod 2 ^ 32 = 0 \<longrightarrow> passes long32 remaining need)"
proof -
  note decide = passes_product [OF _ assms(2,4)]
  have "passes long32 remaining need = (int need \<le> remaining)" if "need < 2 ^ 31 \<or> need < 2 ^ 32 \<and> \<not> long32" for need
    using that by (auto simp: passes_def)
  moreover have "passes long32 remaining need" if "need mod 2 ^ 32 = 0" for need
    using that assms(2) by (simp add: passes_def)
  ultimately show ?thesis
    using assms(1,3)
    by (simp add: checkReadBytesAvailable_list_def checkReadBytesAvailable_set_def checkReadBytesAvailable_map_def Let_def decide del: of_int_add)
qed

text \<open>A list of \<open>2 ^ 30\<close> integers of four bytes passes when five bytes remain; a map of three entries, fifteen bytes, does not.\<close>

theorem container_check_wraps_witness:
  "checkReadBytesAvailable_list uint (\<lambda>n. n \<le> 5) (\<lambda>e. if e then 4 else 1) \<lparr>list_elemType = True, list_size = 0x40000000\<rparr> \<and>
   \<not> checkReadBytesAvailable_map uint (\<lambda>n. n \<le> 5) (\<lambda>e. if e then 4 else 1) \<lparr>map_keyType = True, map_valueType = False, map_size = 3\<rparr>"
  using container_check_wraps [of "\<lambda>e. if e then 4 else 1" 5 "\<lambda>n. n \<le> 5" uint False "\<lparr>list_elemType = True, list_size = 0x40000000\<rparr>"
      "\<lparr>set_elemType = True, set_size = 0\<rparr>" "\<lparr>map_keyType = True, map_valueType = False, map_size = 3\<rparr>"]
  by (simp add: passes_def)

end
