(* ===== verification/Hello_Sample.thy ===== *)
theory Hello_Sample
  imports TLS_Server_Socket Binary_Protocol Server_Framework
begin

text \<open>
  The sample programs \<^verbatim>\<open>hello_client\<close> and \<^verbatim>\<open>hello_server\<close>: how they put sockets, factories, protocols and the
  server together, in every configuration, and the handler of the service. The generated client, the transports that
  wrap a socket and \<^verbatim>\<open>TSimpleServer\<close> are not part of the repository and parameters here.
\<close>

section \<open>The handler\<close>

record hello_handler =
  hh_count :: int

definition HelloHandler :: hello_handler where
  "HelloHandler = \<lparr>hh_count = 0\<rparr>"

definition hello_ping :: "hello_handler \<Rightarrow> hello_handler" where
  "hello_ping h = h"

definition hello_echo :: "string \<Rightarrow> hello_handler \<Rightarrow> string \<times> hello_handler" where
  "hello_echo m h = (m, h)"

text \<open>The counter is an \<^verbatim>\<open>int\<close> of 32 bits; its overflow is undefined.\<close>

definition hello_counter :: "hello_handler \<Rightarrow> (int \<times> hello_handler) res" where
  "hello_counter h =
     (if hh_count h = 2 ^ 31 - 1 then Inl SignedOverflow
      else let h = h\<lparr>hh_count := hh_count h + 1\<rparr> in Inr (hh_count h, h))"

section \<open>Configuration\<close>

record hello_config =
  CONFIG_THRIFT_COMPACT_PROTOCOL :: bool
  CONFIG_THRIFT_ZLIB_TRANSPORT :: bool
  CONFIG_THRIFT_SSL_SOCKET :: bool

text \<open>On Zephyr the address is configured; on other systems it is the first argument, if there is one.\<close>

datatype build = Zephyr string | Native "string list"

fun client_addr :: "build \<Rightarrow> string" where
  "client_addr (Zephyr a) = a"
| "client_addr (Native (a # _)) = a"
| "client_addr (Native []) = ''192.0.2.1''"

fun server_addr :: "build \<Rightarrow> string option" where
  "server_addr (Zephyr a) = Some a"
| "server_addr (Native (a # _)) = Some a"
| "server_addr (Native []) = None"

text \<open>The files included into the program, chosen by the build.\<close>

record hello_pem =
  pem_cert :: string
  pem_key :: string
  pem_trusted :: string

datatype exit_code = EXIT_SUCCESS | EXIT_FAILURE | Terminated exn

text \<open>What \<^verbatim>\<open>catch (std::exception&)\<close> catches.\<close>

fun std_exception :: "exn \<Rightarrow> bool" where
  "std_exception (Abort _) = False"
| "std_exception _ = True"

definition exit_of :: "exn + unit \<Rightarrow> exit_code" where
  "exit_of r = (case r of Inr _ \<Rightarrow> EXIT_SUCCESS | Inl e \<Rightarrow> if std_exception e then EXIT_FAILURE else Terminated e)"

definition load_credentials :: "'w credential_add \<Rightarrow> hello_pem \<Rightarrow> ('w, unit) io" where
  "load_credentials add pem =
     bindE (loadCertificateFromBuffer add (Some (pem_cert pem)) (Some ''PEM'')) (\<lambda>_.
     bindE (loadPrivateKeyFromBuffer add (Some (pem_key pem)) (Some ''PEM'')) (\<lambda>_.
       loadTrustedCertificatesFromBuffer add (Some (pem_trusted pem)) None))"

section \<open>The client\<close>

datatype client_socket = PlainSocket tsocket | SecureSocket tssl_socket "SSLContext list"

datatype layered = ZlibTransport client_socket | BufferedTransport client_socket

datatype client_protocol = CompactProtocol layered | BinaryProtocol "layered binary_protocol"

definition client_make_socket :: "'w credential_add \<Rightarrow> hello_pem \<Rightarrow> tsocket_ctors \<Rightarrow> hello_config \<Rightarrow> string \<Rightarrow> ('w, client_socket) io" where
  "client_make_socket add pem cs cfg my_addr =
     (let port = 4242 in
      if CONFIG_THRIFT_SSL_SOCKET cfg then
        (case TSSLSocketFactory_new SSLTLS [] of
           Inl e \<Rightarrow> throw e
         | Inr st \<Rightarrow>
             (case factory_authenticate True st of (f, ctxs) \<Rightarrow>
              bindE (load_credentials add pem) (\<lambda>_.
                ret (SecureSocket (fst (createSocket_host cs my_addr port f)) ctxs))))
      else ret (PlainSocket (ts_new_host cs my_addr port)))"

definition client_layer :: "hello_config \<Rightarrow> client_socket \<Rightarrow> layered" where
  "client_layer cfg s = (if CONFIG_THRIFT_ZLIB_TRANSPORT cfg then ZlibTransport s else BufferedTransport s)"

definition client_make_protocol :: "hello_config \<Rightarrow> layered \<Rightarrow> client_protocol" where
  "client_make_protocol cfg t = (if CONFIG_THRIFT_COMPACT_PROTOCOL cfg then CompactProtocol t else BinaryProtocol (TBinaryProtocolT t))"

text \<open>The calls on the transport and those of the generated client.\<close>

record 'w hello_calls =
  hc_open :: "layered \<Rightarrow> ('w, unit) io"
  hc_close :: "layered \<Rightarrow> ('w, unit) io"
  hc_ping :: "client_protocol \<Rightarrow> ('w, unit) io"
  hc_echo :: "client_protocol \<Rightarrow> string \<Rightarrow> ('w, string) io"
  hc_counter :: "client_protocol \<Rightarrow> ('w, int) io"

fun client_counters :: "'w hello_calls \<Rightarrow> client_protocol \<Rightarrow> nat \<Rightarrow> ('w, unit) io" where
  "client_counters hc p 0 = ret ()"
| "client_counters hc p (Suc n) = bindE (hc_counter hc p) (\<lambda>_. client_counters hc p n)"

definition client_session :: "'w hello_calls \<Rightarrow> layered \<Rightarrow> client_protocol \<Rightarrow> ('w, unit) io" where
  "client_session hc t p =
     bindE (hc_open hc t) (\<lambda>_.
     bindE (hc_ping hc p) (\<lambda>_.
     bindE (hc_echo hc p ''Hello, world!'') (\<lambda>s.
     bindE (client_counters hc p 5) (\<lambda>_.
       hc_close hc t))))"

definition hello_client ::
  "'w credential_add \<Rightarrow> hello_pem \<Rightarrow> tsocket_ctors \<Rightarrow> 'w hello_calls \<Rightarrow> hello_config \<Rightarrow> build \<Rightarrow> 'w \<Rightarrow> exit_code \<times> 'w" where
  "hello_client add pem cs hc cfg b w =
     (case client_make_socket add pem cs cfg (client_addr b) w of
        (Inl e, w) \<Rightarrow> (Terminated e, w)
      | (Inr s, w) \<Rightarrow>
          (let t = client_layer cfg s in
           case client_session hc t (client_make_protocol cfg t) w of (r, w) \<Rightarrow> (exit_of r, w)))"

section \<open>The server\<close>

datatype server_end = PlainServer server_socket | SecureServer server_socket factory "SSLContext list"

datatype transport_factory = ZlibFactory | BufferedFactory

datatype protocol_factory = CompactFactory | BinaryFactory binary_factory

definition server_make_socket :: "'w credential_add \<Rightarrow> hello_pem \<Rightarrow> server_ctors \<Rightarrow> hello_config \<Rightarrow> string \<Rightarrow> ('w, server_end) io" where
  "server_make_socket add pem sc cfg my_addr =
     (let port = 4242 in
      if CONFIG_THRIFT_SSL_SOCKET cfg then
        (case TSSLSocketFactory_new SSLTLS [] of
           Inl e \<Rightarrow> throw e
         | Inr st \<Rightarrow>
             bindE (load_credentials add pem) (\<lambda>_.
               case TSSLServerSocket_address sc ''0.0.0.0'' port (factory_server True st) of (s, f, ctxs) \<Rightarrow>
                 ret (SecureServer s f ctxs)))
      else ret (PlainServer (sv_new_address sc my_addr port)))"

definition server_transport_factory :: "hello_config \<Rightarrow> transport_factory" where
  "server_transport_factory cfg = (if CONFIG_THRIFT_ZLIB_TRANSPORT cfg then ZlibFactory else BufferedFactory)"

definition server_protocol_factory :: "hello_config \<Rightarrow> protocol_factory" where
  "server_protocol_factory cfg = (if CONFIG_THRIFT_COMPACT_PROTOCOL cfg then CompactFactory else BinaryFactory TBinaryProtocolFactoryT)"

text \<open>
  \<open>simple\<close> is the constructor of \<^verbatim>\<open>TSimpleServer\<close>, a \<^verbatim>\<open>TServerFramework\<close> on the given objects and the handler; \<open>None\<close> is a
  server that runs for ever.
\<close>

definition hello_server ::
  "'w credential_add \<Rightarrow> hello_pem \<Rightarrow> server_ctors \<Rightarrow>
   (hello_handler \<Rightarrow> server_end \<Rightarrow> transport_factory \<Rightarrow> protocol_factory \<Rightarrow> 'w \<Rightarrow> 'w fw_env \<times> 'w fw) \<Rightarrow>
   hello_config \<Rightarrow> build \<Rightarrow> 'w \<Rightarrow> (exit_code \<times> 'w) option" where
  "hello_server add pem sc simple cfg b w =
     (case server_addr b of
        None \<Rightarrow> Some (EXIT_FAILURE, w)
      | Some my_addr \<Rightarrow>
          (case server_make_socket add pem sc cfg my_addr w of
             (Inl e, w) \<Rightarrow> Some (Terminated e, w)
           | (Inr s, w) \<Rightarrow>
               (case simple HelloHandler s (server_transport_factory cfg) (server_protocol_factory cfg) w of
                  (env, fw0) \<Rightarrow>
                    (case serve env fw0 of
                       None \<Rightarrow> None
                     | Some (r, fw1) \<Rightarrow> Some (exit_of r, world fw1)))))"

section \<open>Roles\<close>

lemma PEM_ok [simp]: "is_PEM ''PEM''"
  by (simp add: is_PEM_def strlen_def NUL_def)

text \<open>The store after all three credentials have been added.\<close>

definition stored :: "'w credential_add \<Rightarrow> hello_pem \<Rightarrow> 'w \<Rightarrow> 'w" where
  "stored add pem w = snd (add Thrift_TLS_CA_CERT_TAG TLS_CREDENTIAL_CA_CERTIFICATE (c_string (pem_trusted pem))
     (snd (add Thrift_TLS_PRIVATE_KEY TLS_CREDENTIAL_PRIVATE_KEY (c_string (pem_key pem))
       (snd (add Thrift_TLS_SERVER_CERT_TAG TLS_CREDENTIAL_SERVER_CERTIFICATE (c_string (pem_cert pem)) w)))))"

lemma load_credentials_ok:
  assumes "\<And>tag ty s w. fst (add tag ty s w) = 0"
  shows "load_credentials add pem w = (Inr (), stored add pem w)"
  by (simp add: load_credentials_def loadCertificateFromBuffer_def loadPrivateKeyFromBuffer_def loadTrustedCertificatesFromBuffer_def
      add_credential_def bindE_def assms stored_def)

lemma load_credentials_first:
  assumes "fst (add Thrift_TLS_SERVER_CERT_TAG TLS_CREDENTIAL_SERVER_CERTIFICATE (c_string (pem_cert pem)) w) = status" and "status \<noteq> 0"
  shows "load_credentials add pem w = (Inl (TSSLException (''tls_credential_add: '' @ tlsCredtErrMsg status)),
     snd (add Thrift_TLS_SERVER_CERT_TAG TLS_CREDENTIAL_SERVER_CERTIFICATE (c_string (pem_cert pem)) w))"
  using assms by (simp add: load_credentials_def loadCertificateFromBuffer_def add_credential_def bindE_def)

lemmas role_defs = TSSLSocketFactory_new_def factory_authenticate_def set_verify_def factory_server_def TSSLServerSocket_address_def
  SSLContext0_def createSocket_host_def TSSLSocket_host_def TSSLSocket_of_def TSSLSocket_init_def factory_setup_def
  ssl_set_server_def ssl_set_access_def factory_is_server_def createSocket_def createSocket_fd_listener_def createSocket_fd_def
  TSSLSocket_fd_listener_def TSSLSocket_fd_def tsocket.defs

text \<open>C40: the roles in a TLS conversation. Built with TLS, the client makes a socket in client mode for the given address and port 4242
  whose context requires the peer to be verified. The server makes a server socket whose factory is in server mode, so that
  every accepted connection is a socket in server mode, and whose context does not verify the peer. Both have handed
  their certificate, key and trusted certificate to the credential store, in this order.\<close>

theorem hello_tls_roles:
  assumes "CONFIG_THRIFT_SSL_SOCKET cfg" and add: "\<And>tag ty s w. fst (add tag ty s w) = 0"
    and host: "\<And>h p. sk_host (ts_new_host cs h p) = h \<and> sk_port (ts_new_host cs h p) = p"
  shows "\<exists>s ctxs sv f ctxs'. client_make_socket add pem cs cfg a w = (Inr (SecureSocket s ctxs), stored add pem w) \<and>
     \<not> sk_server s \<and> sk_host s = a \<and> sk_port s = 4242 \<and> sk_ctx s < length ctxs \<and> verifyMode (ctxs ! sk_ctx s) = TLS_PEER_VERIFY_REQUIRED \<and>
     server_make_socket add pem sc cfg b w = (Inr (SecureServer sv f ctxs'), stored add pem w) \<and>
     (\<forall>fd. sk_server (fst (createSocket cs sv fd f))) \<and> f_ctx f < length ctxs' \<and> verifyMode (ctxs' ! f_ctx f) = TLS_PEER_VERIFY_NONE"
proof -
  note load = load_credentials_ok [where add = add and pem = pem and w = w, OF add]
  show ?thesis
    using assms(1) host
    by (simp add: client_make_socket_def server_make_socket_def bindE_def load role_defs Let_def split: option.split)
qed

definition logging_add :: "(ThriftTLScertificateType \<times> cred_type) list credential_add" where
  "logging_add tag ty s w = (0, w @ [(tag, ty)])"

definition tls_config :: hello_config where
  "tls_config = \<lparr>CONFIG_THRIFT_COMPACT_PROTOCOL = False, CONFIG_THRIFT_ZLIB_TRANSPORT = True, CONFIG_THRIFT_SSL_SOCKET = True\<rparr>"

definition some_pem :: hello_pem where
  "some_pem = \<lparr>pem_cert = ''C'', pem_key = ''K'', pem_trusted = ''T''\<rparr>"

theorem hello_tls_roles_witness:
  "\<exists>s ctxs. client_make_socket logging_add some_pem ctors0 tls_config ''192.0.2.1'' [] = (Inr (SecureSocket s ctxs),
      [(Thrift_TLS_SERVER_CERT_TAG, TLS_CREDENTIAL_SERVER_CERTIFICATE), (Thrift_TLS_PRIVATE_KEY, TLS_CREDENTIAL_PRIVATE_KEY),
       (Thrift_TLS_CA_CERT_TAG, TLS_CREDENTIAL_CA_CERTIFICATE)]) \<and> sk_host s = ''192.0.2.1'' \<and>
      verifyMode (ctxs ! sk_ctx s) = TLS_PEER_VERIFY_REQUIRED"
proof -
  have 1: "CONFIG_THRIFT_SSL_SOCKET tls_config" by (simp add: tls_config_def)
  have 2: "fst (logging_add tag ty s w) = 0" for tag ty s w by (simp add: logging_add_def)
  have 3: "sk_host (ts_new_host ctors0 h p) = h \<and> sk_port (ts_new_host ctors0 h p) = p" for h p by (simp add: ctors0_def)
  from hello_tls_roles [where add = logging_add and cs = ctors0 and pem = some_pem and a = "''192.0.2.1''" and w = "[]" and sc = sctors0
      and b = "[]", OF 1 2 3] show ?thesis
    by (auto simp: logging_add_def stored_def)
qed

text \<open>A failure to store the certificate is not handled. Both programs load their credentials outside of their \<^verbatim>\<open>try\<close> blocks: if
  the store refuses the certificate, the exception ends the program; the client opens no connection and the server does
  not start to serve.\<close>

theorem hello_credential_failure:
  assumes "CONFIG_THRIFT_SSL_SOCKET cfg" and "server_addr b = Some a"
    and "add Thrift_TLS_SERVER_CERT_TAG TLS_CREDENTIAL_SERVER_CERTIFICATE (c_string (pem_cert pem)) w = (status, w')" and "status \<noteq> 0"
  shows "hello_client add pem cs hc cfg b w = (Terminated (TSSLException (''tls_credential_add: '' @ tlsCredtErrMsg status)), w') \<and>
     hello_server add pem sc simple cfg b w = Some (Terminated (TSSLException (''tls_credential_add: '' @ tlsCredtErrMsg status)), w')"
proof -
  have "load_credentials add pem w = (Inl (TSSLException (''tls_credential_add: '' @ tlsCredtErrMsg status)), w')"
    using load_credentials_first [of add pem w status] assms(3,4) by simp
  then show ?thesis
    using assms(1,2)
    by (simp add: hello_client_def hello_server_def client_make_socket_def server_make_socket_def bindE_def role_defs Let_def)
qed

text \<open>A connection on which every call succeeds at once.\<close>

definition silent_calls :: "unit hello_calls" where
  "silent_calls = \<lparr>hc_open = (\<lambda>t. ret ()), hc_close = (\<lambda>t. ret ()), hc_ping = (\<lambda>p. ret ()), hc_echo = (\<lambda>p m. ret m), hc_counter = (\<lambda>p. ret 0)\<rparr>"

theorem hello_credential_failure_witness:
  "fst (hello_client (\<lambda>tag ty s w. (-12, w)) some_pem ctors0 silent_calls tls_config (Zephyr ''192.0.2.2'') ()) =
     Terminated (TSSLException ''tls_credential_add: Unknown error'')"
  using hello_credential_failure [of tls_config "Zephyr ''192.0.2.2''" "''192.0.2.2''" "\<lambda>tag ty s w. (-12, w)" some_pem "()" "-12" "()" ctors0 silent_calls]
  by (simp add: tls_config_def tlsCredtErrMsg_def EACCES_def ENOMEM_def EEXIST_def)

section \<open>The conversation\<close>

text \<open>
  Calls that arrive: the client finds the service behind the connection, and a call that is answered
  has run the method of the handler once.
\<close>

definition delivers :: "'w hello_calls \<Rightarrow> ('w \<Rightarrow> hello_handler) \<Rightarrow> bool" where
  "delivers hc svc \<longleftrightarrow>
     (\<forall>t w. \<exists>w'. hc_open hc t w = (Inr (), w') \<and> svc w' = svc w) \<and> (\<forall>t w. \<exists>w'. hc_close hc t w = (Inr (), w') \<and> svc w' = svc w) \<and>
     (\<forall>p w. \<exists>w'. hc_ping hc p w = (Inr (), w') \<and> svc w' = hello_ping (svc w)) \<and>
     (\<forall>p m w. \<exists>r w'. hc_echo hc p m w = (Inr r, w') \<and> hello_echo m (svc w) = (r, svc w')) \<and>
     (\<forall>p w n h. hello_counter (svc w) = Inr (n, h) \<longrightarrow> (\<exists>w'. hc_counter hc p w = (Inr n, w') \<and> svc w' = h))"

lemma counters_count:
  assumes "delivers hc svc" and "hh_count (svc w) + int n \<le> 2 ^ 31 - 1"
  shows "\<exists>w'. client_counters hc p n w = (Inr (), w') \<and> hh_count (svc w') = hh_count (svc w) + int n"
  using assms(2)
proof (induction n arbitrary: w)
  case (Suc n)
  let ?h = "(svc w)\<lparr>hh_count := hh_count (svc w) + 1\<rparr>"
  have "hello_counter (svc w) = Inr (hh_count (svc w) + 1, ?h)" using Suc.prems by (simp add: hello_counter_def Let_def)
  then obtain w1 where w1: "hc_counter hc p w = (Inr (hh_count (svc w) + 1), w1)" "svc w1 = ?h"
    using assms(1) unfolding delivers_def by blast
  obtain w2 where "client_counters hc p n w1 = (Inr (), w2)" "hh_count (svc w2) = hh_count (svc w1) + int n"
    using Suc.IH [of w1] Suc.prems w1(2) by auto
  then show ?case using w1 by (simp add: bindE_def)
qed simp

text \<open>The sample conversation. When the calls arrive, the client ends with \<^verbatim>\<open>EXIT_SUCCESS\<close> in every configuration, and the handler
  has counted exactly five calls of \<^verbatim>\<open>counter\<close> more than before, as long as its 32-bit counter has room for them.\<close>

theorem hello_conversation:
  assumes "delivers hc svc" and "hh_count (svc w) + 5 \<le> 2 ^ 31 - 1"
    and "\<And>tag ty s w. fst (add tag ty s w) = 0 \<and> svc (snd (add tag ty s w)) = svc w"
  shows "\<exists>w'. hello_client add pem cs hc cfg b w = (EXIT_SUCCESS, w') \<and> hh_count (svc w') = hh_count (svc w) + 5"
proof -
  obtain s w1 where s: "client_make_socket add pem cs cfg (client_addr b) w = (Inr s, w1)" "svc w1 = svc w"
    using load_credentials_ok [of add pem w] assms(3)
    by (cases "CONFIG_THRIFT_SSL_SOCKET cfg") (auto simp: client_make_socket_def bindE_def role_defs Let_def stored_def)
  let ?t = "client_layer cfg s"
  let ?p = "client_make_protocol cfg ?t"
  obtain w2 where 2: "hc_open hc ?t w1 = (Inr (), w2)" "svc w2 = svc w1" using assms(1) unfolding delivers_def by blast
  obtain w3 where 3: "hc_ping hc ?p w2 = (Inr (), w3)" "svc w3 = svc w2" using assms(1) unfolding delivers_def hello_ping_def by blast
  obtain r w4 where 4: "hc_echo hc ?p ''Hello, world!'' w3 = (Inr r, w4)" "svc w4 = svc w3"
    using assms(1) unfolding delivers_def hello_echo_def by (metis prod.inject)
  have "hh_count (svc w4) + int 5 \<le> 2 ^ 31 - 1" using assms(2) s(2) 2(2) 3(2) 4(2) by simp
  then obtain w5 where 5: "client_counters hc ?p 5 w4 = (Inr (), w5)" "hh_count (svc w5) = hh_count (svc w4) + 5"
    using counters_count [OF assms(1), of w4 5 ?p] by auto
  obtain w6 where 6: "hc_close hc ?t w5 = (Inr (), w6)" "svc w6 = svc w5" using assms(1) unfolding delivers_def by blast
  have "client_session hc ?t ?p w1 = (Inr (), w6)" using 2(1) 3(1) 4(1) 5(1) 6(1) by (simp add: client_session_def)
  then have "hello_client add pem cs hc cfg b w = (EXIT_SUCCESS, w6)" using s(1) by (simp add: hello_client_def exit_of_def Let_def)
  then show ?thesis using s(2) 2(2) 3(2) 4(2) 5(2) 6(2) by auto
qed

text \<open>A world that is the handler alone.\<close>

definition direct_calls :: "hello_handler hello_calls" where
  "direct_calls = \<lparr>hc_open = (\<lambda>t. ret ()), hc_close = (\<lambda>t. ret ()), hc_ping = (\<lambda>p h. (Inr (), hello_ping h)),
     hc_echo = (\<lambda>p m h. case hello_echo m h of (r, h) \<Rightarrow> (Inr r, h)),
     hc_counter = (\<lambda>p h. case hello_counter h of Inl f \<Rightarrow> (Inl (Abort f), h) | Inr (n, h) \<Rightarrow> (Inr n, h))\<rparr>"

theorem hello_conversation_witness:
  "hello_client (\<lambda>tag ty s w. (0, w)) some_pem ctors0 direct_calls tls_config (Native []) HelloHandler = (EXIT_SUCCESS, \<lparr>hh_count = 5\<rparr>)"
proof -
  have "delivers direct_calls id" by (auto simp: delivers_def direct_calls_def hello_echo_def)
  from hello_conversation [OF this, of HelloHandler "\<lambda>tag ty s w. (0, w)" some_pem ctors0 tls_config "Native []"]
  obtain w' where "hello_client (\<lambda>tag ty s w. (0, w)) some_pem ctors0 direct_calls tls_config (Native []) HelloHandler = (EXIT_SUCCESS, w')"
      "hh_count w' = 5"
    by (auto simp: HelloHandler_def)
  then show ?thesis by (cases w') simp
qed

end
