(* ===== verification/Host_Match.thy ===== *)
theory Host_Match
  imports Thrift_Prelude "HOL-Library.Char_ord"
begin

text \<open>
  \<^verbatim>\<open>TSSLSocket.cpp\<close>, lines 529-598, and the class \<^verbatim>\<open>AccessManager\<close> of \<^verbatim>\<open>TSSLSocket.h\<close>: the decision whether
  a certificate name fits the host. Strings are byte strings; \<open>host\<close> is a C string, read up to and
  including its terminator, \<open>pattern\<close> is a buffer of \<^verbatim>\<open>size\<close> bytes.
\<close>

section \<open>Matching names\<close>

definition uppercase :: "char \<Rightarrow> char" where
  "uppercase c = (if CHR ''a'' \<le> c \<and> c \<le> CHR ''z'' then char_of ((of_char c :: nat) - 32) else c)"

definition cstr_at :: "string \<Rightarrow> nat \<Rightarrow> char res" where
  "cstr_at s j = (if j < length s then Inr (s ! j) else if j = length s then Inr NUL else Inl OutOfBounds)"

definition buf_at :: "string \<Rightarrow> nat \<Rightarrow> char res" where
  "buf_at s i = (if i < length s then Inr (s ! i) else Inl OutOfBounds)"

text \<open>Lines 577-579.\<close>

function skip_label :: "string \<Rightarrow> nat \<Rightarrow> nat res" where
  "skip_label host j =
     bindR (cstr_at host j) (\<lambda>h. if h \<noteq> CHR ''.'' \<and> h \<noteq> NUL then skip_label host (j + 1) else Inr j)"
  by pat_completeness auto
termination
  by (relation "measure (\<lambda>(host, j). length host + 1 - j)") (auto simp: cstr_at_def split: if_splits)

declare skip_label.simps [simp del]

text \<open>Lines 570-584.\<close>

function match_loop :: "string \<Rightarrow> string \<Rightarrow> int \<Rightarrow> nat \<Rightarrow> nat \<Rightarrow> (nat \<times> nat) res" where
  "match_loop host pattern n i j =
     (if int i < n then
        bindR (cstr_at host j) (\<lambda>h.
          if h = NUL then Inr (i, j)
          else
            bindR (buf_at pattern i) (\<lambda>p.
              if uppercase p = uppercase h then match_loop host pattern n (i + 1) (j + 1)
              else if p = CHR ''*'' then bindR (skip_label host j) (\<lambda>j. match_loop host pattern n (i + 1) j)
              else Inr (i, j)))
      else Inr (i, j))"
  by pat_completeness auto
termination
  by (relation "measure (\<lambda>(host, pattern, n, i, j). nat (n - int i))") auto

declare match_loop.simps [simp del]

definition matchName :: "string \<Rightarrow> string \<Rightarrow> int \<Rightarrow> bool res" where
  "matchName host pattern n =
     bindR (match_loop host pattern n 0 0) (\<lambda>(i, j).
       if int i = n then bindR (cstr_at host j) (\<lambda>h. Inr (h = NUL)) else Inr False)"

section \<open>Access managers\<close>

datatype Decision = DENY | SKIP | ALLOW

text \<open>The address of the peer: the family and the bytes of the address.\<close>

datatype sockaddr = AF_INET "u8 list" | AF_INET6 "u8 list" | AF_OTHER

text \<open>The base class denies everything.\<close>

definition AccessManager_verify_addr :: "sockaddr \<Rightarrow> Decision" where
  "AccessManager_verify_addr sa = DENY"

definition AccessManager_verify_name :: "string \<Rightarrow> string option \<Rightarrow> int \<Rightarrow> Decision" where
  "AccessManager_verify_name host name n = DENY"

definition AccessManager_verify_ip :: "sockaddr \<Rightarrow> u8 list \<Rightarrow> int \<Rightarrow> Decision" where
  "AccessManager_verify_ip sa data n = DENY"

text \<open>The default manager of a client.\<close>

definition verify_addr :: "sockaddr \<Rightarrow> Decision" where
  "verify_addr sa = SKIP"

definition verify_name :: "string \<Rightarrow> string option \<Rightarrow> int \<Rightarrow> Decision res" where
  "verify_name host name n =
     (case name of
        None \<Rightarrow> Inr SKIP
      | Some pattern \<Rightarrow>
          if host = [] \<or> n \<le> 0 then Inr SKIP
          else bindR (matchName host pattern n) (\<lambda>m. Inr (if m then ALLOW else SKIP)))"

definition mem_equal :: "u8 list \<Rightarrow> u8 list \<Rightarrow> nat \<Rightarrow> bool res" where
  "mem_equal a b n = (if n \<le> length a \<and> n \<le> length b then Inr (take n a = take n b) else Inl OutOfBounds)"

definition verify_ip :: "sockaddr \<Rightarrow> u8 list \<Rightarrow> int \<Rightarrow> Decision res" where
  "verify_ip sa data n =
     bindR (case sa of
              AF_INET a \<Rightarrow> if n = 4 then mem_equal a data 4 else Inr False
            | AF_INET6 a \<Rightarrow> if n = 16 then mem_equal a data 16 else Inr False
            | AF_OTHER \<Rightarrow> Inr False)
       (\<lambda>match. Inr (if match then ALLOW else SKIP))"

section \<open>The loop on suffixes\<close>

fun match_suffix :: "string \<Rightarrow> string \<Rightarrow> bool" where
  "match_suffix [] hs = (hs = [])"
| "match_suffix (p # ps) [] = False"
| "match_suffix (p # ps) (h # hs) =
     (if uppercase p = uppercase h then match_suffix ps hs
      else if p = CHR ''*'' then match_suffix ps (dropWhile (\<lambda>c. c \<noteq> CHR ''.'') (h # hs))
      else False)"

lemma skip_label_drop:
  assumes "NUL \<notin> set host" and "j \<le> length host"
  shows "\<exists>j'. skip_label host j = Inr j' \<and> j' \<le> length host \<and> drop j' host = dropWhile (\<lambda>c. c \<noteq> CHR ''.'') (drop j host)"
  using assms
proof (induction "length host - j" arbitrary: j)
  case 0
  then have "j = length host" by simp
  then show ?case by (subst skip_label.simps) (simp add: cstr_at_def)
next
  case (Suc n)
  then have j: "j < length host" by simp
  then have d: "drop j host = host ! j # drop (Suc j) host" by (simp add: Cons_nth_drop_Suc)
  have nz: "host ! j \<noteq> NUL" using Suc.prems(1) j by (metis nth_mem)
  show ?case
  proof (cases "host ! j = CHR ''.''")
    case True
    then show ?thesis using j d by (subst skip_label.simps) (auto simp: cstr_at_def)
  next
    case False
    obtain j' where "skip_label host (j + 1) = Inr j'" "j' \<le> length host"
       "drop j' host = dropWhile (\<lambda>c. c \<noteq> CHR ''.'') (drop (j + 1) host)"
      using Suc.hyps(1) [of "j + 1"] Suc.hyps(2) Suc.prems j by fastforce
    with False nz j d show ?thesis by (subst skip_label.simps) (auto simp: cstr_at_def)
  qed
qed

lemma match_loop_suffix:
  assumes "NUL \<notin> set host" and "i \<le> length pattern" and "j \<le> length host"
  shows "\<exists>i' j'. match_loop host pattern (int (length pattern)) i j = Inr (i', j') \<and> j' \<le> length host \<and>
     (i' = length pattern \<and> j' = length host \<longleftrightarrow> match_suffix (drop i pattern) (drop j host))"
  using assms(2,3)
proof (induction "length pattern - i" arbitrary: i j)
  case 0
  then have "i = length pattern" by simp
  then show ?case using 0(3) by (subst match_loop.simps) auto
next
  case (Suc n)
  then have i: "i < length pattern" "drop i pattern = pattern ! i # drop (Suc i) pattern" by (auto simp: Cons_nth_drop_Suc)
  show ?case
  proof (cases "j = length host")
    case True
    then show ?thesis using i by (subst match_loop.simps) (simp add: cstr_at_def)
  next
    case False
    then have j: "j < length host" "drop j host = host ! j # drop (Suc j) host" using Suc.prems by (auto simp: Cons_nth_drop_Suc)
    have nz: "host ! j \<noteq> NUL" using assms(1) j(1) by (metis nth_mem)
    obtain k where k: "skip_label host j = Inr k" "k \<le> length host" "drop k host = dropWhile (\<lambda>c. c \<noteq> CHR ''.'') (drop j host)"
      using skip_label_drop [OF assms(1), of j] j(1) by auto
    have unfold: "match_loop host pattern (int (length pattern)) i j =
        (if uppercase (pattern ! i) = uppercase (host ! j) then match_loop host pattern (int (length pattern)) (i + 1) (j + 1)
         else if pattern ! i = CHR ''*'' then match_loop host pattern (int (length pattern)) (i + 1) k else Inr (i, j))"
      by (subst match_loop.simps) (simp add: i(1) j(1) nz k(1) cstr_at_def buf_at_def)
    have n: "n = length pattern - (i + 1)" using Suc.hyps(2) by simp
    show ?thesis
      unfolding unfold i(2) j(2)
      using Suc.hyps(1) [OF n, of "j + 1"] Suc.hyps(1) [OF n, of k] i(1) j k(2,3) by auto
  qed
qed

lemma matchName_suffix:
  assumes "NUL \<notin> set host"
  shows "matchName host pattern (int (length pattern)) = Inr (match_suffix pattern host)"
proof -
  obtain i j where "match_loop host pattern (int (length pattern)) 0 0 = Inr (i, j)" "j \<le> length host"
     "i = length pattern \<and> j = length host \<longleftrightarrow> match_suffix pattern host"
    using match_loop_suffix [OF assms, of 0 pattern 0] by auto
  moreover have "(host ! j = NUL) = False" if "j < length host" using assms that by (metis nth_mem)
  ultimately show ?thesis by (auto simp: matchName_def cstr_at_def)
qed

section \<open>Labels\<close>

lemma uppercase_special [simp]: "uppercase c = CHR ''.'' \<longleftrightarrow> c = CHR ''.''" "uppercase c = CHR ''*'' \<longleftrightarrow> c = CHR ''*''"
  "uppercase (CHR ''.'') = CHR ''.''" "uppercase (CHR ''*'') = CHR ''*''"
proof -
  have r: "uppercase c \<noteq> d" if "CHR ''a'' \<le> c \<and> c \<le> CHR ''z''" "of_char d < (65 :: nat)" for c d
  proof -
    have "(97 :: nat) \<le> of_char c" using that(1) by (simp add: less_eq_char_def)
    then have "of_char (uppercase c) = (of_char c :: nat) - 32" 
      using that(1) nat_of_char_less_256 [of c] by (simp add: uppercase_def of_char_of mod_less less_imp_diff_less)
    then show ?thesis using that(2) \<open>97 \<le> of_char c\<close> by auto
  qed
  show "uppercase c = CHR ''.'' \<longleftrightarrow> c = CHR ''.''" "uppercase c = CHR ''*'' \<longleftrightarrow> c = CHR ''*''"
    using r [of c "CHR ''.''"] r [of c "CHR ''*''"] by (auto simp: uppercase_def less_eq_char_def)
  show "uppercase (CHR ''.'') = CHR ''.''" "uppercase (CHR ''*'') = CHR ''*''"
    by (simp_all add: uppercase_def less_eq_char_def)
qed

lemma uppercase_special_sym [simp]: "CHR ''.'' = uppercase c \<longleftrightarrow> c = CHR ''.''" "CHR ''*'' = uppercase c \<longleftrightarrow> c = CHR ''*''"
  by (metis uppercase_special(1,2))+

fun join_labels :: "string list \<Rightarrow> string" where
  "join_labels [] = []"
| "join_labels [l] = l"
| "join_labels (l # ls) = l @ CHR ''.'' # join_labels ls"

definition label_matches :: "string \<Rightarrow> string \<Rightarrow> bool" where
  "label_matches p h \<longleftrightarrow> p = ''*'' \<or> map uppercase p = map uppercase h"

text \<open>What can follow a label: nothing, or a dot and the rest.\<close>

definition after_label :: "string \<Rightarrow> bool" where
  "after_label s \<longleftrightarrow> s = [] \<or> hd s = CHR ''.''"

lemma match_plain_label:
  assumes "CHR ''.'' \<notin> set p" and "CHR ''*'' \<notin> set p" and "CHR ''.'' \<notin> set h" and "after_label ps" and "after_label hs"
  shows "match_suffix (p @ ps) (h @ hs) \<longleftrightarrow> map uppercase p = map uppercase h \<and> match_suffix ps hs"
  using assms
proof (induction p arbitrary: h)
  case Nil
  show ?case
  proof (cases h)
    case (Cons c h')
    then have "uppercase c \<noteq> CHR ''.''" using Nil.prems(3) by auto
    then show ?thesis using Cons Nil.prems(4) by (cases ps) (auto simp: after_label_def)
  qed simp
next
  case (Cons a p)
  have a: "a \<noteq> CHR ''*''" "uppercase a \<noteq> CHR ''.''" using Cons.prems(1,2) by auto
  show ?case
  proof (cases h)
    case Nil
    then show ?thesis using a Cons.prems(5) by (cases hs) (auto simp: after_label_def)
  next
    case (Cons c h')
    then show ?thesis using Cons.IH [of h'] Cons.prems a by auto
  qed
qed

lemma match_star_label:
  assumes "CHR ''.'' \<notin> set h" and "CHR ''*'' \<notin> set h" and "after_label hs" and "h @ hs \<noteq> []"
  shows "match_suffix (''*'' @ ps) (h @ hs) \<longleftrightarrow> match_suffix ps hs"
proof -
  obtain c cs where c: "h @ hs = c # cs" using assms(4) by (cases "h @ hs") auto
  have "CHR ''*'' \<noteq> uppercase c"
    using c assms(2,3) by (cases h) (auto simp: after_label_def)
  moreover have "dropWhile (\<lambda>c. c \<noteq> CHR ''.'') (h @ hs) = hs"
    using assms(1,3) by (cases hs) (auto simp: after_label_def dropWhile_append2 dropWhile_eq_Nil_conv dropWhile_append)
  ultimately show ?thesis using c by simp
qed

lemma join_Cons: "ls \<noteq> [] \<Longrightarrow> join_labels (l # ls) = l @ CHR ''.'' # join_labels ls"
  by (cases ls) simp_all

definition host_label :: "string \<Rightarrow> bool" where
  "host_label h \<longleftrightarrow> CHR ''.'' \<notin> set h \<and> CHR ''*'' \<notin> set h \<and> NUL \<notin> set h"

definition pattern_label :: "string \<Rightarrow> bool" where
  "pattern_label p \<longleftrightarrow> CHR ''.'' \<notin> set p \<and> (p = ''*'' \<or> CHR ''*'' \<notin> set p)"

lemma match_label:
  assumes "pattern_label p" and "host_label h" and "after_label ps" and "after_label hs" and "h @ hs \<noteq> []"
  shows "match_suffix (p @ ps) (h @ hs) \<longleftrightarrow> label_matches p h \<and> match_suffix ps hs"
proof (cases "p = ''*''")
  case True
  then show ?thesis using match_star_label [of h hs ps] assms by (simp add: host_label_def label_matches_def)
next
  case False
  then show ?thesis using match_plain_label [of p h ps hs] assms by (simp add: pattern_label_def host_label_def label_matches_def)
qed

lemma match_labels:
  assumes "ps \<noteq> []" and "hs \<noteq> []" and "\<forall>p \<in> set ps. pattern_label p" and "\<forall>h \<in> set hs. host_label h" and "last hs \<noteq> []"
  shows "match_suffix (join_labels ps) (join_labels hs) \<longleftrightarrow> list_all2 label_matches ps hs"
  using assms
proof (induction ps arbitrary: hs)
  case (Cons p ps)
  obtain h hs' where hs: "hs = h # hs'" using Cons.prems(2) by (cases hs) auto
  have lab: "pattern_label p" "host_label h" using Cons.prems(3,4) hs by auto
  define pt where "pt = (if ps = [] then [] else CHR ''.'' # join_labels ps)"
  define ht where "ht = (if hs' = [] then [] else CHR ''.'' # join_labels hs')"
  have j: "join_labels (p # ps) = p @ pt" "join_labels hs = h @ ht" by (simp_all add: pt_def ht_def hs join_Cons)
  have "h @ ht \<noteq> []" using Cons.prems(5) hs by (auto simp: ht_def)
  then have 1: "match_suffix (p @ pt) (h @ ht) \<longleftrightarrow> label_matches p h \<and> match_suffix pt ht"
    by (intro match_label) (use lab in \<open>auto simp: after_label_def pt_def ht_def\<close>)
  have "match_suffix pt ht \<longleftrightarrow> list_all2 label_matches ps hs'"
  proof (cases "ps = [] \<or> hs' = []")
    case True
    then show ?thesis by (auto simp: pt_def ht_def)
  next
    case False
    with Cons.IH [of hs'] Cons.prems hs show ?thesis by (auto simp: pt_def ht_def)
  qed
  with 1 j hs show ?case by simp
qed simp

text \<open>A wildcard never swallows a dot.\<close>

lemma match_dots: "match_suffix ps hs \<Longrightarrow> count_list ps (CHR ''.'') = count_list hs (CHR ''.'')"
proof (induction ps hs rule: match_suffix.induct)
  case (3 p ps h hs)
  have drop: "count_list (dropWhile (\<lambda>c. c \<noteq> CHR ''.'') xs) (CHR ''.'') = count_list xs (CHR ''.'')" for xs
    by (induction xs) auto
  show ?case
  proof (cases "uppercase p = uppercase h")
    case True
    then have "p = CHR ''.'' \<longleftrightarrow> h = CHR ''.''" by (metis uppercase_special(1))
    with 3 True show ?thesis by auto
  next
    case False
    with 3 drop [of "h # hs"] show ?thesis by (auto split: if_splits)
  qed
qed simp_all

section \<open>Properties\<close>

text \<open>C15: host names. For a host name of nonempty last label and a certificate name whose wildcards stand for
  whole labels, \<^verbatim>\<open>matchName\<close> compares label by label: it answers yes exactly when both have the same
  number of labels and each label of the certificate is \<^verbatim>\<open>*\<close> or equals the label of the host up to case.
  It reads neither string beyond its end.\<close>

theorem matchName_by_labels:
  assumes "ps \<noteq> []" and "hs \<noteq> []" and "\<forall>p \<in> set ps. pattern_label p" and "\<forall>h \<in> set hs. host_label h" and "last hs \<noteq> []"
  shows "matchName (join_labels hs) (join_labels ps) (int (length (join_labels ps))) = Inr (list_all2 label_matches ps hs)"
proof -
  have "NUL \<notin> set (join_labels hs)"
    using assms(4) by (induction hs rule: join_labels.induct) (auto simp: host_label_def NUL_def)
  from matchName_suffix [OF this] match_labels [OF assms] show ?thesis by simp
qed

lemma matchName_by_labels_witness:
  "matchName ''www.Example.org'' ''*.example.ORG'' 13 = Inr True"
  using matchName_by_labels [of "[''*'', ''example'', ''ORG'']" "[''www'', ''Example'', ''org'']"]
  by (simp add: pattern_label_def host_label_def NUL_def label_matches_def uppercase_def less_eq_char_def char_of_def bit_0)

text \<open>A wildcard never crosses a dot. Whatever the certificate name is, wildcards anywhere in it, a
  match means that host and certificate name have the same number of dots; and every comparison with
  a terminated host name comes to an answer without reading out of bounds.\<close>

theorem wildcard_stays_in_label:
  assumes "NUL \<notin> set host"
  shows "\<exists>m. matchName host pattern (int (length pattern)) = Inr m \<and>
     (m \<longrightarrow> count_list pattern (CHR ''.'') = count_list host (CHR ''.''))"
  using matchName_suffix [OF assms] match_dots by simp

lemma wildcard_stays_in_label_witness:
  "\<exists>m. matchName ''a.b.com'' ''*.com'' 5 = Inr m \<and> \<not> m"
  using wildcard_stays_in_label [of "''a.b.com''" "''*.com''"] by (auto simp: NUL_def)

text \<open>The default access manager of a client never denies anything; it allows a certificate name exactly
  when the name matches a nonempty host, and an address exactly when it has the length of the peer's family
  and equals the peer's address.\<close>

theorem default_manager_decisions:
  assumes "NUL \<notin> set host"
  shows "verify_name host (Some pattern) (int (length pattern)) =
       Inr (if host \<noteq> [] \<and> pattern \<noteq> [] \<and> match_suffix pattern host then ALLOW else SKIP) \<and>
     (length a = 4 \<and> int (length data) = n \<longrightarrow> verify_ip (AF_INET a) data n = Inr (if data = a then ALLOW else SKIP)) \<and>
     (length b = 16 \<and> int (length data) = n \<longrightarrow> verify_ip (AF_INET6 b) data n = Inr (if data = b then ALLOW else SKIP)) \<and>
     verify_ip AF_OTHER data n = Inr SKIP \<and> verify_addr sa = SKIP"
  using matchName_suffix [OF assms, of pattern]
  by (auto simp: verify_name_def verify_ip_def verify_addr_def mem_equal_def)

lemma default_manager_decisions_witness:
  "verify_name ''foo.org'' (Some ''FOO.org'') 7 = Inr ALLOW \<and> verify_ip (AF_INET [1, 2, 3, 4]) [1, 2, 3, 5] 4 = Inr SKIP"
  using default_manager_decisions [of "''foo.org''" "''FOO.org''" "[1, 2, 3, 4]" "[1, 2, 3, 5]" 4 "[]" AF_OTHER]
  by (simp add: NUL_def uppercase_def less_eq_char_def char_of_def bit_0)

end
