(* ===== verification/Platform_Stubs.thy ===== *)
theory Platform_Stubs
  imports Thrift_Prelude
begin

text \<open>
  The stubs with which the library is fitted to the platform: \<^verbatim>\<open>Mutex.cpp\<close>, whose mutexes have no state,
  and \<^verbatim>\<open>_stat.c\<close>. The state of a computation here is the rest of the program.
\<close>

section \<open>\<open>Mutex\<close>\<close>

definition Mutex_lock :: "('s, unit) io" where
  "Mutex_lock = ret ()"

definition Mutex_trylock :: "('s, bool) io" where
  "Mutex_trylock = ret False"

definition Mutex_timedlock :: "int \<Rightarrow> ('s, bool) io" where
  "Mutex_timedlock milliseconds = ret False"

definition Mutex_unlock :: "('s, unit) io" where
  "Mutex_unlock = ret ()"

definition Mutex_getUnderlyingImpl :: "('s, nat option) io" where
  "Mutex_getUnderlyingImpl = ret None"

section \<open>\<open>stat\<close>\<close>

text \<open>The state is \<^verbatim>\<open>errno\<close>; the number of the error belongs to the platform.\<close>

definition stat :: "int \<Rightarrow> string \<Rightarrow> (int, int) io" where
  "stat ENOTSUP path = bindE (modify (\<lambda>_. ENOTSUP)) (\<lambda>_. ret (-1))"

section \<open>Threads that share a mutex\<close>

text \<open>
  A thread is before its \<^verbatim>\<open>lock\<close> or inside the section it protects; a thread moves when its call returns.
\<close>

inductive thread_step :: "bool list \<Rightarrow> bool list \<Rightarrow> bool" where
  enter: "i < length inside \<Longrightarrow> \<not> inside ! i \<Longrightarrow> Mutex_lock inside = (Inr (), m) \<Longrightarrow> thread_step inside (m[i := True])"
| leave: "i < length inside \<Longrightarrow> inside ! i \<Longrightarrow> Mutex_unlock inside = (Inr (), m) \<Longrightarrow> thread_step inside (m[i := False])"

lemma enter_next: "thread_step\<^sup>*\<^sup>* (replicate n False) (replicate k True @ replicate (n - k) False)" if "k \<le> n"
  using that
proof (induction k)
  case (Suc k)
  let ?c = "replicate k True @ replicate (n - k) False"
  have "n - k = Suc (n - Suc k)" using Suc.prems by simp
  then have "?c[k := True] = replicate (Suc k) True @ replicate (n - Suc k) False"
    by (simp add: list_update_append replicate_append_same)
  moreover have "thread_step ?c (?c[k := True])"
    by (rule enter) (use Suc.prems in \<open>simp_all add: nth_append Mutex_lock_def\<close>)
  ultimately have "thread_step ?c (replicate (Suc k) True @ replicate (n - Suc k) False)" by simp
  then show ?case using Suc.IH Suc.prems by (meson Suc_leD rtranclp.rtrancl_into_rtrancl)
qed simp

text \<open>A \<^verbatim>\<open>Mutex\<close> excludes nobody: any number of threads can be inside the section it protects at the same
  time, while \<^verbatim>\<open>trylock\<close> and \<^verbatim>\<open>timedlock\<close> report failure even when no thread is.\<close>

theorem mutex_excludes_nobody:
  "thread_step\<^sup>*\<^sup>* (replicate n False) (replicate n True) \<and>
   Mutex_trylock (replicate n False) = (Inr False, replicate n False) \<and>
   Mutex_timedlock t (replicate n False) = (Inr False, replicate n False)"
  using enter_next [of n n] by (simp add: Mutex_trylock_def Mutex_timedlock_def)

end
