(* ===== verification/Spec2Isabelle.thy ===== *)
theory Spec2Isabelle
  imports Streaming_Properties Any_Input_Properties Server_Accounting Hello_Sample Host_Match Platform_Stubs
begin

text \<open>
  Verification of the Thrift module for Zephyr (\<^verbatim>\<open>lib/thrift\<close>): the compression library muzic and the C++
  classes that fit Apache Thrift to the platform.

  \<^bold>\<open>The program.\<close> Muzic is a small zlib replacement. An application fills a \<^verbatim>\<open>z_stream\<close> and calls \<^verbatim>\<open>deflate\<close>, which
  hashes the input (\<^verbatim>\<open>genlz77.c\<close>), writes literals and matches with the fixed Huffman code (\<^verbatim>\<open>defl_static.c\<close>)
  and wraps the result with header, flush marker or checksum (\<^verbatim>\<open>zlib_comp.c\<close>); or \<^verbatim>\<open>inflate\<close>, a state machine that
  suspends whenever input or output space runs out (\<^verbatim>\<open>inflater.c\<close>). A Thrift server runs \<^verbatim>\<open>TServerFramework::serve\<close>
  over a server transport: \<^verbatim>\<open>TFDServer\<close>, one file descriptor shared by all its clients, or \<^verbatim>\<open>TSSLServerSocket\<close>.
  TLS clients come from a \<^verbatim>\<open>TSSLSocketFactory\<close>. The sample programs put these parts together.

  \<^bold>\<open>Vocabulary.\<close>
  \<^item> \<open>Muzic_Prelude\<close>: faults of C as values (out of bounds, use after free, uninitialised, failed assertion,
    overlapping copy), bits of words and bytes, regions of memory. The C code is read for 32-bit \<^verbatim>\<open>unsigned\<close>
    and pointers; the asserts of \<^verbatim>\<open>inflater.c\<close> are on.
  \<^item> \<open>Thrift_Prelude\<close>: exceptions, computations that pass a state and may throw, the rules for computations
    that only change what they may (\<open>tame\<close>), decimal numbers, C strings.

  \<^bold>\<open>Compression.\<close>
  \<^item> \<open>Adler32\<close>: \<^verbatim>\<open>muzic_adler32\<close> with its deferred reductions equals the checksum of RFC 1950 for every buffer, since no
    32-bit sum overflows, and can be computed piecewise.
  \<^item> \<open>Deflate_Format\<close>: the specification: tokens and their expansion, the fixed code, the extra-bit tables,
    blocks and streams of blocks as bit lists. \<open>Canonical_Code\<close>: canonical Huffman codes as intervals.
    \<open>Dynamic_Code\<close>: codes given by their lengths and the header of a dynamic block.
    \<open>History_Window\<close>: the interface of a window on the output.
  \<^item> \<open>Bit_Sink\<close>, \<open>Defl_Static\<close>: the interface of a bit writer and the functions of \<^verbatim>\<open>defl_static.c\<close> on the growing heap
    buffer; each emits the bits of its token, and the binary searches find the right table row.
  \<^item> \<open>Genlz77\<close>: \<^verbatim>\<open>uzlib_compress\<close>; its tokens expand to the input.
  \<^item> \<open>Zlib_Stream\<close>, \<open>Zlib_Comp\<close>: \<^verbatim>\<open>z_stream\<close>, \<^verbatim>\<open>deflateInit\<close>, \<^verbatim>\<open>deflate\<close>, \<^verbatim>\<open>deflateEnd\<close>: complete streams, flushed chunks,
    delivery over several calls, and what happens when the output does not fit.

  \<^bold>\<open>Decompression.\<close>
  \<^item> \<open>Bit_Source\<close>, \<open>Inf_Bitstream\<close>: the interfaces of a bit reader and \<^verbatim>\<open>Inf_BS\<close> with its readers.
  \<^item> \<open>Inf_Huff\<close>, \<open>Inf_Huff_Build\<close>, \<open>Inf_Huff_Read\<close>: the two-level tables, their construction from any canonical code,
    and reading symbols with them. \<open>Inf_SLList\<close>, \<open>Inf_SLList_Sort\<close>: the symbol lists and their bucket sort.
    \<open>Inf_Fixed\<close>: the fixed code as an instance, with its cached decoders.
  \<^item> \<open>Inf_Outbuf\<close>: the ring buffer of 32 KiB as the recent history, and the three cases in which the C code leaves
    the buffer, copies overlapping memory or refuses a legal reference.
  \<^item> \<open>Inflater\<close>: \<^verbatim>\<open>inflateInit\<close>, \<^verbatim>\<open>inflate\<close> with one definition per case of the switch, \<^verbatim>\<open>inflateEnd\<close>.
    \<open>Inf_Wait\<close>: reads that get what they ask for or wait with no bit lost. \<open>Inf_Decode\<close>: what the steps do on
    headers, stored blocks and tokens in any code. \<open>Inf_Symlens\<close>, \<open>Inf_Dynamic\<close>: reading the header of a dynamic block,
    interruptible after every bit. \<open>Inf_Blocks\<close>: whole blocks of all three types. \<open>Inf_Session\<close>: whole calls and
    the state between calls. \<open>Inflate_Properties\<close>: the properties of the inflater on its own, on the streams of
    \<open>Sample_Streams\<close>.
  \<^item> \<open>Inf_Resume\<close>: the bits a suspended inflater still expects, for every step it can be suspended in. \<open>Inf_Resume_Steps\<close>,
    \<open>Inf_Resume_Blocks\<close>, \<open>Inf_Resume_Loop\<close>: every step goes on from there, and the loop ends with the stream finished, the input
    used up or the output full. \<open>Inf_Streaming\<close>, \<open>Streaming_Properties\<close>: drivers that feed a stream in pieces or take the text in
    pieces, for any sizes, and the one situation in which this goes wrong.
  \<^item> \<open>Inf_Typed\<close>, \<open>Inf_Any_Input\<close>, \<open>Any_Input_Properties\<close>: the inflater on input that nobody has checked. What a decoding table made from any code
    lengths can hold, a well-formedness invariant of the state that every step keeps, and a measure that every step reduces: every call ends
    and stays within its output. \<open>Inf_Malformed\<close>: streams that become malformed after any number of blocks and tokens, and the error
    reported for each.
  \<^item> \<open>Round_Trip\<close> and this theory: \<^verbatim>\<open>inflate\<close> undoes \<^verbatim>\<open>deflate\<close>, for one stream and for a conversation.

  \<^bold>\<open>Server and transports.\<close>
  \<^item> \<open>TFD_Server\<close>: \<^verbatim>\<open>xport\<close> and \<^verbatim>\<open>TFDServer\<close>; a step relation for the server object and its users, with the invariant that
    every open transport can be reached by \<^verbatim>\<open>interruptChildren\<close>.
  \<^item> \<open>Server_Framework\<close>: \<^verbatim>\<open>TServer\<close> with its default event handler, and \<^verbatim>\<open>TServerFramework\<close>; the counters, the serve loop
    and its error handling, stopping.
    Its locale of a server transport is interpreted by \<open>TFD_Server\<close>. \<open>Server_Accounting\<close>: runs of \<^verbatim>\<open>serve\<close> interleaved with other
    threads, and the invariant of the counters over all of them.
  \<^item> \<open>Host_Match\<close>: the matching of certificate names and the access managers.
  \<^item> \<open>TLS_Socket\<close>: \<^verbatim>\<open>TSSLSocket\<close> and \<^verbatim>\<open>TSSLSocketFactory\<close>: opening without leaks, credentials, the password callback.
  \<^item> \<open>TLS_Server_Socket\<close>: \<^verbatim>\<open>TSSLServerSocket\<close>: listening with retries, closing, children, the shared context.
  \<^item> \<open>Binary_Protocol\<close>: the settings of \<^verbatim>\<open>TBinaryProtocolT\<close> and its factory, through one interface, and the check of container
    sizes in 32 bits.
  \<^item> \<open>Hello_Sample\<close>: \<^verbatim>\<open>hello_client\<close> and \<^verbatim>\<open>hello_server\<close> in all their configurations, on the TLS sockets, the binary protocol and
    the server framework of the other theories, and the handler of the service.
  \<^item> \<open>Platform_Stubs\<close>: \<^verbatim>\<open>Mutex.cpp\<close> and \<^verbatim>\<open>_stat.c\<close>.

  \<^bold>\<open>Parameters.\<close> The kernel (sockets, poll, eventfd, credentials, sleep), the classes of the Thrift submodule
  (\<^verbatim>\<open>TSocket\<close>, \<^verbatim>\<open>TServerSocket\<close>, \<^verbatim>\<open>TSimpleServer\<close>, transports, protocols, processors), generated code and other threads are arguments. What a property needs of
  them is a hypothesis, and its witness runs on a concrete kernel.

  \<^bold>\<open>Loops and bounds.\<close> Loops that end are total functions. \<^verbatim>\<open>inf_loop\<close>, \<^verbatim>\<open>xport_write_loop\<close>, \<^verbatim>\<open>wait_for_slot\<close> and
  \<^verbatim>\<open>serve_loop\<close> are partial; there \<open>None\<close> is a run without end, and the properties state that a result exists. \<^verbatim>\<open>inf_loop\<close> has one
  for every input in every well-formed state. The
  traversal of a symbol list has fuel 291, the number of elements of the array; the retry loop of \<^verbatim>\<open>listen\<close> recurses on the
  number of retries left. The round trips and the properties of streaming hold for texts of at most one window, 32768 bytes: beyond that the
  copy of the ring buffer can go wrong, as proved.

  \<^bold>\<open>Not modelled.\<close> Logging. Messages of exceptions are modelled. The configuration headers \<^verbatim>\<open>config.h\<close> and \<^verbatim>\<open>mz_config.h\<close> select
  the code that is modelled. \<^verbatim>\<open>TConnectedClient.h\<close> and \<^verbatim>\<open>TSimpleServer.h\<close> only declare classes whose methods are in the
  submodule, and so do \<^verbatim>\<open>TBinaryProtocol.h\<close> for the methods that read and write and \<^verbatim>\<open>uzlib.h\<close> for a decompressor that is not
  part of the repository. Tests.
\<close>

section \<open>Round trips\<close>

text \<open>C1: whatever \<^verbatim>\<open>deflate\<close> makes of an input with \<^verbatim>\<open>Z_FINISH\<close>, a freshly initialised \<^verbatim>\<open>inflate\<close> turns
  back into that input: given the whole compressed stream and an output buffer with enough room, one
  call returns \<^verbatim>\<open>Z_STREAM_END\<close>, has consumed the stream to its last byte, has written exactly the
  original bytes, and its counters say so. The input is at most one window long (32768 bytes).\<close>

theorem deflate_inflate_roundtrip:
  assumes "state tx = Some u" "outbuf u = PNull" "dict_size u \<le> 32768"
    and "mem_read (next_in tx) (unat (avail_in tx)) (in_mem tx) = Inr src"
    and "2 * length src + 10 \<le> unat (avail_out tx)" and "next_out tx + unat (avail_out tx) \<le> length (out_mem tx)"
    and "deflate tx Z_FINISH = Inr (ret0, tx')"
    and "inflateInit (Some mem) True (Some rx) = (ret2, Some rx')"
    and "rx'' = rx'\<lparr>in_mem := out_mem tx', next_in := next_out tx, avail_in := total_out tx',
                      out_mem := buf, next_out := p, avail_out := n\<rparr>"
    and "length src \<le> 32768" and "length src \<le> unat n" and "0 < n" and "p + unat n \<le> length buf"
  shows "\<exists>stat' rx3. inflate statics0 rx'' flush = Some (Inr (Z_STREAM_END, stat', rx3)) \<and>
     mem_write p src buf = Inr (out_mem rx3) \<and> next_out rx3 = p + length src \<and>
     avail_in rx3 = 0 \<and> total_in rx3 = total_out tx' \<and> unat (total_out rx3) = length src"
proof -
  obtain Z where Z: "deflate_output True Z_FINISH src (muzic_adler32 src (length src) (adler tx)) Z"
     "mem_write (next_out tx) Z (out_mem tx) = Inr (out_mem tx')" "unat (total_out tx') = length Z"
    using deflate_finish_ok [OF assms(1-6)] assms(7) by auto
  obtain body rest where b: "Z = zlib_header @ body" "body \<noteq> []" "blocks [] True (bytes_bits body) rest src"
     "32 \<le> length rest" "length rest div 8 = 4"
    using finish_blocks [OF Z(1), of "[]"] by auto
  obtain s where s: "rx' = rx\<lparr>msg := None, total_in := 0, total_out := 0, state := Some s\<rparr>" "inf_ready [] [] s"
      "action s = InfAction_Init"
    using inflateInit_ready(2) [OF assms(8)] by auto
  have inp: "mem_read (next_in rx'') (unat (avail_in rx'')) (in_mem rx'') = Inr Z"
    using mem_write_read [OF Z(2)] Z(3) assms(9) by simp
  have "inf_input s Z body" using b(1,2) s(3) by (simp add: inf_input_def zlib_header_def)
  then obtain stat' rx3 where r: "inflate statics0 rx'' flush = Some (Inr (Z_STREAM_END, stat', rx3))"
      "inflated rx'' rx3 2 (length body) src"
    using inflate_blocks [of rx'' s "[]" "[]" statics0 Z body True rest src flush] s inp b assms(9-13) statics0_ok
    by (auto simp: Inf_Outbuf_size_def header_len_def)
  have "length Z = 2 + length body" by (simp add: b(1) zlib_header_def)
  then have "total_out tx' = 2 + of_nat (length body)"
    using arg_cong [OF Z(3), of "of_nat :: nat \<Rightarrow> u32"] by simp
  then show ?thesis
    using r \<open>length Z = 2 + length body\<close> Z(3) s(1) assms(9,10)
    by (auto simp: inflated_def unat_eq_zero unat_small)
qed

lemma deflate_inflate_roundtrip_witness:
  "\<exists>tx' ret2 rx' stat' rx3. deflate (sample_stream [97, 98, 97, 98, 97, 98] (replicate 22 0) 6 22) Z_FINISH = Inr (Z_STREAM_END, tx') \<and>
     inflateInit (Some junk) True (Some blank) = (ret2, Some rx') \<and>
     inflate statics0 (rx'\<lparr>in_mem := out_mem tx', next_in := 0, avail_in := total_out tx',
       out_mem := replicate 8 0, next_out := 1, avail_out := 7\<rparr>) Z_FINISH = Some (Inr (Z_STREAM_END, stat', rx3)) \<and>
     out_mem rx3 = [0, 97, 98, 97, 98, 97, 98, 0] \<and> unat (total_out rx3) = 6"
proof -
  let ?src = "[97, 98, 97, 98, 97, 98] :: u8 list"
  let ?tx = "sample_stream ?src (replicate 22 0) 6 22"
  have src: "mem_read (next_in ?tx) (unat (avail_in ?tx)) (in_mem ?tx) = Inr ?src" by (simp add: mem_read_def)
  obtain tx' where tx': "deflate ?tx Z_FINISH = Inr (Z_STREAM_END, tx')"
    using deflate_finish_ok [of ?tx sample_comp ?src] src by auto
  obtain rx' where rx': "inflateInit (Some junk) True (Some blank) = (Z_OK, Some rx')"
    using inflateInit_ready [of junk blank] by (cases "inflateInit (Some junk) True (Some blank)") auto
  have "\<exists>stat' rx3. inflate statics0 (rx'\<lparr>in_mem := out_mem tx', next_in := next_out ?tx, avail_in := total_out tx',
       out_mem := replicate 8 0, next_out := 1, avail_out := 7\<rparr>) Z_FINISH = Some (Inr (Z_STREAM_END, stat', rx3)) \<and>
     mem_write 1 ?src (replicate 8 0) = Inr (out_mem rx3) \<and> next_out rx3 = 1 + length ?src \<and>
     avail_in rx3 = 0 \<and> total_in rx3 = total_out tx' \<and> unat (total_out rx3) = length ?src"
    by (rule deflate_inflate_roundtrip [where u = sample_comp, OF _ _ _ src _ _ tx' rx' refl]) simp_all
  then show ?thesis using tx' rx' by (fastforce simp: mem_write_def numeral_eq_Suc)
qed

text \<open>C2: a conversation. A sender initialised by \<^verbatim>\<open>deflateInit\<close> compresses one message after the other
  with \<^verbatim>\<open>Z_FULL_FLUSH\<close>; a receiver initialised by \<^verbatim>\<open>inflateInit\<close> is given each compressed chunk in a call
  of its own. Both keep their state between the calls. As long as no message is empty and all messages together fit the
  window (32768 bytes), every call succeeds and the receiver gets exactly the messages, one per call.\<close>

theorem messages_roundtrip:
  assumes "deflateInit True True block0 (Some tx) level = (ret1, Some tx')"
    and "inflateInit (Some mem) True (Some rx) = (ret2, Some rx')"
    and "\<forall>m \<in> set ms. m \<noteq> []" and "length (concat ms) \<le> 32768"
  shows "\<exists>cs. send tx' ms = Inr cs \<and> receive statics0 rx' 32768 cs = Some (Inr ms)"
proof (rule conversation [where h = "[]" and first = True])
  show "idle_sender True tx'" using assms(1) by (auto simp: deflateInit_def idle_sender_def Let_def)
  show "idle_receiver True [] statics0 rx'"
    using inflateInit_ready(2) [OF assms(2)] statics0_ok by (auto simp: idle_receiver_def)
qed (use assms in simp_all)

lemma messages_roundtrip_witness:
  "\<exists>tx' rx' cs. deflateInit True True sample_comp (Some blank) 6 = (Z_OK, Some tx') \<and>
     inflateInit (Some junk) True (Some blank) = (Z_OK, Some rx') \<and>
     send tx' [[1, 2, 3], [1, 2, 3, 1, 2, 3], [9]] = Inr cs \<and>
     receive statics0 rx' 32768 cs = Some (Inr [[1, 2, 3], [1, 2, 3, 1, 2, 3], [9]])"
proof -
  obtain tx' where tx': "deflateInit True True sample_comp (Some blank) 6 = (Z_OK, Some tx')"
    by (simp add: deflateInit_def Let_def)
  obtain rx' where rx': "inflateInit (Some junk) True (Some blank) = (Z_OK, Some rx')"
    using inflateInit_ready [of junk blank] by (cases "inflateInit (Some junk) True (Some blank)") auto
  show ?thesis using messages_roundtrip [OF tx' rx', of "[[1, 2, 3], [1, 2, 3, 1, 2, 3], [9]]"] tx' rx' by auto
qed

end
